(* ===== verification/Prelude.thy ===== *)
theory Prelude
  imports Main "HOL-Library.Word"
begin

text \<open>
  Shared vocabulary of the development: the machine types of the i386 build, the
  errors a kernel routine can end in, the error monad every fallible operation is
  written in, and generic facts on it and on lists that the components use.

  The kernel is compiled for a 32-bit flat address space, so a pointer, a
  \<^verbatim>\<open>uintptr_t\<close>, a \<^verbatim>\<open>size_t\<close> and a \<^verbatim>\<open>page_t\<close> are 32-bit words. The null pointer
  is \<open>0\<close>. A C \<^verbatim>\<open>int\<close> that the code only uses as a small counter or as the sign of
  a comparison is an \<^typ>\<open>int\<close>; where its width matters it is a word.
\<close>

type_synonym u8 = "8 word"
type_synonym u16 = "16 word"
type_synonym u32 = "32 word"
type_synonym u64 = "64 word"
type_synonym addr = "32 word"
type_synonym map_key = "32 word"
type_synonym map_data = "32 word"

text \<open>The exception types declared by the modelled sources (\<^verbatim>\<open>exception_def\<close>).\<close>

datatype exn =
    Throwable | Exception | Error | RuntimeException
  | OutOfBoundsException | ArrayMapFullException
  | OutOfMemoryException | AllocationTooBigException
  | CheckException | NullPointerException | IntBoundsException
  | PtrBoundsException | IntValueException | InvalidPointerException
  | FileException | ReadOnlyFileException | UnauthorizedFileException | IOException
  | DeviceException | DeviceTimeoutException | TestException

text \<open>
  How a routine can end without a result. \<open>Panic\<close> is \<^verbatim>\<open>kernel_panic\<close>, which a failed
  \<^verbatim>\<open>assert\<close> calls too; \<open>NullDeref\<close> is a dereference of the null pointer;
  \<open>BadAccess\<close> an access outside the object a pointer was derived from;
  \<open>Throw\<close> an exception; \<open>OutOfFuel\<close> a loop that was still running when the fuel
  given to the model was used up, so a result \<open>Inr\<close> always comes from a loop that
  ended by itself.
\<close>

datatype kerror = Panic | NullDeref | BadAccess | Throw exn | OutOfFuel

type_synonym 'a res = "kerror + 'a"

definition bindE :: "'a res \<Rightarrow> ('a \<Rightarrow> 'b res) \<Rightarrow> 'b res" where
  "bindE m f = (case m of Inl e \<Rightarrow> Inl e | Inr x \<Rightarrow> f x)"

definition assertE :: "bool \<Rightarrow> unit res" where
  "assertE b = (if b then Inr () else Inl Panic)"

lemma bindE_simps [simp]:
  "bindE (Inl e) f = Inl e"
  "bindE (Inr x) f = f x"
  by (simp_all add: bindE_def)

lemma assertE_simps [simp]:
  "assertE True = Inr ()"
  "assertE False = Inl Panic"
  by (simp_all add: assertE_def)

lemma assertE_Inr [simp]: "assertE b = Inr u \<longleftrightarrow> b"
  by (simp add: assertE_def)

lemma bindE_Inr_iff: "bindE m f = Inr y \<longleftrightarrow> (\<exists>x. m = Inr x \<and> f x = Inr y)"
  by (cases m) simp_all

lemma bindE_assoc: "bindE (bindE m f) g = bindE m (\<lambda>x. bindE (f x) g)"
  by (cases m) simp_all

subsection \<open>Lists\<close>

lemma hd_notin_tl: "distinct xs \<Longrightarrow> xs \<noteq> [] \<Longrightarrow> hd xs \<notin> set (tl xs)"
  by (cases xs) auto

lemma last_notin_butlast: "distinct xs \<Longrightarrow> xs \<noteq> [] \<Longrightarrow> last xs \<notin> set (butlast xs)"
  by (metis append_butlast_last_id distinct_append disjoint_iff list.set_intros(1))

subsection \<open>Addresses\<close>

lemma unat_of_nat_addr: "i < 4294967296 \<Longrightarrow> unat (of_nat i :: addr) = i"
  by (simp add: unat_of_nat)

lemma addr_offset_inj:
  assumes "(p :: addr) + of_nat i = p + of_nat j" "i < 4294967296" "j < 4294967296"
  shows "i = j"
proof -
  have "(of_nat i :: addr) = of_nat j" using assms(1) by (rule add_left_imp_eq)
  then show ?thesis using unat_of_nat_addr [OF assms(2)] unat_of_nat_addr [OF assms(3)] by metis
qed

lemma sint_u32: "sint (w :: u32) = (if unat w < 2 ^ 31 then int (unat w) else int (unat w) - 2 ^ 32)"
proof -
  have b: "uint w < 4294967296" using unsigned_less [of w, where ?'a = int] by simp
  have "(uint w + 2147483648) mod 4294967296 = uint w - 2147483648" if "2147483648 \<le> uint w"
    using b that mod_pos_pos_trivial [of "uint w - 2147483648" 4294967296] mod_add_self2 [of "uint w - 2147483648" 4294967296] by (simp add: add.commute)
  then have "sint w = (if uint w < 2147483648 then uint w else uint w - 4294967296)"
    using b by (auto simp: sint_uint signed_take_bit_eq_take_bit_shift take_bit_int_def)
  moreover have "uint w < 2147483648 \<longleftrightarrow> unat w < 2147483648" by (simp add: unat_eq_nat_uint nat_less_iff del: nat_uint_eq)
  ultimately show ?thesis by simp
qed

text \<open>Rounding down to a power of two by masking.\<close>

lemma unat_align_down:
  fixes x :: "'a :: len word"
  shows "unat (and x (not (mask k))) = unat x - unat x mod 2 ^ k"
proof -
  have "and x (not (mask k)) = push_bit k (drop_bit k x)" by (auto intro!: bit_eqI simp: bit_simps)
  then have s: "and x (not (mask k)) + take_bit k x = x" by (simp add: bits_ident)
  have "and x (not (mask k)) \<le> x" by (simp add: word_and_le2)
  then have "unat x = unat (and x (not (mask k))) + unat (take_bit k x)" using s by (metis unat_sub add_diff_cancel_left' le_add_diff_inverse word_le_nat_alt)
  moreover have "unat (take_bit k x) = take_bit k (unat x)" by (rule unsigned_take_bit_eq)
  then have "unat (take_bit k x) = unat x mod 2 ^ k" by (simp only: take_bit_eq_mod)
  ultimately show ?thesis by simp
qed

end
