(* ===== verification/Linked_List.thy ===== *)
theory Linked_List
  imports Prelude
begin

text \<open>
  The circular doubly linked lists of \<^verbatim>\<open>libk/list.c\<close>: the macros work on any struct
  with fields \<^verbatim>\<open>next\<close> and \<^verbatim>\<open>prev\<close>, so the store is the pair of these two fields over
  all addresses, and a list is the pointer to its first element (null when empty).
  Each macro is the sequence of its assignments, in order, so that aliasing between
  \<^verbatim>\<open>list\<close>, \<^verbatim>\<open>p\<close> and their neighbours is the code's own.
\<close>

record links =
  nx :: "addr \<Rightarrow> addr"
  pv :: "addr \<Rightarrow> addr"

definition set_nx :: "addr \<Rightarrow> addr \<Rightarrow> links \<Rightarrow> links" where
  "set_nx p v s = s\<lparr>nx := (nx s)(p := v)\<rparr>"

definition set_pv :: "addr \<Rightarrow> addr \<Rightarrow> links \<Rightarrow> links" where
  "set_pv p v s = s\<lparr>pv := (pv s)(p := v)\<rparr>"

definition LIST_APPEND :: "links \<Rightarrow> addr \<Rightarrow> addr \<Rightarrow> links \<times> addr" where
  "LIST_APPEND s list p =
     (if list \<noteq> 0 then
        let s = set_nx p list s;
            s = set_pv p (pv s list) s;
            s = set_nx (pv s list) p s;
            s = set_pv list p s
        in (s, list)
      else
        let s = set_nx p p s;
            s = set_pv p p s
        in (s, p))"

definition LIST_PREPEND :: "links \<Rightarrow> addr \<Rightarrow> addr \<Rightarrow> links \<times> addr" where
  "LIST_PREPEND s list p =
     (if list \<noteq> 0 then
        let s = set_pv p list s;
            s = set_nx p (nx s list) s;
            s = set_pv (nx s list) p s;
            s = set_nx list p s
        in (s, p)
      else
        let s = set_pv p p s;
            s = set_nx p p s
        in (s, p))"

text \<open>\<^verbatim>\<open>LIST_DELETE\<close> reads through \<^verbatim>\<open>p\<close> without checking it.\<close>

definition LIST_DELETE :: "links \<Rightarrow> addr \<Rightarrow> addr \<Rightarrow> (links \<times> addr) res" where
  "LIST_DELETE s list p =
     (if p = 0 then Inl NullDeref
      else
        let list = (if nx s p = p then 0 else if list = p then nx s p else list);
            s = set_nx (pv s p) (nx s p) s;
            s = set_pv (nx s p) (pv s p) s;
            s = set_pv p p s;
            s = set_nx p p s
        in Inr (s, list))"

definition LIST_NEXT :: "links \<Rightarrow> addr \<Rightarrow> addr \<Rightarrow> addr" where
  "LIST_NEXT s list p = (if list \<noteq> nx s p then nx s p else 0)"

definition LIST_INSERT_BEFORE :: "links \<Rightarrow> addr \<Rightarrow> addr \<Rightarrow> addr \<Rightarrow> links \<times> addr" where
  "LIST_INSERT_BEFORE s list before p =
     (if before \<noteq> 0 then
        let s = set_pv p (pv s before) s;
            s = set_nx p before s;
            s = set_nx (pv s before) p s;
            s = set_pv before p s
        in (s, list)
      else LIST_PREPEND s list p)"

definition LIST_INSERT_AFTER :: "links \<Rightarrow> addr \<Rightarrow> addr \<Rightarrow> addr \<Rightarrow> links \<times> addr" where
  "LIST_INSERT_AFTER s list after p =
     (if after \<noteq> 0 then
        let s = set_pv p after s;
            s = set_nx p (nx s after) s;
            s = set_pv (nx s after) p s;
            s = set_nx after p s
        in (s, list)
      else LIST_PREPEND s list p)"

lemma set_links_simps [simp]:
  "nx (set_nx p v s) = (nx s)(p := v)" "pv (set_nx p v s) = pv s"
  "pv (set_pv p v s) = (pv s)(p := v)" "nx (set_pv p v s) = nx s"
  by (simp_all add: set_nx_def set_pv_def)

subsection \<open>Rings and the list a head pointer stands for\<close>

text \<open>
  \<open>chain\<close> says that consecutive elements are linked both ways; a \<open>ring\<close> is a chain
  that returns to its first element; \<open>clist s l xs\<close> says that the list pointer \<open>l\<close>
  denotes the sequence \<open>xs\<close>.
\<close>

fun chain :: "links \<Rightarrow> addr list \<Rightarrow> bool" where
  "chain s (x # y # ys) \<longleftrightarrow> nx s x = y \<and> pv s y = x \<and> chain s (y # ys)"
| "chain s _ \<longleftrightarrow> True"

definition ring :: "links \<Rightarrow> addr list \<Rightarrow> bool" where
  "ring s xs \<longleftrightarrow> xs \<noteq> [] \<and> distinct xs \<and> 0 \<notin> set xs \<and> chain s (xs @ [hd xs])"

definition clist :: "links \<Rightarrow> addr \<Rightarrow> addr list \<Rightarrow> bool" where
  "clist s l xs \<longleftrightarrow> (if xs = [] then l = 0 else l = hd xs \<and> ring s xs)"

lemma chain_snoc: "chain s (xs @ [x, y]) \<longleftrightarrow> chain s (xs @ [x]) \<and> nx s x = y \<and> pv s y = x"
  by (induction xs rule: induct_list012) auto

lemma chain_snoc_Cons:
  "chain s (z # xs @ [x, y]) \<longleftrightarrow> chain s (z # xs @ [x]) \<and> nx s x = y \<and> pv s y = x"
  using chain_snoc [of s "z # xs" x y] by simp

lemma chain_append: "chain s (xs @ x # ys) \<longleftrightarrow> chain s (xs @ [x]) \<and> chain s (x # ys)"
  by (induction xs rule: induct_list012) auto

lemma chain_cong:
  assumes "\<And>x. x \<in> set (butlast xs) \<Longrightarrow> nx s' x = nx s x"
    and "\<And>x. x \<in> set (tl xs) \<Longrightarrow> pv s' x = pv s x"
  shows "chain s' xs = chain s xs"
  using assms by (induction xs rule: induct_list012) auto

lemma ring_rotate1: "ring s (x # xs) \<Longrightarrow> ring s (xs @ [x])"
proof (cases xs)
  case (Cons y ys)
  assume "ring s (x # xs)"
  then show ?thesis
    using Cons by (auto simp: ring_def chain_snoc_Cons)
qed simp

lemma ring_rotate: "ring s (xs @ ys) \<Longrightarrow> ring s (ys @ xs)"
proof (induction xs arbitrary: ys)
  case (Cons x xs)
  then have "ring s (xs @ ys @ [x])" using ring_rotate1 [of s x "xs @ ys"] by simp
  from Cons.IH [OF this] show ?case by simp
qed simp

lemma ring_next:
  assumes "ring s (xs @ x # y # ys)" shows "nx s x = y" "pv s y = x"
  using assms chain_append [of s xs x "y # ys @ [hd (xs @ x # y # ys)]"]
  by (simp_all add: ring_def)

lemma ring_next_last:
  assumes "ring s (xs @ [x])" shows "nx s x = hd (xs @ [x])" "pv s (hd (xs @ [x])) = x"
  using assms by (auto simp: ring_def chain_snoc)

text \<open>
  A chain of distinct elements does not depend on the \<^verbatim>\<open>next\<close> of its last and the
  \<^verbatim>\<open>prev\<close> of its first element.
\<close>

lemma chain_frame:
  assumes "chain s w" "distinct w"
    and n: "\<And>x. x \<in> set w \<Longrightarrow> x \<noteq> last w \<Longrightarrow> nx s' x = nx s x"
    and v: "\<And>x. x \<in> set w \<Longrightarrow> x \<noteq> hd w \<Longrightarrow> pv s' x = pv s x"
  shows "chain s' w"
proof -
  have "chain s' w = chain s w"
  proof (rule chain_cong)
    fix x assume x: "x \<in> set (butlast w)"
    then have "w \<noteq> []" by auto
    with assms(2) x have "x \<noteq> last w" using last_notin_butlast by blast
    with x show "nx s' x = nx s x" by (simp add: n in_set_butlastD)
  next
    fix x assume x: "x \<in> set (tl w)"
    then have "w \<noteq> []" by auto
    with assms(2) x have "x \<noteq> hd w" using hd_notin_tl by blast
    with x \<open>w \<noteq> []\<close> show "pv s' x = pv s x" by (simp add: v list.set_sel(2))
  qed
  then show ?thesis using assms(1) by simp
qed

lemma ring_chain: "ring s w \<Longrightarrow> chain s w"
  by (cases w rule: rev_cases) (auto simp: ring_def chain_snoc)

text \<open>Linking a fresh element between the last and the first element of a ring.\<close>

lemma ring_insert:
  assumes r: "ring s w" and p: "p \<noteq> 0" "p \<notin> set w"
    and n: "nx s' = (nx s)(p := hd w, last w := p)" and v: "pv s' = (pv s)(p := last w, hd w := p)"
  shows "ring s' (w @ [p])"
proof -
  from r have ne: "w \<noteq> []" and d: "distinct w" "0 \<notin> set w" by (auto simp: ring_def)
  then obtain u z where w: "w = u @ [z]" by (metis append_butlast_last_id)
  have "chain s' w"
    by (rule chain_frame [OF ring_chain [OF r] d(1)]) (use p in \<open>auto simp: n v\<close>)
  then have "chain s' (w @ [p, hd w])"
    using p ne hd_in_set [OF ne] chain_append [of s' u z "[p, hd w]"] by (auto simp: n v w)
  then show ?thesis using d p ne by (simp add: ring_def)
qed

text \<open>Unlinking the first element of a ring of at least two.\<close>

lemma ring_unlink:
  assumes r: "ring s (p # w)" and ne: "w \<noteq> []"
    and n: "\<And>x. x \<noteq> p \<Longrightarrow> nx s' x = ((nx s)(last w := hd w)) x"
    and v: "\<And>x. x \<noteq> p \<Longrightarrow> pv s' x = ((pv s)(hd w := last w)) x"
  shows "ring s' w"
proof -
  from r have d: "distinct (p # w)" "0 \<notin> set w" by (auto simp: ring_def)
  obtain u z where w: "w = u @ [z]" using ne by (metis append_butlast_last_id)
  have "chain s w"
    using ring_chain [OF r] ne by (cases w) auto
  moreover have neq: "x \<noteq> p" if "x \<in> set w" for x using d that by auto
  ultimately have "chain s' w"
    using d by (intro chain_frame [of s w s']) (simp_all add: n v)
  then have "chain s' (u @ [z, hd w])"
    using d ne n [of z] v [OF neq [OF hd_in_set [OF ne]]] by (auto simp: chain_snoc w)
  then show ?thesis using d ne by (simp add: ring_def w)
qed


subsection \<open>What the macros do to the denoted sequence\<close>

lemma clist_Nil [simp]: "clist s l [] \<longleftrightarrow> l = 0"
  by (simp add: clist_def)

lemma clist_nonempty: "xs \<noteq> [] \<Longrightarrow> clist s l xs \<longleftrightarrow> l = hd xs \<and> ring s xs"
  by (simp add: clist_def)

lemma ring_singleton: "ring s [x] \<longleftrightarrow> x \<noteq> 0 \<and> nx s x = x \<and> pv s x = x"
  by (auto simp: ring_def)

lemma ring_last: "ring s w \<Longrightarrow> nx s (last w) = hd w" and ring_hd: "ring s w \<Longrightarrow> pv s (hd w) = last w"
  using ring_next_last [of s "butlast w" "last w"] by (auto simp: ring_def)

lemma ring_nz: "ring s w \<Longrightarrow> x \<in> set w \<Longrightarrow> x \<noteq> 0" and ring_distinct: "ring s w \<Longrightarrow> distinct w"
  and ring_ne: "ring s w \<Longrightarrow> w \<noteq> []"
  by (auto simp: ring_def)

lemma ring_hd_nz: "ring s w \<Longrightarrow> hd w \<noteq> 0"
  by (simp add: ring_ne ring_nz)

lemma clist_0_iff: "clist s l xs \<Longrightarrow> l = 0 \<longleftrightarrow> xs = []"
  using ring_hd_nz by (auto simp: clist_def split: if_splits)

lemma clist_distinct: "clist s l xs \<Longrightarrow> distinct xs \<and> 0 \<notin> set xs"
  by (cases "xs = []") (auto simp: clist_def ring_def)

lemma LIST_APPEND_clist:
  assumes "clist s l xs" "p \<noteq> 0" "p \<notin> set xs"
  shows "case LIST_APPEND s l p of (s', l') \<Rightarrow> clist s' l' (xs @ [p])"
proof (cases "xs = []")
  case True
  with assms show ?thesis by (simp add: LIST_APPEND_def clist_def Let_def ring_singleton)
next
  case False
  with assms have l: "l = hd xs" "ring s xs" "l \<noteq> 0" "l \<noteq> p"
    using ring_hd_nz by (auto simp: clist_def)
  let ?s = "fst (LIST_APPEND s l p)"
  have "ring ?s (xs @ [p])"
  proof (rule ring_insert [OF l(2) assms(2,3)])
    show "nx ?s = (nx s)(p := hd xs, last xs := p)"
      using l ring_hd [OF l(2)] by (simp add: LIST_APPEND_def Let_def)
    show "pv ?s = (pv s)(p := last xs, hd xs := p)"
      using l ring_hd [OF l(2)] by (simp add: LIST_APPEND_def Let_def)
  qed
  then show ?thesis using False l by (simp add: LIST_APPEND_def Let_def clist_def split: if_splits)
qed

text \<open>
  \<^verbatim>\<open>LIST_PREPEND\<close> makes the new element the first, but it links it after the old
  first element, which therefore ends up last: prepending \<open>p\<close> to \<open>a # r\<close> gives
  \<open>p # r @ [a]\<close>.
\<close>

lemma LIST_PREPEND_clist:
  assumes "clist s l xs" "p \<noteq> 0" "p \<notin> set xs"
  shows "case LIST_PREPEND s l p of (s', l') \<Rightarrow> clist s' l' (p # tl xs @ (if xs = [] then [] else [hd xs]))"
proof (cases xs)
  case Nil
  with assms show ?thesis by (simp add: LIST_PREPEND_def clist_def Let_def ring_singleton)
next
  case (Cons a r)
  with assms have l: "l = a" "ring s (a # r)" "l \<noteq> 0" "l \<noteq> p"
    using ring_hd_nz [of s "a # r"] by (auto simp: clist_def)
  let ?s = "fst (LIST_PREPEND s l p)"
  have r: "ring s (r @ [a])" using ring_rotate1 l by blast
  have "nx s a = hd (r @ [a])" using ring_last [OF r] by simp
  moreover from this have "nx s a \<noteq> p" using assms(3) Cons by (cases r) auto
  ultimately have "ring ?s ((r @ [a]) @ [p])"
    using l assms Cons
    by (intro ring_insert [OF r]) (auto simp: LIST_PREPEND_def Let_def fun_eq_iff)
  then have "ring ?s (p # r @ [a])" using ring_rotate [of ?s "r @ [a]" "[p]"] by simp
  then show ?thesis using l Cons by (simp add: LIST_PREPEND_def Let_def clist_def split: if_splits)
qed

lemma LIST_DELETE_clist:
  assumes c: "clist s l xs" and p: "p \<in> set xs"
  shows "\<exists>s' l'. LIST_DELETE s l p = Inr (s', l') \<and> clist s' l' (remove1 p xs)
           \<and> nx s' p = p \<and> pv s' p = p"
proof -
  obtain u v where xs: "xs = u @ p # v" "p \<notin> set u" using p by (metis split_list_first)
  have r: "ring s (u @ p # v)" and l: "l = hd (u @ p # v)" using c xs by (auto simp: clist_def)
  have pvu: "ring s (p # v @ u)" using ring_rotate [OF r] by simp
  have nz: "p \<noteq> 0" and d: "distinct (u @ p # v)" using r by (auto simp: ring_def)
  show ?thesis
  proof (cases "u @ v = []")
    case True
    with pvu have "nx s p = p" "pv s p = p" by (auto simp: ring_singleton)
    with True l nz show ?thesis by (simp add: LIST_DELETE_def Let_def xs(1))
  next
    case False
    then have ne: "v @ u \<noteq> []" by auto
    have np: "nx s p = hd (v @ u)" using pvu ne by (cases "v @ u") (auto simp: ring_def)
    have pp: "pv s p = last (v @ u)" using ring_hd [OF pvu] ne by auto
    have neq: "hd (v @ u) \<noteq> p" "last (v @ u) \<noteq> p"
      using d hd_in_set [OF ne] last_in_set [OF ne] by auto
    define s' where "s' = set_nx p p (set_pv p p (set_pv (nx s p) (pv s p) (set_nx (pv s p) (nx s p) s)))"
    have vu: "ring s' (v @ u)"
      by (rule ring_unlink [OF pvu ne]) (use np pp neq in \<open>auto simp: s'_def\<close>)
    have "clist s' (if l = p then nx s p else l) (u @ v)"
    proof (cases u)
      case Nil
      with vu l ne np show ?thesis by (simp add: clist_def)
    next
      case (Cons a w)
      with vu l d ring_rotate [of s' v u] show ?thesis by (auto simp: clist_def)
    qed
    then show ?thesis
      using nz np pp neq xs(2)
      by (simp add: LIST_DELETE_def Let_def xs(1) remove1_append s'_def)
  qed
qed

lemma LIST_DELETE_null: "LIST_DELETE s l 0 = Inl NullDeref"
  by (simp add: LIST_DELETE_def)

lemma LIST_INSERT_BEFORE_clist:
  assumes c: "clist s l (u @ b # v)" and p: "p \<noteq> 0" "p \<notin> set (u @ b # v)"
  shows "case LIST_INSERT_BEFORE s l b p of
           (s', l') \<Rightarrow> clist s' l' (if u = [] then b # v @ [p] else u @ p # b # v)"
proof -
  have r: "ring s (b # v @ u)" and l: "l = hd (u @ b # v)" and b: "b \<noteq> 0"
    using c ring_rotate [of s u "b # v"] by (auto simp: clist_def ring_def)
  let ?s = "fst (LIST_INSERT_BEFORE s l b p)"
  have "ring ?s ((b # v @ u) @ [p])"
    using p b ring_hd [OF r]
    by (intro ring_insert [OF r]) (auto simp: LIST_INSERT_BEFORE_def Let_def fun_eq_iff)
  then have "ring ?s (b # v @ u @ [p])" "ring ?s ((u @ [p]) @ b # v)"
    using ring_rotate [of ?s "b # v" "u @ [p]"] by auto
  then show ?thesis using b l by (cases u) (simp_all add: LIST_INSERT_BEFORE_def Let_def clist_def)
qed

lemma LIST_INSERT_AFTER_clist:
  assumes c: "clist s l (u @ a # v)" and p: "p \<noteq> 0" "p \<notin> set (u @ a # v)"
  shows "case LIST_INSERT_AFTER s l a p of (s', l') \<Rightarrow> clist s' l' (u @ a # p # v)"
proof -
  have r: "ring s (v @ u @ [a])" and l: "l = hd (u @ a # v)" and a: "a \<noteq> 0"
    using c ring_rotate [of s "u @ [a]" v] by (auto simp: clist_def ring_def)
  have na: "nx s a = hd (v @ u @ [a])" using ring_last [OF r] by simp
  then have "nx s a \<noteq> p" using p hd_in_set [of "v @ u @ [a]"] by auto
  let ?s = "fst (LIST_INSERT_AFTER s l a p)"
  have "ring ?s ((v @ u @ [a]) @ [p])"
    using p a na \<open>nx s a \<noteq> p\<close>
    by (intro ring_insert [OF r]) (auto simp: LIST_INSERT_AFTER_def Let_def fun_eq_iff)
  then have "ring ?s (u @ a # p # v)" using ring_rotate [of ?s v "u @ [a, p]"] by simp
  then show ?thesis using a l by (cases u) (simp_all add: LIST_INSERT_AFTER_def Let_def clist_def)
qed

text \<open>\<^verbatim>\<open>LIST_NEXT\<close> steps through the sequence and gives null after its last element.\<close>

lemma LIST_NEXT_clist:
  assumes "clist s l (u @ x # v)"
  shows "LIST_NEXT s l x = (case v of [] \<Rightarrow> 0 | y # _ \<Rightarrow> y)"
proof (cases v)
  case Nil
  with assms show ?thesis using ring_last [of s "u @ [x]"] by (simp add: LIST_NEXT_def clist_def)
next
  case (Cons y w)
  with assms have "ring s (u @ x # y # w)" and l: "l = hd (u @ x # y # w)" by (auto simp: clist_def)
  from ring_next [OF this(1)] ring_distinct [OF this(1)] show ?thesis
    using Cons l by (cases u) (auto simp: LIST_NEXT_def)
qed

subsection \<open>Frames: lists that share a store\<close>

lemma clist_cong:
  assumes "\<And>x. x \<in> set ys \<Longrightarrow> nx s' x = nx s x \<and> pv s' x = pv s x"
  shows "clist s' l ys = clist s l ys"
proof (cases "ys = []")
  case False
  have "chain s' (ys @ [hd ys]) = chain s (ys @ [hd ys])"
    by (rule chain_cong) (use assms False in \<open>auto simp: butlast_append dest: list.set_sel(2)\<close>)
  then show ?thesis by (simp add: clist_def ring_def)
qed (simp add: clist_def)

lemma clist_neighbours:
  assumes "clist s l xs" "x \<in> set xs"
  shows "nx s x \<in> set xs" "pv s x \<in> set xs"
proof -
  obtain u v where xs: "xs = u @ x # v" using assms(2) by (metis split_list)
  then have r: "ring s (x # v @ u)"
    using assms ring_rotate [of s u "x # v"] by (auto simp: clist_def)
  have "pv s x = last (x # v @ u)" using ring_hd [OF r] by simp
  then show "pv s x \<in> set xs" using last_in_set [of "x # v @ u"] xs by auto
  have "nx s x = hd (v @ u @ [x])" using ring_last [OF ring_rotate1 [OF r]] by simp
  then show "nx s x \<in> set xs" using hd_in_set [of "v @ u @ [x]"] xs by auto
qed

lemma LIST_APPEND_frame:
  assumes "clist s l xs" "y \<notin> set xs" "y \<noteq> p"
  shows "nx (fst (LIST_APPEND s l p)) y = nx s y \<and> pv (fst (LIST_APPEND s l p)) y = pv s y"
proof (cases "xs = []")
  case False
  then have "l \<in> set xs" using assms by (auto simp: clist_def)
  with clist_neighbours [OF assms(1)] assms show ?thesis
    by (auto simp: LIST_APPEND_def Let_def)
qed (use assms in \<open>auto simp: LIST_APPEND_def Let_def clist_def\<close>)

lemma LIST_PREPEND_frame:
  assumes "clist s l xs" "y \<notin> set xs" "y \<noteq> p"
  shows "nx (fst (LIST_PREPEND s l p)) y = nx s y \<and> pv (fst (LIST_PREPEND s l p)) y = pv s y"
proof (cases "xs = []")
  case False
  then have "l \<in> set xs" using assms by (auto simp: clist_def)
  with clist_neighbours [OF assms(1)] assms show ?thesis
    by (auto simp: LIST_PREPEND_def Let_def)
qed (use assms in \<open>auto simp: LIST_PREPEND_def Let_def clist_def\<close>)

lemma LIST_DELETE_frame:
  assumes "clist s l xs" "p \<in> set xs" "y \<notin> set xs" "LIST_DELETE s l p = Inr (s', l')"
  shows "nx s' y = nx s y \<and> pv s' y = pv s y"
  using assms clist_neighbours [OF assms(1,2)]
  by (auto simp: LIST_DELETE_def Let_def split: if_splits)

subsection \<open>The list as a sequence\<close>

text \<open>
  C7. The list macros on a list that denotes the sequence \<open>xs\<close>: appending a new element
  puts it at the end, deleting an element takes exactly that element out and leaves it
  linked to itself, and stepping with \<^verbatim>\<open>LIST_NEXT\<close> from any element gives its successor,
  null after the last.
\<close>

theorem list_is_sequence:
  assumes "clist s l (u @ x # v)" "p \<noteq> 0" "p \<notin> set (u @ x # v)"
  shows "(case LIST_APPEND s l p of (s', l') \<Rightarrow> clist s' l' (u @ x # v @ [p])) \<and>
    (\<exists>s' l'. LIST_DELETE s l x = Inr (s', l') \<and> clist s' l' (u @ v) \<and> nx s' x = x \<and> pv s' x = x) \<and>
    LIST_NEXT s l x = (case v of [] \<Rightarrow> 0 | y # _ \<Rightarrow> y)"
proof -
  have "x \<notin> set u" using assms(1) by (auto simp: clist_def ring_def split: if_splits)
  then have "remove1 x (u @ x # v) = u @ v" by (simp add: remove1_append)
  with LIST_APPEND_clist [OF assms] LIST_DELETE_clist [OF assms(1), of x] LIST_NEXT_clist [OF assms(1)]
  show ?thesis by auto
qed

definition self_links :: links where
  "self_links = \<lparr>nx = \<lambda>a. a, pv = \<lambda>a. a\<rparr>"

lemma self_links_clist: "clist self_links 16 [16]"
  by (simp add: self_links_def clist_def ring_def)

theorem list_is_sequence_witness:
  "(case LIST_APPEND self_links 16 32 of (s', l') \<Rightarrow> clist s' l' [16, 32]) \<and>
   (\<exists>s'. LIST_DELETE self_links 16 16 = Inr (s', 0)) \<and> LIST_NEXT self_links 16 16 = 0"
  using list_is_sequence [of self_links 16 "[]" 16 "[]" 32] self_links_clist by (auto simp: clist_def)

text \<open>
  \<^verbatim>\<open>LIST_PREPEND\<close> on a non-empty list makes the new element the first one but links it
  after the old first element, so the old first element becomes the last: prepending \<open>p\<close>
  to \<open>a # r\<close> gives \<open>p # r @ [a]\<close>, not \<open>p # a # r\<close>.
\<close>

theorem LIST_PREPEND_rotates:
  assumes "clist s l (a # r)" "p \<noteq> 0" "p \<notin> set (a # r)"
  shows "case LIST_PREPEND s l p of (s', l') \<Rightarrow> clist s' l' (p # r @ [a])"
  using LIST_PREPEND_clist [OF assms] by simp

theorem LIST_PREPEND_rotates_witness:
  "case LIST_APPEND self_links 16 32 of (s, l) \<Rightarrow>
     (case LIST_PREPEND s l 48 of (s', l') \<Rightarrow> clist s' l' [48, 32, 16])"
proof -
  obtain s l where s: "LIST_APPEND self_links 16 32 = (s, l)" by fastforce
  have "clist s l [16, 32]" using LIST_APPEND_clist [OF self_links_clist, of 32] s by simp
  from LIST_PREPEND_rotates [OF this, of 48] s show ?thesis by simp
qed

end
