(* ===== verification/Map_Spec.thy ===== *)
theory Map_Spec
  imports Prelude
begin

text \<open>
  What a map of the kernel library promises. The containers behind \<^verbatim>\<open>map_t\<close> order their
  keys by a comparison function that returns a negative, zero or positive number; the
  contract of such a function is the locale \<open>comparator\<close>. The abstract value of a map is
  the list of its entries in ascending order, and \<open>al_put\<close>, \<open>al_get\<close>, \<open>al_del\<close> are
  the operations on it. Lookup takes the five conditions of \<^verbatim>\<open>map_eq_test\<close>.
\<close>

datatype map_eq_test = MAP_LT | MAP_LE | MAP_EQ | MAP_GE | MAP_GT

definition asc :: "('k \<Rightarrow> 'k \<Rightarrow> int) \<Rightarrow> ('k \<times> 'v) list \<Rightarrow> bool" where
  "asc cmp = sorted_wrt (\<lambda>a b. cmp (fst a) (fst b) < 0)"

fun al_put :: "('k \<Rightarrow> 'k \<Rightarrow> int) \<Rightarrow> 'k \<Rightarrow> 'v \<Rightarrow> ('k \<times> 'v) list \<Rightarrow> ('k \<times> 'v) list" where
  "al_put cmp k v [] = [(k, v)]"
| "al_put cmp k v (e # es) =
     (if cmp k (fst e) < 0 then (k, v) # e # es
      else if cmp k (fst e) = 0 then (k, v) # es
      else e # al_put cmp k v es)"

definition al_del :: "('k \<Rightarrow> 'k \<Rightarrow> int) \<Rightarrow> 'k \<Rightarrow> ('k \<times> 'v) list \<Rightarrow> ('k \<times> 'v) list" where
  "al_del cmp k = filter (\<lambda>e. cmp k (fst e) \<noteq> 0)"

fun al_get :: "('k \<Rightarrow> 'k \<Rightarrow> int) \<Rightarrow> 'k \<Rightarrow> map_eq_test \<Rightarrow> ('k \<times> 'v) list \<Rightarrow> ('k \<times> 'v) option" where
  "al_get cmp k MAP_LT es = find (\<lambda>e. cmp k (fst e) > 0) (rev es)"
| "al_get cmp k MAP_LE es = find (\<lambda>e. cmp k (fst e) \<ge> 0) (rev es)"
| "al_get cmp k MAP_EQ es = find (\<lambda>e. cmp k (fst e) = 0) es"
| "al_get cmp k MAP_GE es = find (\<lambda>e. cmp k (fst e) \<le> 0) es"
| "al_get cmp k MAP_GT es = find (\<lambda>e. cmp k (fst e) < 0) es"

text \<open>The code returns the data of the entry found, and 0 when there is none.\<close>

definition data_of :: "('k \<times> map_data) option \<Rightarrow> map_data" where
  "data_of r = (case r of None \<Rightarrow> 0 | Some e \<Rightarrow> snd e)"

lemma find_append: "find P (xs @ ys) = (case find P xs of None \<Rightarrow> find P ys | Some x \<Rightarrow> Some x)"
  by (induction xs) auto

lemma find_all_not: "(\<And>x. x \<in> set xs \<Longrightarrow> \<not> P x) \<Longrightarrow> find P xs = None"
  by (simp add: find_None_iff)

lemma find_hd: "(\<And>x. x \<in> set xs \<Longrightarrow> P x) \<Longrightarrow> find P xs = (case xs of [] \<Rightarrow> None | x # _ \<Rightarrow> Some x)"
  by (cases xs) auto

lemma al_put_split:
  assumes "\<And>e. e \<in> set ls \<Longrightarrow> 0 < cmp k (fst e)" "\<And>e. e \<in> set rs \<Longrightarrow> cmp k (fst e) < 0"
  shows "al_put cmp k v (ls @ rs) = ls @ (k, v) # rs"
  using assms by (induction ls) (cases rs; force)+

lemma al_put_replace:
  assumes "\<And>e. e \<in> set ls \<Longrightarrow> 0 < cmp k (fst e)" "cmp k (fst x) = 0"
  shows "al_put cmp k v (ls @ x # rs) = ls @ (k, v) # rs"
  using assms by (induction ls) force+

text \<open>Where a key falls in a list of entries decides every lookup.\<close>

lemma find_rev_last:
  "(\<And>e. e \<in> set ls \<Longrightarrow> P e) \<Longrightarrow> find P (rev ls) = (if ls = [] then None else Some (last ls))"
  by (cases ls rule: rev_cases) auto

lemma find_skip_left:
  "(\<And>e. e \<in> set ls \<Longrightarrow> \<not> P e) \<Longrightarrow> find P (ls @ rs) = find P rs"
  by (induction ls) auto

lemma find_skip_right:
  "(\<And>e. e \<in> set rs \<Longrightarrow> \<not> P e) \<Longrightarrow> find P (rev (ls @ rs)) = find P (rev ls)"
  using find_skip_left [of "rev rs" P "rev ls"] by simp

definition first_of :: "'a list \<Rightarrow> 'a option" where
  "first_of xs = (case xs of [] \<Rightarrow> None | x # _ \<Rightarrow> Some x)"

definition last_of :: "'a list \<Rightarrow> 'a option" where
  "last_of xs = (if xs = [] then None else Some (last xs))"

lemma al_get_absent:
  assumes l: "\<And>e. e \<in> set ls \<Longrightarrow> 0 < cmp k (fst e)" and r: "\<And>e. e \<in> set rs \<Longrightarrow> cmp k (fst e) < 0"
  shows "al_get cmp k MAP_EQ (ls @ rs) = None"
    "al_get cmp k MAP_GE (ls @ rs) = first_of rs" "al_get cmp k MAP_GT (ls @ rs) = first_of rs"
    "al_get cmp k MAP_LE (ls @ rs) = last_of ls" "al_get cmp k MAP_LT (ls @ rs) = last_of ls"
proof -
  show "al_get cmp k MAP_EQ (ls @ rs) = None"
    using l r by (fastforce simp: find_None_iff)
  have "find (\<lambda>e. cmp k (fst e) \<le> 0) rs = first_of rs" "find (\<lambda>e. cmp k (fst e) < 0) rs = first_of rs"
    unfolding first_of_def using r by (intro find_hd, force)+
  then show "al_get cmp k MAP_GE (ls @ rs) = first_of rs" "al_get cmp k MAP_GT (ls @ rs) = first_of rs"
    using l by (simp_all add: find_skip_left not_le not_less less_imp_le)
  have "find (\<lambda>e. cmp k (fst e) \<ge> 0) (rev ls) = last_of ls" "find (\<lambda>e. cmp k (fst e) > 0) (rev ls) = last_of ls"
    unfolding last_of_def using l by (intro find_rev_last, force)+
  then show "al_get cmp k MAP_LE (ls @ rs) = last_of ls" "al_get cmp k MAP_LT (ls @ rs) = last_of ls"
    using r by (simp_all add: find_skip_right not_le not_less less_imp_le del: rev_append)
qed

lemma al_get_present:
  assumes l: "\<And>e. e \<in> set ls \<Longrightarrow> 0 < cmp k (fst e)" and r: "\<And>e. e \<in> set rs \<Longrightarrow> cmp k (fst e) < 0"
    and x: "cmp k (fst x) = 0"
  shows "al_get cmp k MAP_EQ (ls @ x # rs) = Some x"
    "al_get cmp k MAP_GE (ls @ x # rs) = Some x" "al_get cmp k MAP_LE (ls @ x # rs) = Some x"
    "al_get cmp k MAP_GT (ls @ x # rs) = first_of rs" "al_get cmp k MAP_LT (ls @ x # rs) = last_of ls"
proof -
  have nl: "cmp k (fst e) \<noteq> 0" if "e \<in> set ls" for e using l [OF that] by simp
  show "al_get cmp k MAP_EQ (ls @ x # rs) = Some x" "al_get cmp k MAP_GE (ls @ x # rs) = Some x"
    using l nl x by (simp_all add: find_skip_left not_le)
  show "al_get cmp k MAP_LE (ls @ x # rs) = Some x"
    using find_skip_right [of rs "\<lambda>e. cmp k (fst e) \<ge> 0" "ls @ [x]"] r x by (simp add: not_le)
  have "find (\<lambda>e. cmp k (fst e) < 0) rs = first_of rs"
    unfolding first_of_def using r by (intro find_hd) force
  then show "al_get cmp k MAP_GT (ls @ x # rs) = first_of rs"
    using find_skip_left [of "ls @ [x]" "\<lambda>e. cmp k (fst e) < 0" rs] l x by (fastforce simp: not_less)
  have "find (\<lambda>e. cmp k (fst e) > 0) (rev ls) = last_of ls"
    unfolding last_of_def using l by (intro find_rev_last) force
  then show "al_get cmp k MAP_LT (ls @ x # rs) = last_of ls"
    using find_skip_right [of "x # rs" "\<lambda>e. cmp k (fst e) > 0" ls] r x by (fastforce simp: not_less)
qed


subsection \<open>The contract of a comparison function\<close>

locale comparator =
  fixes cmp :: "'k \<Rightarrow> 'k \<Rightarrow> int"
  assumes cmp_swap: "cmp a b < 0 \<longleftrightarrow> 0 < cmp b a"
    and cmp_trans: "cmp a b \<le> 0 \<Longrightarrow> cmp b c \<le> 0 \<Longrightarrow> cmp a c \<le> 0"
begin

lemma cmp_refl [simp]: "cmp a a = 0"
  using cmp_swap [of a a] by linarith

lemma cmp_le_iff: "cmp a b \<le> 0 \<longleftrightarrow> 0 \<le> cmp b a"
  using cmp_swap [of b a] by linarith

lemma cmp_eq_sym: "cmp a b = 0 \<longleftrightarrow> cmp b a = 0"
  using cmp_swap [of a b] cmp_swap [of b a] by linarith

lemma cmp_le_less: "cmp a b \<le> 0 \<Longrightarrow> cmp b c < 0 \<Longrightarrow> cmp a c < 0"
  using cmp_trans [of c a b] cmp_swap [of b c] cmp_le_iff [of c a] cmp_le_iff [of c b] by linarith

lemma cmp_less_le: "cmp a b < 0 \<Longrightarrow> cmp b c \<le> 0 \<Longrightarrow> cmp a c < 0"
  using cmp_trans [of b c a] cmp_swap [of a b] cmp_le_iff [of c a] by linarith

lemma cmp_ge_greater: "0 \<le> cmp a b \<Longrightarrow> cmp c b < 0 \<Longrightarrow> 0 < cmp a c"
  using cmp_less_le [of c b a] cmp_le_iff [of b a] cmp_swap [of c a] by linarith

lemma asc_Cons: "asc cmp (e # es) \<longleftrightarrow> (\<forall>x\<in>set es. cmp (fst e) (fst x) < 0) \<and> asc cmp es"
  by (simp add: asc_def)

lemma asc_append:
  "asc cmp (xs @ ys) \<longleftrightarrow> asc cmp xs \<and> asc cmp ys \<and> (\<forall>x\<in>set xs. \<forall>y\<in>set ys. cmp (fst x) (fst y) < 0)"
  by (simp add: asc_def sorted_wrt_append)

text \<open>A key that is not below an entry is above everything before it, and dually.\<close>

lemma asc_above:
  "asc cmp (ls @ x # rs) \<Longrightarrow> 0 \<le> cmp k (fst x) \<Longrightarrow> e \<in> set ls \<Longrightarrow> 0 < cmp k (fst e)"
  using cmp_ge_greater [of k "fst x" "fst e"] by (auto simp: asc_append)

lemma asc_below:
  "asc cmp (ls @ x # rs) \<Longrightarrow> cmp k (fst x) \<le> 0 \<Longrightarrow> e \<in> set rs \<Longrightarrow> cmp k (fst e) < 0"
  using cmp_le_less [of k "fst x" "fst e"] by (auto simp: asc_append asc_Cons)

lemma set_al_put: "set (al_put cmp k v es) \<subseteq> insert (k, v) (set es)"
  by (induction es) auto

lemma asc_al_put: "asc cmp es \<Longrightarrow> asc cmp (al_put cmp k v es)"
proof (induction es)
  case (Cons e es)
  then have IH: "asc cmp (al_put cmp k v es)" and e: "\<And>x. x \<in> set es \<Longrightarrow> cmp (fst e) (fst x) < 0"
    by (auto simp: asc_Cons)
  consider "cmp k (fst e) < 0" | "cmp k (fst e) = 0" | "0 < cmp k (fst e)" by linarith
  then show ?case
  proof cases
    case 3
    then have "cmp (fst e) k < 0" by (simp add: cmp_swap)
    then have "cmp (fst e) (fst x) < 0" if "x \<in> set (al_put cmp k v es)" for x
      using subsetD [OF set_al_put that] e [of x] by auto
    with 3 IH show ?thesis by (simp add: asc_Cons)
  next
    case 1
    then have "cmp k (fst x) < 0" if "x \<in> set es" for x using cmp_le_less [of k "fst e" "fst x"] e that by simp
    with 1 Cons.prems show ?thesis by (simp add: asc_Cons)
  next
    case 2
    then have "cmp k (fst x) < 0" if "x \<in> set es" for x using cmp_le_less [of k "fst e" "fst x"] e that by simp
    with 2 Cons.prems show ?thesis by (simp add: asc_Cons)
  qed
qed (simp add: asc_def)

lemma asc_al_del: "asc cmp es \<Longrightarrow> asc cmp (al_del cmp k es)"
  unfolding asc_def al_del_def by (rule sorted_wrt_filter)

lemma al_get_put_same: "al_get cmp k MAP_EQ (al_put cmp k v es) = Some (k, v)"
  by (induction es) auto

lemma al_get_put_equal:
  assumes "cmp k' k = 0" shows "al_get cmp k' MAP_EQ (al_put cmp k v es) = Some (k, v)"
proof (induction es)
  case (Cons e es)
  have "cmp k' (fst e) < 0 \<longleftrightarrow> cmp k (fst e) < 0" "cmp k' (fst e) \<le> 0 \<longleftrightarrow> cmp k (fst e) \<le> 0"
    using assms cmp_le_less [of k' k] cmp_le_less [of k k'] cmp_trans [of k' k] cmp_trans [of k k'] cmp_eq_sym [of k k']
    by auto
  with Cons assms show ?case by auto
qed (use assms in simp)

lemma al_get_put_other:
  "cmp k' k \<noteq> 0 \<Longrightarrow> al_get cmp k' MAP_EQ (al_put cmp k v es) = al_get cmp k' MAP_EQ es"
proof (induction es)
  case (Cons e es)
  have "cmp k' (fst e) \<noteq> 0" if "cmp k (fst e) = 0"
    using that Cons.prems cmp_trans [of k' "fst e" k] cmp_trans [of k "fst e" k'] cmp_eq_sym cmp_le_iff
    by (metis order_antisym order_refl)
  with Cons show ?case by auto
qed simp

lemma al_get_del_same: "al_get cmp k MAP_EQ (al_del cmp k es) = None"
  by (auto simp: al_del_def find_None_iff)

end

text \<open>The default order of the library, \<^verbatim>\<open>map_keycmp\<close>: keys as unsigned machine words.\<close>

definition map_keycmp :: "map_key \<Rightarrow> map_key \<Rightarrow> int" where
  "map_keycmp k1 k2 = (if k2 < k1 then 1 else if k1 < k2 then -1 else 0)"

lemma map_keycmp_sign:
  "map_keycmp a b < 0 \<longleftrightarrow> a < b" "map_keycmp a b \<le> 0 \<longleftrightarrow> a \<le> b" "0 < map_keycmp a b \<longleftrightarrow> b < a"
  "map_keycmp a b = 0 \<longleftrightarrow> a = b" "0 \<le> map_keycmp a b \<longleftrightarrow> b \<le> a"
  using less_linear [of a b] by (auto simp: map_keycmp_def)

interpretation keycmp: comparator map_keycmp
  by unfold_locales (auto simp only: map_keycmp_sign intro: order_trans)

end
