(* ===== verification/Ordered_Map.thy ===== *)
theory Ordered_Map
  imports Map_Spec
begin

text \<open>
  The interface behind \<^verbatim>\<open>map_t\<close>: what a container of entries ordered by a comparison
  promises its clients. A state represents a list of entries; insertion takes the address
  the slab allocator hands out and the fuel of the container's loops. From the laws of
  the single operations a client gets the behaviour of every sequence of them.
\<close>

datatype map_op = Put map_key map_data | Get map_key map_eq_test | Remove map_key

fun al_op :: "(map_key \<Rightarrow> map_key \<Rightarrow> int) \<Rightarrow> map_op \<Rightarrow> (map_key \<times> map_data) list \<Rightarrow>
  (map_key \<times> map_data) list \<times> map_data" where
  "al_op cmp (Put k v) es = (al_put cmp k v es, data_of (al_get cmp k MAP_EQ es))"
| "al_op cmp (Get k cond) es = (es, data_of (al_get cmp k cond es))"
| "al_op cmp (Remove k) es = (al_del cmp k es, data_of (al_get cmp k MAP_EQ es))"

fun al_run :: "(map_key \<Rightarrow> map_key \<Rightarrow> int) \<Rightarrow> map_op list \<Rightarrow> (map_key \<times> map_data) list \<Rightarrow>
  (map_key \<times> map_data) list \<times> map_data list" where
  "al_run cmp [] es = (es, [])"
| "al_run cmp (p # ps) es =
     (let (es1, d) = al_op cmp p es; (es2, ds) = al_run cmp ps es1 in (es2, d # ds))"

type_synonym 's put_fn = "nat \<Rightarrow> 's \<Rightarrow> addr \<Rightarrow> map_key \<Rightarrow> map_data \<Rightarrow> ('s \<times> map_data) res"
type_synonym 's get_fn = "nat \<Rightarrow> 's \<Rightarrow> map_key \<Rightarrow> map_eq_test \<Rightarrow> ('s \<times> map_data) res"
type_synonym 's remove_fn = "nat \<Rightarrow> 's \<Rightarrow> map_key \<Rightarrow> ('s \<times> map_data) res"

fun run_op :: "'s put_fn \<Rightarrow> 's get_fn \<Rightarrow> 's remove_fn \<Rightarrow> ('s \<Rightarrow> addr) \<Rightarrow> nat \<Rightarrow> map_op \<Rightarrow> 's \<Rightarrow> ('s \<times> map_data) res" where
  "run_op put get remove alloc n (Put k v) s = put n s (alloc s) k v"
| "run_op put get remove alloc n (Get k cond) s = get n s k cond"
| "run_op put get remove alloc n (Remove k) s = remove n s k"

fun run_ops :: "'s put_fn \<Rightarrow> 's get_fn \<Rightarrow> 's remove_fn \<Rightarrow> ('s \<Rightarrow> addr) \<Rightarrow> nat \<Rightarrow> map_op list \<Rightarrow> 's \<Rightarrow>
  ('s \<times> map_data list) res" where
  "run_ops put get remove alloc n [] s = Inr (s, [])"
| "run_ops put get remove alloc n (p # ps) s =
     bindE (run_op put get remove alloc n p s) (\<lambda>(s, d).
     bindE (run_ops put get remove alloc n ps s) (\<lambda>(s, ds). Inr (s, d # ds)))"

lemma length_al_put: "length (al_put cmp k v es) \<le> Suc (length es)"
  by (induction es) auto

lemma length_al_op: "length (fst (al_op cmp p es)) \<le> Suc (length es)"
  by (cases p) (auto simp: length_al_put al_del_def le_SucI)

locale ordered_map = comparator cmp for cmp :: "map_key \<Rightarrow> map_key \<Rightarrow> int" +
  fixes rep :: "'s \<Rightarrow> (map_key \<times> map_data) list \<Rightarrow> bool"
    and fresh :: "'s \<Rightarrow> addr \<Rightarrow> bool"
    and need :: "nat \<Rightarrow> nat"
    and put :: "'s put_fn" and get :: "'s get_fn" and remove :: "'s remove_fn"
  assumes rep_asc: "rep s es \<Longrightarrow> asc cmp es"
    and need_mono: "i \<le> j \<Longrightarrow> need i \<le> need j"
    and put_law: "rep s es \<Longrightarrow> fresh s a \<Longrightarrow> need (length es) \<le> n \<Longrightarrow>
      \<exists>s'. put n s a k v = Inr (s', data_of (al_get cmp k MAP_EQ es)) \<and> rep s' (al_put cmp k v es)"
    and get_law: "rep s es \<Longrightarrow> need (length es) \<le> n \<Longrightarrow>
      \<exists>s'. get n s k cond = Inr (s', data_of (al_get cmp k cond es)) \<and> rep s' es"
    and remove_law: "rep s es \<Longrightarrow> need (length es) \<le> n \<Longrightarrow>
      \<exists>s'. remove n s k = Inr (s', data_of (al_get cmp k MAP_EQ es)) \<and> rep s' (al_del cmp k es)"
begin

lemma need_le: "need j \<le> n \<Longrightarrow> i \<le> j \<Longrightarrow> need i \<le> n"
  using need_mono [of i j] by linarith

lemma run_op_refines:
  assumes "rep s es" "fresh s (alloc s)" "need (length es) \<le> n"
  shows "\<exists>s'. run_op put get remove alloc n p s = Inr (s', snd (al_op cmp p es)) \<and> rep s' (fst (al_op cmp p es))"
  using put_law [OF assms] get_law [OF assms(1,3)] remove_law [OF assms(1,3)] by (cases p) auto

text \<open>
  Sequences of operations, for an allocator that has a free slot while the map holds at
  most \<open>b\<close> entries.
\<close>

lemma run_ops_refines:
  assumes "rep s es" "\<And>s es. rep s es \<Longrightarrow> length es \<le> b \<Longrightarrow> fresh s (alloc s)"
    "length es + length ps \<le> b" "need b \<le> n"
  shows "\<exists>s'. run_ops put get remove alloc n ps s = Inr (s', snd (al_run cmp ps es)) \<and>
    rep s' (fst (al_run cmp ps es))"
  using assms(1,3)
proof (induction ps arbitrary: s es)
  case (Cons p ps)
  obtain es1 d where o: "al_op cmp p es = (es1, d)" by fastforce
  have "length es \<le> b" using Cons.prems(2) by simp
  then have "\<exists>s'. run_op put get remove alloc n p s = Inr (s', snd (al_op cmp p es)) \<and> rep s' (fst (al_op cmp p es))"
    using assms(2) [OF Cons.prems(1)] need_le [OF assms(4)] by (intro run_op_refines [OF Cons.prems(1)])
  then obtain s1 where s1: "run_op put get remove alloc n p s = Inr (s1, d)" "rep s1 es1" using o by auto
  have "length es1 + length ps \<le> b" using length_al_op [of cmp p es] o Cons.prems(2) by simp
  from Cons.IH [OF s1(2) this] s1(1) o show ?case by (auto simp: Let_def split: prod.splits)
qed simp

text \<open>What a client sees of single keys.\<close>

lemma put_get:
  assumes "rep s es" "fresh s a" "need (Suc (length es)) \<le> n"
  shows "\<exists>s1 s2 d. put n s a k v = Inr (s1, d) \<and> get n s1 k' MAP_EQ =
    Inr (s2, if cmp k' k = 0 then v else data_of (al_get cmp k' MAP_EQ es))"
proof -
  have "need (length es) \<le> n" by (rule need_le [OF assms(3)]) simp
  from put_law [OF assms(1,2) this, of k v] obtain s1 d where
    s1: "put n s a k v = Inr (s1, d)" "rep s1 (al_put cmp k v es)" by blast
  from get_law [OF s1(2) need_le [OF assms(3) length_al_put], of k' MAP_EQ] obtain s2 where
    "get n s1 k' MAP_EQ = Inr (s2, data_of (al_get cmp k' MAP_EQ (al_put cmp k v es)))" by blast
  moreover have "data_of (al_get cmp k' MAP_EQ (al_put cmp k v es)) =
      (if cmp k' k = 0 then v else data_of (al_get cmp k' MAP_EQ es))"
    using al_get_put_equal [of k' k v es] al_get_put_other [of k' k v es] by (auto simp: data_of_def)
  ultimately show ?thesis using s1(1) by auto
qed

lemma remove_get:
  assumes "rep s es" "need (length es) \<le> n"
  shows "\<exists>s1 s2 d. remove n s k = Inr (s1, d) \<and> get n s1 k MAP_EQ = Inr (s2, 0)"
proof -
  from remove_law [OF assms, of k] obtain s1 d where
    s1: "remove n s k = Inr (s1, d)" "rep s1 (al_del cmp k es)" by blast
  have "length (al_del cmp k es) \<le> length es" by (simp add: al_del_def)
  from get_law [OF s1(2) need_le [OF assms(2) this], of k MAP_EQ] s1(1) show ?thesis
    using al_get_del_same [of k es] by (auto simp: data_of_def)
qed

end

end
