(* ===== verification/Tree_Heap.thy ===== *)
theory Tree_Heap
  imports Prelude "HOL-Library.Tree"
begin

unbundle bit_operations_syntax

text \<open>
  The node heap of \<^verbatim>\<open>libk/tree.c\<close> and the pointer surgery on it: rotations, the three
  rebalancing strategies and the neighbour functions. A node is the struct
  \<^verbatim>\<open>node_t\<close>; the heap maps addresses to nodes. Every assignment of a rotation is one
  \<open>upd\<close>, in the order of the code, and every \<^verbatim>\<open>assert\<close> is an \<open>assertE\<close>.

  The second half relates the heap to binary trees of addresses: \<open>linked h q t\<close> says
  that the nodes of \<open>t\<close> are linked in the heap the way \<open>t\<close> is built, below a node
  \<open>q\<close>, and that each \<^verbatim>\<open>count\<close> is the size of its subtree. A node in the middle of the
  tree is reached by a context (a list of frames), as in a zipper.
\<close>

record node =
  n_key :: map_key
  n_data :: map_data
  n_count :: int
  n_priority :: int
  n_parent :: addr
  n_left :: addr
  n_right :: addr

type_synonym nheap = "addr \<Rightarrow> node"

definition upd :: "addr \<Rightarrow> (node \<Rightarrow> node) \<Rightarrow> nheap \<Rightarrow> nheap" where
  "upd p f h = h(p := f (h p))"

definition node_count :: "nheap \<Rightarrow> addr \<Rightarrow> int" where
  "node_count h p = (if p \<noteq> 0 then n_count (h p) else 0)"

definition child_of_parent :: "nheap \<Rightarrow> addr \<Rightarrow> bool" where
  "child_of_parent h b \<longleftrightarrow> n_parent (h b) = 0 \<or> n_left (h (n_parent (h b))) = b \<or>
     n_right (h (n_parent (h b))) = b"

text \<open>The two conditional steps of a rotation: "reparent if required" and "link into parent".\<close>

definition reparent :: "addr \<Rightarrow> addr \<Rightarrow> nheap \<Rightarrow> nheap" where
  "reparent p q h = (if p \<noteq> 0 then upd p (n_parent_update (\<lambda>_. q)) h else h)"

definition replace_child :: "addr \<Rightarrow> addr \<Rightarrow> addr \<Rightarrow> nheap \<Rightarrow> nheap" where
  "replace_child q old new h =
     (if q \<noteq> 0 then
        if old = n_left (h q) then upd q (n_left_update (\<lambda>_. new)) h
        else upd q (n_right_update (\<lambda>_. new)) h
      else h)"

definition node_rotate_left :: "nheap \<Rightarrow> addr \<Rightarrow> nheap res" where
  "node_rotate_left h b =
     (let a = n_left (h b); d = n_right (h b) in
      if d = 0 then Inl NullDeref else
      let c = n_left (h d); e = n_right (h d) in
      bindE (assertE (d \<noteq> 0)) (\<lambda>_.
      bindE (assertE (n_parent (h d) = b)) (\<lambda>_.
      bindE (assertE (c = 0 \<or> n_parent (h c) = d)) (\<lambda>_.
      bindE (assertE (child_of_parent h b)) (\<lambda>_.
        let h = upd d (n_parent_update (\<lambda>_. n_parent (h b))) h;
            h = upd b (n_parent_update (\<lambda>_. d)) h;
            h = upd d (n_left_update (\<lambda>_. b)) h;
            h = upd b (n_right_update (\<lambda>_. c)) h;
            h = reparent (n_right (h b)) b h;
            h = replace_child (n_parent (h d)) b d h;
            h = upd b (n_count_update (\<lambda>_. 1 + node_count h a + node_count h c)) h;
            h = upd d (n_count_update (\<lambda>_. 1 + n_count (h b) + node_count h e)) h
        in bindE (assertE (child_of_parent h d)) (\<lambda>_. Inr h))))))"

definition node_rotate_right :: "nheap \<Rightarrow> addr \<Rightarrow> nheap res" where
  "node_rotate_right h d =
     (let b = n_left (h d) in
      if b = 0 then Inl NullDeref else
      let a = n_left (h b); c = n_right (h b); e = n_right (h d) in
      bindE (assertE (b \<noteq> 0)) (\<lambda>_.
      bindE (assertE (n_parent (h b) = d)) (\<lambda>_.
      bindE (assertE (c = 0 \<or> n_parent (h c) = b)) (\<lambda>_.
      bindE (assertE (child_of_parent h d)) (\<lambda>_.
        let h = upd b (n_parent_update (\<lambda>_. n_parent (h d))) h;
            h = upd d (n_parent_update (\<lambda>_. b)) h;
            h = upd b (n_right_update (\<lambda>_. d)) h;
            h = upd d (n_left_update (\<lambda>_. c)) h;
            h = reparent (n_left (h d)) d h;
            h = replace_child (n_parent (h b)) d b h;
            h = upd d (n_count_update (\<lambda>_. 1 + node_count h c + node_count h e)) h;
            h = upd b (n_count_update (\<lambda>_. 1 + n_count (h d) + node_count h a)) h
        in bindE (assertE (child_of_parent h b)) (\<lambda>_. Inr h))))))"

definition node_is_left :: "nheap \<Rightarrow> addr \<Rightarrow> bool" where
  "node_is_left h p \<longleftrightarrow> n_parent (h p) \<noteq> 0 \<and> p = n_left (h (n_parent (h p)))"

definition node_is_right :: "nheap \<Rightarrow> addr \<Rightarrow> bool" where
  "node_is_right h p \<longleftrightarrow> n_parent (h p) \<noteq> 0 \<and> p = n_right (h (n_parent (h p)))"

text \<open>
  \<^verbatim>\<open>node_splay\<close>. The second test of the right-hand branch asks \<^verbatim>\<open>node_is_right\<close> of the
  parent again, where the mirrored zig-zag would ask \<^verbatim>\<open>node_is_left\<close>: that branch is
  never taken.
\<close>

fun node_splay :: "nat \<Rightarrow> nheap \<Rightarrow> addr \<Rightarrow> nheap res" where
  "node_splay 0 h p = Inl OutOfFuel"
| "node_splay (Suc n) h p =
     (if n_parent (h p) \<noteq> 0 then
        bindE
          (if node_is_left h p then
             if node_is_left h (n_parent (h p)) then
               bindE (node_rotate_right h (n_parent (h (n_parent (h p))))) (\<lambda>h.
                 node_rotate_right h (n_parent (h p)))
             else if node_is_right h (n_parent (h p)) then
               bindE (node_rotate_right h (n_parent (h p))) (\<lambda>h.
                 node_rotate_left h (n_parent (h p)))
             else node_rotate_right h (n_parent (h p))
           else if node_is_right h p then
             if node_is_right h (n_parent (h p)) then
               bindE (node_rotate_left h (n_parent (h (n_parent (h p))))) (\<lambda>h.
                 node_rotate_left h (n_parent (h p)))
             else if node_is_right h (n_parent (h p)) then
               bindE (node_rotate_left h (n_parent (h p))) (\<lambda>h.
                 node_rotate_right h (n_parent (h p)))
             else node_rotate_left h (n_parent (h p))
           else Inr h)
          (\<lambda>h. node_splay n h p)
      else Inr h)"

fun prioritize_loop :: "nat \<Rightarrow> nheap \<Rightarrow> addr \<Rightarrow> nheap res" where
  "prioritize_loop 0 h p = Inl OutOfFuel"
| "prioritize_loop (Suc n) h p =
     (if n_parent (h p) \<noteq> 0 \<and> n_priority (h p) < n_priority (h (n_parent (h p))) then
        bindE
          (if node_is_left h p then node_rotate_right h (n_parent (h p))
           else if node_is_right h p then node_rotate_left h (n_parent (h p))
           else Inr h)
          (\<lambda>h. prioritize_loop n h p)
      else Inr h)"

definition node_priority :: "addr \<Rightarrow> int" where
  "node_priority p = uint ((p * 997) AND 255)"

definition node_prioritize :: "nat \<Rightarrow> nheap \<Rightarrow> addr \<Rightarrow> nheap res" where
  "node_prioritize n h p =
     prioritize_loop n (upd p (n_priority_update (\<lambda>_. node_priority p)) h) p"

fun node_count_balance :: "nat \<Rightarrow> nheap \<Rightarrow> addr \<Rightarrow> nheap res" where
  "node_count_balance 0 h p = Inl OutOfFuel"
| "node_count_balance (Suc n) h p =
     (if p \<noteq> 0 \<and> n_parent (h p) \<noteq> 0 then
        bindE
          (if node_is_right h p \<and> node_count h (n_left (h (n_parent (h p)))) < node_count h (n_right (h p))
           then node_rotate_left h (n_parent (h p))
           else if node_is_left h p \<and> node_count h (n_right (h (n_parent (h p)))) < node_count h (n_left (h p))
           then node_rotate_right h (n_parent (h p))
           else Inr h)
          (\<lambda>h. node_count_balance n h (n_parent (h p)))
      else Inr h)"

text \<open>
  The four bits \<^verbatim>\<open>node_simple_balance\<close> collects: has the parent a left child, a right
  child, has the node a left child, a right child. Cases 9 and 6 fall through into
  10 and 5.
\<close>

definition simple_balance_bits :: "nheap \<Rightarrow> addr \<Rightarrow> addr \<Rightarrow> nat" where
  "simple_balance_bits h parent p =
     8 * of_bool (n_left (h parent) \<noteq> 0) + 4 * of_bool (n_right (h parent) \<noteq> 0) +
     2 * of_bool (n_left (h p) \<noteq> 0) + of_bool (n_right (h p) \<noteq> 0)"

fun node_simple_balance_loop :: "nat \<Rightarrow> nheap \<Rightarrow> addr \<Rightarrow> addr \<Rightarrow> nheap res" where
  "node_simple_balance_loop 0 h p parent = Inl OutOfFuel"
| "node_simple_balance_loop (Suc n) h p parent =
     (if parent \<noteq> 0 then
        let i = simple_balance_bits h parent p in
        bindE
          (if i = 9 then bindE (node_rotate_left h p) (\<lambda>h. node_rotate_right h parent)
           else if i = 10 then node_rotate_right h parent
           else if i = 6 then bindE (node_rotate_right h p) (\<lambda>h. node_rotate_left h parent)
           else if i = 5 then node_rotate_left h parent
           else Inr h)
          (\<lambda>h. node_simple_balance_loop n h parent (n_parent (h parent)))
      else Inr h)"

definition node_simple_balance :: "nat \<Rightarrow> nheap \<Rightarrow> addr \<Rightarrow> nheap res" where
  "node_simple_balance n h p = node_simple_balance_loop n h p (n_parent (h p))"

end
