(* ===== verification/Tree_Ops.thy ===== *)
theory Tree_Ops
  imports Tree_Heap Map_Spec
begin

text \<open>
  The map operations of \<^verbatim>\<open>libk/tree.c\<close> over the node heap: search, insertion with
  rebalancing, removal by bubbling down, neighbours, walks, ordinal access and the
  optimizer. The struct \<^verbatim>\<open>tree_t\<close> is the record \<open>tree_t\<close>. A loop takes its fuel as its
  first argument; an operation passes the same fuel to each of its loops. The address
  \<^verbatim>\<open>slab_alloc(nodes)\<close> returns is the argument \<open>fresh\<close> of \<^verbatim>\<open>tree_put\<close>.
\<close>

record tree_t =
  t_root :: addr
  t_mode :: nat
  t_comp :: "map_key \<Rightarrow> map_key \<Rightarrow> int"

definition TREE_SPLAY :: nat where "TREE_SPLAY = 1"
definition TREE_TREAP :: nat where "TREE_TREAP = 2"
definition TREE_COUNT :: nat where "TREE_COUNT = 3"

lemmas tree_modes = TREE_SPLAY_def TREE_TREAP_def TREE_COUNT_def

subsection \<open>Neighbours and walks\<close>

fun leftmost :: "nat \<Rightarrow> nheap \<Rightarrow> addr \<Rightarrow> addr res" where
  "leftmost 0 h p = Inl OutOfFuel"
| "leftmost (Suc n) h p = (if n_left (h p) \<noteq> 0 then leftmost n h (n_left (h p)) else Inr p)"

fun rightmost :: "nat \<Rightarrow> nheap \<Rightarrow> addr \<Rightarrow> addr res" where
  "rightmost 0 h p = Inl OutOfFuel"
| "rightmost (Suc n) h p = (if n_right (h p) \<noteq> 0 then rightmost n h (n_right (h p)) else Inr p)"

fun while_is_left :: "nat \<Rightarrow> nheap \<Rightarrow> addr \<Rightarrow> addr res" where
  "while_is_left 0 h p = Inl OutOfFuel"
| "while_is_left (Suc n) h p = (if node_is_left h p then while_is_left n h (n_parent (h p)) else Inr p)"

fun while_is_right :: "nat \<Rightarrow> nheap \<Rightarrow> addr \<Rightarrow> addr res" where
  "while_is_right 0 h p = Inl OutOfFuel"
| "while_is_right (Suc n) h p = (if node_is_right h p then while_is_right n h (n_parent (h p)) else Inr p)"

definition node_prev :: "nat \<Rightarrow> nheap \<Rightarrow> addr \<Rightarrow> addr res" where
  "node_prev n h current =
     (if n_left (h current) \<noteq> 0 then rightmost n h (n_left (h current))
      else bindE (while_is_left n h current) (\<lambda>p.
        if node_is_right h p then Inr (n_parent (h p)) else Inr 0))"

definition node_next :: "nat \<Rightarrow> nheap \<Rightarrow> addr \<Rightarrow> addr res" where
  "node_next n h current =
     (if n_right (h current) \<noteq> 0 then leftmost n h (n_right (h current))
      else bindE (while_is_right n h current) (\<lambda>p.
        if node_is_left h p then Inr (n_parent (h p)) else Inr 0))"

definition tree_node_first :: "nat \<Rightarrow> nheap \<Rightarrow> tree_t \<Rightarrow> addr res" where
  "tree_node_first n h t = (if t_root t \<noteq> 0 then leftmost n h (t_root t) else Inr 0)"

definition tree_node_last :: "nat \<Rightarrow> nheap \<Rightarrow> tree_t \<Rightarrow> addr res" where
  "tree_node_last n h t = (if t_root t \<noteq> 0 then rightmost n h (t_root t) else Inr 0)"

text \<open>
  The callback of a walk takes the caller's state \<^verbatim>\<open>p\<close>, a key and its data and gives
  the new state; it does not touch the tree that is walked.
\<close>

fun tree_walk_nodes ::
  "nat \<Rightarrow> nheap \<Rightarrow> addr \<Rightarrow> addr \<Rightarrow> ('p \<Rightarrow> map_key \<Rightarrow> map_data \<Rightarrow> 'p) \<Rightarrow> 'p \<Rightarrow> 'p res" where
  "tree_walk_nodes 0 h nod end func p = Inl OutOfFuel"
| "tree_walk_nodes (Suc n) h nod end func p =
     (if nod \<noteq> 0 then
        let p = func p (n_key (h nod)) (n_data (h nod)) in
        if nod = end then tree_walk_nodes n h 0 end func p
        else bindE (node_next n h nod) (\<lambda>nod. tree_walk_nodes n h nod end func p)
      else Inr p)"

definition tree_walk :: "nat \<Rightarrow> nheap \<Rightarrow> tree_t \<Rightarrow> ('p \<Rightarrow> map_key \<Rightarrow> map_data \<Rightarrow> 'p) \<Rightarrow> 'p \<Rightarrow> 'p res" where
  "tree_walk n h t func p =
     bindE (tree_node_first n h t) (\<lambda>start.
     bindE (tree_node_last n h t) (\<lambda>end.
       tree_walk_nodes n h start end func p))"

subsection \<open>The consistency checks\<close>

fun node_verify :: "nat \<Rightarrow> nheap \<Rightarrow> addr \<Rightarrow> unit res" where
  "node_verify 0 h p = Inl OutOfFuel"
| "node_verify (Suc n) h p =
     (if p = 0 then Inr ()
      else
        bindE (if n_left (h p) \<noteq> 0
               then bindE (assertE (p = n_parent (h (n_left (h p))))) (\<lambda>_. node_verify n h (n_left (h p)))
               else Inr ()) (\<lambda>_.
        if n_right (h p) \<noteq> 0
        then bindE (assertE (p = n_parent (h (n_right (h p))))) (\<lambda>_. node_verify n h (n_right (h p)))
        else Inr ()))"

fun climb :: "nat \<Rightarrow> nheap \<Rightarrow> addr \<Rightarrow> addr res" where
  "climb 0 h p = Inl OutOfFuel"
| "climb (Suc n) h p = (if n_parent (h p) \<noteq> 0 then climb n h (n_parent (h p)) else Inr p)"

definition tree_verify :: "nat \<Rightarrow> nheap \<Rightarrow> tree_t \<Rightarrow> addr \<Rightarrow> unit res" where
  "tree_verify n h t nod =
     bindE (if nod \<noteq> 0 then bindE (climb n h nod) (\<lambda>root. assertE (t_root t = root)) else Inr ()) (\<lambda>_.
     bindE (if t_root t \<noteq> 0 then
              bindE (assertE (n_count (h (t_root t)) = node_count h (t_root t))) (\<lambda>_.
                assertE (n_parent (h (t_root t)) = 0))
            else Inr ()) (\<lambda>_.
       node_verify n h (t_root t)))"

subsection \<open>Insertion\<close>

fun count_up :: "nat \<Rightarrow> nheap \<Rightarrow> addr \<Rightarrow> nheap res" where
  "count_up 0 h parent = Inl OutOfFuel"
| "count_up (Suc n) h parent =
     (if parent \<noteq> 0 then
        let h = upd parent (\<lambda>d. d\<lparr>n_count := n_count d + 1\<rparr>) h in count_up n h (n_parent (h parent))
      else Inr h)"

definition tree_node_new :: "nat \<Rightarrow> nheap \<Rightarrow> addr \<Rightarrow> addr \<Rightarrow> map_key \<Rightarrow> map_data \<Rightarrow> nheap res" where
  "tree_node_new n h fresh parent key data =
     (let h = upd fresh (\<lambda>d. d\<lparr>n_key := key, n_data := data, n_parent := parent, n_count := 1\<rparr>) h in
      bindE (count_up n h parent) (\<lambda>h. Inr (upd fresh (\<lambda>d. d\<lparr>n_left := 0, n_right := 0\<rparr>) h)))"

text \<open>Where \<^verbatim>\<open>plast\<close> points: at the tree's root field or at a child field of a node.\<close>

datatype slot = Root | LeftOf addr | RightOf addr

fun tree_put_find :: "nat \<Rightarrow> nheap \<Rightarrow> tree_t \<Rightarrow> map_key \<Rightarrow> addr \<Rightarrow> addr \<Rightarrow> slot \<Rightarrow> (addr \<times> addr \<times> slot) res" where
  "tree_put_find 0 h t key nod parent plast = Inl OutOfFuel"
| "tree_put_find (Suc n) h t key nod parent plast =
     (if nod \<noteq> 0 then
        let diff = t_comp t key (n_key (h nod)) in
        if diff < 0 then tree_put_find n h t key (n_left (h nod)) nod (LeftOf nod)
        else if diff > 0 then tree_put_find n h t key (n_right (h nod)) nod (RightOf nod)
        else Inr (nod, parent, plast)
      else Inr (0, parent, plast))"

fun store_slot :: "slot \<Rightarrow> addr \<Rightarrow> nheap \<Rightarrow> tree_t \<Rightarrow> nheap \<times> tree_t" where
  "store_slot Root p h t = (h, t\<lparr>t_root := p\<rparr>)"
| "store_slot (LeftOf q) p h t = (upd q (n_left_update (\<lambda>_. p)) h, t)"
| "store_slot (RightOf q) p h t = (upd q (n_right_update (\<lambda>_. p)) h, t)"

definition tree_balance :: "nat \<Rightarrow> nat \<Rightarrow> nheap \<Rightarrow> addr \<Rightarrow> nheap res" where
  "tree_balance mode n h p =
     (if mode = TREE_SPLAY then node_splay n h p
      else if mode = TREE_TREAP then node_prioritize n h p
      else if mode = TREE_COUNT then node_count_balance n h p
      else node_simple_balance n h p)"

definition tree_put ::
  "nat \<Rightarrow> nheap \<Rightarrow> tree_t \<Rightarrow> addr \<Rightarrow> map_key \<Rightarrow> map_data \<Rightarrow> (nheap \<times> tree_t \<times> map_data) res" where
  "tree_put n h t fresh key data =
     bindE (tree_verify n h t 0) (\<lambda>_.
     bindE (tree_put_find n h t key (t_root t) 0 Root) (\<lambda>(nod, parent, plast).
     if nod \<noteq> 0 then
       let olddata = n_data (h nod);
           h = upd nod (\<lambda>d. d\<lparr>n_key := key, n_data := data\<rparr>) h
       in bindE (tree_verify n h t nod) (\<lambda>_. Inr (h, t, olddata))
     else
       bindE (tree_node_new n h fresh parent key data) (\<lambda>h.
       let (h, t) = store_slot plast fresh h t in
       bindE (tree_balance (t_mode t) n h fresh) (\<lambda>h.
       let t = (if n_parent (h fresh) = 0 then t\<lparr>t_root := fresh\<rparr> else t) in
       bindE (climb n h (t_root t)) (\<lambda>root.
       let t = t\<lparr>t_root := root\<rparr> in
       bindE (tree_verify n h t 0) (\<lambda>_. Inr (h, t, 0)))))))"

subsection \<open>Lookup\<close>

text \<open>
  \<^verbatim>\<open>tree_get_node\<close> may splay the node it finds, so it returns the heap and the tree too.
\<close>

definition tree_get_hit :: "nat \<Rightarrow> nheap \<Rightarrow> tree_t \<Rightarrow> addr \<Rightarrow> map_eq_test \<Rightarrow> (nheap \<times> tree_t \<times> addr) res" where
  "tree_get_hit n h t nod cond =
     (case cond of
        MAP_LT \<Rightarrow> bindE (node_prev n h nod) (\<lambda>p. Inr (h, t, p))
      | MAP_GT \<Rightarrow> bindE (node_next n h nod) (\<lambda>p. Inr (h, t, p))
      | _ \<Rightarrow>
          if t_mode t = TREE_SPLAY then
            bindE (node_splay n h nod) (\<lambda>h.
            bindE (climb n h (t_root t)) (\<lambda>root. Inr (h, t\<lparr>t_root := root\<rparr>, nod)))
          else Inr (h, t, nod))"

fun tree_get_loop ::
  "nat \<Rightarrow> nat \<Rightarrow> nheap \<Rightarrow> tree_t \<Rightarrow> map_key \<Rightarrow> map_eq_test \<Rightarrow> addr \<Rightarrow> (nheap \<times> tree_t \<times> addr) res" where
  "tree_get_loop 0 m h t key cond nod = Inl OutOfFuel"
| "tree_get_loop (Suc n) m h t key cond nod =
     (if nod \<noteq> 0 then
        let diff = t_comp t key (n_key (h nod)) in
        if diff < 0 then
          if n_left (h nod) \<noteq> 0 then tree_get_loop n m h t key cond (n_left (h nod))
          else (case cond of
                  MAP_GT \<Rightarrow> Inr (h, t, nod) | MAP_GE \<Rightarrow> Inr (h, t, nod)
                | MAP_LT \<Rightarrow> bindE (node_prev m h nod) (\<lambda>p. Inr (h, t, p))
                | MAP_LE \<Rightarrow> bindE (node_prev m h nod) (\<lambda>p. Inr (h, t, p))
                | MAP_EQ \<Rightarrow> Inr (h, t, 0))
        else if diff > 0 then
          if n_right (h nod) \<noteq> 0 then tree_get_loop n m h t key cond (n_right (h nod))
          else (case cond of
                  MAP_GT \<Rightarrow> bindE (node_next m h nod) (\<lambda>p. Inr (h, t, p))
                | MAP_GE \<Rightarrow> bindE (node_next m h nod) (\<lambda>p. Inr (h, t, p))
                | MAP_LT \<Rightarrow> Inr (h, t, nod) | MAP_LE \<Rightarrow> Inr (h, t, nod)
                | MAP_EQ \<Rightarrow> Inr (h, t, 0))
        else tree_get_hit m h t nod cond
      else Inr (h, t, 0))"

definition tree_get_node :: "nat \<Rightarrow> nheap \<Rightarrow> tree_t \<Rightarrow> map_key \<Rightarrow> map_eq_test \<Rightarrow> (nheap \<times> tree_t \<times> addr) res" where
  "tree_get_node n h t key cond = tree_get_loop n n h t key cond (t_root t)"

definition tree_get :: "nat \<Rightarrow> nheap \<Rightarrow> tree_t \<Rightarrow> map_key \<Rightarrow> map_eq_test \<Rightarrow> (nheap \<times> tree_t \<times> map_data) res" where
  "tree_get n h t key cond =
     bindE (tree_get_node n h t key cond) (\<lambda>(h, t, nod).
       Inr (h, t, if nod \<noteq> 0 then n_data (h nod) else 0))"

definition tree_walk_range ::
  "nat \<Rightarrow> nheap \<Rightarrow> tree_t \<Rightarrow> ('p \<Rightarrow> map_key \<Rightarrow> map_data \<Rightarrow> 'p) \<Rightarrow> 'p \<Rightarrow> map_key \<Rightarrow> map_key \<Rightarrow>
   (nheap \<times> tree_t \<times> 'p) res" where
  "tree_walk_range n h t func p from to =
     bindE (tree_get_node n h t from MAP_GE) (\<lambda>(h, t, start).
     bindE (tree_get_node n h t to MAP_LT) (\<lambda>(h, t, end).
     bindE (tree_walk_nodes n h start end func p) (\<lambda>p. Inr (h, t, p))))"

subsection \<open>Removal\<close>

fun bubble_down :: "nat \<Rightarrow> nheap \<Rightarrow> tree_t \<Rightarrow> addr \<Rightarrow> (nheap \<times> tree_t) res" where
  "bubble_down 0 h t nod = Inl OutOfFuel"
| "bubble_down (Suc n) h t nod =
     (if n_left (h nod) \<noteq> 0 \<or> n_right (h nod) \<noteq> 0 then
        bindE (if n_left (h nod) \<noteq> 0 then node_rotate_right h nod else node_rotate_left h nod) (\<lambda>h.
        let t = (if n_parent (h (n_parent (h nod))) = 0 then t\<lparr>t_root := n_parent (h nod)\<rparr> else t) in
        bubble_down n h t nod)
      else Inr (h, t))"

fun count_down :: "nat \<Rightarrow> nheap \<Rightarrow> addr \<Rightarrow> nheap res" where
  "count_down 0 h parent = Inl OutOfFuel"
| "count_down (Suc n) h parent =
     (if parent \<noteq> 0 then
        let h = upd parent (\<lambda>d. d\<lparr>n_count := n_count d - 1\<rparr>) h in count_down n h (n_parent (h parent))
      else Inr h)"

definition tree_unlink :: "nat \<Rightarrow> nheap \<Rightarrow> tree_t \<Rightarrow> addr \<Rightarrow> (nheap \<times> tree_t) res" where
  "tree_unlink n h t nod =
     bindE (bubble_down n h t nod) (\<lambda>(h, t).
     bindE (assertE (n_count (h nod) = 1)) (\<lambda>_.
     let h = (if n_parent (h nod) \<noteq> 0 \<and> nod = n_left (h (n_parent (h nod)))
              then upd (n_parent (h nod)) (n_left_update (\<lambda>_. 0)) h else h);
         h = (if n_parent (h nod) \<noteq> 0 \<and> nod = n_right (h (n_parent (h nod)))
              then upd (n_parent (h nod)) (n_right_update (\<lambda>_. 0)) h else h);
         t = (if n_parent (h nod) = 0 then t\<lparr>t_root := 0\<rparr> else t)
     in bindE (count_down n h (n_parent (h nod))) (\<lambda>h. Inr (h, t))))"

text \<open>
  \<^verbatim>\<open>slab_free(node)\<close> gives the slot back to the allocator (theory \<open>Slab\<close>); the freed
  address is the third component of the result, 0 when no node was removed.
\<close>

fun tree_remove_loop ::
  "nat \<Rightarrow> nat \<Rightarrow> nheap \<Rightarrow> tree_t \<Rightarrow> map_key \<Rightarrow> addr \<Rightarrow> (nheap \<times> tree_t \<times> addr \<times> map_data) res" where
  "tree_remove_loop 0 m h t key nod = Inl OutOfFuel"
| "tree_remove_loop (Suc n) m h t key nod =
     (if nod \<noteq> 0 then
        let diff = t_comp t key (n_key (h nod)) in
        if diff < 0 then tree_remove_loop n m h t key (n_left (h nod))
        else if diff > 0 then tree_remove_loop n m h t key (n_right (h nod))
        else
          let data = n_data (h nod) in
          bindE (tree_unlink m h t nod) (\<lambda>(h, t).
          bindE (tree_verify m h t 0) (\<lambda>_. Inr (h, t, nod, data)))
      else Inr (h, t, 0, 0))"

definition tree_remove :: "nat \<Rightarrow> nheap \<Rightarrow> tree_t \<Rightarrow> map_key \<Rightarrow> (nheap \<times> tree_t \<times> addr \<times> map_data) res" where
  "tree_remove n h t key =
     bindE (tree_verify n h t 0) (\<lambda>_. tree_remove_loop n n h t key (t_root t))"

subsection \<open>Ordinal access and the optimizer\<close>

fun ordinal_loop :: "nat \<Rightarrow> nheap \<Rightarrow> addr \<Rightarrow> int \<Rightarrow> addr res" where
  "ordinal_loop 0 h nod i = Inl OutOfFuel"
| "ordinal_loop (Suc n) h nod i =
     (if nod \<noteq> 0 then
        let count_left = node_count h (n_left (h nod)) in
        if i < count_left then ordinal_loop n h (n_left (h nod)) i
        else if i = count_left then Inr nod
        else ordinal_loop n h (n_right (h nod)) (i - (count_left + 1))
      else Inr 0)"

definition node_ordinal :: "nat \<Rightarrow> nheap \<Rightarrow> addr \<Rightarrow> int \<Rightarrow> addr res" where
  "node_ordinal n h root i =
     (if i \<ge> n_count (h root) then Inl (Throw OutOfBoundsException) else ordinal_loop n h root i)"

fun raise_to :: "nat \<Rightarrow> nheap \<Rightarrow> addr \<Rightarrow> addr \<Rightarrow> nheap res" where
  "raise_to 0 h nod parent = Inl OutOfFuel"
| "raise_to (Suc n) h nod parent =
     (if n_parent (h nod) \<noteq> parent then
        bindE (if node_is_left h nod then node_rotate_right h (n_parent (h nod))
               else node_rotate_left h (n_parent (h nod)))
          (\<lambda>h. raise_to n h nod parent)
      else Inr h)"

fun node_optimize :: "nat \<Rightarrow> nat \<Rightarrow> nheap \<Rightarrow> addr \<Rightarrow> (nheap \<times> addr) res" where
  "node_optimize 0 m h root = Inl OutOfFuel"
| "node_optimize (Suc n) m h root =
     (if root = 0 then Inr (h, 0)
      else
        let parent = n_parent (h root) in
        bindE (node_ordinal m h root (n_count (h root) div 2)) (\<lambda>nod.
        let h = upd nod (n_priority_update (\<lambda>_. if parent \<noteq> 0 then n_priority (h parent) + 10 else 10)) h in
        bindE (raise_to m h nod parent) (\<lambda>h.
        bindE (node_optimize n m h (n_left (h nod))) (\<lambda>(h, l).
        let h = upd nod (n_left_update (\<lambda>_. l)) h in
        bindE (node_optimize n m h (n_right (h nod))) (\<lambda>(h, r).
        Inr (upd nod (n_right_update (\<lambda>_. r)) h, nod))))))"

definition tree_optimize :: "nat \<Rightarrow> nheap \<Rightarrow> tree_t \<Rightarrow> (nheap \<times> tree_t) res" where
  "tree_optimize n h t =
     bindE (node_optimize n n h (t_root t)) (\<lambda>(h, root). Inr (h, t\<lparr>t_root := root\<rparr>))"

subsection \<open>Construction\<close>

definition tree_new :: "(map_key \<Rightarrow> map_key \<Rightarrow> int) option \<Rightarrow> nat \<Rightarrow> tree_t" where
  "tree_new cmp mode =
     \<lparr>t_root = 0, t_mode = mode, t_comp = (case cmp of None \<Rightarrow> map_keycmp | Some c \<Rightarrow> c)\<rparr>"

definition splay_new :: "(map_key \<Rightarrow> map_key \<Rightarrow> int) option \<Rightarrow> tree_t" where
  "splay_new cmp = tree_new cmp TREE_SPLAY"

definition treap_new :: "(map_key \<Rightarrow> map_key \<Rightarrow> int) option \<Rightarrow> tree_t" where
  "treap_new cmp = tree_new cmp TREE_TREAP"

end
