(* ===== verification/Tree_Shape.thy ===== *)
theory Tree_Shape
  imports Tree_Heap
begin

text \<open>
  The abstraction from the node heap to binary trees of addresses, and the proof that
  rotations keep it: \<open>linked\<close>, contexts, framing, and the two rotation theorems.
\<close>

fun rootp :: "addr tree \<Rightarrow> addr" where
  "rootp Leaf = 0"
| "rootp (Node l a r) = a"

fun linked :: "nheap \<Rightarrow> addr \<Rightarrow> addr tree \<Rightarrow> bool" where
  "linked h q Leaf \<longleftrightarrow> True"
| "linked h q (Node l a r) \<longleftrightarrow>
     a \<noteq> 0 \<and> n_parent (h a) = q \<and> n_left (h a) = rootp l \<and> n_right (h a) = rootp r \<and>
     n_count (h a) = 1 + int (size l) + int (size r) \<and> linked h a l \<and> linked h a r"

datatype frame = FL addr "addr tree" | FR "addr tree" addr

fun plug :: "addr tree \<Rightarrow> frame list \<Rightarrow> addr tree" where
  "plug t [] = t"
| "plug t (FL a r # c) = plug (Node t a r) c"
| "plug t (FR l a # c) = plug (Node l a t) c"

fun ctxp :: "frame list \<Rightarrow> addr" where
  "ctxp [] = 0"
| "ctxp (FL a r # c) = a"
| "ctxp (FR l a # c) = a"

text \<open>The nodes before and after the hole, in order.\<close>

fun lctx :: "frame list \<Rightarrow> addr list" where
  "lctx [] = []"
| "lctx (FL a r # c) = lctx c"
| "lctx (FR l a # c) = lctx c @ inorder l @ [a]"

fun rctx :: "frame list \<Rightarrow> addr list" where
  "rctx [] = []"
| "rctx (FL a r # c) = a # inorder r @ rctx c"
| "rctx (FR l a # c) = rctx c"

fun linkc :: "nheap \<Rightarrow> addr \<Rightarrow> nat \<Rightarrow> frame list \<Rightarrow> bool" where
  "linkc h p n [] \<longleftrightarrow> True"
| "linkc h p n (FL a r # c) \<longleftrightarrow>
     a \<noteq> 0 \<and> n_parent (h a) = ctxp c \<and> n_left (h a) = p \<and> n_right (h a) = rootp r \<and>
     n_count (h a) = 1 + int n + int (size r) \<and> linked h a r \<and> linkc h a (1 + n + size r) c"
| "linkc h p n (FR l a # c) \<longleftrightarrow>
     a \<noteq> 0 \<and> n_parent (h a) = ctxp c \<and> n_left (h a) = rootp l \<and> n_right (h a) = p \<and>
     n_count (h a) = 1 + int (size l) + int n \<and> linked h a l \<and> linkc h a (1 + size l + n) c"

lemma inorder_plug: "inorder (plug t c) = lctx c @ inorder t @ rctx c"
  by (induction t c rule: plug.induct) simp_all

lemma plug_append: "plug t (c @ c') = plug (plug t c) c'"
  by (induction t c rule: plug.induct) simp_all

lemma size_plug: "size (plug t c) = size t + size (plug Leaf c)"
proof -
  have "length (inorder (plug t c)) = length (inorder t) + length (inorder (plug Leaf c))"
    by (simp add: inorder_plug)
  then show ?thesis by (simp add: length_inorder)
qed

lemma linked_plug: "linked h 0 (plug t c) \<longleftrightarrow> linked h (ctxp c) t \<and> linkc h (rootp t) (size t) c"
  by (induction t c rule: plug.induct) (auto simp: add_ac)

lemma rootp_0_iff: "linked h q t \<Longrightarrow> rootp t = 0 \<longleftrightarrow> t = Leaf"
  by (cases t) auto

lemma rootp_in: "t \<noteq> Leaf \<Longrightarrow> rootp t \<in> set_tree t"
  by (cases t) auto

lemma linked_nz: "linked h q t \<Longrightarrow> 0 \<notin> set_tree t"
  by (induction h q t rule: linked.induct) auto

lemma linked_count: "linked h q t \<Longrightarrow> node_count h (rootp t) = int (size t)"
  by (cases t) (auto simp: node_count_def)

lemma ctxp_0_iff: "linkc h p n c \<Longrightarrow> ctxp c = 0 \<longleftrightarrow> c = []"
  by (cases c rule: ctxp.cases) auto

subsection \<open>Framing\<close>

definition same_links :: "nheap \<Rightarrow> nheap \<Rightarrow> addr set \<Rightarrow> bool" where
  "same_links h h' A \<longleftrightarrow> (\<forall>a\<in>A. n_parent (h' a) = n_parent (h a) \<and> n_left (h' a) = n_left (h a) \<and>
     n_right (h' a) = n_right (h a) \<and> n_count (h' a) = n_count (h a))"

lemma linked_cong: "same_links h h' (set_tree t) \<Longrightarrow> linked h' q t = linked h q t"
  by (induction t arbitrary: q) (auto simp: same_links_def)

lemma linked_reparent:
  assumes "linked h q t" "distinct (inorder t)"
    and "same_links h h' (set_tree t - {rootp t})"
    and "t \<noteq> Leaf \<Longrightarrow> n_parent (h' (rootp t)) = q' \<and> n_left (h' (rootp t)) = n_left (h (rootp t)) \<and>
           n_right (h' (rootp t)) = n_right (h (rootp t)) \<and> n_count (h' (rootp t)) = n_count (h (rootp t))"
  shows "linked h' q' t"
proof (cases t)
  case (Node l a r)
  have "same_links h h' (set_tree l)" "same_links h h' (set_tree r)"
    using assms(2,3) Node by (auto simp: same_links_def)
  then show ?thesis using assms(1,4) Node by (simp add: linked_cong)
qed simp

lemma linkc_cong:
  "same_links h h' (set (lctx c) \<union> set (rctx c)) \<Longrightarrow> linkc h' p n c = linkc h p n c"
proof (induction h' p n c rule: linkc.induct)
  case (2 h' p n a r c)
  then have "same_links h h' (set_tree r)" "same_links h h' (set (lctx c) \<union> set (rctx c))"
    "same_links h h' {a}"
    by (auto simp: same_links_def)
  with "2.IH" show ?case by (simp add: linked_cong) (auto simp: same_links_def)
next
  case (3 h' p n l a c)
  then have "same_links h h' (set_tree l)" "same_links h h' (set (lctx c) \<union> set (rctx c))"
    "same_links h h' {a}"
    by (auto simp: same_links_def)
  with "3.IH" show ?case by (simp add: linked_cong) (auto simp: same_links_def)
qed simp

text \<open>Replacing the child pointer of the innermost frame.\<close>

lemma linkc_replace:
  assumes "linkc h p n c" "distinct (lctx c @ rctx c)"
    and "same_links h h' (set (lctx c) \<union> set (rctx c) - {ctxp c})"
    and "c \<noteq> [] \<Longrightarrow> n_parent (h' (ctxp c)) = n_parent (h (ctxp c)) \<and>
           n_count (h' (ctxp c)) = n_count (h (ctxp c)) \<and>
           (case hd c of
              FL a r \<Rightarrow> n_left (h' a) = p' \<and> n_right (h' a) = n_right (h a)
            | FR l a \<Rightarrow> n_left (h' a) = n_left (h a) \<and> n_right (h' a) = p')"
  shows "linkc h' p' n c"
proof (cases c rule: ctxp.cases)
  case (2 a r c')
  then have "same_links h h' (set_tree r)" "same_links h h' (set (lctx c') \<union> set (rctx c'))"
    using assms(2,3) by (auto simp: same_links_def)
  with assms 2 show ?thesis by (simp add: linked_cong linkc_cong)
next
  case (3 l a c')
  then have "same_links h h' (set_tree l)" "same_links h h' (set (lctx c') \<union> set (rctx c'))"
    using assms(2,3) by (auto simp: same_links_def)
  with assms 3 show ?thesis by (simp add: linked_cong linkc_cong)
qed simp

text \<open>The zipper invariant: the tree \<open>t\<close> in context \<open>c\<close> is what the heap links.\<close>

definition zinv :: "nheap \<Rightarrow> addr tree \<Rightarrow> frame list \<Rightarrow> bool" where
  "zinv h t c \<longleftrightarrow> linked h 0 (plug t c) \<and> distinct (inorder (plug t c))"

definition payload :: "nheap \<Rightarrow> addr \<Rightarrow> map_key \<times> map_data" where
  "payload h a = (n_key (h a), n_data (h a))"

subsection \<open>Rotations\<close>

text \<open>
  \<open>rewired h h' b d q x s\<close>: \<open>h'\<close> differs from \<open>h\<close> at most in the links of the two
  rotated nodes \<open>b\<close>, \<open>d\<close>, the parent link of the subtree \<open>x\<close> that changes sides (now
  below \<open>s\<close>), and the child link of the parent \<open>q\<close>, where \<open>new\<close> takes the place of
  \<open>old\<close>.
\<close>

definition rewired :: "nheap \<Rightarrow> nheap \<Rightarrow> addr \<Rightarrow> addr \<Rightarrow> addr \<Rightarrow> addr \<Rightarrow> addr \<Rightarrow> addr \<Rightarrow> addr \<Rightarrow> bool" where
  "rewired h h' b d q x s old new \<longleftrightarrow>
     (\<forall>a. a \<notin> {b, d, q, x} \<longrightarrow> h' a = h a) \<and> payload h' = payload h \<and>
     (\<forall>a. n_priority (h' a) = n_priority (h a)) \<and>
     (x \<noteq> 0 \<longrightarrow> h' x = (h x)\<lparr>n_parent := s\<rparr>) \<and>
     (q \<noteq> 0 \<longrightarrow> h' q = (if n_left (h q) = old then (h q)\<lparr>n_left := new\<rparr> else (h q)\<lparr>n_right := new\<rparr>))"


lemma node_rotate_left_run:
  assumes nz: "b \<noteq> 0" "d \<noteq> 0" and ne: "b \<noteq> d" "d \<noteq> b" "c \<noteq> b" "b \<noteq> c" "c \<noteq> d" "d \<noteq> c"
    "q \<noteq> b" "b \<noteq> q" "q \<noteq> d" "d \<noteq> q" "a \<noteq> b" "a \<noteq> d" "e \<noteq> b" "e \<noteq> d"
    and q: "q = 0 \<or> q \<noteq> c"
    and hb: "n_left (h b) = a" "n_right (h b) = d" "n_parent (h b) = q"
    and hd: "n_left (h d) = c" "n_right (h d) = e" "n_parent (h d) = b"
    and cd: "c = 0 \<or> n_parent (h c) = d" and qb: "q = 0 \<or> n_left (h q) = b \<or> n_right (h q) = b"
  shows "\<exists>h'. node_rotate_left h b = Inr h' \<and> rewired h h' b d q c b b d \<and>
    n_parent (h' b) = d \<and> n_left (h' b) = a \<and> n_right (h' b) = c \<and>
    n_count (h' b) = 1 + node_count h a + node_count h c \<and>
    n_parent (h' d) = q \<and> n_left (h' d) = b \<and> n_right (h' d) = e \<and>
    n_count (h' d) = 1 + (1 + node_count h a + node_count h c) + node_count h e"
proof -
  define h4 where "h4 = h(d := (h d)\<lparr>n_parent := q, n_left := b\<rparr>, b := (h b)\<lparr>n_parent := d, n_right := c\<rparr>)"
  define h5 where "h5 = (if c \<noteq> 0 then h4(c := (h c)\<lparr>n_parent := b\<rparr>) else h4)"
  define h6 where "h6 = (if q \<noteq> 0 then
     h5(q := if n_left (h q) = b then (h q)\<lparr>n_left := d\<rparr> else (h q)\<lparr>n_right := d\<rparr>) else h5)"
  define h8 where "h8 = h6(b := (h6 b)\<lparr>n_count := 1 + node_count h a + node_count h c\<rparr>,
     d := (h6 d)\<lparr>n_count := 1 + (1 + node_count h a + node_count h c) + node_count h e\<rparr>)"
  have h4: "h4 b = (h b)\<lparr>n_parent := d, n_right := c\<rparr>" "h4 d = (h d)\<lparr>n_parent := q, n_left := b\<rparr>"
    "\<And>x. x \<noteq> b \<Longrightarrow> x \<noteq> d \<Longrightarrow> h4 x = h x"
    by (simp_all add: h4_def ne)
  have h5: "h5 b = h4 b" "h5 d = h4 d" "h5 q = h q"
    using q by (auto simp: h5_def h4 ne)
  have h6: "h6 b = h4 b" "h6 d = h4 d" 
    by (simp_all add: h6_def h5 ne)
  have cnt6: "node_count h6 x = node_count h x" if "x \<noteq> b" "x \<noteq> d" for x
    using q by (simp add: node_count_def h6_def h5_def h4 ne that)
  have s1: "upd b (n_right_update (\<lambda>_. c)) (upd d (n_left_update (\<lambda>_. b))
      (upd b (n_parent_update (\<lambda>_. d)) (upd d (n_parent_update (\<lambda>_. q)) h))) = h4"
    by (simp add: upd_def fun_eq_iff h4_def ne)
  have s2: "reparent c b h4 = h5"
    by (simp add: reparent_def upd_def h5_def h4 ne)
  have s3: "replace_child q b d h5 = h6"
    by (auto simp: replace_child_def upd_def h6_def h5)
  have s4: "upd d (n_count_update (\<lambda>_. 1 + (1 + node_count h a + node_count h c) + node_count h e))
      (upd b (n_count_update (\<lambda>_. 1 + node_count h a + node_count h c)) h6) = h8"
    by (simp add: upd_def h8_def ne)
  have sel: "n_right (h4 b) = c" "n_parent (h5 d) = q"
    "n_count (upd b (n_count_update (\<lambda>_. 1 + node_count h a + node_count h c)) h6 b) = 1 + node_count h a + node_count h c"
    "node_count (upd b (n_count_update (\<lambda>_. 1 + node_count h a + node_count h c)) h6) e = node_count h e"
    using cnt6 [of e] by (simp_all add: h4 h5 upd_def node_count_def ne split: if_splits)
  have cp: "child_of_parent h b" "child_of_parent h8 d"
    using qb by (auto simp: child_of_parent_def hb h8_def h6_def h5_def h4 ne)

  have "node_rotate_left h b = Inr h8"
    unfolding node_rotate_left_def
    by (simp only: Let_def hb hd nz cd cp s1 s2 s3 s4 sel cnt6 ne not_False_eq_True
       if_False if_True simp_thms bindE_simps assertE_simps)
  moreover have "rewired h h8 b d q c b b d"
    using q by (auto simp: rewired_def payload_def fun_eq_iff h8_def h6_def h5_def h4_def ne)
  ultimately show ?thesis
    by (simp add: h8_def h6 h4 hb hd ne)
qed


lemma node_rotate_right_run:
  assumes nz: "d \<noteq> 0" "b \<noteq> 0" and ne: "d \<noteq> b" "b \<noteq> d" "c \<noteq> d" "d \<noteq> c" "c \<noteq> b" "b \<noteq> c"
    "q \<noteq> d" "d \<noteq> q" "q \<noteq> b" "b \<noteq> q" "e \<noteq> d" "e \<noteq> b" "a \<noteq> d" "a \<noteq> b"
    and q: "q = 0 \<or> q \<noteq> c"
    and hd: "n_right (h d) = e" "n_left (h d) = b" "n_parent (h d) = q"
    and hb: "n_right (h b) = c" "n_left (h b) = a" "n_parent (h b) = d"
    and cd: "c = 0 \<or> n_parent (h c) = b" and qb: "q = 0 \<or> n_left (h q) = d \<or> n_right (h q) = d"
  shows "\<exists>h'. node_rotate_right h d = Inr h' \<and> rewired h h' d b q c d d b \<and>
    n_parent (h' d) = b \<and> n_right (h' d) = e \<and> n_left (h' d) = c \<and>
    n_count (h' d) = 1 + node_count h c + node_count h e \<and>
    n_parent (h' b) = q \<and> n_right (h' b) = d \<and> n_left (h' b) = a \<and>
    n_count (h' b) = 1 + (1 + node_count h c + node_count h e) + node_count h a"
proof -
  define h4 where "h4 = h(b := (h b)\<lparr>n_parent := q, n_right := d\<rparr>, d := (h d)\<lparr>n_parent := b, n_left := c\<rparr>)"
  define h5 where "h5 = (if c \<noteq> 0 then h4(c := (h c)\<lparr>n_parent := d\<rparr>) else h4)"
  define h6 where "h6 = (if q \<noteq> 0 then
     h5(q := if n_left (h q) = d then (h q)\<lparr>n_left := b\<rparr> else (h q)\<lparr>n_right := b\<rparr>) else h5)"
  define h8 where "h8 = h6(d := (h6 d)\<lparr>n_count := 1 + node_count h c + node_count h e\<rparr>,
     b := (h6 b)\<lparr>n_count := 1 + (1 + node_count h c + node_count h e) + node_count h a\<rparr>)"
  have h4: "h4 d = (h d)\<lparr>n_parent := b, n_left := c\<rparr>" "h4 b = (h b)\<lparr>n_parent := q, n_right := d\<rparr>"
    "\<And>x. x \<noteq> d \<Longrightarrow> x \<noteq> b \<Longrightarrow> h4 x = h x"
    by (simp_all add: h4_def ne)
  have h5: "h5 d = h4 d" "h5 b = h4 b" "h5 q = h q"
    using q by (auto simp: h5_def h4 ne)
  have h6: "h6 d = h4 d" "h6 b = h4 b" 
    by (simp_all add: h6_def h5 ne)
  have cnt6: "node_count h6 x = node_count h x" if "x \<noteq> d" "x \<noteq> b" for x
    using q by (simp add: node_count_def h6_def h5_def h4 ne that)
  have s1: "upd d (n_left_update (\<lambda>_. c)) (upd b (n_right_update (\<lambda>_. d))
      (upd d (n_parent_update (\<lambda>_. b)) (upd b (n_parent_update (\<lambda>_. q)) h))) = h4"
    by (simp add: upd_def fun_eq_iff h4_def ne)
  have s2: "reparent c d h4 = h5"
    by (simp add: reparent_def upd_def h5_def h4 ne)
  have s3: "replace_child q d b h5 = h6"
    by (auto simp: replace_child_def upd_def h6_def h5)
  have s4: "upd b (n_count_update (\<lambda>_. 1 + (1 + node_count h c + node_count h e) + node_count h a))
      (upd d (n_count_update (\<lambda>_. 1 + node_count h c + node_count h e)) h6) = h8"
    by (simp add: upd_def h8_def ne)
  have sel: "n_left (h4 d) = c" "n_parent (h5 b) = q"
    "n_count (upd d (n_count_update (\<lambda>_. 1 + node_count h c + node_count h e)) h6 d) = 1 + node_count h c + node_count h e"
    "node_count (upd d (n_count_update (\<lambda>_. 1 + node_count h c + node_count h e)) h6) a = node_count h a"
    using cnt6 [of a] by (simp_all add: h4 h5 upd_def node_count_def ne split: if_splits)
  have cp: "child_of_parent h d" "child_of_parent h8 b"
    using qb by (auto simp: child_of_parent_def hd h8_def h6_def h5_def h4 ne)

  have "node_rotate_right h d = Inr h8"
    unfolding node_rotate_right_def
    by (simp only: Let_def hd hb nz cd cp s1 s2 s3 s4 sel cnt6 ne not_False_eq_True
       if_False if_True simp_thms bindE_simps assertE_simps)
  moreover have "rewired h h8 d b q c d d b"
    using q by (auto simp: rewired_def payload_def fun_eq_iff h8_def h6_def h5_def h4_def ne)
  ultimately show ?thesis
    by (simp add: h8_def h6 h4 hd hb ne)
qed


lemma rootp_neq: "x \<noteq> 0 \<Longrightarrow> x \<notin> set_tree t \<Longrightarrow> rootp t \<noteq> x"
  by (cases t) auto

lemma ctxp_in: "c \<noteq> [] \<Longrightarrow> ctxp c \<in> set (lctx c) \<union> set (rctx c)"
  by (cases c rule: ctxp.cases) auto

lemma ctxp_neq: "x \<noteq> 0 \<Longrightarrow> x \<notin> set (lctx c) \<union> set (rctx c) \<Longrightarrow> ctxp c \<noteq> x"
  by (cases c rule: ctxp.cases) auto

lemma ctxp_child: "linkc h p n c \<Longrightarrow> ctxp c = 0 \<or> n_left (h (ctxp c)) = p \<or> n_right (h (ctxp c)) = p"
  by (cases c rule: ctxp.cases) auto

text \<open>A rewired heap links the context to the new child and keeps every untouched subtree.\<close>

lemma rewired_same:
  "rewired h h' b d q x s old new \<Longrightarrow> a \<noteq> b \<Longrightarrow> a \<noteq> d \<Longrightarrow> a \<noteq> q \<Longrightarrow> a \<noteq> x \<Longrightarrow> h' a = h a"
  by (simp add: rewired_def)

lemma rewired_tree:
  assumes rw: "rewired h h' b d q x s old new" and lk: "linked h r t"
    and "b \<notin> set_tree t" "d \<notin> set_tree t" "q \<notin> set_tree t" "x \<notin> set_tree t"
  shows "linked h' r t"
proof -
  have "h' a = h a" if "a \<in> set_tree t" for a
    by (rule rewired_same [OF rw]) (use assms that in blast)+
  then show ?thesis using linked_cong [of h h' t r] lk by (simp add: same_links_def)
qed

lemma rewired_moved:
  assumes rw: "rewired h h' b d q (rootp t) s old new" and lk: "linked h r t" and d: "distinct (inorder t)"
    and nin: "b \<notin> set_tree t" "d \<notin> set_tree t" "q \<notin> set_tree t"
  shows "linked h' s t"
proof (rule linked_reparent [OF lk d])
  have "h' a = h a" if "a \<in> set_tree t - {rootp t}" for a
    by (rule rewired_same [OF rw]) (use nin that in blast)+
  then show "same_links h h' (set_tree t - {rootp t})" by (simp add: same_links_def)
  assume "t \<noteq> Leaf"
  then have "rootp t \<noteq> 0" using lk rootp_0_iff by blast
  then have "h' (rootp t) = (h (rootp t))\<lparr>n_parent := s\<rparr>" using rw by (simp add: rewired_def)
  then show "n_parent (h' (rootp t)) = s \<and> n_left (h' (rootp t)) = n_left (h (rootp t)) \<and>
    n_right (h' (rootp t)) = n_right (h (rootp t)) \<and> n_count (h' (rootp t)) = n_count (h (rootp t))"
    by simp
qed

lemma rewired_linkc:
  assumes rw: "rewired h h' b d (ctxp c) x s p p'" and lk: "linkc h p n c"
    and dj: "distinct (lctx c @ rctx c)"
    and nin: "\<And>a. a \<in> set (lctx c) \<union> set (rctx c) \<Longrightarrow> a \<noteq> b \<and> a \<noteq> d \<and> a \<noteq> x \<and> a \<noteq> p"
    and nz: "p \<noteq> 0"
  shows "linkc h' p' n c"
proof (rule linkc_replace [OF lk dj])
  have "h' a = h a" if "a \<in> set (lctx c) \<union> set (rctx c) - {ctxp c}" for a
    by (rule rewired_same [OF rw]) (use nin that in blast)+
  then show "same_links h h' (set (lctx c) \<union> set (rctx c) - {ctxp c})"
    by (simp add: same_links_def)
next
  assume c: "c \<noteq> []"
  then have "ctxp c \<noteq> 0" using lk ctxp_0_iff by blast
  then have q: "h' (ctxp c) = (if n_left (h (ctxp c)) = p then (h (ctxp c))\<lparr>n_left := p'\<rparr>
      else (h (ctxp c))\<lparr>n_right := p'\<rparr>)"
    using rw by (simp add: rewired_def)
  show "n_parent (h' (ctxp c)) = n_parent (h (ctxp c)) \<and> n_count (h' (ctxp c)) = n_count (h (ctxp c)) \<and>
    (case hd c of FL a r \<Rightarrow> n_left (h' a) = p' \<and> n_right (h' a) = n_right (h a)
     | FR l a \<Rightarrow> n_left (h' a) = n_left (h a) \<and> n_right (h' a) = p')"
  proof (cases c rule: ctxp.cases)
    case (2 a r c')
    with lk q show ?thesis by simp
  next
    case (3 l a c')
    then have "p \<notin> set_tree l" using nin by auto
    then have "rootp l \<noteq> p" using nz rootp_neq by blast
    with 3 lk q show ?thesis by simp
  qed (use c in simp)
qed

lemma zinv_unfold:
  "zinv h t c \<longleftrightarrow> linked h (ctxp c) t \<and> linkc h (rootp t) (size t) c \<and>
     distinct (inorder t) \<and> distinct (lctx c @ rctx c) \<and>
     set_tree t \<inter> (set (lctx c) \<union> set (rctx c)) = {}"
  unfolding zinv_def linked_plug inorder_plug by (auto simp: distinct_append)

definition same_payload :: "nheap \<Rightarrow> nheap \<Rightarrow> bool" where
  "same_payload h h' \<longleftrightarrow> payload h' = payload h \<and> (\<forall>a. n_priority (h' a) = n_priority (h a))"

lemma same_payload_refl [simp]: "same_payload h h"
  by (simp add: same_payload_def)

lemma same_payload_trans [trans]: "same_payload h h' \<Longrightarrow> same_payload h' h'' \<Longrightarrow> same_payload h h''"
  by (simp add: same_payload_def)

lemma rewired_payload: "rewired h h' b d q x s old new \<Longrightarrow> same_payload h h'"
  by (simp add: rewired_def same_payload_def)

lemma linkc_nz: "linkc h p n c \<Longrightarrow> 0 \<notin> set (lctx c) \<union> set (rctx c)"
  by (induction h p n c rule: linkc.induct) (auto dest: linked_nz)

lemma ctxp_fresh:
  assumes "linkc h p n c" "T \<inter> (set (lctx c) \<union> set (rctx c)) = {}" "0 \<notin> T"
  shows "ctxp c \<notin> T"
proof (cases "c = []")
  case False
  with assms(2) ctxp_in [of c] show ?thesis by blast
qed (use assms(3) in simp)

lemma node_rotate_left_zinv:
  assumes z: "zinv h (Node A b (Node C d E)) c"
  shows "\<exists>h'. node_rotate_left h b = Inr h' \<and> zinv h' (Node (Node A b C) d E) c \<and> same_payload h h'"
proof -
  let ?T = "set_tree (Node A b (Node C d E))"
  have lk: "linked h (ctxp c) (Node A b (Node C d E))"
    and lc: "linkc h b (size (Node A b (Node C d E))) c"
    and dc: "distinct (lctx c @ rctx c)" and dt: "distinct (inorder (Node A b (Node C d E)))"
    and dj: "?T \<inter> (set (lctx c) \<union> set (rctx c)) = {}"
    using z by (auto simp: zinv_unfold)
  have lA: "linked h b A" and lC: "linked h d C" and lE: "linked h d E" and nz: "b \<noteq> 0" "d \<noteq> 0"
    using lk by auto
  have n0: "0 \<notin> ?T" using linked_nz [OF lk] .
  have qn: "ctxp c \<notin> ?T" by (rule ctxp_fresh [OF lc dj n0])
  have dis: "b \<notin> set_tree A" "d \<notin> set_tree A" "b \<notin> set_tree C" "d \<notin> set_tree C"
    "b \<notin> set_tree E" "d \<notin> set_tree E" "b \<noteq> d" "set_tree A \<inter> set_tree C = {}"
    "set_tree C \<inter> set_tree E = {}" "distinct (inorder C)" using dt by auto
  have rC: "rootp C \<notin> set_tree A" "rootp C \<notin> set_tree E" "ctxp c = 0 \<or> ctxp c \<noteq> rootp C"
    "\<And>a. a \<in> set (lctx c) \<union> set (rctx c) \<Longrightarrow> a \<noteq> 0 \<Longrightarrow> a \<noteq> rootp C"
    using rootp_in [of C] dis n0 qn dj by (cases "C = Leaf"; auto)+
  note rn = rootp_neq [OF nz(1)] rootp_neq [OF nz(2)]
  have neq: "ctxp c \<noteq> b" "ctxp c \<noteq> d" using qn by auto
  obtain h' where h': "node_rotate_left h b = Inr h'"
    and rw: "rewired h h' b d (ctxp c) (rootp C) b b d"
    and fb: "n_parent (h' b) = d" "n_left (h' b) = rootp A" "n_right (h' b) = rootp C"
      "n_count (h' b) = 1 + node_count h (rootp A) + node_count h (rootp C)"
    and fd: "n_parent (h' d) = ctxp c" "n_left (h' d) = b" "n_right (h' d) = rootp E"
      "n_count (h' d) = 1 + (1 + node_count h (rootp A) + node_count h (rootp C)) + node_count h (rootp E)"
    using node_rotate_left_run [of b d "rootp C" "ctxp c" "rootp A" "rootp E" h]
      lk lC ctxp_child [OF lc] nz dis rn neq rC(3)
    by (cases C) auto
  have "linked h' b A" "linked h' d E"
    using rewired_tree [OF rw lA] rewired_tree [OF rw lE] dis qn rC by auto
  moreover have "linked h' b C"
    using rewired_moved [OF rw lC] dis qn by auto
  moreover have "linkc h' d (size (Node A b (Node C d E))) c"
  proof (rule rewired_linkc [OF rw lc dc])
    fix a assume a: "a \<in> set (lctx c) \<union> set (rctx c)"
    have "a \<noteq> 0" using linkc_nz [OF lc] a by metis
    with a rC(4) dj show "a \<noteq> b \<and> a \<noteq> d \<and> a \<noteq> rootp C \<and> a \<noteq> b" by auto
  qed (rule nz)
  ultimately have "zinv h' (Node (Node A b C) d E) c"
    using fb fd nz dt dc dj linked_count [OF lA] linked_count [OF lC] linked_count [OF lE]
    by (auto simp: zinv_unfold add_ac)
  with h' rewired_payload [OF rw] show ?thesis by blast
qed

lemma node_rotate_right_zinv:
  assumes z: "zinv h (Node (Node A b C) d E) c"
  shows "\<exists>h'. node_rotate_right h d = Inr h' \<and> zinv h' (Node A b (Node C d E)) c \<and> same_payload h h'"
proof -
  let ?T = "set_tree (Node (Node A b C) d E)"
  have lk: "linked h (ctxp c) (Node (Node A b C) d E)"
    and lc: "linkc h d (size (Node (Node A b C) d E)) c"
    and dc: "distinct (lctx c @ rctx c)" and dt: "distinct (inorder (Node (Node A b C) d E))"
    and dj: "?T \<inter> (set (lctx c) \<union> set (rctx c)) = {}"
    using z by (auto simp: zinv_unfold)
  have lE: "linked h d E" and lC: "linked h b C" and lA: "linked h b A" and nz: "d \<noteq> 0" "b \<noteq> 0"
    using lk by auto
  have n0: "0 \<notin> ?T" using linked_nz [OF lk] .
  have qn: "ctxp c \<notin> ?T" by (rule ctxp_fresh [OF lc dj n0])
  have dis: "d \<notin> set_tree E" "b \<notin> set_tree E" "d \<notin> set_tree C" "b \<notin> set_tree C"
    "d \<notin> set_tree A" "b \<notin> set_tree A" "d \<noteq> b" "set_tree E \<inter> set_tree C = {}"
    "set_tree C \<inter> set_tree A = {}" "distinct (inorder C)" using dt by auto
  have rC: "rootp C \<notin> set_tree E" "rootp C \<notin> set_tree A" "ctxp c = 0 \<or> ctxp c \<noteq> rootp C"
    "\<And>a. a \<in> set (lctx c) \<union> set (rctx c) \<Longrightarrow> a \<noteq> 0 \<Longrightarrow> a \<noteq> rootp C"
    using rootp_in [of C] dis n0 qn dj by (cases "C = Leaf"; auto)+
  note rn = rootp_neq [OF nz(1)] rootp_neq [OF nz(2)]
  have neq: "ctxp c \<noteq> d" "ctxp c \<noteq> b" using qn by auto
  obtain h' where h': "node_rotate_right h d = Inr h'"
    and rw: "rewired h h' d b (ctxp c) (rootp C) d d b"
    and fd: "n_parent (h' d) = b" "n_right (h' d) = rootp E" "n_left (h' d) = rootp C"
      "n_count (h' d) = 1 + node_count h (rootp C) + node_count h (rootp E)"
    and fb: "n_parent (h' b) = ctxp c" "n_right (h' b) = d" "n_left (h' b) = rootp A"
      "n_count (h' b) = 1 + (1 + node_count h (rootp C) + node_count h (rootp E)) + node_count h (rootp A)"
    using node_rotate_right_run [of d b "rootp C" "ctxp c" "rootp E" "rootp A" h]
      lk lC ctxp_child [OF lc] nz dis rn neq rC(3)
    by (cases C) auto
  have "linked h' d E" "linked h' b A"
    using rewired_tree [OF rw lE] rewired_tree [OF rw lA] dis qn rC by auto
  moreover have "linked h' d C"
    using rewired_moved [OF rw lC] dis qn by auto
  moreover have "linkc h' b (size (Node (Node A b C) d E)) c"
  proof (rule rewired_linkc [OF rw lc dc])
    fix a assume a: "a \<in> set (lctx c) \<union> set (rctx c)"
    have "a \<noteq> 0" using linkc_nz [OF lc] a by metis
    with a rC(4) dj show "a \<noteq> d \<and> a \<noteq> b \<and> a \<noteq> rootp C \<and> a \<noteq> d" by auto
  qed (rule nz)
  ultimately have "zinv h' (Node A b (Node C d E)) c"
    using fd fb nz dt dc dj linked_count [OF lE] linked_count [OF lC] linked_count [OF lA]
    by (auto simp: zinv_unfold add_ac)
  with h' rewired_payload [OF rw] show ?thesis by blast
qed


end
