(* ===== verification/Tree_Balance.thy ===== *)
theory Tree_Balance
  imports Tree_Shape
begin

text \<open>
  The four rebalancing strategies of \<^verbatim>\<open>tree_put\<close>. Each runs to its end on every
  well-linked tree, without failing an assertion, and leaves a well-linked tree with
  the same nodes in the same order: \<open>yields\<close> states that for one run.
\<close>

definition yields :: "nheap res \<Rightarrow> nheap \<Rightarrow> addr tree \<Rightarrow> frame list \<Rightarrow> bool" where
  "yields m h t c \<longleftrightarrow> (\<exists>h'. m = Inr h' \<and> zinv h' t c \<and> same_payload h h')"

lemma yieldsE:
  assumes "yields m h t c" obtains h' where "m = Inr h'" "zinv h' t c" "same_payload h h'"
  using assms by (auto simp: yields_def)

lemma yields_bind:
  assumes "yields m h t c" "\<And>h'. zinv h' t c \<Longrightarrow> same_payload h h' \<Longrightarrow> yields (f h') h' t' c'"
  shows "yields (bindE m f) h t' c'"
  using assms same_payload_trans by (fastforce simp: yields_def)

lemma yields_Inr: "zinv h t c \<Longrightarrow> yields (Inr h) h t c"
  by (simp add: yields_def)

lemma zinv_FL: "zinv h t (FL a r # c) \<longleftrightarrow> zinv h (Node t a r) c"
  and zinv_FR: "zinv h t (FR l a # c) \<longleftrightarrow> zinv h (Node l a t) c"
  by (simp_all add: zinv_def)

lemma zinv_parent: "zinv h (Node A x B) c \<Longrightarrow> n_parent (h x) = ctxp c"
  by (simp add: zinv_unfold)

lemma zinv_nz: "zinv h (Node A x B) c \<Longrightarrow> x \<noteq> 0"
  by (simp add: zinv_unfold)

lemma zinv_ctxp_nz: "zinv h t c \<Longrightarrow> ctxp c = 0 \<longleftrightarrow> c = []"
  by (auto simp: zinv_unfold dest: ctxp_0_iff)

lemma zinv_is_left: "zinv h (Node A x B) c \<Longrightarrow> node_is_left h x \<longleftrightarrow> (\<exists>p r c'. c = FL p r # c')"
  and zinv_is_right: "zinv h (Node A x B) c \<Longrightarrow> node_is_right h x \<longleftrightarrow> (\<exists>l p c'. c = FR l p # c')"
  by (cases c rule: ctxp.cases;
      auto simp: zinv_unfold node_is_left_def node_is_right_def rootp_neq [symmetric])+

lemmas zinv_node = zinv_parent zinv_is_left zinv_is_right

text \<open>Rotating a node above its parent.\<close>

lemma rotate_up_left:
  "zinv h (Node A x B) (FL p r # c) \<Longrightarrow> yields (node_rotate_right h p) h (Node A x (Node B p r)) c"
  by (simp add: yields_def zinv_FL node_rotate_right_zinv)

lemma rotate_up_right:
  "zinv h (Node A x B) (FR l p # c) \<Longrightarrow> yields (node_rotate_left h p) h (Node (Node l p A) x B) c"
  by (simp add: yields_def zinv_FR node_rotate_left_zinv)


subsection \<open>Splay\<close>

text \<open>One iteration of the splay loop: the node moves up by one or two levels.\<close>

definition splay_step :: "nheap \<Rightarrow> addr \<Rightarrow> nheap res" where
  "splay_step h p =
     (if node_is_left h p then
        if node_is_left h (n_parent (h p)) then
          bindE (node_rotate_right h (n_parent (h (n_parent (h p))))) (\<lambda>h.
            node_rotate_right h (n_parent (h p)))
        else if node_is_right h (n_parent (h p)) then
          bindE (node_rotate_right h (n_parent (h p))) (\<lambda>h. node_rotate_left h (n_parent (h p)))
        else node_rotate_right h (n_parent (h p))
      else if node_is_right h p then
        if node_is_right h (n_parent (h p)) then
          bindE (node_rotate_left h (n_parent (h (n_parent (h p))))) (\<lambda>h.
            node_rotate_left h (n_parent (h p)))
        else node_rotate_left h (n_parent (h p))
      else Inr h)"

lemma node_splay_unfold:
  "node_splay (Suc n) h p =
     (if n_parent (h p) \<noteq> 0 then bindE (splay_step h p) (\<lambda>h. node_splay n h p) else Inr h)"
  by (simp add: splay_step_def)

lemma splay_step_left:
  assumes z: "zinv h (Node A x B) (FL p r # c)"
  shows "\<exists>A' B' c'. yields (splay_step h x) h (Node A' x B') c' \<and> length c' < length (FL p r # c) \<and>
    inorder (plug (Node A' x B') c') = inorder (plug (Node A x B) (FL p r # c))"
proof -
  let ?X = "Node A x B"
  have zp: "zinv h (Node ?X p r) c" using z by (simp add: zinv_FL)
  note n = zinv_node [OF z] zinv_node [OF zp]
  show ?thesis
  proof (cases c rule: ctxp.cases)
    case 1
    with n have "splay_step h x = node_rotate_right h p" by (simp add: splay_step_def)
    with rotate_up_left [OF z] 1 show ?thesis
      by (intro exI [of _ A] exI [of _ "Node B p r"] exI [of _ "[]"]) simp
  next
    case (2 g s c')
    have "yields (node_rotate_right h g) h (Node ?X p (Node r g s)) c'"
      using rotate_up_left [of h ?X p r] zp 2 by simp
    then have "yields (bindE (node_rotate_right h g) (\<lambda>h. node_rotate_right h (n_parent (h x)))) h
        (Node A x (Node B p (Node r g s))) c'"
      by (rule yields_bind) (use rotate_up_left zinv_parent in \<open>fastforce simp: zinv_FL [symmetric]\<close>)
    moreover have "splay_step h x = bindE (node_rotate_right h g) (\<lambda>h. node_rotate_right h (n_parent (h x)))"
      using n 2 by (simp add: splay_step_def)
    ultimately show ?thesis using 2
      by (intro exI [of _ A] exI [of _ "Node B p (Node r g s)"] exI [of _ c']) (simp add: inorder_plug)
  next
    case (3 s g c')
    have "yields (node_rotate_right h p) h (Node A x (Node B p r)) (FR s g # c')"
      using rotate_up_left [OF z] 3 by simp
    then have "yields (bindE (node_rotate_right h p) (\<lambda>h. node_rotate_left h (n_parent (h x)))) h
        (Node (Node s g A) x (Node B p r)) c'"
      by (rule yields_bind) (use rotate_up_right zinv_parent in fastforce)
    moreover have "splay_step h x = bindE (node_rotate_right h p) (\<lambda>h. node_rotate_left h (n_parent (h x)))"
      using n 3 by (simp add: splay_step_def)
    ultimately show ?thesis using 3
      by (intro exI [of _ "Node s g A"] exI [of _ "Node B p r"] exI [of _ c']) (simp add: inorder_plug)
  qed
qed

lemma splay_step_right:
  assumes z: "zinv h (Node A x B) (FR l p # c)"
  shows "\<exists>A' B' c'. yields (splay_step h x) h (Node A' x B') c' \<and> length c' < length (FR l p # c) \<and>
    inorder (plug (Node A' x B') c') = inorder (plug (Node A x B) (FR l p # c))"
proof -
  let ?X = "Node A x B"
  have zp: "zinv h (Node l p ?X) c" using z by (simp add: zinv_FR)
  note n = zinv_node [OF z] zinv_node [OF zp]
  show ?thesis
  proof (cases "\<exists>s g c'. c = FR s g # c'")
    case True
    then obtain s g c' where c: "c = FR s g # c'" by blast
    have "yields (node_rotate_left h g) h (Node (Node s g l) p ?X) c'"
      using rotate_up_right [of h l p ?X] zp c by simp
    then have "yields (bindE (node_rotate_left h g) (\<lambda>h. node_rotate_left h (n_parent (h x)))) h
        (Node (Node (Node s g l) p A) x B) c'"
      by (rule yields_bind) (use rotate_up_right zinv_parent in \<open>fastforce simp: zinv_FR [symmetric]\<close>)
    moreover have "splay_step h x = bindE (node_rotate_left h g) (\<lambda>h. node_rotate_left h (n_parent (h x)))"
      using n c by (simp add: splay_step_def)
    ultimately show ?thesis using c
      by (intro exI [of _ "Node (Node s g l) p A"] exI [of _ B] exI [of _ c']) (simp add: inorder_plug)
  next
    case False
    with n have "splay_step h x = node_rotate_left h p" by (simp add: splay_step_def)
    with rotate_up_right [OF z] show ?thesis
      by (intro exI [of _ "Node l p A"] exI [of _ B] exI [of _ c]) (simp add: inorder_plug)
  qed
qed

lemma node_splay_yields:
  assumes "zinv h (Node A x B) c" "length c < n"
  shows "\<exists>A' B'. yields (node_splay n h x) h (Node A' x B') [] \<and>
    inorder (Node A' x B') = inorder (plug (Node A x B) c)"
  using assms
proof (induction n arbitrary: h A B c)
  case (Suc n)
  note par = zinv_parent [OF Suc.prems(1)]
  show ?case
  proof (cases "c = []")
    case True
    with Suc.prems par show ?thesis by (auto simp: node_splay_unfold intro: yields_Inr simp del: node_splay.simps)
  next
    case False
    then have nz: "n_parent (h x) \<noteq> 0" using par zinv_ctxp_nz [OF Suc.prems(1)] by simp
    obtain A' B' c' where s: "yields (splay_step h x) h (Node A' x B') c'" "length c' < length c"
      "inorder (plug (Node A' x B') c') = inorder (plug (Node A x B) c)"
      using False splay_step_left splay_step_right Suc.prems(1) by (cases c rule: ctxp.cases) blast+
    from s(1) obtain h' where h': "splay_step h x = Inr h'" "zinv h' (Node A' x B') c'" "same_payload h h'"
      by (rule yieldsE)
    from Suc.IH [OF h'(2)] s(2) Suc.prems(2) obtain A2 B2 where
      "yields (node_splay n h' x) h' (Node A2 x B2) []" "inorder (Node A2 x B2) = inorder (plug (Node A' x B') c')"
      by auto
    with h' nz s(3) show ?thesis
      by (auto simp: node_splay_unfold yields_def intro: same_payload_trans simp del: node_splay.simps)
  qed
qed simp


subsection \<open>Treap: rotation by priority\<close>

fun prio_heap :: "(addr \<Rightarrow> int) \<Rightarrow> addr tree \<Rightarrow> bool" where
  "prio_heap pr Leaf \<longleftrightarrow> True"
| "prio_heap pr (Node l a r) \<longleftrightarrow> (\<forall>b \<in> set_tree l \<union> set_tree r. pr a \<le> pr b) \<and> prio_heap pr l \<and> prio_heap pr r"

lemma prio_heap_plug:
  "prio_heap pr (plug t c) \<longleftrightarrow>
     prio_heap pr t \<and> (c \<noteq> [] \<longrightarrow> (\<forall>b\<in>set_tree t. pr (ctxp c) \<le> pr b)) \<and> prio_heap pr (plug Leaf c)"
proof (induction c arbitrary: t)
  case (Cons f c)
  show ?case
  proof (cases f)
    case (FL a r)
    show ?thesis
      using Cons.IH [of "Node t a r"] Cons.IH [of "Node Leaf a r"] FL by (auto intro: order_trans)
  next
    case (FR l a)
    show ?thesis
      using Cons.IH [of "Node l a t"] Cons.IH [of "Node l a Leaf"] FR by (auto intro: order_trans)
  qed
qed simp

text \<open>
  The loop of \<^verbatim>\<open>node_prioritize\<close> keeps this: the node's own subtree is a heap, and the
  tree would be a heap with either of its two subtrees in its place.
\<close>

definition prio_pending :: "(addr \<Rightarrow> int) \<Rightarrow> addr tree \<Rightarrow> addr \<Rightarrow> addr tree \<Rightarrow> frame list \<Rightarrow> bool" where
  "prio_pending pr A x B c \<longleftrightarrow>
     prio_heap pr (Node A x B) \<and> prio_heap pr (plug A c) \<and> prio_heap pr (plug B c)"

lemma prio_pending_done:
  assumes "prio_pending pr A x B c" "c = [] \<or> pr (ctxp c) \<le> pr x"
  shows "prio_heap pr (plug (Node A x B) c)"
  using assms prio_heap_plug [of pr "Node A x B" c] prio_heap_plug [of pr A c] prio_heap_plug [of pr B c]
  by (auto simp: prio_pending_def)

lemma prio_pending_left:
  assumes "prio_pending pr A x B (FL p r # c)" and lt: "pr x < pr p"
  shows "prio_pending pr A x (Node B p r) c"
proof -
  have x: "prio_heap pr (Node A x B)" and a: "prio_heap pr (plug (Node A p r) c)"
    and b: "prio_heap pr (plug (Node B p r) c)"
    using assms(1) by (simp_all add: prio_pending_def)
  have "prio_heap pr (Node B p r)" using b by (subst (asm) prio_heap_plug) simp
  then have "\<forall>y\<in>set_tree (Node B p r). pr x \<le> pr y" using lt by (auto intro: order_trans [of "pr x" "pr p"])
  moreover have "prio_heap pr (plug A c)"
    using a x by (subst (asm) prio_heap_plug) (subst prio_heap_plug, simp)
  ultimately show ?thesis
    using x b \<open>prio_heap pr (Node B p r)\<close> by (auto simp: prio_pending_def)
qed

lemma prio_pending_right:
  assumes "prio_pending pr A x B (FR l p # c)" and lt: "pr x < pr p"
  shows "prio_pending pr (Node l p A) x B c"
proof -
  have x: "prio_heap pr (Node A x B)" and a: "prio_heap pr (plug (Node l p A) c)"
    and b: "prio_heap pr (plug (Node l p B) c)"
    using assms(1) by (simp_all add: prio_pending_def)
  have "prio_heap pr (Node l p A)" using a by (subst (asm) prio_heap_plug) simp
  then have "\<forall>y\<in>set_tree (Node l p A). pr x \<le> pr y" using lt by (auto intro: order_trans [of "pr x" "pr p"])
  moreover have "prio_heap pr (plug B c)"
    using b x by (subst (asm) prio_heap_plug) (subst prio_heap_plug, simp)
  ultimately show ?thesis
    using x a \<open>prio_heap pr (Node l p A)\<close> by (auto simp: prio_pending_def)
qed

lemma prioritize_loop_yields:
  assumes "zinv h (Node A x B) c" "length c < n"
  shows "\<exists>A' B' c'. yields (prioritize_loop n h x) h (Node A' x B') c' \<and>
    inorder (plug (Node A' x B') c') = inorder (plug (Node A x B) c) \<and>
    (prio_pending (\<lambda>a. n_priority (h a)) A x B c \<longrightarrow>
       prio_heap (\<lambda>a. n_priority (h a)) (plug (Node A' x B') c'))"
  using assms
proof (induction n arbitrary: h A B c)
  case (Suc n)
  let ?pr = "\<lambda>a. n_priority (h a)"
  note nd = zinv_node [OF Suc.prems(1)] zinv_ctxp_nz [OF Suc.prems(1)]
  show ?case
  proof (cases "c \<noteq> [] \<and> ?pr x < ?pr (ctxp c)")
    case False
    then have "prioritize_loop (Suc n) h x = Inr h" using nd by auto
    then show ?thesis using Suc.prems(1) False prio_pending_done [of ?pr A x B c]
      by (intro exI [of _ A] exI [of _ B] exI [of _ c]) (auto intro: yields_Inr)
  next
    case True
    obtain A1 B1 c1 m where m: "prioritize_loop (Suc n) h x = bindE m (\<lambda>h. prioritize_loop n h x)"
      and y: "yields m h (Node A1 x B1) c1" and len: "length c1 < n"
      and io: "inorder (plug (Node A1 x B1) c1) = inorder (plug (Node A x B) c)"
      and pp: "prio_pending ?pr A x B c \<Longrightarrow> prio_pending ?pr A1 x B1 c1"
    proof (cases c rule: ctxp.cases)
      case (2 p r c1)
      show thesis
        by (rule that [of "node_rotate_right h p" A "Node B p r" c1])
           (use True 2 nd Suc.prems rotate_up_left prio_pending_left [of ?pr] in \<open>auto simp: inorder_plug\<close>)
    next
      case (3 l p c1)
      show thesis
        by (rule that [of "node_rotate_left h p" "Node l p A" B c1])
           (use True 3 nd Suc.prems rotate_up_right prio_pending_right [of ?pr] in \<open>auto simp: inorder_plug\<close>)
    qed (use True in simp)
    from y obtain h1 where h1: "m = Inr h1" "zinv h1 (Node A1 x B1) c1" "same_payload h h1" by (rule yieldsE)
    then have pr: "(\<lambda>a. n_priority (h1 a)) = ?pr" by (simp add: same_payload_def)
    from Suc.IH [OF h1(2) len] show ?thesis
      using h1 m io pp unfolding pr by (fastforce simp: yields_def intro: same_payload_trans)
  qed
qed simp


subsection \<open>Balancing by node counts\<close>

text \<open>
  The loops below climb the tree, so their statement names only the whole tree: any
  heap that links some tree with a given sequence of nodes.
\<close>

definition holds :: "nheap \<Rightarrow> addr list \<Rightarrow> bool" where
  "holds h xs \<longleftrightarrow> (\<exists>t. zinv h t [] \<and> inorder t = xs)"

definition keeps :: "nheap res \<Rightarrow> nheap \<Rightarrow> addr list \<Rightarrow> bool" where
  "keeps m h xs \<longleftrightarrow> (\<exists>h'. m = Inr h' \<and> holds h' xs \<and> same_payload h h')"

lemma zinv_whole: "zinv h t c \<longleftrightarrow> zinv h (plug t c) []"
  by (simp add: zinv_def)

lemma zinv_holds: "zinv h t c \<Longrightarrow> holds h (inorder (plug t c))"
  unfolding holds_def zinv_whole [of h t c] by blast

lemma keeps_step:
  assumes "yields m h t c" "\<And>h'. zinv h' t c \<Longrightarrow> keeps (f h') h' xs"
  shows "keeps (bindE m f) h xs"
  using assms unfolding yields_def keeps_def by (fastforce intro: same_payload_trans)

lemma keeps_Inr: "zinv h t c \<Longrightarrow> inorder (plug t c) = xs \<Longrightarrow> keeps (Inr h) h xs"
  using zinv_holds by (fastforce simp: keeps_def)

lemma node_count_balance_keeps:
  assumes "zinv h (Node A x B) c" "length c < n"
  shows "keeps (node_count_balance n h x) h (inorder (plug (Node A x B) c))"
  using assms
proof (induction n arbitrary: h A x B c)
  case (Suc n)
  note z = Suc.prems(1)
  note nd = zinv_node [OF z] zinv_ctxp_nz [OF z] zinv_nz [OF z]
  have up: "keeps (node_count_balance n h' (n_parent (h' y))) h' (inorder (plug (Node L y R) d))"
    if z': "zinv h' (Node L y R) d" and l: "length d \<le> n" "0 < n" for h' L y R d
  proof (cases d rule: ctxp.cases)
    case 1
    with l zinv_parent [OF z'] keeps_Inr [OF z'] show ?thesis by (cases n) auto
  next
    case (2 p r d')
    with z' l have "zinv h' (Node (Node L y R) p r) d'" "length d' < n" by (auto simp: zinv_FL)
    from Suc.IH [OF this] zinv_parent [OF z'] 2 show ?thesis by simp
  next
    case (3 q p d')
    with z' l have "zinv h' (Node q p (Node L y R)) d'" "length d' < n" by (auto simp: zinv_FR)
    from Suc.IH [OF this] zinv_parent [OF z'] 3 show ?thesis by simp
  qed
  show ?case
  proof (cases c rule: ctxp.cases)
    case 1
    then show ?thesis using nd keeps_Inr [OF z] by simp
  next
    case (2 p r c')
    note e = z [unfolded 2]
    have io: "inorder (plug (Node A x B) c) = inorder (plug (Node A x (Node B p r)) c')"
      using 2 by (simp add: inorder_plug)
    have n: "0 < n" "length c' \<le> n" "length c \<le> n" using Suc.prems(2) 2 by auto
    show ?thesis
      using nd 2 up [OF z n(3,1)] n Suc.prems(2)
        keeps_step [OF rotate_up_left [OF e] up [of _ A x "Node B p r" c']]
      unfolding io by (auto simp: inorder_plug)
  next
    case (3 l p c')
    note e = z [unfolded 3]
    have io: "inorder (plug (Node A x B) c) = inorder (plug (Node (Node l p A) x B) c')"
      using 3 by (simp add: inorder_plug)
    have n: "0 < n" "length c' \<le> n" "length c \<le> n" using Suc.prems(2) 3 by auto
    show ?thesis
      using nd 3 up [OF z n(3,1)] n Suc.prems(2)
        keeps_step [OF rotate_up_right [OF e] up [of _ "Node l p A" x B c']]
      unfolding io by (auto simp: inorder_plug)
  qed
qed simp


subsection \<open>The default balancing\<close>

text \<open>
  The loop climbs one level in two iterations at most: after a rotation the next
  iteration looks at a parent with two children, which is left alone. \<open>lonely\<close> counts
  the rotation that may still come.
\<close>

fun lonely :: "frame list \<Rightarrow> nat" where
  "lonely (FL p r # c) = (if r = Leaf then 1 else 0)"
| "lonely (FR l p # c) = (if l = Leaf then 1 else 0)"
| "lonely [] = 0"

lemma lonely_le: "lonely c \<le> 1"
  by (cases c rule: lonely.cases) simp_all

lemma simple_balance_bits_left:
  assumes z: "zinv h (Node A x B) (FL p r # c)"
  shows "simple_balance_bits h p x =
    8 + 4 * of_bool (r \<noteq> Leaf) + 2 * of_bool (A \<noteq> Leaf) + of_bool (B \<noteq> Leaf)"
  using z by (auto simp: simple_balance_bits_def zinv_unfold dest: rootp_0_iff)

lemma simple_balance_bits_right:
  assumes z: "zinv h (Node A x B) (FR l p # c)"
  shows "simple_balance_bits h p x =
    8 * of_bool (l \<noteq> Leaf) + 4 + 2 * of_bool (A \<noteq> Leaf) + of_bool (B \<noteq> Leaf)"
  using z by (auto simp: simple_balance_bits_def zinv_unfold dest: rootp_0_iff)

text \<open>What one iteration does, with the node in focus afterwards (always the old parent).\<close>

definition simple_step :: "nheap \<Rightarrow> addr \<Rightarrow> addr \<Rightarrow> nheap res" where
  "simple_step h x p =
     (let i = simple_balance_bits h p x in
      if i = 9 then bindE (node_rotate_left h x) (\<lambda>h. node_rotate_right h p)
      else if i = 10 then node_rotate_right h p
      else if i = 6 then bindE (node_rotate_right h x) (\<lambda>h. node_rotate_left h p)
      else if i = 5 then node_rotate_left h p
      else Inr h)"

lemma simple_balance_unfold:
  "node_simple_balance_loop (Suc n) h x p =
     (if p \<noteq> 0 then bindE (simple_step h x p) (\<lambda>h. node_simple_balance_loop n h p (n_parent (h p)))
      else Inr h)"
  by (simp add: simple_step_def Let_def)

definition simple_moved :: "nheap res \<Rightarrow> nheap \<Rightarrow> addr \<Rightarrow> addr tree \<Rightarrow> nat \<Rightarrow> bool" where
  "simple_moved m h p t k \<longleftrightarrow> (\<exists>L R d. yields m h (Node L p R) d \<and>
     inorder (plug (Node L p R) d) = inorder t \<and> 2 * length d + lonely d < k)"

lemma simple_movedI:
  "yields m h (Node L p R) d \<Longrightarrow> inorder (plug (Node L p R) d) = inorder t \<Longrightarrow>
   2 * length d + lonely d < k \<Longrightarrow> simple_moved m h p t k"
  unfolding simple_moved_def by blast

lemma simple_step_left:
  assumes z: "zinv h (Node A x B) (FL p r # c)"
  shows "simple_moved (simple_step h x p) h p (plug (Node A x B) (FL p r # c))
    (2 * length (FL p r # c) + lonely (FL p r # c))"
proof -
  consider (nine) B1 y B2 where "r = Leaf" "A = Leaf" "B = Node B1 y B2"
    | (ten) "r = Leaf" "A \<noteq> Leaf" "B = Leaf"
    | (other) "r \<noteq> Leaf \<or> A \<noteq> Leaf \<and> B \<noteq> Leaf \<or> A = Leaf \<and> B = Leaf"
    by (cases B) auto
  then show ?thesis
  proof cases
    case nine
    have "yields (node_rotate_left h x) h (Node (Node Leaf x B1) y B2) (FL p Leaf # c)"
      using node_rotate_left_zinv [of h Leaf x B1 y B2] z nine by (auto simp: yields_def)
    then have "yields (bindE (node_rotate_left h x) (\<lambda>h. node_rotate_right h p)) h
        (Node B2 p Leaf) (FR (Node Leaf x B1) y # c)"
      by (rule yields_bind) (use rotate_up_left in \<open>fastforce simp: yields_def zinv_FR\<close>)
    then show ?thesis using simple_balance_bits_left [OF z] nine
      by (intro simple_movedI) (auto simp: simple_step_def inorder_plug)
  next
    case ten
    have "yields (node_rotate_right h p) h (Node Leaf p Leaf) (FR A x # c)"
      using rotate_up_left [OF z] ten by (simp add: yields_def zinv_FR)
    then show ?thesis using simple_balance_bits_left [OF z] ten
      by (intro simple_movedI) (auto simp: simple_step_def inorder_plug)
  next
    case other
    then have "simple_step h x p = Inr h"
      using simple_balance_bits_left [OF z] by (auto simp: simple_step_def)
    then show ?thesis using yields_Inr [OF z] lonely_le [of c]
      by (intro simple_movedI [of _ _ "Node A x B" p r c]) (auto simp: yields_def zinv_FL)
  qed
qed

lemma simple_step_right:
  assumes z: "zinv h (Node A x B) (FR l p # c)"
  shows "simple_moved (simple_step h x p) h p (plug (Node A x B) (FR l p # c))
    (2 * length (FR l p # c) + lonely (FR l p # c))"
proof -
  consider (six) A1 y A2 where "l = Leaf" "B = Leaf" "A = Node A1 y A2"
    | (five) "l = Leaf" "A = Leaf" "B \<noteq> Leaf"
    | (other) "l \<noteq> Leaf \<or> A \<noteq> Leaf \<and> B \<noteq> Leaf \<or> A = Leaf \<and> B = Leaf"
    by (cases A) auto
  then show ?thesis
  proof cases
    case six
    have "yields (node_rotate_right h x) h (Node A1 y (Node A2 x Leaf)) (FR Leaf p # c)"
      using node_rotate_right_zinv [of h A1 y A2 x Leaf] z six by (auto simp: yields_def)
    then have "yields (bindE (node_rotate_right h x) (\<lambda>h. node_rotate_left h p)) h
        (Node Leaf p A1) (FL y (Node A2 x Leaf) # c)"
      by (rule yields_bind) (use rotate_up_right in \<open>fastforce simp: yields_def zinv_FL\<close>)
    then show ?thesis using simple_balance_bits_right [OF z] six
      by (intro simple_movedI) (auto simp: simple_step_def inorder_plug)
  next
    case five
    have "yields (node_rotate_left h p) h (Node Leaf p Leaf) (FL x B # c)"
      using rotate_up_right [OF z] five by (simp add: yields_def zinv_FL)
    then show ?thesis using simple_balance_bits_right [OF z] five
      by (intro simple_movedI) (auto simp: simple_step_def inorder_plug)
  next
    case other
    then have "simple_step h x p = Inr h"
      using simple_balance_bits_right [OF z] by (auto simp: simple_step_def)
    then show ?thesis using yields_Inr [OF z] lonely_le [of c]
      by (intro simple_movedI [of _ _ l p "Node A x B" c]) (auto simp: yields_def zinv_FR)
  qed
qed

lemma node_simple_balance_keeps:
  assumes "zinv h (Node A x B) c" "2 * length c + lonely c < n"
  shows "keeps (node_simple_balance_loop n h x (ctxp c)) h (inorder (plug (Node A x B) c))"
  using assms
proof (induction n arbitrary: h A x B c)
  case (Suc n)
  show ?case
  proof (cases "c = []")
    case True
    then show ?thesis using keeps_Inr [OF Suc.prems(1)] by (simp add: simple_balance_unfold del: node_simple_balance_loop.simps)
  next
    case False
    then have nz: "ctxp c \<noteq> 0" using zinv_ctxp_nz Suc.prems(1) by blast
    have "simple_moved (simple_step h x (ctxp c)) h (ctxp c) (plug (Node A x B) c) (2 * length c + lonely c)"
      using False simple_step_left simple_step_right Suc.prems(1) by (cases c rule: ctxp.cases) fastforce+
    then obtain L R d where y: "yields (simple_step h x (ctxp c)) h (Node L (ctxp c) R) d"
      and io: "inorder (plug (Node L (ctxp c) R) d) = inorder (plug (Node A x B) c)"
      and lt: "2 * length d + lonely d < n" using Suc.prems(2) by (auto simp: simple_moved_def)
    have "keeps (node_simple_balance_loop n h' (ctxp c) (n_parent (h' (ctxp c)))) h'
        (inorder (plug (Node A x B) c))" if "zinv h' (Node L (ctxp c) R) d" for h'
      using Suc.IH [OF that lt] zinv_parent [OF that] io by simp
    with keeps_step [OF y this] nz show ?thesis
      by (simp add: simple_balance_unfold del: node_simple_balance_loop.simps)
  qed
qed simp

end
