(* ===== verification/Tree_Map.thy ===== *)
theory Tree_Map
  imports Tree_Ops Tree_Balance
begin

text \<open>
  Correctness of the tree as an ordered map. \<open>tree_at h t T\<close> is the invariant: the
  heap links the shape \<open>T\<close> below the root pointer and the keys ascend in order.
  Against it every operation is the corresponding one on the list of entries, for
  every balancing mode, and none of the assertions in the code fails.
\<close>

definition entries :: "nheap \<Rightarrow> addr tree \<Rightarrow> (map_key \<times> map_data) list" where
  "entries h T = map (payload h) (inorder T)"

definition tree_at :: "nheap \<Rightarrow> tree_t \<Rightarrow> addr tree \<Rightarrow> bool" where
  "tree_at h t T \<longleftrightarrow> zinv h T [] \<and> t_root t = rootp T \<and> asc (t_comp t) (entries h T)"

lemma length_ctx: "length c + size t \<le> size (plug t c)"
  by (induction t c rule: plug.induct) auto

subsection \<open>The consistency checks pass\<close>

lemma node_verify_ok: "linked h q t \<Longrightarrow> height t < n \<Longrightarrow> node_verify n h (rootp t) = Inr ()"
proof (induction t arbitrary: q n)
  case Leaf
  then show ?case by (cases n) auto
next
  case (Node l a r)
  then obtain m where n: "n = Suc m" by (cases n) auto
  have "node_verify m h (rootp l) = Inr ()" "node_verify m h (rootp r) = Inr ()"
    using Node n by auto
  moreover have "rootp l \<noteq> 0 \<Longrightarrow> n_parent (h (rootp l)) = a" "rootp r \<noteq> 0 \<Longrightarrow> n_parent (h (rootp r)) = a"
    using Node.prems by (cases l; cases r; auto)+
  ultimately show ?case using Node.prems n by simp
qed

lemma climb_ok: "zinv h (Node A x B) c \<Longrightarrow> length c < n \<Longrightarrow> climb n h x = Inr (rootp (plug (Node A x B) c))"
proof (induction n arbitrary: A x B c)
  case (Suc n)
  note nd = zinv_parent [OF Suc.prems(1)] zinv_ctxp_nz [OF Suc.prems(1)]
  show ?case
  proof (cases c rule: ctxp.cases)
    case (2 p r c')
    with Suc.IH [of "Node A x B" p r c'] Suc.prems nd show ?thesis by (simp add: zinv_FL)
  next
    case (3 l p c')
    with Suc.IH [of l p "Node A x B" c'] Suc.prems nd show ?thesis by (simp add: zinv_FR)
  qed (use nd in simp)
qed simp

lemma tree_verify_ok:
  assumes z: "zinv h T []" and r: "t_root t = rootp T" and n: "height T < n"
  shows "tree_verify n h t 0 = Inr ()"
proof -
  have l: "linked h 0 T" using z by (simp add: zinv_def)
  then have "rootp T \<noteq> 0 \<Longrightarrow> n_parent (h (rootp T)) = 0" by (cases T) auto
  with node_verify_ok [OF l n] r show ?thesis by (simp add: tree_verify_def node_count_def)
qed

lemma tree_verify_node_ok:
  assumes z: "zinv h (Node A x B) c" and r: "t_root t = rootp (plug (Node A x B) c)"
    and n: "size (plug (Node A x B) c) < n"
  shows "tree_verify n h t x = Inr ()"
proof -
  have "length c < n" using length_ctx [of c "Node A x B"] n by simp
  then have "climb n h x = Inr (t_root t)" using climb_ok [OF z] r by simp
  moreover have "tree_verify n h t 0 = Inr ()"
    using tree_verify_ok [of h "plug (Node A x B) c"] z r n height_le_size_tree [of "plug (Node A x B) c"]
    by (simp add: zinv_def)
  ultimately show ?thesis by (simp add: tree_verify_def)
qed

subsection \<open>Searching for the place of a key\<close>

fun slot_of :: "frame list \<Rightarrow> slot" where
  "slot_of [] = Root"
| "slot_of (FL a r # c) = LeftOf a"
| "slot_of (FR l a # c) = RightOf a"

definition located :: "(map_key \<Rightarrow> map_key \<Rightarrow> int) \<Rightarrow> nheap \<Rightarrow> map_key \<Rightarrow> frame list \<Rightarrow> bool" where
  "located cmp h k c \<longleftrightarrow> (\<forall>a\<in>set (lctx c). 0 < cmp k (n_key (h a))) \<and> (\<forall>a\<in>set (rctx c). cmp k (n_key (h a)) < 0)"

lemma located_Nil [simp]: "located cmp h k []"
  by (simp add: located_def)

lemma entries_plug: "entries h (plug t c) = map (payload h) (lctx c) @ entries h t @ map (payload h) (rctx c)"
  by (simp add: entries_def inorder_plug)

lemma fst_payload [simp]: "fst (payload h a) = n_key (h a)" and snd_payload [simp]: "snd (payload h a) = n_data (h a)"
  by (simp_all add: payload_def)

subsection \<open>Counting along the path to the root\<close>

definition same_but_count :: "nheap \<Rightarrow> nheap \<Rightarrow> addr set \<Rightarrow> bool" where
  "same_but_count h h' A \<longleftrightarrow> (\<forall>a. a \<notin> A \<longrightarrow> h' a = h a) \<and>
     (\<forall>a. \<exists>n. h' a = (h a)\<lparr>n_count := n\<rparr>)"

lemma same_but_countD:
  assumes "same_but_count h h' A"
  shows "n_key (h' a) = n_key (h a)" "n_data (h' a) = n_data (h a)" "n_priority (h' a) = n_priority (h a)"
    "n_parent (h' a) = n_parent (h a)" "n_left (h' a) = n_left (h a)" "n_right (h' a) = n_right (h a)"
    "a \<notin> A \<Longrightarrow> h' a = h a"
proof -
  obtain n where "h' a = (h a)\<lparr>n_count := n\<rparr>" using assms by (auto simp: same_but_count_def)
  then show "n_key (h' a) = n_key (h a)" "n_data (h' a) = n_data (h a)" "n_priority (h' a) = n_priority (h a)"
    "n_parent (h' a) = n_parent (h a)" "n_left (h' a) = n_left (h a)" "n_right (h' a) = n_right (h a)"
    by simp_all
  show "a \<notin> A \<Longrightarrow> h' a = h a" using assms by (simp add: same_but_count_def)
qed

lemma same_but_count_payload: "same_but_count h h' A \<Longrightarrow> same_payload h h'"
  by (simp add: same_payload_def payload_def fun_eq_iff same_but_countD)

lemma same_but_count_refl: "same_but_count h h A"
  unfolding same_but_count_def using node.surjective by (metis node.update_convs(3))

text \<open>One frame of the path: the node's count changes, then the rest of the path is counted.\<close>

lemma same_but_count_step:
  assumes s: "same_but_count (upd a (\<lambda>d. d\<lparr>n_count := k\<rparr>) h) h' A" and a: "a \<notin> A"
  shows "same_but_count h h' (insert a A)" "h' a = (h a)\<lparr>n_count := k\<rparr>"
proof -
  show ha: "h' a = (h a)\<lparr>n_count := k\<rparr>" using same_but_countD(7) [OF s a] by (simp add: upd_def)
  have "\<exists>n. h' b = (h b)\<lparr>n_count := n\<rparr>" for b
  proof (cases "b = a")
    case False
    have "\<exists>n. h' b = (upd a (\<lambda>d. d\<lparr>n_count := k\<rparr>) h b)\<lparr>n_count := n\<rparr>"
      using s by (simp add: same_but_count_def)
    with False show ?thesis by (simp add: upd_def)
  qed (use ha in blast)
  moreover have "h' b = h b" if "b \<notin> insert a A" for b
    using same_but_countD(7) [OF s, of b] that by (simp add: upd_def)
  ultimately show "same_but_count h h' (insert a A)" by (simp add: same_but_count_def)
qed

abbreviation ctx_nodes :: "frame list \<Rightarrow> addr set" where
  "ctx_nodes c \<equiv> set (lctx c) \<union> set (rctx c)"

lemma linked_outside:
  "linked h q t \<Longrightarrow> same_but_count h h' A \<Longrightarrow> set_tree t \<inter> A = {} \<Longrightarrow> linked h' q t"
  using linked_cong [of h h' t q] same_but_countD(7) [of h h' A]
  by (fastforce simp: same_links_def)

lemma linkc_upd_outside: "linkc h p m c \<Longrightarrow> a \<notin> ctx_nodes c \<Longrightarrow> linkc (upd a f h) p m c"
  using linkc_cong [of h "upd a f h" c p m] by (auto simp: same_links_def upd_def)

lemma count_up_ok:
  assumes "linkc h p m c" "distinct (lctx c @ rctx c)" "length c < n"
  shows "\<exists>h'. count_up n h (ctxp c) = Inr h' \<and> linkc h' p (Suc m) c \<and> same_but_count h h' (ctx_nodes c)"
  using assms
proof (induction c arbitrary: h p m n)
  case Nil
  then show ?case by (cases n) (auto intro: same_but_count_refl)
next
  case (Cons f c)
  obtain n' where n: "n = Suc n'" "length c < n'" using Cons.prems(3) by (cases n) auto
  let ?a = "ctxp (f # c)"
  let ?h = "upd ?a (\<lambda>d. d\<lparr>n_count := n_count d + 1\<rparr>) h"
  have h1: "?h = upd ?a (\<lambda>d. d\<lparr>n_count := n_count (h ?a) + 1\<rparr>) h" by (simp add: upd_def)
  obtain q k where lk: "linkc h ?a k c" "k = (case f of FL a r \<Rightarrow> 1 + m + size r | FR l a \<Rightarrow> 1 + size l + m)"
    and nz: "?a \<noteq> 0" and par: "n_parent (h ?a) = ctxp c"
    using Cons.prems(1) by (cases f) auto
  have dis: "?a \<notin> ctx_nodes c" "distinct (lctx c @ rctx c)" using Cons.prems(2) by (cases f; auto)+
  from Cons.IH [OF linkc_upd_outside [OF lk(1) dis(1)] dis(2) n(2)]
  obtain h' where h': "count_up n' ?h (ctxp c) = Inr h'" "linkc h' ?a (Suc k) c"
    "same_but_count ?h h' (ctx_nodes c)" by blast
  note st = same_but_count_step [OF h'(3) [unfolded h1] dis(1)]
  have run: "count_up n h ?a = Inr h'" using n nz par h'(1) by (simp add: upd_def)
  have dj: "(case f of FL a r \<Rightarrow> set_tree r | FR l a \<Rightarrow> set_tree l) \<inter> insert ?a (ctx_nodes c) = {}"
    using Cons.prems(2) by (cases f) auto
  have "linkc h' p (Suc m) (f # c)"
    using Cons.prems(1) h'(2) st lk(2) dj linked_outside [OF _ st(1)] by (cases f) auto
  moreover have "same_but_count h h' (ctx_nodes (f # c))"
    using st(1) by (cases f) (auto simp: same_but_count_def)
  ultimately show ?case using run by blast
qed

lemma count_down_ok:
  assumes "linkc h p (Suc m) c" "distinct (lctx c @ rctx c)" "length c < n"
  shows "\<exists>h'. count_down n h (ctxp c) = Inr h' \<and> linkc h' p m c \<and> same_but_count h h' (ctx_nodes c)"
  using assms
proof (induction c arbitrary: h p m n)
  case Nil
  then show ?case by (cases n) (auto intro: same_but_count_refl)
next
  case (Cons f c)
  obtain n' where n: "n = Suc n'" "length c < n'" using Cons.prems(3) by (cases n) auto
  let ?a = "ctxp (f # c)"
  let ?h = "upd ?a (\<lambda>d. d\<lparr>n_count := n_count d - 1\<rparr>) h"
  have h1: "?h = upd ?a (\<lambda>d. d\<lparr>n_count := n_count (h ?a) - 1\<rparr>) h" by (simp add: upd_def)
  obtain q k where lk: "linkc h ?a (Suc k) c" "k = (case f of FL a r \<Rightarrow> 1 + m + size r | FR l a \<Rightarrow> 1 + size l + m)"
    and nz: "?a \<noteq> 0" and par: "n_parent (h ?a) = ctxp c"
    using Cons.prems(1) by (cases f) auto
  have dis: "?a \<notin> ctx_nodes c" "distinct (lctx c @ rctx c)" using Cons.prems(2) by (cases f; auto)+
  from Cons.IH [OF linkc_upd_outside [OF lk(1) dis(1)] dis(2) n(2)]
  obtain h' where h': "count_down n' ?h (ctxp c) = Inr h'" "linkc h' ?a k c"
    "same_but_count ?h h' (ctx_nodes c)" by blast
  note st = same_but_count_step [OF h'(3) [unfolded h1] dis(1)]
  have run: "count_down n h ?a = Inr h'" using n nz par h'(1) by (simp add: upd_def)
  have dj: "(case f of FL a r \<Rightarrow> set_tree r | FR l a \<Rightarrow> set_tree l) \<inter> insert ?a (ctx_nodes c) = {}"
    using Cons.prems(2) by (cases f) auto
  have "linkc h' p m (f # c)"
    using Cons.prems(1) h'(2) st lk(2) dj linked_outside [OF _ st(1)] by (cases f) auto
  moreover have "same_but_count h h' (ctx_nodes (f # c))"
    using st(1) by (cases f) (auto simp: same_but_count_def)
  ultimately show ?case using run by blast
qed

subsection \<open>Linking a new leaf\<close>

lemma zinv_Leaf: "zinv h Leaf c \<longleftrightarrow> linkc h 0 0 c \<and> distinct (lctx c @ rctx c)"
  by (simp add: zinv_unfold)

lemma tree_node_new_ok:
  assumes z: "zinv h Leaf c" and f: "f \<noteq> 0" "f \<notin> ctx_nodes c" and n: "length c < n"
  shows "\<exists>h1. tree_node_new n h f (ctxp c) k v = Inr h1 \<and> linkc h1 0 (Suc 0) c \<and>
    n_parent (h1 f) = ctxp c \<and> n_left (h1 f) = 0 \<and> n_right (h1 f) = 0 \<and> n_count (h1 f) = 1 \<and>
    payload h1 = (payload h)(f := (k, v)) \<and> (\<forall>a. n_priority (h1 a) = n_priority (h a))"
proof -
  let ?h = "upd f (\<lambda>d. d\<lparr>n_key := k, n_data := v, n_parent := ctxp c, n_count := 1\<rparr>) h"
  have d: "distinct (lctx c @ rctx c)" and lk: "linkc ?h 0 0 c"
    using z linkc_upd_outside f(2) by (auto simp: zinv_Leaf)
  from count_up_ok [OF lk d n] obtain h' where h': "count_up n ?h (ctxp c) = Inr h'"
    "linkc h' 0 (Suc 0) c" "same_but_count ?h h' (ctx_nodes c)" by blast
  have "h' f = ?h f" using same_but_countD(7) [OF h'(3) f(2)] .
  moreover have "payload h' = payload ?h" "\<And>a. n_priority (h' a) = n_priority (?h a)"
    using same_but_count_payload [OF h'(3)] by (simp_all add: same_payload_def)
  moreover define h1 where "h1 = upd f (\<lambda>d. d\<lparr>n_left := 0, n_right := 0\<rparr>) h'"
  ultimately have "payload h1 = (payload h)(f := (k, v))" "\<forall>a. n_priority (h1 a) = n_priority (h a)"
    "n_parent (h1 f) = ctxp c \<and> n_left (h1 f) = 0 \<and> n_right (h1 f) = 0 \<and> n_count (h1 f) = 1"
    by (simp_all add: h1_def upd_def payload_def fun_eq_iff)
  moreover have "linkc h1 0 (Suc 0) c" unfolding h1_def by (rule linkc_upd_outside [OF h'(2) f(2)])
  moreover have "tree_node_new n h f (ctxp c) k v = Inr h1"
    using h'(1) by (simp add: tree_node_new_def h1_def)
  ultimately show ?thesis by blast
qed

fun frame_node :: "frame \<Rightarrow> addr" where
  "frame_node (FL a r) = a"
| "frame_node (FR l a) = a"

lemma rootp_plug: "rootp (plug t c) = (if c = [] then rootp t else frame_node (last c))"
  by (induction t c rule: plug.induct) auto

lemma same_payload_upd [simp]:
  "same_payload h (upd q (n_left_update g) h)" "same_payload h (upd q (n_right_update g) h)"
  by (simp_all add: same_payload_def payload_def upd_def fun_eq_iff)

lemma store_slot_ok:
  assumes lk: "linkc h 0 (Suc 0) c" and d: "distinct (lctx c @ rctx c)" and f: "f \<noteq> 0" "f \<notin> ctx_nodes c"
    and hf: "n_parent (h f) = ctxp c" "n_left (h f) = 0" "n_right (h f) = 0" "n_count (h f) = 1"
    and r: "t_root t = rootp (plug Leaf c)"
    and s: "store_slot (slot_of c) f h t = (h', t')"
  shows "zinv h' (Node Leaf f Leaf) c" "same_payload h h'" "t_mode t' = t_mode t" "t_comp t' = t_comp t"
    "t_root t' = rootp (plug (Node Leaf f Leaf) c)"
proof -
  show "same_payload h h'" "t_mode t' = t_mode t" "t_comp t' = t_comp t"
    using s by (cases c rule: ctxp.cases; force)+
  show "t_root t' = rootp (plug (Node Leaf f Leaf) c)"
    using s r by (cases c rule: ctxp.cases) (auto simp: rootp_plug split: if_splits)
  have lk': "linkc h' f (Suc 0) c"
  proof (rule linkc_replace [OF lk d])
    show "same_links h h' (ctx_nodes c - {ctxp c})"
      using s by (cases c rule: ctxp.cases) (auto simp: same_links_def upd_def)
  qed (use s in \<open>cases c rule: ctxp.cases; auto simp: upd_def\<close>)
  have "ctxp c \<noteq> f" by (rule ctxp_neq [OF f])
  then have "h' f = h f" using s by (cases c rule: ctxp.cases) (auto simp: upd_def)
  with lk' d f hf show "zinv h' (Node Leaf f Leaf) c" by (auto simp: zinv_unfold)
qed

lemma tree_split: "a \<in> set_tree T \<Longrightarrow> \<exists>A B c. T = plug (Node A a B) c"
proof (induction T)
  case (Node l b r)
  then consider "a = b" | "a \<in> set_tree l" | "a \<in> set_tree r" by auto
  then show ?case
  proof cases
    case 1
    then show ?thesis by (intro exI [of _ l] exI [of _ r] exI [of _ "[]"]) simp
  next
    case 2
    then obtain A B c where "l = plug (Node A a B) c" using Node.IH by blast
    then have "Node l b r = plug (Node A a B) (c @ [FL b r])" by (simp add: plug_append)
    then show ?thesis by blast
  next
    case 3
    then obtain A B c where "r = plug (Node A a B) c" using Node.IH by blast
    then have "Node l b r = plug (Node A a B) (c @ [FR l b])" by (simp add: plug_append)
    then show ?thesis by blast
  qed
qed simp

lemma climb_any: "zinv h T [] \<Longrightarrow> a \<in> set_tree T \<Longrightarrow> size T \<le> n \<Longrightarrow> climb n h a = Inr (rootp T)"
proof -
  assume z: "zinv h T []" and a: "a \<in> set_tree T" and n: "size T \<le> n"
  obtain A B c where T: "T = plug (Node A a B) c" using tree_split [OF a] by blast
  have "length c < n" using length_ctx [of c "Node A a B"] n T by simp
  then show ?thesis using climb_ok [of h A a B c] z T by (simp add: zinv_def)
qed

text \<open>Every balancing mode keeps the sequence of nodes and what they carry.\<close>

lemma tree_balance_ok:
  assumes z: "zinv h (Node A f B) c" and n: "2 * length c + 2 \<le> n"
  shows "\<exists>h' T. tree_balance mode n h f = Inr h' \<and> zinv h' T [] \<and>
    inorder T = inorder (plug (Node A f B) c) \<and> payload h' = payload h"
proof -
  have len: "length c < n" "2 * length c + lonely c < n" using n lonely_le [of c] by auto
  have y: "\<exists>h' T. m = Inr h' \<and> zinv h' T [] \<and> inorder T = xs \<and> payload h' = payload h"
    if "keeps m h xs" for m xs
    using that by (auto simp: keeps_def holds_def same_payload_def)
  consider "mode = TREE_SPLAY" | "mode = TREE_TREAP" | "mode = TREE_COUNT"
    | "mode \<noteq> TREE_SPLAY" "mode \<noteq> TREE_TREAP" "mode \<noteq> TREE_COUNT" by blast
  then show ?thesis
  proof cases
    case 1
    with node_splay_yields [OF z len(1)] show ?thesis
      by (force simp: tree_balance_def yields_def same_payload_def)
  next
    case 2
    let ?h = "upd f (n_priority_update (\<lambda>_. node_priority f)) h"
    have p: "payload ?h = payload h" by (simp add: payload_def upd_def fun_eq_iff)
    have "zinv ?h (Node A f B) c"
      using z linked_cong [of h ?h "plug (Node A f B) c" 0] by (simp add: zinv_def same_links_def upd_def)
    from prioritize_loop_yields [OF this len(1)] obtain A' B' c'
      where "yields (prioritize_loop n ?h f) ?h (Node A' f B') c'"
        and io: "inorder (plug (Node A' f B') c') = inorder (plug (Node A f B) c)" by blast
    then obtain h' where "prioritize_loop n ?h f = Inr h'" "zinv h' (plug (Node A' f B') c') []"
      "payload h' = payload h" using p by (auto simp: yields_def same_payload_def zinv_def)
    with io 2 show ?thesis by (auto simp: tree_balance_def tree_modes node_prioritize_def)
  next
    case 3
    with y [OF node_count_balance_keeps [OF z len(1)]] show ?thesis by (simp add: tree_balance_def tree_modes)
  next
    case 4
    with y [OF node_simple_balance_keeps [OF z len(2)]] zinv_parent [OF z] show ?thesis
      by (simp add: tree_balance_def node_simple_balance_def)
  qed
qed

text \<open>
  The client side of the comparator contract: lemmas on trees whose order is any lawful
  comparison of keys.
\<close>

locale tree_order = comparator cmp for cmp :: "map_key \<Rightarrow> map_key \<Rightarrow> int"
begin

lemma located_left:
  assumes "located cmp h k c" "asc cmp (entries h (plug (Node l a r) c))" "cmp k (n_key (h a)) < 0"
  shows "located cmp h k (FL a r # c)"
proof -
  have s: "asc cmp ((map (payload h) (lctx c) @ entries h l) @ payload h a # (entries h r @ map (payload h) (rctx c)))"
    using assms(2) by (simp add: entries_plug) (simp add: entries_def)
  then have "cmp k (n_key (h b)) < 0" if "b \<in> set (inorder r)" for b
    using asc_below [OF s, of k "payload h b"] that assms(3) by (auto simp: entries_def)
  with assms(1,3) show ?thesis by (auto simp: located_def)
qed

lemma located_right:
  assumes "located cmp h k c" "asc cmp (entries h (plug (Node l a r) c))" "0 < cmp k (n_key (h a))"
  shows "located cmp h k (FR l a # c)"
proof -
  have s: "asc cmp ((map (payload h) (lctx c) @ entries h l) @ payload h a # (entries h r @ map (payload h) (rctx c)))"
    using assms(2) by (simp add: entries_plug) (simp add: entries_def)
  then have "0 < cmp k (n_key (h b))" if "b \<in> set (inorder l)" for b
    using asc_above [OF s, of k "payload h b"] that assms(3) by (auto simp: entries_def)
  with assms(1,3) show ?thesis by (auto simp: located_def)
qed

text \<open>A hit: the entries before the node are below the key, those after it above.\<close>

lemma located_hit:
  assumes "asc cmp (entries h (plug (Node l a r) c))" "cmp k (n_key (h a)) = 0"
  shows "\<And>e. e \<in> set (map (payload h) (lctx c) @ entries h l) \<Longrightarrow> 0 < cmp k (fst e)"
    "\<And>e. e \<in> set (entries h r @ map (payload h) (rctx c)) \<Longrightarrow> cmp k (fst e) < 0"
proof -
  have s: "asc cmp ((map (payload h) (lctx c) @ entries h l) @ payload h a # (entries h r @ map (payload h) (rctx c)))"
    using assms(1) by (simp add: entries_plug) (simp add: entries_def)
  show "0 < cmp k (fst e)" if "e \<in> set (map (payload h) (lctx c) @ entries h l)" for e
    using asc_above [OF s _ that] assms(2) by simp
  show "cmp k (fst e) < 0" if "e \<in> set (entries h r @ map (payload h) (rctx c))" for e
    using asc_below [OF s _ that] assms(2) by simp
qed

lemma tree_put_find_ok:
  assumes "zinv h T c" "t_comp t = cmp" "located cmp h k c" "asc cmp (entries h (plug T c))" "height T < n"
  shows "\<exists>T' c'. plug T' c' = plug T c \<and> located cmp h k c' \<and>
    tree_put_find n h t k (rootp T) (ctxp c) (slot_of c) = Inr (rootp T', ctxp c', slot_of c') \<and>
    (T' = Leaf \<or> (\<exists>A x B. T' = Node A x B \<and> cmp k (n_key (h x)) = 0))"
  using assms
proof (induction n arbitrary: T c)
  case (Suc n)
  show ?case
  proof (cases T)
    case Leaf
    then show ?thesis using Suc.prems by (intro exI [of _ Leaf] exI [of _ c]) simp
  next
    case (Node A x B)
    note p = Suc.prems [unfolded Node]
    have x: "x \<noteq> 0" "n_left (h x) = rootp A" "n_right (h x) = rootp B" using p(1) by (auto simp: zinv_unfold)
    consider "cmp k (n_key (h x)) < 0" | "0 < cmp k (n_key (h x))" | "cmp k (n_key (h x)) = 0" by linarith
    then show ?thesis
    proof cases
      case 1
      have "\<exists>T' c'. plug T' c' = plug A (FL x B # c) \<and> located cmp h k c' \<and>
        tree_put_find n h t k (rootp A) (ctxp (FL x B # c)) (slot_of (FL x B # c)) = Inr (rootp T', ctxp c', slot_of c') \<and>
        (T' = Leaf \<or> (\<exists>A x B. T' = Node A x B \<and> cmp k (n_key (h x)) = 0))"
        using p located_left [OF p(3,4) 1] by (intro Suc.IH) (auto simp: zinv_FL)
      with 1 x p(2) Node show ?thesis by simp
    next
      case 2
      have "\<exists>T' c'. plug T' c' = plug B (FR A x # c) \<and> located cmp h k c' \<and>
        tree_put_find n h t k (rootp B) (ctxp (FR A x # c)) (slot_of (FR A x # c)) = Inr (rootp T', ctxp c', slot_of c') \<and>
        (T' = Leaf \<or> (\<exists>A x B. T' = Node A x B \<and> cmp k (n_key (h x)) = 0))"
        using p located_right [OF p(3,4) 2] by (intro Suc.IH) (auto simp: zinv_FR)
      with 2 x p(2) Node show ?thesis by simp
    next
      case 3
      with x p Node show ?thesis by (intro exI [of _ T] exI [of _ c]) simp
    qed
  qed
qed simp

lemma tree_put_replace:
  assumes z: "zinv h (Node A x B) c" and r: "t_root t = rootp (plug (Node A x B) c)" and cmp: "t_comp t = cmp"
    and asc: "asc cmp (entries h (plug (Node A x B) c))" and eq: "cmp k (n_key (h x)) = 0"
    and n: "size (plug (Node A x B) c) < n"
    and find: "tree_put_find n h t k (t_root t) 0 Root = Inr (x, p, s)"
  shows "\<exists>h'. tree_put n h t f k v = Inr (h', t, n_data (h x)) \<and> tree_at h' t (plug (Node A x B) c) \<and>
    entries h' (plug (Node A x B) c) = al_put cmp k v (entries h (plug (Node A x B) c)) \<and>
    al_get cmp k MAP_EQ (entries h (plug (Node A x B) c)) = Some (payload h x)"
proof -
  let ?T = "plug (Node A x B) c" and ?h = "upd x (\<lambda>d. d\<lparr>n_key := k, n_data := v\<rparr>) h"
  let ?ls = "map (payload h) (lctx c) @ entries h A" and ?rs = "entries h B @ map (payload h) (rctx c)"
  have e: "entries h ?T = ?ls @ payload h x # ?rs" by (simp add: entries_plug) (simp add: entries_def)
  have d: "x \<notin> set (lctx c)" "x \<notin> set (rctx c)" "x \<notin> set_tree A" "x \<notin> set_tree B" and nz: "x \<noteq> 0"
    using z by (auto simp: zinv_unfold)
  have "payload ?h a = (if a = x then (k, v) else payload h a)" for a by (simp add: payload_def upd_def)
  then have "entries ?h ?T = ?ls @ (k, v) # ?rs" using d by (auto simp: entries_plug) (auto simp: entries_def)
  moreover have "al_put cmp k v (entries h ?T) = ?ls @ (k, v) # ?rs"
    unfolding e using located_hit [OF asc eq] eq by (intro al_put_replace) auto
  ultimately have ent: "entries ?h ?T = al_put cmp k v (entries h ?T)" by simp
  have z': "zinv ?h (Node A x B) c"
    using z linked_cong [of h ?h ?T 0] by (simp add: zinv_def same_links_def upd_def)
  have "tree_at ?h t ?T"
    using z' r ent asc_al_put [OF asc] cmp by (simp add: tree_at_def zinv_def)
  moreover have "tree_verify n h t 0 = Inr ()"
    by (rule tree_verify_ok [of h ?T]) (use z r n height_le_size_tree [of ?T] in \<open>auto simp: zinv_def\<close>)
  moreover have "tree_verify n ?h t x = Inr ()" by (rule tree_verify_node_ok [OF z' r n])
  moreover have "al_get cmp k MAP_EQ (entries h ?T) = Some (payload h x)"
    unfolding e using located_hit [OF asc eq] eq by (intro al_get_present(1)) auto
  ultimately show ?thesis using find nz ent by (simp add: tree_put_def Let_def)
qed

lemma tree_put_insert:
  assumes z: "zinv h Leaf c" and r: "t_root t = rootp (plug Leaf c)" and cmp: "t_comp t = cmp"
    and asc: "asc cmp (entries h (plug Leaf c))" and loc: "located cmp h k c"
    and f: "f \<noteq> 0" "f \<notin> ctx_nodes c" and n: "2 * size (plug Leaf c) + 4 \<le> n"
    and find: "tree_put_find n h t k (t_root t) 0 Root = Inr (0, ctxp c, slot_of c)"
  shows "\<exists>h' t' T'. tree_put n h t f k v = Inr (h', t', 0) \<and> tree_at h' t' T' \<and>
    entries h' T' = al_put cmp k v (entries h (plug Leaf c)) \<and>
    inorder T' = lctx c @ f # rctx c \<and> t_mode t' = t_mode t \<and> t_comp t' = cmp \<and>
    al_get cmp k MAP_EQ (entries h (plug Leaf c)) = None"
proof -
  let ?T = "plug Leaf c"
  have len: "length c < n" "2 * length c + 2 \<le> n" using length_ctx [of c Leaf] n by auto
  have d: "distinct (lctx c @ rctx c)" using z by (simp add: zinv_Leaf)
  obtain h1 where h1: "tree_node_new n h f (ctxp c) k v = Inr h1" "linkc h1 0 (Suc 0) c"
    "n_parent (h1 f) = ctxp c" "n_left (h1 f) = 0" "n_right (h1 f) = 0" "n_count (h1 f) = 1"
    "payload h1 = (payload h)(f := (k, v))" using tree_node_new_ok [OF z f len(1)] by blast
  obtain h2 t2 where st: "store_slot (slot_of c) f h1 t = (h2, t2)" by fastforce
  note s2 = store_slot_ok [OF h1(2) d f h1(3-6) r st]
  obtain h3 T3 where h3: "tree_balance (t_mode t2) n h2 f = Inr h3" "zinv h3 T3 []"
    "inorder T3 = inorder (plug (Node Leaf f Leaf) c)" "payload h3 = payload h2"
    using tree_balance_ok [OF s2(1) len(2)] by blast
  have io: "inorder T3 = lctx c @ f # rctx c" using h3(3) by (simp add: inorder_plug)
  have set3: "set_tree T3 = insert f (ctx_nodes c)" and sz: "size T3 = Suc (size ?T)"
    using arg_cong [OF io, of set] arg_cong [OF io, of length] length_inorder [of ?T]
    by (auto simp: inorder_plug)
  define t3 where "t3 = (if n_parent (h3 f) = 0 then t2\<lparr>t_root := f\<rparr> else t2)"
  have "t_root t2 \<in> set_tree T3"
    using rootp_in [of "plug (Node Leaf f Leaf) c"] s2(5) arg_cong [OF h3(3), of set]
      inorder_plug [of "Node Leaf f Leaf" c] by (metis set_inorder inorder.simps(1) list.distinct(1)
        append_is_Nil_conv inorder.simps(2))
  then have "t_root t3 \<in> set_tree T3" using set3 by (simp add: t3_def)
  then have cl: "climb n h3 (t_root t3) = Inr (rootp T3)" using climb_any [OF h3(2)] sz n by simp
  have ent: "entries h3 T3 = map (payload h) (lctx c) @ (k, v) # map (payload h) (rctx c)"
    using h3(4) s2(2) h1(7) f(2) by (auto simp: entries_def io same_payload_def)
  have lo: "\<And>e. e \<in> set (map (payload h) (lctx c)) \<Longrightarrow> 0 < cmp k (fst e)"
    "\<And>e. e \<in> set (map (payload h) (rctx c)) \<Longrightarrow> cmp k (fst e) < 0"
    using loc by (auto simp: located_def)
  have eT: "entries h ?T = map (payload h) (lctx c) @ map (payload h) (rctx c)"
    by (simp add: entries_plug) (simp add: entries_def)
  have put: "entries h3 T3 = al_put cmp k v (entries h ?T)" unfolding ent eT by (rule sym, rule al_put_split) (use lo in auto)
  have get: "al_get cmp k MAP_EQ (entries h ?T) = None" unfolding eT using lo by (intro al_get_absent(1)) auto
  let ?t = "t3\<lparr>t_root := rootp T3\<rparr>"
  have "t_comp ?t = cmp" "t_mode ?t = t_mode t" using s2 cmp by (auto simp: t3_def)
  then have at: "tree_at h3 ?t T3" using h3(2) put asc_al_put [OF asc] by (simp add: tree_at_def)
  have ver: "tree_verify n h t 0 = Inr ()" "tree_verify n h3 ?t 0 = Inr ()"
    using tree_verify_ok [of h ?T t n] tree_verify_ok [of h3 T3 ?t n] z r h3(2) n sz
      height_le_size_tree [of ?T] height_le_size_tree [of T3] by (auto simp: zinv_def)
  have "tree_put n h t f k v = Inr (h3, ?t, 0)"
    using ver find h1(1) st h3(1) cl by (simp add: tree_put_def t3_def [symmetric] Let_def)
  with at put io get \<open>t_comp ?t = cmp\<close> \<open>t_mode ?t = t_mode t\<close> show ?thesis by blast
qed

lemma tree_put_ok:
  assumes at: "tree_at h t T" and cmp: "t_comp t = cmp" and f: "f \<noteq> 0" "f \<notin> set_tree T"
    and n: "2 * size T + 4 \<le> n"
  shows "\<exists>h' t' T'. tree_put n h t f k v = Inr (h', t', data_of (al_get cmp k MAP_EQ (entries h T))) \<and>
    tree_at h' t' T' \<and> entries h' T' = al_put cmp k v (entries h T) \<and>
    set_tree T' \<subseteq> insert f (set_tree T) \<and> t_mode t' = t_mode t \<and> t_comp t' = cmp"
proof -
  have a: "zinv h T []" "t_root t = rootp T" "asc cmp (entries h T)" using at cmp by (auto simp: tree_at_def)
  have "height T < n" using n height_le_size_tree [of T] by simp
  from tree_put_find_ok [OF a(1) cmp located_Nil _ this, of k] a obtain T1 c1 where
    T1: "plug T1 c1 = T" "located cmp h k c1"
      "tree_put_find n h t k (t_root t) 0 Root = Inr (rootp T1, ctxp c1, slot_of c1)"
      "T1 = Leaf \<or> (\<exists>A x B. T1 = Node A x B \<and> cmp k (n_key (h x)) = 0)"
    unfolding a(2) plug.simps ctxp.simps slot_of.simps by blast
  have z: "zinv h T1 c1" using a(1) T1(1) by (simp add: zinv_def)
  from T1(4) show ?thesis
  proof
    assume L: "T1 = Leaf"
    then have T: "T = plug Leaf c1" using T1(1) by simp
    have st: "set_tree T = ctx_nodes c1" using inorder_plug [of Leaf c1] T set_inorder [of T] by simp
    with f(2) have "f \<notin> ctx_nodes c1" by simp
    moreover have "zinv h Leaf c1" "tree_put_find n h t k (t_root t) 0 Root = Inr (0, ctxp c1, slot_of c1)"
      using z T1(3) L by simp_all
    ultimately obtain h' t' T' where
      "tree_put n h t f k v = Inr (h', t', 0)" "tree_at h' t' T'" "entries h' T' = al_put cmp k v (entries h T)"
      "inorder T' = lctx c1 @ f # rctx c1" "t_mode t' = t_mode t" "t_comp t' = cmp"
      "al_get cmp k MAP_EQ (entries h T) = None"
      using tree_put_insert [of h c1 t k f n v, folded T] a(2,3) T1(2) cmp f(1) n by blast
    moreover have "set_tree T' \<subseteq> insert f (set_tree T)"
      using st calculation(4) set_inorder [of T'] by auto
    ultimately show ?thesis by (auto simp: data_of_def)
  next
    assume "\<exists>A x B. T1 = Node A x B \<and> cmp k (n_key (h x)) = 0"
    then obtain A x B where N: "T1 = Node A x B" "cmp k (n_key (h x)) = 0" by blast
    with tree_put_replace [of h A x B c1 t k n _ _ f v] z a T1 cmp n show ?thesis
      by (fastforce simp: data_of_def)
  qed
qed

end

interpretation keytree: tree_order map_keycmp
  by unfold_locales

lemma tree_orderI: "comparator cmp \<Longrightarrow> tree_order cmp"
  by (simp add: tree_order_def)

text \<open>
  C1. Insertion. On a well-linked tree whose keys ascend for a lawful comparison,
  \<^verbatim>\<open>tree_put\<close> returns in every balancing mode without failing an assertion; the new tree
  is well linked and in order, its entries are the old ones with the key's entry added or
  replaced, and the value returned is the key's old data, 0 when it had none.
\<close>

theorem tree_put_correct:
  assumes "comparator (t_comp t)" "tree_at h t T" "f \<noteq> 0" "f \<notin> set_tree T" "2 * size T + 4 \<le> n"
  shows "\<exists>h' t' T'. tree_put n h t f k v = Inr (h', t', data_of (al_get (t_comp t) k MAP_EQ (entries h T))) \<and>
    tree_at h' t' T' \<and> entries h' T' = al_put (t_comp t) k v (entries h T) \<and>
    set_tree T' \<subseteq> insert f (set_tree T) \<and> t_mode t' = t_mode t \<and> t_comp t' = t_comp t"
  using tree_order.tree_put_ok [OF tree_orderI [OF assms(1)] assms(2) refl assms(3-5)] .

text \<open>A tree of two nodes: the root at address 16 with key 5, its left child at 32 with key 3.\<close>

definition two_nodes :: nheap where
  "two_nodes a =
     (if a = 16 then \<lparr>n_key = 5, n_data = 50, n_count = 2, n_priority = 0, n_parent = 0, n_left = 32, n_right = 0\<rparr>
      else if a = 32 then \<lparr>n_key = 3, n_data = 30, n_count = 1, n_priority = 0, n_parent = 16, n_left = 0, n_right = 0\<rparr>
      else \<lparr>n_key = 0, n_data = 0, n_count = 0, n_priority = 0, n_parent = 0, n_left = 0, n_right = 0\<rparr>)"

definition two_tree :: "nat \<Rightarrow> tree_t" where
  "two_tree mode = (tree_new None mode)\<lparr>t_root := 16\<rparr>"

abbreviation two_shape :: "addr tree" where
  "two_shape \<equiv> Node (Node Leaf 32 Leaf) 16 Leaf"

lemma two_comp [simp]: "t_comp (two_tree mode) = map_keycmp"
  by (simp add: two_tree_def tree_new_def)

lemma two_entries: "entries two_nodes two_shape = [(3, 30), (5, 50)]"
  by (simp add: entries_def payload_def two_nodes_def)

lemma two_nodes_at: "tree_at two_nodes (two_tree mode) two_shape"
proof -
  have "zinv two_nodes two_shape []" by (simp add: zinv_def two_nodes_def)
  moreover have "asc map_keycmp (entries two_nodes two_shape)"
    unfolding two_entries by (simp add: asc_def map_keycmp_sign)
  ultimately show ?thesis by (simp add: tree_at_def) (simp add: two_tree_def)
qed

theorem tree_put_correct_witness:
  "\<exists>h' t' T'. tree_put 8 two_nodes (two_tree TREE_TREAP) 48 4 40 = Inr (h', t', 0) \<and>
     tree_at h' t' T' \<and> entries h' T' = [(3, 30), (4, 40), (5, 50)]"
proof -
  have "comparator (t_comp (two_tree TREE_TREAP))" using keycmp.comparator_axioms by simp
  from tree_put_correct [OF this two_nodes_at, of 48 8 4 40] show ?thesis
    by (auto simp: two_entries data_of_def map_keycmp_def)
qed

end
