(* ===== verification/Tree_Query.thy ===== *)
theory Tree_Query
  imports Tree_Map
begin

text \<open>
  Lookups and walks on the tree: the neighbour functions give the next and the previous
  node in order, \<^verbatim>\<open>tree_get_node\<close> finds the entry each of the five conditions asks for,
  and the walks visit entries in ascending order.
\<close>

definition hd0 :: "addr list \<Rightarrow> addr" where
  "hd0 xs = (case xs of [] \<Rightarrow> 0 | a # _ \<Rightarrow> a)"

definition last0 :: "addr list \<Rightarrow> addr" where
  "last0 xs = (if xs = [] then 0 else last xs)"

lemma hd0_simps [simp]: "hd0 [] = 0" "hd0 (a # xs) = a" "last0 [] = 0" "last0 (xs @ [a]) = a" "last0 [a] = a"
  by (simp_all add: hd0_def last0_def)

lemma leftmost_ok:
  "linked h q t \<Longrightarrow> t \<noteq> Leaf \<Longrightarrow> height t \<le> n \<Longrightarrow> leftmost n h (rootp t) = Inr (hd (inorder t))"
proof (induction t arbitrary: q n)
  case (Node l a r)
  then obtain m where n: "n = Suc m" "height l \<le> m" by (cases n) auto
  show ?case
  proof (cases "l = Leaf")
    case False
    then have "inorder l \<noteq> []" "rootp l \<noteq> 0" using Node.prems(1) rootp_0_iff by auto
    with Node False n show ?thesis by auto
  qed (use Node.prems n in simp)
qed simp

lemma rightmost_ok:
  "linked h q t \<Longrightarrow> t \<noteq> Leaf \<Longrightarrow> height t \<le> n \<Longrightarrow> rightmost n h (rootp t) = Inr (last (inorder t))"
proof (induction t arbitrary: q n)
  case (Node l a r)
  then obtain m where n: "n = Suc m" "height r \<le> m" by (cases n) auto
  show ?case
  proof (cases "r = Leaf")
    case False
    then have "inorder r \<noteq> []" "rootp r \<noteq> 0" using Node.prems(1) rootp_0_iff by auto
    with Node False n show ?thesis by auto
  qed (use Node.prems n in simp)
qed simp

lemma climb_right_ok:
  assumes "zinv h (Node A x B) c" "length c < n"
  shows "bindE (while_is_right n h x) (\<lambda>p. if node_is_left h p then Inr (n_parent (h p)) else Inr 0)
    = Inr (hd0 (rctx c))"
  using assms
proof (induction n arbitrary: A x B c)
  case (Suc n)
  note nd = zinv_node [OF Suc.prems(1)]
  show ?case
  proof (cases c rule: ctxp.cases)
    case (3 l p c')
    with Suc.IH [of l p "Node A x B" c'] Suc.prems nd show ?thesis by (simp add: zinv_FR)
  qed (use nd in simp_all)
qed simp

lemma climb_left_ok:
  assumes "zinv h (Node A x B) c" "length c < n"
  shows "bindE (while_is_left n h x) (\<lambda>p. if node_is_right h p then Inr (n_parent (h p)) else Inr 0)
    = Inr (last0 (lctx c))"
  using assms
proof (induction n arbitrary: A x B c)
  case (Suc n)
  note nd = zinv_node [OF Suc.prems(1)]
  show ?case
  proof (cases c rule: ctxp.cases)
    case (2 p r c')
    with Suc.IH [of "Node A x B" p r c'] Suc.prems nd show ?thesis by (simp add: zinv_FL)
  next
    case (3 l p c')
    have "last0 (lctx c' @ inorder l @ [p]) = p" by (simp add: last0_def)
    with 3 nd show ?thesis by simp
  qed (use nd in simp_all)
qed simp

lemma zinv_children:
  assumes "zinv h (Node A x B) c"
  shows "n_left (h x) = rootp A" "n_right (h x) = rootp B" "linked h x A" "linked h x B"
    "n_left (h x) = 0 \<longleftrightarrow> A = Leaf" "n_right (h x) = 0 \<longleftrightarrow> B = Leaf"
  using assms rootp_0_iff by (auto simp: zinv_unfold)

lemma ctx_bounds:
  assumes "size (plug (Node A x B) c) \<le> n"
  shows "length c < n" "height A \<le> n" "height B \<le> n"
  using assms length_ctx [of c "Node A x B"] height_le_size_tree [of A] height_le_size_tree [of B] by auto

lemma node_next_ok:
  assumes z: "zinv h (Node A x B) c" and n: "size (plug (Node A x B) c) \<le> n"
  shows "node_next n h x = Inr (hd0 (inorder B @ rctx c))"
proof (cases "B = Leaf")
  case True
  then show ?thesis
    using climb_right_ok [OF z] ctx_bounds [OF n] zinv_children [OF z] by (simp add: node_next_def)
next
  case False
  then have "inorder B \<noteq> []" by simp
  then have "hd0 (inorder B @ rctx c) = hd (inorder B)" by (cases "inorder B") (auto simp: hd0_def)
  with False leftmost_ok [of h x B n] ctx_bounds [OF n] zinv_children [OF z] show ?thesis
    by (simp add: node_next_def)
qed

lemma node_prev_ok:
  assumes z: "zinv h (Node A x B) c" and n: "size (plug (Node A x B) c) \<le> n"
  shows "node_prev n h x = Inr (last0 (lctx c @ inorder A))"
proof (cases "A = Leaf")
  case True
  then show ?thesis
    using climb_left_ok [OF z] ctx_bounds [OF n] zinv_children [OF z] by (simp add: node_prev_def)
next
  case False
  then have "inorder A \<noteq> []" by simp
  then have "last0 (lctx c @ inorder A) = last (inorder A)" by (simp add: last0_def)
  with False rightmost_ok [of h x A n] ctx_bounds [OF n] zinv_children [OF z] show ?thesis
    by (simp add: node_prev_def)
qed

subsection \<open>Lookup\<close>

text \<open>The node pointer \<open>a\<close> is what a lookup of the entry \<open>r\<close> should give.\<close>

definition points_at :: "nheap \<Rightarrow> addr tree \<Rightarrow> addr \<Rightarrow> (map_key \<times> map_data) option \<Rightarrow> bool" where
  "points_at h T a r \<longleftrightarrow> (case r of None \<Rightarrow> a = 0 | Some e \<Rightarrow> a \<in> set_tree T \<and> payload h a = e)"

lemma points_at_first: "set xs \<subseteq> set_tree T \<Longrightarrow> points_at h T (hd0 xs) (first_of (map (payload h) xs))"
  by (cases xs) (auto simp: points_at_def first_of_def)

lemma points_at_last: "set xs \<subseteq> set_tree T \<Longrightarrow> points_at h T (last0 xs) (last_of (map (payload h) xs))"
  by (cases xs rule: rev_cases) (auto simp: points_at_def last_of_def)

lemma points_at_node: "x \<in> set_tree T \<Longrightarrow> points_at h T x (Some (payload h x))"
  by (simp add: points_at_def)

lemma points_at_None: "points_at h T 0 None"
  by (simp add: points_at_def)

lemma set_plug: "set_tree (plug t c) = set_tree t \<union> ctx_nodes c"
  using arg_cong [OF inorder_plug [of t c], of set] by auto

text \<open>The result of a lookup: the right node, and a tree with the same entries.\<close>

definition got :: "(map_key \<Rightarrow> map_key \<Rightarrow> int) \<Rightarrow> nheap \<Rightarrow> tree_t \<Rightarrow> addr tree \<Rightarrow> map_key \<Rightarrow> map_eq_test \<Rightarrow> (nheap \<times> tree_t \<times> addr) res \<Rightarrow> bool" where
  "got cmp h t T k cond m \<longleftrightarrow> (\<exists>h' t' T' a. m = Inr (h', t', a) \<and>
     points_at h T a (al_get cmp k cond (entries h T)) \<and>
     tree_at h' t' T' \<and> inorder T' = inorder T \<and> payload h' = payload h \<and>
     t_mode t' = t_mode t \<and> t_comp t' = t_comp t)"

context tree_order
begin

lemma got_here:
  "tree_at h t T \<Longrightarrow> points_at h T a (al_get cmp k cond (entries h T)) \<Longrightarrow> got cmp h t T k cond (Inr (h, t, a))"
  unfolding got_def by blast

lemma tree_get_miss_left:
  assumes at: "tree_at h t (plug (Node Leaf x B) c)" and z: "zinv h (Node Leaf x B) c" and cmp: "t_comp t = cmp"
    and loc: "located cmp h k c" and lt: "cmp k (n_key (h x)) < 0" and n: "size (plug (Node Leaf x B) c) \<le> m"
  shows "got cmp h t (plug (Node Leaf x B) c) k cond
    (case cond of MAP_GT \<Rightarrow> Inr (h, t, x) | MAP_GE \<Rightarrow> Inr (h, t, x)
       | MAP_LT \<Rightarrow> bindE (node_prev m h x) (\<lambda>p. Inr (h, t, p))
       | MAP_LE \<Rightarrow> bindE (node_prev m h x) (\<lambda>p. Inr (h, t, p))
       | MAP_EQ \<Rightarrow> Inr (h, t, 0))"
proof -
  let ?T = "plug (Node Leaf x B) c"
  let ?L = "lctx c" and ?R = "x # inorder B @ rctx c"
  have e: "entries h ?T = map (payload h) ?L @ map (payload h) ?R" by (simp add: entries_def inorder_plug)
  have "asc cmp (entries h ?T)" using at cmp by (simp add: tree_at_def)
  then have "located cmp h k (FL x B # c)" using located_left loc lt by blast
  then have lo: "\<And>e. e \<in> set (map (payload h) ?L) \<Longrightarrow> 0 < cmp k (fst e)"
    "\<And>e. e \<in> set (map (payload h) ?R) \<Longrightarrow> cmp k (fst e) < 0"
    by (auto simp: located_def)
  note g = al_get_absent [of "map (payload h) ?L" cmp k "map (payload h) ?R", OF lo, folded e]
  have "points_at h ?T x (first_of (map (payload h) ?R))" "points_at h ?T (last0 ?L) (last_of (map (payload h) ?L))"
    using points_at_first [of ?R ?T h] points_at_last [of ?L ?T h] by (auto simp: set_plug)
  then show ?thesis
    using node_prev_ok [OF z n] g points_at_None by (cases cond) (auto intro!: got_here [OF at])
qed

lemma tree_get_miss_right:
  assumes at: "tree_at h t (plug (Node A x Leaf) c)" and z: "zinv h (Node A x Leaf) c" and cmp: "t_comp t = cmp"
    and loc: "located cmp h k c" and gt: "0 < cmp k (n_key (h x))" and n: "size (plug (Node A x Leaf) c) \<le> m"
  shows "got cmp h t (plug (Node A x Leaf) c) k cond
    (case cond of MAP_GT \<Rightarrow> bindE (node_next m h x) (\<lambda>p. Inr (h, t, p))
       | MAP_GE \<Rightarrow> bindE (node_next m h x) (\<lambda>p. Inr (h, t, p))
       | MAP_LT \<Rightarrow> Inr (h, t, x) | MAP_LE \<Rightarrow> Inr (h, t, x)
       | MAP_EQ \<Rightarrow> Inr (h, t, 0))"
proof -
  let ?T = "plug (Node A x Leaf) c"
  let ?L = "lctx c @ inorder A @ [x]" and ?R = "rctx c"
  have e: "entries h ?T = map (payload h) ?L @ map (payload h) ?R" by (simp add: entries_def inorder_plug)
  have "asc cmp (entries h ?T)" using at cmp by (simp add: tree_at_def)
  then have "located cmp h k (FR A x # c)" using located_right loc gt by blast
  then have lo: "\<And>e. e \<in> set (map (payload h) ?L) \<Longrightarrow> 0 < cmp k (fst e)"
    "\<And>e. e \<in> set (map (payload h) ?R) \<Longrightarrow> cmp k (fst e) < 0"
    by (auto simp: located_def)
  note g = al_get_absent [of "map (payload h) ?L" cmp k "map (payload h) ?R", OF lo, folded e]
  have "last0 ?L = x" by (simp add: last0_def)
  then have "points_at h ?T (hd0 ?R) (first_of (map (payload h) ?R))" "points_at h ?T x (last_of (map (payload h) ?L))"
    using points_at_first [of ?R ?T h] points_at_last [of ?L ?T h] by (auto simp: set_plug)
  then show ?thesis
    using node_next_ok [OF z n] g points_at_None by (cases cond) (auto intro!: got_here [OF at])
qed

lemma tree_get_hit_ok:
  assumes at: "tree_at h t (plug (Node A x B) c)" and cmp: "t_comp t = cmp"
    and eq: "cmp k (n_key (h x)) = 0" and n: "size (plug (Node A x B) c) \<le> m"
  shows "got cmp h t (plug (Node A x B) c) k cond (tree_get_hit m h t x cond)"
proof -
  let ?T = "plug (Node A x B) c"
  let ?L = "lctx c @ inorder A" and ?R = "inorder B @ rctx c"
  have z: "zinv h (Node A x B) c" and r: "t_root t = rootp ?T" and asc: "asc cmp (entries h ?T)"
    using at cmp by (auto simp: tree_at_def zinv_def)
  have e: "entries h ?T = map (payload h) ?L @ payload h x # map (payload h) ?R"
    by (simp add: entries_def inorder_plug)
  have lo: "\<And>e. e \<in> set (map (payload h) ?L) \<Longrightarrow> 0 < cmp k (fst e)"
    "\<And>e. e \<in> set (map (payload h) ?R) \<Longrightarrow> cmp k (fst e) < 0" "cmp k (fst (payload h x)) = 0"
    using located_hit [OF asc eq] eq by (auto simp: entries_def)
  note g = al_get_present [of "map (payload h) ?L" cmp k "map (payload h) ?R" "payload h x", OF lo, folded e]
  have pa: "points_at h ?T (hd0 ?R) (first_of (map (payload h) ?R))"
    "points_at h ?T (last0 ?L) (last_of (map (payload h) ?L))" "points_at h ?T x (Some (payload h x))"
    using points_at_first [of ?R ?T h] points_at_last [of ?L ?T h] points_at_node [of x ?T h] by (auto simp: set_plug)
  have plain: "got cmp h t ?T k cond (tree_get_hit m h t x cond)"
    if "t_mode t \<noteq> TREE_SPLAY \<or> cond = MAP_LT \<or> cond = MAP_GT"
    using that pa g node_next_ok [OF z n] node_prev_ok [OF z n]
    by (cases cond) (auto simp: tree_get_hit_def intro!: got_here [OF at])
  have "got cmp h t ?T k cond (tree_get_hit m h t x cond)"
    if "t_mode t = TREE_SPLAY" "cond \<noteq> MAP_LT" "cond \<noteq> MAP_GT"
  proof -
    obtain A' B' h' where h': "node_splay m h x = Inr h'" "zinv h' (Node A' x B') []" "payload h' = payload h"
      and io: "inorder (Node A' x B') = inorder ?T"
      using node_splay_yields [OF z ctx_bounds(1) [OF n]] by (auto simp: yields_def same_payload_def)
    have sz: "size (Node A' x B') = size ?T" using arg_cong [OF io, of length] unfolding length_inorder .
    have "?T \<noteq> Leaf" using size_plug [of "Node A x B" c] by auto
    then have "t_root t \<in> set_tree (Node A' x B')"
      using rootp_in [of ?T] arg_cong [OF io, of set] unfolding set_inorder r by simp
    then have "climb m h' (t_root t) = Inr x" using climb_any [OF h'(2)] sz n by simp
    then have run: "tree_get_hit m h t x cond = Inr (h', t\<lparr>t_root := x\<rparr>, x)"
      using that h'(1) by (cases cond) (auto simp: tree_get_hit_def)
    have "entries h' (Node A' x B') = entries h ?T" using io h'(3) by (simp add: entries_def)
    then have "tree_at h' (t\<lparr>t_root := x\<rparr>) (Node A' x B')" using h'(2) asc cmp by (simp add: tree_at_def)
    moreover have "points_at h ?T x (al_get cmp k cond (entries h ?T))" using that pa g by (cases cond) auto
    ultimately show ?thesis unfolding got_def run using io h'(3) by force
  qed
  with plain show ?thesis by blast
qed

lemma tree_get_loop_ok:
  assumes "tree_at h t (plug T c)" "t_comp t = cmp" "T \<noteq> Leaf" "located cmp h k c" "height T \<le> n"
    "size (plug T c) \<le> m"
  shows "got cmp h t (plug T c) k cond (tree_get_loop n m h t k cond (rootp T))"
  using assms
proof (induction n arbitrary: T c)
  case (Suc n)
  obtain A x B where T: "T = Node A x B" using Suc.prems(3) by (cases T) auto
  note p = Suc.prems [unfolded T]
  have z: "zinv h (Node A x B) c" and asc: "asc cmp (entries h (plug (Node A x B) c))"
    using p(1,2) by (auto simp: tree_at_def zinv_def)
  note ch = zinv_children [OF z] zinv_nz [OF z]
  consider "cmp k (n_key (h x)) < 0" | "0 < cmp k (n_key (h x))" | "cmp k (n_key (h x)) = 0" by linarith
  then show ?case
  proof cases
    case 1
    show ?thesis
    proof (cases "A = Leaf")
      case True
      then show ?thesis
        using tree_get_miss_left [of h t x B c k m cond] p z 1 T ch by simp
    next
      case False
      have "got cmp h t (plug A (FL x B # c)) k cond (tree_get_loop n m h t k cond (rootp A))"
        using p located_left [OF p(4) asc 1] False by (intro Suc.IH) auto
      with False 1 ch p(2) T show ?thesis by simp
    qed
  next
    case 2
    show ?thesis
    proof (cases "B = Leaf")
      case True
      then show ?thesis
        using tree_get_miss_right [of h t A x c k m cond] p z 2 T ch by simp
    next
      case False
      have "got cmp h t (plug B (FR A x # c)) k cond (tree_get_loop n m h t k cond (rootp B))"
        using p located_right [OF p(4) asc 2] False by (intro Suc.IH) auto
      with False 2 ch p(2) T show ?thesis by simp
    qed
  next
    case 3
    then show ?thesis using tree_get_hit_ok [OF p(1,2) 3 p(6), of cond] ch p(2) T by simp
  qed
qed simp

lemma tree_get_node_ok:
  assumes at: "tree_at h t T" and cmp: "t_comp t = cmp" and n: "size T < n"
  shows "got cmp h t T k cond (tree_get_node n h t k cond)"
proof (cases "T = Leaf")
  case True
  have "al_get cmp k cond ([] :: (map_key \<times> map_data) list) = None" by (cases cond) simp_all
  then have "points_at h T 0 (al_get cmp k cond (entries h T))"
    using True by (simp add: entries_def points_at_def)
  moreover have "t_root t = 0" "n = Suc (n - 1)" using at True n by (simp_all add: tree_at_def)
  then have "tree_get_node n h t k cond = Inr (h, t, 0)"
    using tree_get_loop.simps(2) [of "n - 1" n h t k cond 0] by (simp add: tree_get_node_def)
  ultimately have "tree_get_node n h t k cond = Inr (h, t, 0)" "points_at h T 0 (al_get cmp k cond (entries h T))"
    by simp_all
  then show ?thesis using got_here [OF at] by simp
next
  case False
  then show ?thesis
    using tree_get_loop_ok [of h t T "[]" k n n cond] at cmp n height_le_size_tree [of T]
    by (simp add: tree_get_node_def tree_at_def)
qed

lemma tree_get_ok:
  assumes at: "tree_at h t T" and cmp: "t_comp t = cmp" and n: "size T < n"
  shows "\<exists>h' t' T'. tree_get n h t k cond = Inr (h', t', data_of (al_get cmp k cond (entries h T))) \<and>
    tree_at h' t' T' \<and> entries h' T' = entries h T \<and> set_tree T' = set_tree T \<and>
    t_mode t' = t_mode t \<and> t_comp t' = cmp"
proof -
  from tree_get_node_ok [OF assms, of k cond] obtain h' t' T' a where
    g: "tree_get_node n h t k cond = Inr (h', t', a)" "points_at h T a (al_get cmp k cond (entries h T))"
      "tree_at h' t' T'" "inorder T' = inorder T" "payload h' = payload h" "t_mode t' = t_mode t" "t_comp t' = t_comp t"
    by (auto simp: got_def)
  have "entries h' T' = entries h T" "set_tree T' = set_tree T"
    using g(4,5) set_inorder [of T'] by (simp_all add: entries_def)
  moreover have "0 \<notin> set_tree T" using at linked_nz [of h 0 T] by (auto simp: tree_at_def zinv_def)
  then have "(if a \<noteq> 0 then n_data (h' a) else 0) = data_of (al_get cmp k cond (entries h T))"
    using g(2) arg_cong [OF fun_cong [OF g(5), of a], of snd]
    by (auto simp: points_at_def data_of_def payload_def split: option.splits)
  ultimately show ?thesis using g cmp by (simp add: tree_get_def) blast
qed

end

text \<open>
  C2. Lookup. On every well-linked ordered tree \<^verbatim>\<open>tree_get\<close> returns, for each of the five
  conditions, the data of the entry the ordered list of entries has for it: the equal one,
  the greatest below or the least above the key, 0 when there is none. The entries are
  unchanged, also when the mode is splay and the lookup restructures the tree.
\<close>

theorem tree_get_correct:
  assumes "comparator (t_comp t)" "tree_at h t T" "size T < n"
  shows "\<exists>h' t' T'. tree_get n h t k cond = Inr (h', t', data_of (al_get (t_comp t) k cond (entries h T))) \<and>
    tree_at h' t' T' \<and> entries h' T' = entries h T \<and> set_tree T' = set_tree T \<and>
    t_mode t' = t_mode t \<and> t_comp t' = t_comp t"
  using tree_order.tree_get_ok [OF tree_orderI [OF assms(1)] assms(2) refl assms(3)] .

theorem tree_get_correct_witness:
  "\<exists>h' t' T'. tree_get 3 two_nodes (two_tree TREE_SPLAY) 4 MAP_LE = Inr (h', t', 30) \<and>
     tree_at h' t' T' \<and> entries h' T' = [(3, 30), (5, 50)]"
proof -
  have "comparator (t_comp (two_tree TREE_SPLAY))" using keycmp.comparator_axioms by simp
  from tree_get_correct [OF this two_nodes_at, of 3 4 MAP_LE] show ?thesis
    by (auto simp: two_entries data_of_def map_keycmp_def)
qed

end
