(* ===== verification/Tree_Walk.thy ===== *)
theory Tree_Walk
  imports Tree_Query
begin

text \<open>
  The walks over a tree. A walk calls its callback on a run of consecutive entries, in
  ascending order: all of them for \<^verbatim>\<open>tree_walk\<close>, those of a key range for
  \<^verbatim>\<open>tree_walk_range\<close>.
\<close>

abbreviation visit :: "('p \<Rightarrow> map_key \<Rightarrow> map_data \<Rightarrow> 'p) \<Rightarrow> map_key \<times> map_data \<Rightarrow> 'p \<Rightarrow> 'p" where
  "visit func e p \<equiv> func p (fst e) (snd e)"

text \<open>The part of a list up to and including an element; the whole list without it.\<close>

fun upto_node :: "'a \<Rightarrow> 'a list \<Rightarrow> 'a list" where
  "upto_node e [] = []"
| "upto_node e (x # xs) = (if x = e then [x] else x # upto_node e xs)"

lemma upto_node_absent: "e \<notin> set xs \<Longrightarrow> upto_node e xs = xs"
  by (induction xs) auto

lemma upto_node_last: "distinct xs \<Longrightarrow> xs \<noteq> [] \<Longrightarrow> upto_node (last xs) (xs @ ys) = xs"
proof (induction xs)
  case (Cons x xs)
  then show ?case by (cases "xs = []") auto
qed simp

lemma split_at_node:
  assumes z: "zinv h T []" and io: "inorder T = zs @ y # ys"
  obtains A B c where "T = plug (Node A y B) c" "zinv h (Node A y B) c" "ys = inorder B @ rctx c"
proof -
  have "y \<in> set_tree T" using arg_cong [OF io, of set] by simp
  then obtain A B c where T: "T = plug (Node A y B) c" using tree_split by blast
  then have eq: "(lctx c @ inorder A) @ y # (inorder B @ rctx c) = zs @ y # ys"
    using io by (simp add: inorder_plug)
  have zc: "zinv h (Node A y B) c" using z T by (simp add: zinv_def)
  then have "y \<notin> set (lctx c @ inorder A)" "y \<notin> set (inorder B @ rctx c)" by (auto simp: zinv_unfold)
  then have "ys = inorder B @ rctx c" using eq append_Cons_eq_iff by metis
  with T zc that show thesis by blast
qed

lemma tree_walk_nodes_ok:
  assumes "zinv h T []" "inorder T = zs @ ys" "size T + length ys < n"
  shows "tree_walk_nodes n h (hd0 ys) e func p = Inr (fold (visit func) (map (payload h) (upto_node e ys)) p)"
  using assms(2,3)
proof (induction ys arbitrary: zs n p)
  case Nil
  then show ?case by (cases n) (simp_all add: hd0_def)
next
  case (Cons y ys)
  obtain m where n: "n = Suc m" "size T + length ys < m" using Cons.prems(2) by (cases n) auto
  obtain A B c where T: "T = plug (Node A y B) c" and z: "zinv h (Node A y B) c" and ys: "ys = inorder B @ rctx c"
    using split_at_node [OF assms(1) Cons.prems(1)] .
  have "node_next m h y = Inr (hd0 ys)" using node_next_ok [OF z, of m] T n(2) ys by simp
  moreover have "tree_walk_nodes m h (hd0 ys) e func q = Inr (fold (visit func) (map (payload h) (upto_node e ys)) q)" for q
    using Cons.IH [of "zs @ [y]" m q] Cons.prems(1) n(2) by simp
  moreover have "m = Suc (m - 1)" using n(2) by simp
  then have "tree_walk_nodes m h 0 e func q = Inr q" for q
    using tree_walk_nodes.simps(2) [of "m - 1" h 0 e func q] by simp
  moreover have "hd0 (y # ys) = y" "y \<noteq> 0" using zinv_nz [OF z] by (simp_all add: hd0_def)
  ultimately show ?case using n(1) by (simp add: Let_def)
qed

lemma tree_first_ok:
  assumes "zinv h T []" "t_root t = rootp T" "size T \<le> n"
  shows "tree_node_first n h t = Inr (hd0 (inorder T))" "tree_node_last n h t = Inr (last0 (inorder T))"
proof -
  have l: "linked h 0 T" and ht: "height T \<le> n" using assms height_le_size_tree [of T] by (auto simp: zinv_def)
  show "tree_node_first n h t = Inr (hd0 (inorder T))"
    using leftmost_ok [OF l _ ht] rootp_0_iff [OF l] assms(2)
    by (cases "T = Leaf") (simp_all add: tree_node_first_def hd0_def neq_Nil_conv split: list.split)
  show "tree_node_last n h t = Inr (last0 (inorder T))"
    using rightmost_ok [OF l _ ht] rootp_0_iff [OF l] assms(2)
    by (cases "T = Leaf") (simp_all add: tree_node_last_def last0_def)
qed

lemma tree_walk_ok:
  assumes at: "tree_at h t T" and n: "2 * size T < n"
  shows "tree_walk n h t func p = Inr (fold (visit func) (entries h T) p)"
proof -
  have z: "zinv h T []" "t_root t = rootp T" using at by (auto simp: tree_at_def)
  have "distinct (inorder T)" using z(1) by (simp add: zinv_def)
  then have "upto_node (last0 (inorder T)) (inorder T) = inorder T"
    using upto_node_last [of "inorder T" "[]"] by (cases "inorder T = []") (auto simp: last0_def)
  with tree_walk_nodes_ok [OF z(1), of "[]" "inorder T" n "last0 (inorder T)" func p] tree_first_ok [OF z] n
  show ?thesis by (simp add: tree_walk_def entries_def)
qed

subsection \<open>Walking a range\<close>

lemma find_filter: "find P xs = first_of (filter P xs)"
  by (induction xs) (simp_all add: first_of_def)

lemma find_rev_filter: "find P (rev xs) = last_of (filter P xs)"
  unfolding find_filter rev_filter [symmetric]
  by (cases "filter P xs" rule: rev_cases) (simp_all add: first_of_def last_of_def)

lemma points_at_unique:
  assumes "points_at h T a r" "points_at h T b r" "inj_on (payload h) (set_tree T)"
  shows "a = b"
  using assms by (auto simp: points_at_def inj_on_def split: option.splits)

context comparator
begin

lemma asc_filter_split:
  assumes "asc cmp (map g xs)"
  shows "xs = filter (\<lambda>a. 0 < cmp k (fst (g a))) xs @ filter (\<lambda>a. cmp k (fst (g a)) \<le> 0) xs"
  using assms
proof (induction xs)
  case (Cons x xs)
  show ?case
  proof (cases "0 < cmp k (fst (g x))")
    case False
    then have "cmp k (fst (g a)) < 0" if "a \<in> set xs" for a
      using Cons.prems that cmp_le_less [of k "fst (g x)" "fst (g a)"] by (auto simp: asc_Cons)
    then have "filter (\<lambda>a. 0 < cmp k (fst (g a))) xs = []" "filter (\<lambda>a. cmp k (fst (g a)) \<le> 0) xs = xs"
      by (force simp: filter_empty_conv filter_id_conv)+
    with False show ?thesis by simp
  qed (use Cons in \<open>simp add: asc_Cons\<close>)
qed simp

lemma asc_inj: "asc cmp (map g xs) \<Longrightarrow> inj_on g (set xs)"
proof (induction xs)
  case (Cons x xs)
  then have "g x \<noteq> g a" if "a \<in> set xs" for a using that cmp_refl [of "fst (g x)"] by (auto simp: asc_Cons simp del: cmp_refl)
  with Cons show ?case by (auto simp: asc_Cons inj_on_def)
qed simp

text \<open>The nodes a walk visits when it starts at the first key from \<open>k\<close> on and stops at the last below \<open>l\<close>.\<close>

lemma upto_range:
  fixes k l :: 'k
  assumes a: "asc cmp (map g xs)" and d: "distinct xs" and nz: "z \<notin> set xs"
  defines "ys \<equiv> filter (\<lambda>a. cmp k (fst (g a)) \<le> 0) xs"
    and "lt \<equiv> filter (\<lambda>a. 0 < cmp l (fst (g a))) xs"
    and "R \<equiv> filter (\<lambda>a. cmp k (fst (g a)) \<le> 0 \<and> 0 < cmp l (fst (g a))) xs"
  shows "upto_node (if lt = [] then z else last lt) ys = (if R = [] then ys else R)"
proof -
  have xs: "xs = lt @ filter (\<lambda>a. cmp l (fst (g a)) \<le> 0) xs"
    using asc_filter_split [OF a, of l] by (simp add: lt_def)
  have R: "R = filter (\<lambda>a. cmp k (fst (g a)) \<le> 0) lt" by (simp add: R_def lt_def conj_commute)
  have ys: "ys = R @ filter (\<lambda>a. cmp k (fst (g a)) \<le> 0) (filter (\<lambda>a. cmp l (fst (g a)) \<le> 0) xs)"
    unfolding ys_def R by (subst xs) (simp only: filter_append)
  show ?thesis
  proof (cases "R = []")
    case True
    have "(if lt = [] then z else last lt) \<notin> set ys"
    proof (cases "lt = []")
      case False
      then have "last lt \<in> set lt" by simp
      with True have "\<not> cmp k (fst (g (last lt))) \<le> 0" unfolding R by (simp add: filter_empty_conv)
      with False show ?thesis by (simp add: ys_def)
    qed (use nz in \<open>simp add: ys_def\<close>)
    with True show ?thesis by (simp add: upto_node_absent)
  next
    case False
    have "asc cmp (map g lt)" using a unfolding lt_def asc_def sorted_wrt_map by (rule sorted_wrt_filter)
    then have "lt = filter (\<lambda>a. 0 < cmp k (fst (g a))) lt @ R" unfolding R by (rule asc_filter_split)
    with False have "lt \<noteq> []" "last lt = last R" by (auto dest: arg_cong [of _ _ last])
    moreover have "distinct R" using d by (simp add: R_def)
    ultimately show ?thesis using False upto_node_last [of R] by (subst ys) simp
  qed
qed

end

text \<open>
  The entries a range walk visits: those in the range; but when the range holds none, the
  walk's end lies before its start and it runs to the last entry.
\<close>

definition range_visits :: "(map_key \<Rightarrow> map_key \<Rightarrow> int) \<Rightarrow> map_key \<Rightarrow> map_key \<Rightarrow> (map_key \<times> map_data) list \<Rightarrow>
  (map_key \<times> map_data) list" where
  "range_visits cmp lo hi es =
     (let rs = filter (\<lambda>e. cmp lo (fst e) \<le> 0 \<and> 0 < cmp hi (fst e)) es
      in if rs = [] then filter (\<lambda>e. cmp lo (fst e) \<le> 0) es else rs)"

context tree_order
begin

lemma got_node:
  assumes "got cmp h t T k cond m" and asc: "asc cmp (entries h T)"
    and p: "points_at h T b (al_get cmp k cond (entries h T))"
  shows "\<exists>h' t' T'. m = Inr (h', t', b) \<and> tree_at h' t' T' \<and> inorder T' = inorder T \<and> payload h' = payload h \<and>
     t_mode t' = t_mode t \<and> t_comp t' = t_comp t"
proof -
  have "inj_on (payload h) (set_tree T)" using asc_inj [of "payload h" "inorder T"] asc by (simp add: entries_def)
  with assms(1) p show ?thesis unfolding got_def using points_at_unique by metis
qed

lemma tree_walk_range_ok:
  fixes lo hi :: map_key
  assumes at: "tree_at h t T" and cmp: "t_comp t = cmp" and n: "2 * size T < n"
  shows "\<exists>h' t' T'. tree_walk_range n h t func p lo hi
      = Inr (h', t', fold (visit func) (range_visits cmp lo hi (entries h T)) p) \<and>
    tree_at h' t' T' \<and> entries h' T' = entries h T \<and> t_mode t' = t_mode t \<and> t_comp t' = cmp"
proof -
  define es where "es = filter (\<lambda>e. cmp lo (fst e) \<le> 0) (entries h T)"
  define rs where "rs = filter (\<lambda>e. cmp lo (fst e) \<le> 0 \<and> 0 < cmp hi (fst e)) (entries h T)"
  have rv: "range_visits cmp lo hi (entries h T) = (if rs = [] then es else rs)"
    by (simp add: range_visits_def es_def rs_def Let_def)
  let ?ys = "filter (\<lambda>a. cmp lo (n_key (h a)) \<le> 0) (inorder T)"
  let ?lt = "filter (\<lambda>a. 0 < cmp hi (n_key (h a))) (inorder T)"
  let ?R = "filter (\<lambda>a. cmp lo (n_key (h a)) \<le> 0 \<and> 0 < cmp hi (n_key (h a))) (inorder T)"
  have asc: "asc cmp (entries h T)" and z: "zinv h T []" using at cmp by (auto simp: tree_at_def)
  have n': "size T < n" using n by simp
  have "points_at h T (hd0 ?ys) (al_get cmp lo MAP_GE (entries h T))"
    using points_at_first [of ?ys T h] by (auto simp: entries_def find_filter filter_map o_def)
  from got_node [OF tree_get_node_ok [OF at cmp n'] asc this] obtain h1 t1 T1 where
    g1: "tree_get_node n h t lo MAP_GE = Inr (h1, t1, hd0 ?ys)" "tree_at h1 t1 T1" "inorder T1 = inorder T"
      "payload h1 = payload h" "t_mode t1 = t_mode t" "t_comp t1 = cmp" using cmp by auto
  have e1: "entries h1 T1 = entries h T" and s1: "size T1 = size T" "set_tree T1 = set_tree T"
    using g1 length_inorder [of T1] set_inorder [of T1] by (simp_all add: entries_def)
  have "points_at h1 T1 (last0 ?lt) (al_get cmp hi MAP_LT (entries h1 T1))"
    using points_at_last [of ?lt T1 h1] s1(2) g1(3,4)
    by (auto simp: entries_def find_rev_filter filter_map o_def)
  from got_node [OF tree_get_node_ok [OF g1(2,6)] _ this, of n] asc obtain h2 t2 T2 where
    g2: "tree_get_node n h1 t1 hi MAP_LT = Inr (h2, t2, last0 ?lt)" "tree_at h2 t2 T2" "inorder T2 = inorder T"
      "payload h2 = payload h" "t_mode t2 = t_mode t" "t_comp t2 = cmp" using g1 n' s1 e1 by auto
  have z2: "zinv h2 T2 []" "size T2 = size T" using g2 length_inorder [of T2] by (simp_all add: tree_at_def)
  have a: "asc cmp (map (payload h) (inorder T))" using asc by (simp add: entries_def)
  have split: "inorder T2 = filter (\<lambda>a. 0 < cmp lo (n_key (h a))) (inorder T) @ ?ys"
    using asc_filter_split [OF a, of lo] g2(3) by simp
  have "size T2 + length ?ys < n" using z2(2) n length_filter_le [of _ "inorder T"] length_inorder [of T]
    by (metis add_mono_thms_linordered_semiring(1) le_refl mult_2 order.strict_trans1)
  from tree_walk_nodes_ok [OF z2(1) split this, of "last0 ?lt" func p]
  have walk: "tree_walk_nodes n h2 (hd0 ?ys) (last0 ?lt) func p
    = Inr (fold (visit func) (map (payload h) (upto_node (last0 ?lt) ?ys)) p)" using g2(4) by simp
  have nz: "0 \<notin> set (inorder T)" "distinct (inorder T)" using z linked_nz [of h 0 T] by (auto simp: zinv_def)
  have "upto_node (last0 ?lt) ?ys = (if ?R = [] then ?ys else ?R)"
    using upto_range [OF a nz(2,1), of hi lo] by (simp only: fst_payload last0_def)
  moreover have "map (payload h) ?ys = es" "map (payload h) ?R = rs" "?R = [] \<longleftrightarrow> rs = []"
    by (simp_all add: es_def rs_def entries_def filter_map o_def)
  ultimately have "map (payload h) (upto_node (last0 ?lt) ?ys) = (if rs = [] then es else rs)" by simp
  then have run: "tree_walk_range n h t func p lo hi = Inr (h2, t2, fold (visit func) (if rs = [] then es else rs) p)"
    using g1(1) g2(1) walk by (simp add: tree_walk_range_def)
  moreover have "entries h2 T2 = entries h T" using g2(3,4) by (simp add: entries_def)
  ultimately show ?thesis using g2 unfolding rv by blast
qed

end

text \<open>
  C5. Walks. \<^verbatim>\<open>tree_walk\<close> calls its callback exactly once on every entry, in ascending
  order. \<^verbatim>\<open>tree_walk_range\<close> calls it on the entries from \<open>lo\<close> up to but not including
  \<open>hi\<close> when there is one; when the range holds no entry the code does not stop there, and
  visits every entry from \<open>lo\<close> on.
\<close>

theorem tree_walks_visit:
  fixes lo hi :: map_key
  assumes "comparator (t_comp t)" "tree_at h t T" "2 * size T < n"
  shows "tree_walk n h t func p = Inr (fold (visit func) (entries h T) p) \<and>
    (\<exists>h' t' T'. tree_walk_range n h t func p lo hi = Inr (h', t', fold (visit func)
        (range_visits (t_comp t) lo hi (entries h T)) p) \<and>
      tree_at h' t' T' \<and> entries h' T' = entries h T)"
proof
  show "tree_walk n h t func p = Inr (fold (visit func) (entries h T) p)" by (rule tree_walk_ok [OF assms(2,3)])
  obtain h' t' T' where "tree_walk_range n h t func p lo hi
      = Inr (h', t', fold (visit func) (range_visits (t_comp t) lo hi (entries h T)) p)"
    "tree_at h' t' T'" "entries h' T' = entries h T"
    using tree_order.tree_walk_range_ok [OF tree_orderI [OF assms(1)] assms(2) refl assms(3),
      where func = func and p = p and lo = lo and hi = hi] by blast
  then show "\<exists>h' t' T'. tree_walk_range n h t func p lo hi = Inr (h', t', fold (visit func)
        (range_visits (t_comp t) lo hi (entries h T)) p) \<and> tree_at h' t' T' \<and> entries h' T' = entries h T"
    by blast
qed

theorem tree_walks_visit_witness:
  "tree_walk 5 two_nodes (two_tree TREE_SPLAY) (\<lambda>p k d. p @ [k]) [] = Inr [3, 5] \<and>
   (\<exists>h' t'. tree_walk_range 5 two_nodes (two_tree TREE_SPLAY) (\<lambda>p k d. p @ [k]) [] 3 4 = Inr (h', t', [3])) \<and>
   (\<exists>h' t'. tree_walk_range 5 two_nodes (two_tree TREE_SPLAY) (\<lambda>p k d. p @ [k]) [] 4 5 = Inr (h', t', [5]))"
proof -
  have "comparator (t_comp (two_tree TREE_SPLAY))" using keycmp.comparator_axioms by simp
  note w = tree_walks_visit [OF this two_nodes_at, of 5]
  from w [of "\<lambda>p k d. p @ [k]" "[]" 3 4] w [of "\<lambda>p k d. p @ [k]" "[]" 4 5] show ?thesis
    by (auto simp: two_entries map_keycmp_def range_visits_def)
qed

end
