(* ===== verification/Tree_Remove.thy ===== *)
theory Tree_Remove
  imports Tree_Query
begin

text \<open>
  Removal. The node is rotated down until it is a leaf, cut off, and the counts of its
  ancestors are decremented.
\<close>

definition sunk :: "(nheap \<times> tree_t) res \<Rightarrow> nheap \<Rightarrow> tree_t \<Rightarrow> addr \<Rightarrow> addr list \<Rightarrow> addr list \<Rightarrow> bool" where
  "sunk m h t x ls rs \<longleftrightarrow> (\<exists>h' c'. m = Inr (h', t\<lparr>t_root := rootp (plug (Node Leaf x Leaf) c')\<rparr>) \<and>
     zinv h' (Node Leaf x Leaf) c' \<and> lctx c' = ls \<and> rctx c' = rs \<and> same_payload h h')"

lemma sunk_trans: "sunk m h' (t\<lparr>t_root := r\<rparr>) x ls rs \<Longrightarrow> same_payload h h' \<Longrightarrow> sunk m h t x ls rs"
  unfolding sunk_def by (force intro: same_payload_trans)

text \<open>The root pointer after one rotation of the descent.\<close>

lemma sink_root:
  assumes z: "zinv h (Node A y B) c" and r: "t_root t = rootp (plug S c)" and x: "n_parent (h x) = y"
  shows "(if n_parent (h (n_parent (h x))) = 0 then t\<lparr>t_root := n_parent (h x)\<rparr> else t)
    = t\<lparr>t_root := rootp (plug (Node A y B) c)\<rparr>"
  using zinv_parent [OF z] zinv_ctxp_nz [OF z] r x by (cases c) (auto simp: rootp_plug)

lemma bubble_down_ok:
  assumes "zinv h (Node A x B) c" "t_root t = rootp (plug (Node A x B) c)" "size A + size B < n"
  shows "sunk (bubble_down n h t x) h t x (lctx c @ inorder A) (inorder B @ rctx c)"
  using assms
proof (induction n arbitrary: h t A B c)
  case (Suc n)
  note z = Suc.prems(1)
  note ch = zinv_children [OF z]
  consider "A = Leaf" "B = Leaf" | A1 y A2 where "A = Node A1 y A2" | B1 y B2 where "A = Leaf" "B = Node B1 y B2"
    by (cases A; cases B) auto
  then show ?case
  proof cases
    case 1
    have "t = t\<lparr>t_root := rootp (plug (Node Leaf x Leaf) c)\<rparr>" using Suc.prems(2) 1 by simp
    with 1 ch z show ?thesis unfolding sunk_def by (intro exI [of _ h] exI [of _ c]) simp
  next
    case 2
    then obtain h' where h': "node_rotate_right h x = Inr h'" "zinv h' (Node A1 y (Node A2 x B)) c" "same_payload h h'"
      using node_rotate_right_zinv z by blast
    have z': "zinv h' (Node A2 x B) (FR A1 y # c)" using h'(2) by (simp add: zinv_FR)
    let ?t = "t\<lparr>t_root := rootp (plug (Node A1 y (Node A2 x B)) c)\<rparr>"
    have "bubble_down (Suc n) h t x = bubble_down n h' ?t x"
      using 2 ch h'(1) sink_root [OF h'(2) Suc.prems(2), of x] zinv_parent [OF z'] by (simp add: Let_def)
    moreover have "sunk (bubble_down n h' ?t x) h' ?t x (lctx (FR A1 y # c) @ inorder A2) (inorder B @ rctx (FR A1 y # c))"
      using Suc.prems(3) 2 z' by (intro Suc.IH) auto
    ultimately show ?thesis using 2 h'(3) by (auto intro: sunk_trans)
  next
    case 3
    then obtain h' where h': "node_rotate_left h x = Inr h'" "zinv h' (Node (Node A x B1) y B2) c" "same_payload h h'"
      using node_rotate_left_zinv z by blast
    have z': "zinv h' (Node A x B1) (FL y B2 # c)" using h'(2) by (simp add: zinv_FL)
    let ?t = "t\<lparr>t_root := rootp (plug (Node (Node A x B1) y B2) c)\<rparr>"
    have "bubble_down (Suc n) h t x = bubble_down n h' ?t x"
      using 3 ch h'(1) sink_root [OF h'(2) Suc.prems(2), of x] zinv_parent [OF z'] by (simp add: Let_def)
    moreover have "sunk (bubble_down n h' ?t x) h' ?t x (lctx (FL y B2 # c) @ inorder A) (inorder B1 @ rctx (FL y B2 # c))"
      using Suc.prems(3) 3 z' by (intro Suc.IH) auto
    ultimately show ?thesis using 3 h'(3) by (auto intro: sunk_trans)
  qed
qed simp

text \<open>Clearing the parent's pointer to a leaf.\<close>

definition cut_left :: "nheap \<Rightarrow> addr \<Rightarrow> nheap" where
  "cut_left h nod = (if n_parent (h nod) \<noteq> 0 \<and> nod = n_left (h (n_parent (h nod)))
              then upd (n_parent (h nod)) (n_left_update (\<lambda>_. 0)) h else h)"

definition cut_right :: "nheap \<Rightarrow> addr \<Rightarrow> nheap" where
  "cut_right h nod = (if n_parent (h nod) \<noteq> 0 \<and> nod = n_right (h (n_parent (h nod)))
              then upd (n_parent (h nod)) (n_right_update (\<lambda>_. 0)) h else h)"

lemma tree_unlink_unfold:
  "tree_unlink n h t nod =
     bindE (bubble_down n h t nod) (\<lambda>(h, t).
     bindE (assertE (n_count (h nod) = 1)) (\<lambda>_.
     let h = cut_right (cut_left h nod) nod in
     bindE (count_down n h (n_parent (h nod))) (\<lambda>h'. Inr (h', if n_parent (h nod) = 0 then t\<lparr>t_root := 0\<rparr> else t))))"
  unfolding tree_unlink_def Let_def cut_left_def [symmetric] cut_right_def [symmetric] ..

lemma cut_ok:
  assumes z: "zinv h (Node Leaf x Leaf) c"
  shows "linkc (cut_right (cut_left h x) x) 0 (Suc 0) c" "n_parent (cut_right (cut_left h x) x x) = ctxp c"
    "same_payload h (cut_right (cut_left h x) x)"
proof -
  let ?h = "cut_right (cut_left h x) x"
  have lk: "linkc h x (Suc 0) c" and d: "distinct (lctx c @ rctx c)" and x: "x \<noteq> 0" "x \<notin> ctx_nodes c"
    and p: "n_parent (h x) = ctxp c" using z by (auto simp: zinv_unfold)
  have px: "ctxp c \<noteq> x" by (rule ctxp_neq [OF x])
  show "same_payload h ?h" "n_parent (?h x) = ctxp c"
    using p by (auto simp: cut_left_def cut_right_def upd_def same_payload_def payload_def)
  show "linkc ?h 0 (Suc 0) c"
  proof (cases c rule: ctxp.cases)
    case (2 a r c')
    then have "rootp r \<noteq> x" using rootp_neq [OF x(1), of r] x(2) by auto
    with 2 lk p have "?h = upd a (n_left_update (\<lambda>_. 0)) h" by (auto simp: cut_left_def cut_right_def upd_def)
    with 2 show ?thesis by (intro linkc_replace [OF lk d]) (auto simp: same_links_def upd_def)
  next
    case (3 l a c')
    then have "rootp l \<noteq> x" using rootp_neq [OF x(1), of l] x(2) by auto
    with 3 lk p have "?h = upd a (n_right_update (\<lambda>_. 0)) h" by (auto simp: cut_left_def cut_right_def upd_def)
    with 3 show ?thesis by (intro linkc_replace [OF lk d]) (auto simp: same_links_def upd_def)
  qed simp
qed

lemma tree_unlink_ok:
  assumes z: "zinv h (Node A x B) c" and r: "t_root t = rootp (plug (Node A x B) c)"
    and n: "size (plug (Node A x B) c) \<le> n"
  shows "\<exists>h' T'. tree_unlink n h t x = Inr (h', t\<lparr>t_root := rootp T'\<rparr>) \<and> zinv h' T' [] \<and>
    inorder T' = lctx c @ inorder A @ inorder B @ rctx c \<and> payload h' = payload h"
proof -
  have "size A + size B < n" using n size_plug [of "Node A x B" c] by simp
  from bubble_down_ok [OF z r this] obtain h1 c1 where
    h1: "bubble_down n h t x = Inr (h1, t\<lparr>t_root := rootp (plug (Node Leaf x Leaf) c1)\<rparr>)"
      "zinv h1 (Node Leaf x Leaf) c1" "lctx c1 = lctx c @ inorder A" "rctx c1 = inorder B @ rctx c" "same_payload h h1"
    unfolding sunk_def by blast
  note cut = cut_ok [OF h1(2)]
  let ?h = "cut_right (cut_left h1 x) x"
  have d: "distinct (lctx c1 @ rctx c1)" using h1(2) by (auto simp: zinv_unfold)
  have "inorder (plug (Node Leaf x Leaf) c1) = inorder (plug (Node A x B) c)" using h1(3,4) by (simp add: inorder_plug)
  from arg_cong [OF this, of length] have "size (plug (Node Leaf x Leaf) c1) = size (plug (Node A x B) c)"
    unfolding length_inorder .
  then have "length c1 < n" using n length_ctx [of c1 "Node Leaf x Leaf"] by simp
  from count_down_ok [OF cut(1) d this] obtain h2 where
    h2: "count_down n ?h (ctxp c1) = Inr h2" "linkc h2 0 0 c1" "same_but_count ?h h2 (ctx_nodes c1)" by auto
  have z2: "zinv h2 (plug Leaf c1) []" using h2(2) d zinv_Leaf [of h2 c1] by (simp add: zinv_def)
  have cnt: "n_count (h1 x) = 1" using h1(2) by (simp add: zinv_unfold)
  have "(if ctxp c1 = 0 then t\<lparr>t_root := rootp (plug (Node Leaf x Leaf) c1), t_root := 0\<rparr>
      else t\<lparr>t_root := rootp (plug (Node Leaf x Leaf) c1)\<rparr>) = t\<lparr>t_root := rootp (plug Leaf c1)\<rparr>"
    using zinv_ctxp_nz [OF h1(2)] by (auto simp: rootp_plug)
  then have "tree_unlink n h t x = Inr (h2, t\<lparr>t_root := rootp (plug Leaf c1)\<rparr>)"
    using h1(1) cnt cut(2) h2(1) by (simp add: tree_unlink_unfold Let_def split del: if_split)
  moreover have "inorder (plug Leaf c1) = lctx c @ inorder A @ inorder B @ rctx c"
    using h1(3,4) by (simp add: inorder_plug)
  moreover have "payload h2 = payload h"
    using same_but_count_payload [OF h2(3)] cut(3) h1(5) by (simp add: same_payload_def)
  ultimately show ?thesis using z2 by blast
qed

context tree_order
begin

text \<open>Outcome of a removal: the entries without the key, the node freed and its old data.\<close>

lemma al_del_present:
  assumes "\<And>e. e \<in> set ls \<Longrightarrow> 0 < cmp k (fst e)" "\<And>e. e \<in> set rs \<Longrightarrow> cmp k (fst e) < 0" "cmp k (fst x) = 0"
  shows "al_del cmp k (ls @ x # rs) = ls @ rs"
proof -
  have "filter (\<lambda>e. cmp k (fst e) \<noteq> 0) ls = ls" "filter (\<lambda>e. cmp k (fst e) \<noteq> 0) rs = rs"
    using assms(1,2) by (force simp: filter_id_conv)+
  with assms(3) show ?thesis by (simp add: al_del_def)
qed

lemma al_del_absent:
  assumes "\<And>e. e \<in> set ls \<Longrightarrow> 0 < cmp k (fst e)" "\<And>e. e \<in> set rs \<Longrightarrow> cmp k (fst e) < 0"
  shows "al_del cmp k (ls @ rs) = ls @ rs"
proof -
  have "cmp k (fst e) \<noteq> 0" if "e \<in> set (ls @ rs)" for e using that assms(1) [of e] assms(2) [of e] by force
  then show ?thesis unfolding al_del_def filter_id_conv by blast
qed

definition removed :: "nheap \<Rightarrow> tree_t \<Rightarrow> addr tree \<Rightarrow> map_key \<Rightarrow> (nheap \<times> tree_t \<times> addr \<times> map_data) res \<Rightarrow> bool" where
  "removed h t T k m \<longleftrightarrow> (\<exists>h' t' T' a. m = Inr (h', t', a, data_of (al_get cmp k MAP_EQ (entries h T))) \<and>
     tree_at h' t' T' \<and> entries h' T' = al_del cmp k (entries h T) \<and> set_tree T' = set_tree T - {a} \<and>
     points_at h T a (al_get cmp k MAP_EQ (entries h T)) \<and> t_mode t' = t_mode t \<and> t_comp t' = t_comp t)"

lemma tree_remove_hit:
  assumes at: "tree_at h t (plug (Node A x B) c)" and cmp: "t_comp t = cmp" and eq: "cmp k (n_key (h x)) = 0"
    and n: "size (plug (Node A x B) c) \<le> m"
  shows "removed h t (plug (Node A x B) c) k
    (bindE (tree_unlink m h t x) (\<lambda>(h', t'). bindE (tree_verify m h' t' 0) (\<lambda>_. Inr (h', t', x, n_data (h x)))))"
proof -
  let ?T = "plug (Node A x B) c"
  let ?L = "lctx c @ inorder A" and ?R = "inorder B @ rctx c"
  have z: "zinv h (Node A x B) c" and r: "t_root t = rootp ?T" and asc: "asc cmp (entries h ?T)"
    using at cmp by (auto simp: tree_at_def zinv_def)
  obtain h' T' where u: "tree_unlink m h t x = Inr (h', t\<lparr>t_root := rootp T'\<rparr>)" "zinv h' T' []"
    "inorder T' = ?L @ ?R" "payload h' = payload h" using tree_unlink_ok [OF z r n] by auto
  have e: "entries h ?T = map (payload h) ?L @ payload h x # map (payload h) ?R"
    by (simp add: entries_def inorder_plug)
  have lo: "\<And>e. e \<in> set (map (payload h) ?L) \<Longrightarrow> 0 < cmp k (fst e)"
    "\<And>e. e \<in> set (map (payload h) ?R) \<Longrightarrow> cmp k (fst e) < 0" "cmp k (fst (payload h x)) = 0"
    using located_hit [OF asc eq] eq by (auto simp: entries_def)
  have get: "al_get cmp k MAP_EQ (entries h ?T) = Some (payload h x)"
    by (rule al_get_present(1) [of "map (payload h) ?L" cmp k "map (payload h) ?R" "payload h x", OF lo, folded e])
  have del: "al_del cmp k (entries h ?T) = map (payload h) (?L @ ?R)"
    using al_del_present [of "map (payload h) ?L" k "map (payload h) ?R" "payload h x", OF lo] unfolding e by simp
  have ent: "entries h' T' = al_del cmp k (entries h ?T)" using u(3,4) del by (simp add: entries_def)
  have "length (inorder T') < length (inorder ?T)" using u(3) by (simp add: inorder_plug)
  then have "height T' < m" using n height_le_size_tree [of T'] by (simp add: length_inorder)
  then have ver: "tree_verify m h' (t\<lparr>t_root := rootp T'\<rparr>) 0 = Inr ()" by (intro tree_verify_ok [OF u(2)]) auto
  have x: "x \<notin> set ?L" "x \<notin> set ?R" using z by (auto simp: zinv_unfold)
  have "set_tree T' = set_tree ?T - {x}"
    using x unfolding set_inorder [symmetric] u(3) inorder_plug by auto
  moreover have "tree_at h' (t\<lparr>t_root := rootp T'\<rparr>) T'"
    using u(2) asc_al_del [OF asc] ent cmp by (simp add: tree_at_def)
  ultimately show ?thesis
    unfolding removed_def using u(1) ver get ent points_at_node [of x ?T h]
    by (intro exI [of _ h'] exI [of _ "t\<lparr>t_root := rootp T'\<rparr>"] exI [of _ T'] exI [of _ x])
       (auto simp: data_of_def set_plug)
qed

lemma tree_remove_loop_ok:
  assumes "tree_at h t (plug T c)" "t_comp t = cmp" "located cmp h k c" "height T < n" "size (plug T c) \<le> m"
  shows "removed h t (plug T c) k (tree_remove_loop n m h t k (rootp T))"
  using assms
proof (induction n arbitrary: T c)
  case (Suc n)
  show ?case
  proof (cases T)
    case Leaf
    have e: "entries h (plug Leaf c) = map (payload h) (lctx c) @ map (payload h) (rctx c)"
      by (simp add: entries_def inorder_plug)
    have lo: "\<And>e. e \<in> set (map (payload h) (lctx c)) \<Longrightarrow> 0 < cmp k (fst e)"
      "\<And>e. e \<in> set (map (payload h) (rctx c)) \<Longrightarrow> cmp k (fst e) < 0"
      using Suc.prems(3) by (auto simp: located_def)
    have "al_get cmp k MAP_EQ (entries h (plug Leaf c)) = None" "al_del cmp k (entries h (plug Leaf c)) = entries h (plug Leaf c)"
      using al_get_absent(1) [of "map (payload h) (lctx c)" cmp k "map (payload h) (rctx c)", OF lo]
        al_del_absent [of "map (payload h) (lctx c)" k "map (payload h) (rctx c)", OF lo] by (simp_all only: e)
    moreover have "0 \<notin> set_tree (plug Leaf c)"
      using Suc.prems(1) Leaf linked_nz [of h 0 "plug Leaf c"] by (auto simp: tree_at_def zinv_def)
    ultimately show ?thesis
      unfolding removed_def using Leaf Suc.prems(1)
      by (intro exI [of _ h] exI [of _ t] exI [of _ "plug Leaf c"] exI [of _ 0]) (simp add: data_of_def points_at_def)
  next
    case (Node A x B)
    note p = Suc.prems [unfolded Node]
    have z: "zinv h (Node A x B) c" and asc: "asc cmp (entries h (plug (Node A x B) c))"
      using p(1,2) by (auto simp: tree_at_def zinv_def)
    note ch = zinv_children [OF z] zinv_nz [OF z]
    consider "cmp k (n_key (h x)) < 0" | "0 < cmp k (n_key (h x))" | "cmp k (n_key (h x)) = 0" by linarith
    then show ?thesis
    proof cases
      case 1
      have "removed h t (plug A (FL x B # c)) k (tree_remove_loop n m h t k (rootp A))"
        using p located_left [OF p(3) asc 1] by (intro Suc.IH) auto
      with 1 ch p(2) Node show ?thesis by simp
    next
      case 2
      have "removed h t (plug B (FR A x # c)) k (tree_remove_loop n m h t k (rootp B))"
        using p located_right [OF p(3) asc 2] by (intro Suc.IH) auto
      with 2 ch p(2) Node show ?thesis by simp
    next
      case 3
      then show ?thesis using tree_remove_hit [OF p(1,2) 3 p(5)] ch p(2) Node by (simp add: Let_def)
    qed
  qed
qed simp

lemma tree_remove_ok:
  assumes at: "tree_at h t T" and cmp: "t_comp t = cmp" and n: "size T < n"
  shows "\<exists>h' t' T' a. tree_remove n h t k = Inr (h', t', a, data_of (al_get cmp k MAP_EQ (entries h T))) \<and>
    tree_at h' t' T' \<and> entries h' T' = al_del cmp k (entries h T) \<and>
    points_at h T a (al_get cmp k MAP_EQ (entries h T)) \<and> set_tree T' = set_tree T - {a} \<and>
    t_mode t' = t_mode t \<and> t_comp t' = cmp"
proof -
  have "zinv h T []" "t_root t = rootp T" "height T < n" using at n height_le_size_tree [of T] by (auto simp: tree_at_def)
  then have "tree_remove n h t k = tree_remove_loop n n h t k (rootp T)"
    using tree_verify_ok [of h T t n] by (simp add: tree_remove_def)
  with tree_remove_loop_ok [of h t T "[]" k n n] at cmp n \<open>height T < n\<close> show ?thesis
    by (simp add: removed_def) blast
qed

end

text \<open>
  C3. Removal. \<^verbatim>\<open>tree_remove\<close> returns without failing an assertion; the tree it leaves is
  well linked and in order and has the old entries less that of the key; it returns the
  key's old data and frees exactly the node that carried it, and nothing changes when the
  key is absent.
\<close>

theorem tree_remove_correct:
  assumes "comparator (t_comp t)" "tree_at h t T" "size T < n"
  shows "\<exists>h' t' T' a. tree_remove n h t k = Inr (h', t', a, data_of (al_get (t_comp t) k MAP_EQ (entries h T))) \<and>
    tree_at h' t' T' \<and> entries h' T' = al_del (t_comp t) k (entries h T) \<and>
    points_at h T a (al_get (t_comp t) k MAP_EQ (entries h T)) \<and> set_tree T' = set_tree T - {a} \<and>
    t_mode t' = t_mode t \<and> t_comp t' = t_comp t"
  using tree_order.tree_remove_ok [OF tree_orderI [OF assms(1)] assms(2) refl assms(3)] .

theorem tree_remove_correct_witness:
  "\<exists>h' t' T' a. tree_remove 3 two_nodes (two_tree TREE_COUNT) 5 = Inr (h', t', a, 50) \<and>
     tree_at h' t' T' \<and> entries h' T' = [(3, 30)]"
proof -
  have "comparator (t_comp (two_tree TREE_COUNT))" using keycmp.comparator_axioms by simp
  from tree_remove_correct [OF this two_nodes_at, of 3 5] show ?thesis
    by (auto simp: two_entries data_of_def al_del_def map_keycmp_def)
qed

end
