(* ===== verification/Tree_Optimize.thy ===== *)
theory Tree_Optimize
  imports Tree_Query
begin

text \<open>
  Access by ordinal, and the optimizer: every subtree is rotated until its median is at
  its root, so that the tree it leaves has the least height its nodes allow.
\<close>

lemma ordinal_loop_ok:
  assumes "linked h q T" "i < size T" "height T \<le> n"
  shows "ordinal_loop n h (rootp T) (int i) = Inr (inorder T ! i)"
  using assms
proof (induction T arbitrary: q i n)
  case (Node l a r)
  then obtain m where n: "n = Suc m" "height l \<le> m" "height r \<le> m" by (cases n) auto
  have cl: "node_count h (n_left (h a)) = int (size l)" using Node.prems(1) linked_count [of h a l] by simp
  consider "i < size l" | "i = size l" | "size l < i" by linarith
  then show ?case
  proof cases
    case 1
    then show ?thesis using Node.IH(1) [of a i m] Node.prems n cl by (simp add: nth_append Let_def)
  next
    case 2
    then show ?thesis using Node.prems n cl by (simp add: nth_append Let_def)
  next
    case 3
    define j where "j = i - (size l + 1)"
    have i: "i = j + (size l + 1)" using 3 by (simp add: j_def)
    have "j < size r" using Node.prems(2) i by simp
    moreover have "inorder (Node l a r) ! i = inorder r ! j" using i by (simp add: nth_append)
    ultimately show ?thesis using Node.IH(2) [of a j m] Node.prems n cl i by (simp add: Let_def)
  qed
qed simp

lemma node_ordinal_ok:
  assumes l: "linked h q T" and i: "i < size T" and n: "height T \<le> n"
  shows "node_ordinal n h (rootp T) (int i) = Inr (inorder T ! i)"
  using ordinal_loop_ok [OF assms] assms by (cases T) (auto simp: node_ordinal_def)

lemma node_ordinal_bounds:
  assumes "linked h q T" "T \<noteq> Leaf" "int (size T) \<le> i"
  shows "node_ordinal n h (rootp T) i = Inl (Throw OutOfBoundsException)"
  using assms by (cases T) (auto simp: node_ordinal_def)

subsection \<open>Raising a node to the root of its subtree\<close>

lemma lctx_append: "lctx (c @ c') = lctx c' @ lctx c"
  by (induction c rule: lctx.induct) auto

lemma rctx_append: "rctx (c @ c') = rctx c @ rctx c'"
  by (induction c rule: rctx.induct) auto

lemma raise_to_ok:
  assumes "zinv h (Node A x B) (d @ c)" "length d < n"
  shows "\<exists>h' A' B'. raise_to n h x (ctxp c) = Inr h' \<and> zinv h' (Node A' x B') c \<and>
    inorder (Node A' x B') = inorder (plug (Node A x B) d) \<and> payload h' = payload h"
  using assms
proof (induction n arbitrary: h A B d)
  case (Suc n)
  note z = Suc.prems(1)
  note par = zinv_parent [OF z]
  show ?case
  proof (cases d rule: ctxp.cases)
    case 1
    then show ?thesis using z par by (intro exI [of _ h] exI [of _ A] exI [of _ B]) simp
  next
    case (2 p r d')
    have z': "zinv h (Node (Node A x B) p r) (d' @ c)" using z 2 by (simp add: zinv_FL)
    then have "p \<noteq> 0" "p \<notin> ctx_nodes c" by (auto simp: zinv_unfold lctx_append rctx_append)
    then have "p \<noteq> ctxp c" using ctxp_neq by metis
    obtain h1 where h1: "node_rotate_right h p = Inr h1" "zinv h1 (Node A x (Node B p r)) (d' @ c)" "same_payload h h1"
      using node_rotate_right_zinv [OF z'] by blast
    from Suc.IH [OF h1(2)] obtain h' A' B' where
      h': "raise_to n h1 x (ctxp c) = Inr h'" "zinv h' (Node A' x B') c"
        "inorder (Node A' x B') = inorder (plug (Node A x (Node B p r)) d')" "payload h' = payload h1"
      using Suc.prems(2) 2 by auto
    have "raise_to (Suc n) h x (ctxp c) = Inr h'"
      using par 2 \<open>p \<noteq> ctxp c\<close> zinv_is_left [OF z] h1(1) h'(1) by simp
    moreover have "inorder (Node A' x B') = inorder (plug (Node A x B) d)"
      using h'(3) 2 by (simp add: inorder_plug)
    ultimately show ?thesis using h' h1(3) unfolding same_payload_def by metis
  next
    case (3 l p d')
    have z': "zinv h (Node l p (Node A x B)) (d' @ c)" using z 3 by (simp add: zinv_FR)
    then have "p \<noteq> 0" "p \<notin> ctx_nodes c" by (auto simp: zinv_unfold lctx_append rctx_append)
    then have "p \<noteq> ctxp c" using ctxp_neq by metis
    obtain h1 where h1: "node_rotate_left h p = Inr h1" "zinv h1 (Node (Node l p A) x B) (d' @ c)" "same_payload h h1"
      using node_rotate_left_zinv [OF z'] by blast
    from Suc.IH [OF h1(2)] obtain h' A' B' where
      h': "raise_to n h1 x (ctxp c) = Inr h'" "zinv h' (Node A' x B') c"
        "inorder (Node A' x B') = inorder (plug (Node (Node l p A) x B) d')" "payload h' = payload h1"
      using Suc.prems(2) 3 by auto
    have "raise_to (Suc n) h x (ctxp c) = Inr h'"
      using par 3 \<open>p \<noteq> ctxp c\<close> zinv_is_left [OF z] h1(1) h'(1) by simp
    moreover have "inorder (Node A' x B') = inorder (plug (Node A x B) d)"
      using h'(3) 3 by (simp add: inorder_plug)
    ultimately show ?thesis using h' h1(3) unfolding same_payload_def by metis
  qed
qed simp

lemma zinv_priority: "zinv (upd a (n_priority_update f) h) t c = zinv h t c"
  using linked_cong [of h "upd a (n_priority_update f) h" "plug t c" 0]
  by (simp add: zinv_def same_links_def upd_def)

lemma payload_priority: "payload (upd a (n_priority_update f) h) = payload h"
  by (simp add: payload_def upd_def fun_eq_iff)

lemma upd_same_left: "n_left (h a) = l \<Longrightarrow> upd a (n_left_update (\<lambda>_. l)) h = h"
  and upd_same_right: "n_right (h a) = l \<Longrightarrow> upd a (n_right_update (\<lambda>_. l)) h = h"
  by (auto simp: upd_def fun_eq_iff)

text \<open>The first half of \<^verbatim>\<open>node_optimize\<close>: the median comes to the root of the subtree.\<close>

lemma median_up:
  assumes z: "zinv h (Node A a B) c" and n: "size (Node A a B) \<le> m"
  shows "\<exists>h' A' B' x. node_ordinal m h a (n_count (h a) div 2) = Inr x \<and>
    raise_to m (upd x (n_priority_update g) h) x (n_parent (h a)) = Inr h' \<and> zinv h' (Node A' x B') c \<and>
    inorder (Node A' x B') = inorder (Node A a B) \<and> payload h' = payload h \<and>
    size A' = size (Node A a B) div 2"
proof -
  let ?T = "Node A a B" and ?s = "size (Node A a B)"
  define x where "x = inorder ?T ! (?s div 2)"
  have l: "linked h (ctxp c) ?T" and dis: "distinct (inorder ?T)" using z by (auto simp: zinv_unfold)
  have i: "?s div 2 < ?s" by simp
  have "height ?T \<le> m" using height_le_size_tree [of ?T] n by linarith
  from node_ordinal_ok [OF l i this]
  have ord: "node_ordinal m h a (n_count (h a) div 2) = Inr x" using l by (simp add: x_def zdiv_int add.assoc)
  have "x \<in> set_tree ?T" using i nth_mem [of "?s div 2" "inorder ?T"] by (simp only: x_def length_inorder set_inorder)
  then obtain A1 B1 d where T: "?T = plug (Node A1 x B1) d" using tree_split by blast
  let ?h = "upd x (n_priority_update g) h"
  have "zinv ?h (Node A1 x B1) (d @ c)"
    using z unfolding zinv_priority by (simp only: zinv_def plug_append T)
  moreover have "length d < m" using length_ctx [of d "Node A1 x B1"] T n by simp
  ultimately obtain h' A' B' where h': "raise_to m ?h x (ctxp c) = Inr h'" "zinv h' (Node A' x B') c"
    "inorder (Node A' x B') = inorder ?T" "payload h' = payload h"
    using raise_to_ok [of ?h A1 x B1 d c m] T payload_priority by metis
  have "size A' = ?s div 2"
  proof -
    have len: "length (inorder (Node A' x B')) = ?s" "length (inorder A') = size A'"
      unfolding h'(3) by (rule length_inorder)+
    have "inorder (Node A' x B') ! size A' = x" "size A' < length (inorder (Node A' x B'))"
      using len by (simp_all add: nth_append)
    then have "inorder ?T ! size A' = x" "size A' < length (inorder ?T)" unfolding h'(3) by blast+
    then show ?thesis using nth_eq_iff_index_eq [OF dis, of "size A'" "?s div 2"] i length_inorder [of ?T] x_def by metis
  qed
  then show ?thesis using ord h' zinv_parent [OF z] by metis
qed

lemma node_optimize_ok:
  assumes "zinv h T c" "size T < n" "size T \<le> m"
  shows "\<exists>h' T'. node_optimize n m h (rootp T) = Inr (h', rootp T') \<and> zinv h' T' c \<and>
    inorder T' = inorder T \<and> payload h' = payload h \<and> wbalanced T'"
  using assms
proof (induction n arbitrary: h T c)
  case (Suc n)
  show ?case
  proof (cases T)
    case Leaf
    then show ?thesis using Suc.prems(1) by (intro exI [of _ h] exI [of _ Leaf]) simp
  next
    case (Node A a B)
    note z = Suc.prems(1) [unfolded Node]
    let ?g = "\<lambda>_. if n_parent (h a) \<noteq> 0 then n_priority (h (n_parent (h a))) + 10 else 10"
    obtain h1 A1 B1 x where up: "node_ordinal m h a (n_count (h a) div 2) = Inr x"
      "raise_to m (upd x (n_priority_update ?g) h) x (n_parent (h a)) = Inr h1" "zinv h1 (Node A1 x B1) c"
      "inorder (Node A1 x B1) = inorder (Node A a B)" "payload h1 = payload h" "size A1 = size (Node A a B) div 2"
      using median_up [OF z, of m ?g] Suc.prems(3) Node by blast
    have sz: "size A1 + size B1 + 1 = size T"
      using arg_cong [OF up(4), of length] Node by (simp add: length_inorder)
    have zA: "zinv h1 A1 (FL x B1 # c)" using up(3) by (simp add: zinv_FL)
    obtain h2 L where h2: "node_optimize n m h1 (rootp A1) = Inr (h2, rootp L)" "zinv h2 L (FL x B1 # c)"
      "inorder L = inorder A1" "payload h2 = payload h1" "wbalanced L"
      using Suc.IH [OF zA] sz Suc.prems(2,3) by auto
    have z2: "zinv h2 (Node L x B1) c" using h2(2) by (simp add: zinv_FL)
    have zB: "zinv h2 B1 (FR L x # c)" using z2 by (simp add: zinv_FR)
    obtain h3 R where h3: "node_optimize n m h2 (rootp B1) = Inr (h3, rootp R)" "zinv h3 R (FR L x # c)"
      "inorder R = inorder B1" "payload h3 = payload h2" "wbalanced R"
      using Suc.IH [OF zB] sz Suc.prems(2,3) by auto
    have z3: "zinv h3 (Node L x R) c" using h3(2) by (simp add: zinv_FR)
    note ch = zinv_children [OF up(3)] zinv_children [OF z2] zinv_children [OF z3]
    have "node_optimize (Suc n) m h a = Inr (h3, x)"
      using zinv_nz [OF z] up(1,2) h2(1) h3(1) ch by (simp add: Let_def upd_same_left upd_same_right)
    moreover have "size L = size A1" "size R = size B1" using h2(3) h3(3) length_inorder by metis+
    then have "wbalanced (Node L x R)" using h2(5) h3(5) up(6) sz Node by auto
    moreover have "inorder (Node L x R) = inorder T" using h2(3) h3(3) up(4) Node by simp
    ultimately show ?thesis using z3 h2(4) h3(4) up(5) Node
      by (intro exI [of _ h3] exI [of _ "Node L x R"]) simp
  qed
qed simp

lemma tree_optimize_ok:
  assumes at: "tree_at h t T" and n: "size T < n"
  shows "\<exists>h' T'. tree_optimize n h t = Inr (h', t\<lparr>t_root := rootp T'\<rparr>) \<and> tree_at h' (t\<lparr>t_root := rootp T'\<rparr>) T' \<and>
    entries h' T' = entries h T \<and> inorder T' = inorder T \<and> wbalanced T'"
proof -
  have z: "zinv h T []" "t_root t = rootp T" "asc (t_comp t) (entries h T)" using at by (auto simp: tree_at_def)
  obtain h' T' where o: "node_optimize n n h (rootp T) = Inr (h', rootp T')" "zinv h' T' []"
    "inorder T' = inorder T" "payload h' = payload h" "wbalanced T'" using node_optimize_ok [OF z(1) n, of n] n by auto
  then show ?thesis using z
    by (intro exI [of _ h'] exI [of _ T']) (simp add: tree_optimize_def tree_at_def entries_def)
qed

text \<open>A tree split at its medians is as low as its size allows.\<close>

lemma wbalanced_height: "wbalanced t \<Longrightarrow> size t < 2 ^ k \<Longrightarrow> height t \<le> k"
proof (induction t arbitrary: k)
  case (Node l a r)
  then obtain j where k: "k = Suc j" by (cases k) auto
  have "size l < 2 ^ j" "size r < 2 ^ j" using Node.prems k by auto
  with Node k show ?case by simp
qed simp

lemma wbalanced_optimal: "wbalanced (t :: 'a tree) \<Longrightarrow> size t = size (s :: 'a tree) \<Longrightarrow> height t \<le> height s"
  using wbalanced_height [of t "height s"] size1_height [of s] by (simp add: size1_size)

text \<open>
  C6. \<^verbatim>\<open>tree_optimize\<close> terminates, keeps the nodes, their order and their entries, and
  leaves a tree whose height is the least that a tree of that many nodes can have.
\<close>

theorem tree_optimize_minimal:
  assumes "tree_at h t T" "size T < n"
  shows "\<exists>h' T'. tree_optimize n h t = Inr (h', t\<lparr>t_root := rootp T'\<rparr>) \<and>
    tree_at h' (t\<lparr>t_root := rootp T'\<rparr>) T' \<and> entries h' T' = entries h T \<and> inorder T' = inorder T \<and>
    (\<forall>S :: addr tree. size S = size T \<longrightarrow> height T' \<le> height S)"
proof -
  from tree_optimize_ok [OF assms] obtain h' T' where
    o: "tree_optimize n h t = Inr (h', t\<lparr>t_root := rootp T'\<rparr>)" "tree_at h' (t\<lparr>t_root := rootp T'\<rparr>) T'"
       "entries h' T' = entries h T" "inorder T' = inorder T" "wbalanced T'" by blast
  have "size T' = size T" using o(4) length_inorder by metis
  then have "\<forall>S :: addr tree. size S = size T \<longrightarrow> height T' \<le> height S"
    using wbalanced_optimal [OF o(5)] by simp
  with o show ?thesis by blast
qed

theorem tree_optimize_minimal_witness:
  "\<exists>h' T'. tree_optimize 3 two_nodes (two_tree TREE_TREAP) = Inr (h', (two_tree TREE_TREAP)\<lparr>t_root := rootp T'\<rparr>) \<and>
     entries h' T' = [(3, 30), (5, 50)] \<and> height T' \<le> 2"
proof -
  from tree_optimize_minimal [OF two_nodes_at, of 3 TREE_TREAP] obtain h' T' where
    o: "tree_optimize 3 two_nodes (two_tree TREE_TREAP) = Inr (h', (two_tree TREE_TREAP)\<lparr>t_root := rootp T'\<rparr>)"
       "entries h' T' = [(3, 30), (5, 50)]" "\<forall>S :: addr tree. size S = size two_shape \<longrightarrow> height T' \<le> height S"
    by (auto simp: two_entries)
  from o(3) [rule_format, of two_shape] have "height T' \<le> 2" by simp
  with o show ?thesis by blast
qed

end
