(* ===== verification/Tree_Refine.thy ===== *)
theory Tree_Refine
  imports Ordered_Map Tree_Walk Tree_Remove Tree_Optimize
begin

text \<open>
  The trees of \<^verbatim>\<open>libk/tree.c\<close> implement the ordered map interface, in every balancing
  mode and for every lawful comparison.
\<close>

type_synonym tree_state = "nheap \<times> tree_t"

definition tree_rep :: "(map_key \<Rightarrow> map_key \<Rightarrow> int) \<Rightarrow> tree_state \<Rightarrow> (map_key \<times> map_data) list \<Rightarrow> bool" where
  "tree_rep cmp s es \<longleftrightarrow> (\<exists>T. tree_at (fst s) (snd s) T \<and> entries (fst s) T = es) \<and> t_comp (snd s) = cmp"

definition tree_fresh :: "tree_state \<Rightarrow> addr \<Rightarrow> bool" where
  "tree_fresh s a \<longleftrightarrow> a \<noteq> 0 \<and> (\<forall>T. tree_at (fst s) (snd s) T \<longrightarrow> a \<notin> set_tree T)"

definition tree_need :: "nat \<Rightarrow> nat" where
  "tree_need i = 2 * i + 4"

text \<open>The operations with the heap and the tree as one state.\<close>

definition put_map :: "tree_state put_fn" where
  "put_map n s a k v = bindE (tree_put n (fst s) (snd s) a k v) (\<lambda>(h, t, d). Inr ((h, t), d))"

definition get_map :: "tree_state get_fn" where
  "get_map n s k cond = bindE (tree_get n (fst s) (snd s) k cond) (\<lambda>(h, t, d). Inr ((h, t), d))"

definition remove_map :: "tree_state remove_fn" where
  "remove_map n s k = bindE (tree_remove n (fst s) (snd s) k) (\<lambda>(h, t, a, d). Inr ((h, t), d))"

lemma length_entries: "length (entries h T) = size T"
  by (simp add: entries_def)

context tree_order
begin

lemma tree_repE:
  assumes "tree_rep cmp s es"
  obtains T where "tree_at (fst s) (snd s) T" "entries (fst s) T = es" "t_comp (snd s) = cmp" "size T = length es"
  using assms length_entries by (auto simp: tree_rep_def)

lemma put_map_law:
  assumes "tree_rep cmp s es" "tree_fresh s a" "tree_need (length es) \<le> n"
  shows "\<exists>s'. put_map n s a k v = Inr (s', data_of (al_get cmp k MAP_EQ es)) \<and> tree_rep cmp s' (al_put cmp k v es)"
proof -
  obtain T where T: "tree_at (fst s) (snd s) T" "entries (fst s) T = es" "t_comp (snd s) = cmp" "size T = length es"
    using tree_repE [OF assms(1)] .
  have "a \<noteq> 0" "a \<notin> set_tree T" "2 * size T + 4 \<le> n"
    using assms(2,3) T by (auto simp: tree_fresh_def tree_need_def)
  from tree_put_ok [OF T(1,3) this, of k v] T(2) show ?thesis
    by (auto simp: put_map_def tree_rep_def)
qed

lemma get_map_law:
  assumes "tree_rep cmp s es" "tree_need (length es) \<le> n"
  shows "\<exists>s'. get_map n s k cond = Inr (s', data_of (al_get cmp k cond es)) \<and> tree_rep cmp s' es"
proof -
  obtain T where T: "tree_at (fst s) (snd s) T" "entries (fst s) T = es" "t_comp (snd s) = cmp" "size T = length es"
    using tree_repE [OF assms(1)] .
  have "size T < n" using assms(2) T by (simp add: tree_need_def)
  from tree_get_ok [OF T(1,3) this, of k cond] T(2) show ?thesis
    by (auto simp: get_map_def tree_rep_def)
qed

lemma remove_map_law:
  assumes "tree_rep cmp s es" "tree_need (length es) \<le> n"
  shows "\<exists>s'. remove_map n s k = Inr (s', data_of (al_get cmp k MAP_EQ es)) \<and> tree_rep cmp s' (al_del cmp k es)"
proof -
  obtain T where T: "tree_at (fst s) (snd s) T" "entries (fst s) T = es" "t_comp (snd s) = cmp" "size T = length es"
    using tree_repE [OF assms(1)] .
  have "size T < n" using assms(2) T by (simp add: tree_need_def)
  from tree_remove_ok [OF T(1,3) this, of k] T(2) show ?thesis
    by (auto simp: remove_map_def tree_rep_def)
qed

end

text \<open>Every lawful comparison makes the tree an ordered map; the default one in particular.\<close>

sublocale tree_order \<subseteq> tree_map: ordered_map cmp "tree_rep cmp" tree_fresh tree_need put_map get_map remove_map
proof
  show "asc cmp es" if "tree_rep cmp s es" for s es using tree_repE [OF that] by (auto simp: tree_at_def)
  show "tree_need i \<le> tree_need j" if "i \<le> j" for i j using that by (simp add: tree_need_def)
qed (use put_map_law get_map_law remove_map_law in blast)+

context tree_order
begin

lemma tree_map_law: "ordered_map cmp (tree_rep cmp) tree_fresh tree_need put_map get_map remove_map"
  by (rule tree_map.ordered_map_axioms)

end

text \<open>The tree ordered by machine words, the order a tree gets when its creator names none.\<close>

interpretation word_tree: ordered_map map_keycmp "tree_rep map_keycmp" tree_fresh tree_need put_map get_map remove_map
  by (rule keytree.tree_map.ordered_map_axioms)

text \<open>
  C4. Any sequence of insertions, lookups and removals on a tree, of any balancing mode and
  any lawful comparison, gives the results and leaves the entries that the same sequence
  gives on the ordered list, as long as the allocator finds a slot for each new node.
\<close>

theorem tree_run_refines:
  assumes "comparator cmp" "tree_rep cmp s es"
    and "\<And>s es. tree_rep cmp s es \<Longrightarrow> length es \<le> b \<Longrightarrow> tree_fresh s (alloc s)"
    and "length es + length ps \<le> b" "2 * b + 4 \<le> n"
  shows "\<exists>s'. run_ops put_map get_map remove_map alloc n ps s = Inr (s', snd (al_run cmp ps es)) \<and>
    tree_rep cmp s' (fst (al_run cmp ps es))"
proof -
  note m = tree_order.tree_map_law [OF tree_orderI [OF assms(1)]]
  show ?thesis
    by (rule ordered_map.run_ops_refines [OF m assms(2,3)]) (use assms(4,5) in \<open>auto simp: tree_need_def\<close>)
qed

text \<open>An allocator that scans a pool of slots for one that is not a node of the tree.\<close>

fun nodes_below :: "nat \<Rightarrow> nheap \<Rightarrow> addr \<Rightarrow> addr list" where
  "nodes_below 0 h p = []"
| "nodes_below (Suc n) h p =
     (if p = 0 then [] else nodes_below n h (n_left (h p)) @ p # nodes_below n h (n_right (h p)))"

definition pool_alloc :: "addr list \<Rightarrow> tree_state \<Rightarrow> addr" where
  "pool_alloc pool s =
     (case filter (\<lambda>a. a \<notin> set (nodes_below (length pool) (fst s) (t_root (snd s)))) pool of [] \<Rightarrow> 0 | a # _ \<Rightarrow> a)"

lemma nodes_below_ok: "linked h q T \<Longrightarrow> height T \<le> n \<Longrightarrow> nodes_below n h (rootp T) = inorder T"
proof (induction T arbitrary: q n)
  case Leaf
  then show ?case by (cases n) auto
next
  case (Node l a r)
  then obtain m where n: "n = Suc m" "height l \<le> m" "height r \<le> m" by (cases n) auto
  then show ?case using Node.prems Node.IH(1) [of a m] Node.IH(2) [of a m] by simp
qed

lemma pool_alloc_fresh:
  assumes "tree_rep cmp s es" "length es < length pool" "distinct pool" "0 \<notin> set pool"
  shows "tree_fresh s (pool_alloc pool s)"
proof -
  obtain h t where s: "s = (h, t)" by fastforce
  obtain T where T: "tree_at h t T" "size T = length es"
    using assms(1) length_entries by (auto simp: tree_rep_def s)
  have l: "linked h 0 T" "rootp T = t_root t" using T by (simp_all add: tree_at_def zinv_def)
  have nb: "nodes_below (length pool) h (t_root t) = inorder T'" if "tree_at h t T'" for T'
  proof -
    have l': "linked h 0 T'" "rootp T' = t_root t" using that by (simp_all add: tree_at_def zinv_def)
    have "size T' = size T" using linked_count [OF l(1)] linked_count [OF l'(1)] l l' by simp
    then have "height T' \<le> length pool" using T(2) assms(2) height_le_size_tree [of T'] by linarith
    with nodes_below_ok [OF l'(1)] l'(2) show ?thesis by simp
  qed
  have "filter (\<lambda>a. a \<notin> set_tree T) pool \<noteq> []"
  proof
    assume "filter (\<lambda>a. a \<notin> set_tree T) pool = []"
    then have "set pool \<subseteq> set_tree T" by (auto simp: filter_empty_conv)
    then have "length pool \<le> card (set_tree T)" using distinct_card [OF assms(3)] card_mono [of "set_tree T" "set pool"] finite_set_tree [of T] by simp
    also have "\<dots> \<le> size T" using card_length [of "inorder T"] by (simp add: length_inorder)
    finally show False using T(2) assms(2) by simp
  qed
  then obtain a as where a: "filter (\<lambda>a. a \<notin> set_tree T) pool = a # as" by (cases "filter (\<lambda>a. a \<notin> set_tree T) pool") auto
  then have "a \<in> set (filter (\<lambda>a. a \<notin> set_tree T) pool)" by simp
  then have "a \<noteq> 0" "a \<notin> set_tree T" using assms(4) by auto
  moreover have "pool_alloc pool s = a" using a nb [OF T(1)] by (simp add: pool_alloc_def s)
  moreover have "set_tree T' = set_tree T" if "tree_at h t T'" for T'
    using nb [OF that] nb [OF T(1)] set_inorder by metis
  ultimately show ?thesis by (auto simp: tree_fresh_def s)
qed

theorem tree_run_refines_witness:
  "\<exists>s'. run_ops put_map get_map remove_map (pool_alloc [16, 32, 48, 64, 80, 96, 112, 128]) 18
      [Put 4 40, Get 9 MAP_LT, Remove 3, Get 3 MAP_EQ, Put 4 41] (two_nodes, two_tree TREE_TREAP)
        = Inr (s', [0, 50, 30, 0, 40]) \<and>
     tree_rep map_keycmp s' [(4, 41), (5, 50)]"
proof -
  let ?pool = "[16, 32, 48, 64, 80, 96, 112, 128] :: addr list"
  let ?ps = "[Put 4 40, Get 9 MAP_LT, Remove 3, Get 3 MAP_EQ, Put 4 41]"
  have rep: "tree_rep map_keycmp (two_nodes, two_tree TREE_TREAP) [(3, 30), (5, 50)]"
    using two_nodes_at [of TREE_TREAP] two_entries by (auto simp: tree_rep_def)
  have al: "tree_fresh s (pool_alloc ?pool s)" if "tree_rep map_keycmp s es" "length es \<le> 7" for s es
    using pool_alloc_fresh [OF that(1), of ?pool] that(2) by simp
  have "al_run map_keycmp ?ps [(3, 30), (5, 50)] = ([(4, 41), (5, 50)], [0, 50, 30, 0, 40])"
    by (simp add: data_of_def al_del_def map_keycmp_def)
  with tree_run_refines [where b = 7 and n = 18 and ps = ?ps, OF keycmp.comparator_axioms rep al] show ?thesis by simp
qed

end
