(* ===== verification/Kstring.thy ===== *)
theory Kstring
  imports Prelude
begin

text \<open>
  The memory and string routines of \<^verbatim>\<open>libk/string.c\<close> over a byte memory. A plain
  \<^verbatim>\<open>char\<close> is signed on the i386, so characters compare as signed bytes. A loop over a
  string takes fuel; \<open>cstr m p xs\<close> says that the bytes \<open>xs\<close> stand at \<open>p\<close>, followed by
  the terminating zero.
\<close>

type_synonym mem = "addr \<Rightarrow> u8"

subsection \<open>Memory\<close>

fun memset_loop :: "nat \<Rightarrow> mem \<Rightarrow> addr \<Rightarrow> u8 \<Rightarrow> mem" where
  "memset_loop 0 m cp c = m"
| "memset_loop (Suc n) m cp c = memset_loop n (m(cp := c)) (cp + 1) c"

definition memset :: "mem \<Rightarrow> addr \<Rightarrow> int \<Rightarrow> u32 \<Rightarrow> mem" where
  "memset m s c n = memset_loop (unat n) m s (word_of_int c)"

fun memcpy_loop :: "nat \<Rightarrow> mem \<Rightarrow> addr \<Rightarrow> addr \<Rightarrow> mem" where
  "memcpy_loop 0 m cd cs = m"
| "memcpy_loop (Suc n) m cd cs = memcpy_loop n (m(cd := m cs)) (cd + 1) (cs + 1)"

definition memcpy :: "mem \<Rightarrow> addr \<Rightarrow> addr \<Rightarrow> u32 \<Rightarrow> mem" where
  "memcpy m dest src n = memcpy_loop (unat n) m dest src"

text \<open>The loop of \<^verbatim>\<open>memcmp\<close> does not advance its pointers.\<close>

fun memcmp_loop :: "nat \<Rightarrow> mem \<Rightarrow> addr \<Rightarrow> addr \<Rightarrow> int" where
  "memcmp_loop 0 m c1 c2 = 0"
| "memcmp_loop (Suc n) m c1 c2 =
     (if sint (m c1) < sint (m c2) then -1
      else if sint (m c1) > sint (m c2) then 1
      else memcmp_loop n m c1 c2)"

definition memcmp :: "mem \<Rightarrow> addr \<Rightarrow> addr \<Rightarrow> u32 \<Rightarrow> int" where
  "memcmp m s1 s2 n = memcmp_loop (unat n) m s1 s2"

subsection \<open>Strings\<close>

fun strcmp :: "nat \<Rightarrow> mem \<Rightarrow> addr \<Rightarrow> addr \<Rightarrow> int res" where
  "strcmp 0 m s1 s2 = Inl OutOfFuel"
| "strcmp (Suc n) m s1 s2 =
     (if m s1 \<noteq> 0 \<and> m s2 \<noteq> 0 \<and> m s1 = m s2 then strcmp n m (s1 + 1) (s2 + 1)
      else Inr (sint (m s1) - sint (m s2)))"

text \<open>\<^verbatim>\<open>strncmp\<close> is bounded by its count; the difference is taken after the loop in any case.\<close>

fun strncmp_loop :: "nat \<Rightarrow> mem \<Rightarrow> addr \<Rightarrow> addr \<Rightarrow> int" where
  "strncmp_loop 0 m s1 s2 = sint (m s1) - sint (m s2)"
| "strncmp_loop (Suc n) m s1 s2 =
     (if m s1 \<noteq> 0 \<and> m s2 \<noteq> 0 \<and> m s1 = m s2 then strncmp_loop n m (s1 + 1) (s2 + 1)
      else sint (m s1) - sint (m s2))"

definition strncmp :: "mem \<Rightarrow> addr \<Rightarrow> addr \<Rightarrow> u32 \<Rightarrow> int" where
  "strncmp m s1 s2 n = strncmp_loop (unat n) m s1 s2"

fun strlen_loop :: "nat \<Rightarrow> mem \<Rightarrow> addr \<Rightarrow> nat \<Rightarrow> nat res" where
  "strlen_loop 0 m s l = Inl OutOfFuel"
| "strlen_loop (Suc n) m s l = (if m (s + of_nat l) \<noteq> 0 then strlen_loop n m s (l + 1) else Inr l)"

definition strlen :: "nat \<Rightarrow> mem \<Rightarrow> addr \<Rightarrow> nat res" where
  "strlen n m s = strlen_loop n m s 0"

text \<open>\<^verbatim>\<open>strndup\<close>: \<open>ret\<close> is the address \<^verbatim>\<open>malloc(len + 1)\<close> returns.\<close>

definition strndup :: "mem \<Rightarrow> addr \<Rightarrow> addr \<Rightarrow> u32 \<Rightarrow> mem" where
  "strndup m ret s len = (let m = m(ret + len := 0) in memcpy m ret s len)"

fun strchr_loop :: "nat \<Rightarrow> mem \<Rightarrow> addr \<Rightarrow> u8 \<Rightarrow> addr res" where
  "strchr_loop 0 m s c = Inl OutOfFuel"
| "strchr_loop (Suc n) m s c =
     (if m s = 0 then Inr 0 else if c = m s then Inr s else strchr_loop n m (s + 1) c)"

definition strchr :: "nat \<Rightarrow> mem \<Rightarrow> addr \<Rightarrow> u8 \<Rightarrow> addr res" where
  "strchr n m s c = strchr_loop n m s c"

fun strrchr_loop :: "nat \<Rightarrow> mem \<Rightarrow> addr \<Rightarrow> u8 \<Rightarrow> addr \<Rightarrow> addr res" where
  "strrchr_loop 0 m s c la = Inl OutOfFuel"
| "strrchr_loop (Suc n) m s c la =
     (if m s = 0 then Inr la else strrchr_loop n m (s + 1) c (if c = m s then s else la))"

definition strrchr :: "nat \<Rightarrow> mem \<Rightarrow> addr \<Rightarrow> u8 \<Rightarrow> addr res" where
  "strrchr n m s c = strrchr_loop n m s c 0"

definition starts_with :: "nat \<Rightarrow> mem \<Rightarrow> addr \<Rightarrow> addr \<Rightarrow> bool res" where
  "starts_with n m s head =
     bindE (strlen n m s) (\<lambda>slen. bindE (strlen n m head) (\<lambda>hlen.
       if hlen > slen then Inr False else Inr (strncmp m s head (of_nat hlen) = 0)))"

definition ends_with :: "nat \<Rightarrow> mem \<Rightarrow> addr \<Rightarrow> addr \<Rightarrow> bool res" where
  "ends_with n m s tail =
     bindE (strlen n m s) (\<lambda>slen. bindE (strlen n m tail) (\<lambda>tlen.
       if tlen > slen then Inr False
       else bindE (strcmp n m (s + of_nat (slen - tlen)) tail) (\<lambda>d. Inr (d = 0))))"

subsection \<open>Splitting\<close>

text \<open>
  \<^verbatim>\<open>ssplit\<close> gives the pieces as byte lists (each the copy \<^verbatim>\<open>strndup\<close> makes). The growing
  array has room for \<open>cap\<close> pointers; a store at or past it is \<open>BadAccess\<close>.
\<close>

fun span_sep :: "nat \<Rightarrow> mem \<Rightarrow> addr \<Rightarrow> u8 \<Rightarrow> u8 list \<Rightarrow> (addr \<times> u8 list) res" where
  "span_sep 0 m s sep acc = Inl OutOfFuel"
| "span_sep (Suc n) m s sep acc =
     (if m s \<noteq> 0 \<and> m s \<noteq> sep then span_sep n m (s + 1) sep (acc @ [m s]) else Inr (s, acc))"

fun ssplit_loop :: "nat \<Rightarrow> nat \<Rightarrow> mem \<Rightarrow> addr \<Rightarrow> u8 \<Rightarrow> nat \<Rightarrow> nat \<Rightarrow> u8 list list \<Rightarrow> u8 list list res" where
  "ssplit_loop 0 k m s sep i cap strs = Inl OutOfFuel"
| "ssplit_loop (Suc n) k m s sep i cap strs =
     bindE (span_sep k m s sep []) (\<lambda>(s, piece).
     if cap \<le> i then Inl BadAccess
     else
       let strs = strs @ [piece]; i = i + 1; cap = (if i = cap then cap + 8 else cap) in
       if m s = 0 then Inr strs else ssplit_loop n k m (s + 1) sep i cap strs)"

definition ssplit :: "nat \<Rightarrow> mem \<Rightarrow> addr \<Rightarrow> u8 \<Rightarrow> u8 list list res" where
  "ssplit n m str sep = ssplit_loop n n m str sep 0 8 []"

subsection \<open>Paths\<close>

definition chr_slash :: u8 where "chr_slash = 0x2F"

fun strip_slashes :: "nat \<Rightarrow> mem \<Rightarrow> addr \<Rightarrow> mem" where
  "strip_slashes 0 m path = m"
| "strip_slashes (Suc plen) m path =
     (if m (path + of_nat plen) = chr_slash
      then strip_slashes plen (m(path + of_nat plen := 0)) path else m)"

text \<open>\<open>dot\<close> and \<open>slash\<close> are the addresses of the two static strings.\<close>

definition basedirname :: "nat \<Rightarrow> mem \<Rightarrow> addr \<Rightarrow> addr \<Rightarrow> addr \<Rightarrow> bool \<Rightarrow> (mem \<times> addr) res" where
  "basedirname n m dot slash path dirname =
     bindE (strlen n m path) (\<lambda>plen.
     let m = strip_slashes plen m path in
     bindE (strrchr n m path chr_slash) (\<lambda>lastslash.
     if lastslash = 0 then Inr (m, if dirname then dot else path)
     else if lastslash = path then Inr (m, if dirname then slash else path + 1)
     else Inr (m(lastslash := 0), if dirname then path else lastslash + 1)))"

definition dirname :: "nat \<Rightarrow> mem \<Rightarrow> addr \<Rightarrow> addr \<Rightarrow> addr \<Rightarrow> (mem \<times> addr) res" where
  "dirname n m dot slash path = basedirname n m dot slash path True"

definition basename :: "nat \<Rightarrow> mem \<Rightarrow> addr \<Rightarrow> addr \<Rightarrow> addr \<Rightarrow> (mem \<times> addr) res" where
  "basename n m dot slash path = basedirname n m dot slash path False"

subsection \<open>Strings in memory\<close>

fun bytes_at :: "mem \<Rightarrow> addr \<Rightarrow> u8 list \<Rightarrow> bool" where
  "bytes_at m p [] \<longleftrightarrow> True"
| "bytes_at m p (x # xs) \<longleftrightarrow> m p = x \<and> bytes_at m (p + 1) xs"

definition cstr :: "mem \<Rightarrow> addr \<Rightarrow> u8 list \<Rightarrow> bool" where
  "cstr m p xs \<longleftrightarrow> bytes_at m p (xs @ [0]) \<and> 0 \<notin> set xs"

lemma cstr_Nil [simp]: "cstr m p [] \<longleftrightarrow> m p = 0"
  by (simp add: cstr_def)

lemma cstr_Cons [simp]: "cstr m p (x # xs) \<longleftrightarrow> x \<noteq> 0 \<and> m p = x \<and> cstr m (p + 1) xs"
  by (auto simp: cstr_def)

lemma bytes_at_append:
  "bytes_at m p (xs @ ys) \<longleftrightarrow> bytes_at m p xs \<and> bytes_at m (p + of_nat (length xs)) ys"
  by (induction xs arbitrary: p) (simp_all add: add.assoc add.left_commute)

lemma cstr_append:
  "cstr m p (xs @ ys) \<longleftrightarrow> bytes_at m p xs \<and> 0 \<notin> set xs \<and> cstr m (p + of_nat (length xs)) ys"
  by (auto simp: cstr_def bytes_at_append)

lemma bytes_at_cong:
  "(\<And>i. i < length xs \<Longrightarrow> m' (p + of_nat i) = m (p + of_nat i)) \<Longrightarrow> bytes_at m' p xs = bytes_at m p xs"
proof (induction xs arbitrary: p)
  case (Cons x xs)
  have "m' p = m p" using Cons.prems [of 0] by simp
  moreover have "m' (p + 1 + of_nat i) = m (p + 1 + of_nat i)" if "i < length xs" for i
    using Cons.prems [of "Suc i"] that by (simp add: add.assoc)
  ultimately show ?case using Cons.IH [of "p + 1"] by simp
qed simp

subsection \<open>What the routines compute\<close>

lemma strlen_loop_ok:
  "cstr m (s + of_nat l) xs \<Longrightarrow> length xs < n \<Longrightarrow> strlen_loop n m s l = Inr (l + length xs)"
proof (induction n arbitrary: l xs)
  case (Suc n)
  show ?case
  proof (cases xs)
    case (Cons x xs')
    have "cstr m (s + of_nat (l + 1)) xs'" using Suc.prems(1) Cons by (simp add: ac_simps)
    from Suc.IH [OF this] Suc.prems Cons show ?thesis by simp
  qed (use Suc.prems in simp)
qed simp

lemma strlen_ok: "cstr m s xs \<Longrightarrow> length xs < n \<Longrightarrow> strlen n m s = Inr (length xs)"
  using strlen_loop_ok [of m s 0 xs n] by (simp add: strlen_def)

text \<open>The order of \<^verbatim>\<open>strcmp\<close> on the strings themselves.\<close>

fun str_cmp :: "u8 list \<Rightarrow> u8 list \<Rightarrow> int" where
  "str_cmp [] [] = 0"
| "str_cmp [] (y # ys) = - sint y"
| "str_cmp (x # xs) [] = sint x"
| "str_cmp (x # xs) (y # ys) = (if x = y then str_cmp xs ys else sint x - sint y)"

lemma strcmp_ok:
  "cstr m p xs \<Longrightarrow> cstr m q ys \<Longrightarrow> length xs < n \<Longrightarrow> strcmp n m p q = Inr (str_cmp xs ys)"
proof (induction n arbitrary: p q xs ys)
  case (Suc n)
  then show ?case by (cases xs; cases ys) auto
qed simp

lemma sint_eq_0: "sint (x :: u8) = 0 \<longleftrightarrow> x = 0"
  by (metis sint_0 signed_word_eqI)

lemma str_cmp_eq: "0 \<notin> set xs \<Longrightarrow> 0 \<notin> set ys \<Longrightarrow> str_cmp xs ys = 0 \<longleftrightarrow> xs = ys"
  by (induction xs ys rule: str_cmp.induct) (auto simp: sint_eq_0 dest: signed_word_eqI)

lemma str_cmp_swap: "str_cmp ys xs = - str_cmp xs ys"
  by (induction xs ys rule: str_cmp.induct) auto

lemma str_cmp_trans:
  assumes "0 \<notin> set xs" "0 \<notin> set ys" "0 \<notin> set zs" "str_cmp xs ys \<le> 0" "str_cmp ys zs \<le> 0"
  shows "str_cmp xs zs \<le> 0"
  using assms
proof (induction xs zs arbitrary: ys rule: str_cmp.induct)
  case (2 z zs)
  then show ?case by (cases ys) (auto split: if_splits)
next
  case (3 x xs)
  then show ?case by (cases ys) (auto split: if_splits)
next
  case (4 x xs z zs)
  have inj: "sint a = sint b \<Longrightarrow> a = b" for a b :: u8 by (rule signed_word_eqI)
  show ?case
  proof (cases ys)
    case Nil
    then show ?thesis using 4 sint_eq_0 [of x] sint_eq_0 [of z] by (auto split: if_splits)
  next
    case (Cons y ys')
    consider "x = y" "y = z" | "x = y" "y \<noteq> z" | "x \<noteq> y" "y = z" | "x \<noteq> y" "y \<noteq> z" by blast
    then show ?thesis
    proof cases
      case 1
      then show ?thesis using 4(1) [of ys'] 4(2-) Cons by simp
    next
      case 4
      have "sint x \<le> sint y" "sint y \<le> sint z" using "4.prems" Cons 4 by simp_all
      moreover have "x \<noteq> z" using calculation 4 inj by force
      ultimately show ?thesis by simp
    qed (use "4.prems" Cons in simp_all)
  qed
qed simp

text \<open>Copying and filling.\<close>

lemma memcpy_loop_outside:
  "(\<And>i. i < n \<Longrightarrow> a \<noteq> d + of_nat i) \<Longrightarrow> memcpy_loop n m d s a = m a"
proof (induction n arbitrary: m d s)
  case (Suc n)
  have "a \<noteq> d" using Suc.prems [of 0] by simp
  moreover have "a \<noteq> d + 1 + of_nat i" if "i < n" for i
    using Suc.prems [of "Suc i"] that by (simp add: add.assoc)
  then have "memcpy_loop n (m(d := m s)) (d + 1) (s + 1) a = (m(d := m s)) a" by (rule Suc.IH)
  ultimately show ?case by simp
qed simp

lemma memcpy_loop_copies:
  assumes "\<And>i j. i < n \<Longrightarrow> j < n \<Longrightarrow> d + of_nat i \<noteq> s + of_nat j" "n < 4294967296" "k < n"
  shows "memcpy_loop n m d s (d + of_nat k) = m (s + of_nat k)"
  using assms
proof (induction n arbitrary: m d s k)
  case (Suc n)
  have nd: "d + 1 + of_nat i \<noteq> s + 1 + of_nat j" if "i < n" "j < n" for i j
    using Suc.prems(1) [of "Suc i" "Suc j"] that by (simp add: add.assoc)
  show ?case
  proof (cases k)
    case 0
    have "d \<noteq> d + 1 + of_nat i" if "i < n" for i
      using addr_offset_inj [of d 0 "Suc i"] that Suc.prems(2) by (auto simp: add.assoc)
    then have "memcpy_loop n (m(d := m s)) (d + 1) (s + 1) d = m s"
      using memcpy_loop_outside [of n d "d + 1" "m(d := m s)" "s + 1"] by simp
    with 0 show ?thesis by simp
  next
    case (Suc j)
    have "memcpy_loop n (m(d := m s)) (d + 1) (s + 1) (d + 1 + of_nat j) = (m(d := m s)) (s + 1 + of_nat j)"
      using Suc.prems(2,3) Suc nd by (intro Suc.IH) auto
    moreover have "d \<noteq> s + 1 + of_nat j" using Suc.prems(1) [of 0 "Suc j"] Suc.prems(3) Suc by (simp add: add.assoc)
    ultimately show ?thesis using Suc by (simp add: add.assoc)
  qed
qed simp

lemma memset_loop_outside:
  "(\<And>i. i < n \<Longrightarrow> a \<noteq> d + of_nat i) \<Longrightarrow> memset_loop n m d c a = m a"
proof (induction n arbitrary: m d)
  case (Suc n)
  have "a \<noteq> d" using Suc.prems [of 0] by simp
  moreover have "a \<noteq> d + 1 + of_nat i" if "i < n" for i
    using Suc.prems [of "Suc i"] that by (simp add: add.assoc)
  then have "memset_loop n (m(d := c)) (d + 1) c a = (m(d := c)) a" by (rule Suc.IH)
  ultimately show ?case by simp
qed simp

lemma memset_loop_fills: "k < n \<Longrightarrow> n < 4294967296 \<Longrightarrow> memset_loop n m d c (d + of_nat k) = c"
proof (induction n arbitrary: m d k)
  case (Suc n)
  show ?case
  proof (cases k)
    case 0
    have "d \<noteq> d + 1 + of_nat i" if "i < n" for i
      using addr_offset_inj [of d 0 "Suc i"] that Suc.prems(2) by (auto simp: add.assoc)
    then show ?thesis using 0 memset_loop_outside [of n d "d + 1" "m(d := c)" c] by simp
  next
    case (Suc j)
    then have "memset_loop n (m(d := c)) (d + 1) c (d + 1 + of_nat j) = c" using Suc.prems by (intro Suc.IH) auto
    with Suc show ?thesis by (simp add: add.assoc)
  qed
qed simp

subsection \<open>Splitting a string\<close>

fun join_sep :: "u8 \<Rightarrow> u8 list list \<Rightarrow> u8 list" where
  "join_sep sep [] = []"
| "join_sep sep [p] = p"
| "join_sep sep (p # q # ps) = p @ sep # join_sep sep (q # ps)"

lemma join_sep_Cons: "ps \<noteq> [] \<Longrightarrow> join_sep sep (p # ps) = p @ sep # join_sep sep ps"
  by (cases ps) auto

lemma span_sep_ok:
  assumes "cstr m s (u @ r)" "sep \<notin> set u" "r = [] \<or> hd r = sep" "length u < n"
  shows "span_sep n m s sep acc = Inr (s + of_nat (length u), acc @ u)"
  using assms(1,2,4)
proof (induction u arbitrary: n s acc)
  case Nil
  then obtain k where "n = Suc k" by (cases n) auto
  then show ?case using Nil.prems assms(3) by (cases r) auto
next
  case (Cons x u)
  then obtain k where n: "n = Suc k" by (cases n) auto
  have "span_sep k m (s + 1) sep (acc @ [x]) = Inr (s + 1 + of_nat (length u), (acc @ [x]) @ u)"
    using Cons.prems n by (intro Cons.IH) auto
  moreover have "m s = x" "x \<noteq> 0" "x \<noteq> sep" using Cons.prems by auto
  ultimately show ?case using n by (simp add: add.assoc)
qed

lemma ssplit_loop_ok:
  assumes "cstr m s xs" "length xs < n" "length xs < k" "i < cap"
  shows "\<exists>ps. ssplit_loop n k m s sep i cap strs = Inr (strs @ ps) \<and> ps \<noteq> [] \<and> join_sep sep ps = xs \<and>
    (\<forall>p\<in>set ps. sep \<notin> set p)"
  using assms
proof (induction n arbitrary: s xs i cap strs)
  case (Suc n)
  define u r where "u = takeWhile (\<lambda>x. x \<noteq> sep) xs" and "r = dropWhile (\<lambda>x. x \<noteq> sep) xs"
  have xs: "xs = u @ r" and u: "sep \<notin> set u" and r: "r = [] \<or> hd r = sep"
    using hd_dropWhile [of "\<lambda>x. x \<noteq> sep" xs] by (auto simp: u_def r_def dest: set_takeWhileD)
  have len: "length u < k" using Suc.prems(3) xs by simp
  note sp = span_sep_ok [OF Suc.prems(1) [unfolded xs] u r len, of "[]"]
  have cr: "cstr m (s + of_nat (length u)) r" using Suc.prems(1) xs by (simp add: cstr_append)
  show ?case
  proof (cases r)
    case Nil
    then show ?thesis using sp cr Suc.prems(4) u xs by (intro exI [of _ "[u]"]) simp
  next
    case (Cons c ys)
    then have c: "c = sep" "cstr m (s + of_nat (length u) + 1) ys" "m (s + of_nat (length u)) \<noteq> 0" using r cr by auto
    have "length ys < n" "length ys < k" "i + 1 < (if i + 1 = cap then cap + 8 else cap)"
      using Suc.prems xs Cons by auto
    from Suc.IH [OF c(2) this, of "strs @ [u]"] obtain ps where
      ps: "ssplit_loop n k m (s + of_nat (length u) + 1) sep (i + 1) (if i + 1 = cap then cap + 8 else cap) (strs @ [u])
          = Inr ((strs @ [u]) @ ps)" "ps \<noteq> []" "join_sep sep ps = ys" "\<forall>p\<in>set ps. sep \<notin> set p" by auto
    then show ?thesis using sp c Suc.prems(4) u xs Cons
      by (intro exI [of _ "u # ps"]) (simp add: Let_def join_sep_Cons split del: if_split)
  qed
qed simp

subsection \<open>Path components\<close>

definition strip_end :: "u8 list \<Rightarrow> u8 list" where
  "strip_end xs = rev (dropWhile (\<lambda>x. x = chr_slash) (rev xs))"

lemma length_strip_end: "length (strip_end xs) \<le> length xs"
  using length_dropWhile_le [of "\<lambda>x. x = chr_slash" "rev xs"] by (simp add: strip_end_def)

lemma cstr_cut:
  assumes "cstr m p (xs @ ys)" "length xs < 4294967296"
  shows "cstr (m(p + of_nat (length xs) := 0)) p xs"
proof -
  have "bytes_at (m(p + of_nat (length xs) := 0)) p xs = bytes_at m p xs"
  proof (rule bytes_at_cong)
    fix i assume "i < length xs"
    then have "p + of_nat i \<noteq> p + of_nat (length xs)" using addr_offset_inj [of p i "length xs"] assms(2) by auto
    then show "(m(p + of_nat (length xs) := 0)) (p + of_nat i) = m (p + of_nat i)" by simp
  qed
  then show ?thesis using assms(1) by (simp add: cstr_append cstr_def bytes_at_append)
qed

lemma strip_slashes_ok:
  "cstr m p xs \<Longrightarrow> length xs < 4294967296 \<Longrightarrow> cstr (strip_slashes (length xs) m p) p (strip_end xs)"
proof (induction xs arbitrary: m rule: rev_induct)
  case (snoc x xs)
  have mx: "m (p + of_nat (length xs)) = x" using snoc.prems(1) by (simp add: cstr_append)
  show ?case
  proof (cases "x = chr_slash")
    case True
    have "cstr (m(p + of_nat (length xs) := 0)) p xs" using cstr_cut [OF snoc.prems(1)] snoc.prems(2) by simp
    from snoc.IH [OF this]
    have "cstr (strip_slashes (length xs) (m(p + of_nat (length xs) := 0)) p) p (strip_end xs)"
      using snoc.prems(2) by (simp add: fun_upd_def)
    moreover have "strip_end (xs @ [x]) = strip_end xs" using True by (simp add: strip_end_def)
    ultimately show ?thesis using True mx by simp
  next
    case False
    then show ?thesis using snoc.prems mx by (simp add: strip_end_def)
  qed
qed (simp add: strip_end_def)

lemma strrchr_loop_absent:
  "cstr m s xs \<Longrightarrow> c \<notin> set xs \<Longrightarrow> length xs < n \<Longrightarrow> strrchr_loop n m s c la = Inr la"
proof (induction n arbitrary: s xs)
  case (Suc n)
  then show ?case by (cases xs) auto
qed simp

lemma strrchr_loop_ok:
  "cstr m s (u @ c # v) \<Longrightarrow> c \<notin> set v \<Longrightarrow> length u + length v + 1 < n \<Longrightarrow>
   strrchr_loop n m s c la = Inr (s + of_nat (length u))"
proof (induction u arbitrary: n s la)
  case Nil
  then obtain k where "n = Suc k" by (cases n) auto
  then show ?case using Nil.prems strrchr_loop_absent [of m "s + 1" v c k s] by simp
next
  case (Cons x u)
  then obtain k where n: "n = Suc k" by (cases n) auto
  have "strrchr_loop k m (s + 1) c (if c = x then s else la) = Inr (s + 1 + of_nat (length u))"
    using Cons.prems n by (intro Cons.IH) auto
  then show ?case using Cons.prems n by (simp add: add.assoc)
qed

text \<open>
  \<open>path_cut d b p\<close>: the path \<open>p\<close> is the directory \<open>d\<close>, a slash and the last component \<open>b\<close>.
\<close>

definition path_cut :: "u8 list \<Rightarrow> u8 list \<Rightarrow> u8 list \<Rightarrow> bool" where
  "path_cut d b p \<longleftrightarrow> p = d @ chr_slash # b \<and> chr_slash \<notin> set b"

lemma basedirname_plain:
  assumes c: "cstr m path xs" and l: "length xs < n" "length xs < 4294967296" and ns: "chr_slash \<notin> set (strip_end xs)"
  shows "\<exists>m'. basedirname n m dot slash path is_dir = Inr (m', if is_dir then dot else path) \<and> cstr m' path (strip_end xs)"
proof -
  let ?m = "strip_slashes (length xs) m path"
  have c': "cstr ?m path (strip_end xs)" by (rule strip_slashes_ok [OF c l(2)])
  have "length (strip_end xs) < n" using l(1) length_strip_end [of xs] by simp
  then show ?thesis using c' strrchr_loop_absent [OF c' ns] strlen_ok [OF c l(1)]
    by (simp add: basedirname_def strrchr_def)
qed

lemma basedirname_cut:
  assumes c: "cstr m path xs" and l: "length xs < n" and w: "path \<noteq> 0" "unat path + length xs < 4294967296"
    and cut: "path_cut d b (strip_end xs)"
  shows "\<exists>m' a. basedirname n m dot slash path is_dir = Inr (m', a) \<and>
    (if is_dir then (if d = [] then a = slash else a = path \<and> cstr m' path d) else cstr m' a b)"
proof -
  let ?m = "strip_slashes (length xs) m path" and ?ls = "path + of_nat (length d) :: addr"
  have c': "cstr ?m path (d @ chr_slash # b)" using strip_slashes_ok [OF c] w cut by (simp add: path_cut_def)
  have len: "length d + length b + 1 \<le> length xs"
    using length_strip_end [of xs] cut by (simp add: path_cut_def)
  have ls: "strrchr n ?m path chr_slash = Inr ?ls"
    using strrchr_loop_ok [OF c'] cut len l by (simp add: strrchr_def path_cut_def)
  have "unat ?ls = unat path + length d"
    using w len by (simp add: unat_word_ariths unat_of_nat)
  then have nz: "?ls \<noteq> 0" using w(1) by (metis add_is_0 unat_0 unat_eq_zero)
  have b: "cstr ?m (?ls + 1) b" using c' by (simp add: cstr_append)
  have "bytes_at (?m(?ls := 0)) (?ls + 1) (b @ [0]) = bytes_at ?m (?ls + 1) (b @ [0])"
  proof (rule bytes_at_cong)
    fix i assume "i < length (b @ [0])"
    then have "?ls + of_nat (Suc i) \<noteq> ?ls + of_nat 0"
      using addr_offset_inj [of ?ls "Suc i" 0] len w(2) by auto
    then show "(?m(?ls := 0)) (?ls + 1 + of_nat i) = ?m (?ls + 1 + of_nat i)" by (simp add: add.assoc)
  qed
  then have b': "cstr (?m(?ls := 0)) (?ls + 1) b" using b by (simp add: cstr_def)
  have d': "cstr (?m(?ls := 0)) path d" using cstr_cut [OF c'] len w(2) by simp
  have "?ls = path \<longleftrightarrow> d = []" using addr_offset_inj [of path "length d" 0] len w(2) by auto
  then have "basedirname n m dot slash path is_dir = Inr (if d = [] then ?m else ?m(?ls := 0),
      if is_dir then (if d = [] then slash else path) else ?ls + 1)"
    using strlen_ok [OF c l] ls nz by (simp add: basedirname_def)
  then show ?thesis using b b' d' by auto
qed

subsection \<open>Prefixes and suffixes\<close>

lemma strncmp_loop_eq:
  "cstr m p xs \<Longrightarrow> cstr m q ys \<Longrightarrow> length ys \<le> length xs \<Longrightarrow> strncmp_loop (length ys) m p q = 0 \<longleftrightarrow> xs = ys"
proof (induction ys arbitrary: p q xs)
  case Nil
  then show ?case by (cases xs) (auto simp: sint_eq_0)
next
  case (Cons y ys)
  then obtain x xs' where xs: "xs = x # xs'" by (cases xs) auto
  show ?case
  proof (cases "x = y")
    case True
    with Cons.IH [of "p + 1" xs' "q + 1"] Cons.prems xs show ?thesis by simp
  next
    case False
    then have "sint x \<noteq> sint y" using signed_word_eqI by blast
    with False Cons.prems xs show ?thesis by simp
  qed
qed

lemma ends_with_ok:
  assumes s: "cstr m p xs" and t: "cstr m q ys" and n: "length xs < n" "length ys < n"
  shows "ends_with n m p q = Inr (\<exists>u. xs = u @ ys)"
proof (cases "length ys \<le> length xs")
  case True
  define u v where "u = take (length xs - length ys) xs" and "v = drop (length xs - length ys) xs"
  have xs: "xs = u @ v" and lv: "length v = length ys" "length u = length xs - length ys"
    using True by (simp_all add: u_def v_def)
  have cv: "cstr m (p + of_nat (length xs - length ys)) v"
    using s unfolding lv(2) [symmetric] by (subst (asm) xs) (simp add: cstr_append)
  have nz: "0 \<notin> set v" "0 \<notin> set ys" using cv t by (simp_all add: cstr_def)
  have "strcmp n m (p + of_nat (length xs - length ys)) q = Inr (str_cmp v ys)"
    using strcmp_ok [OF cv t] lv n by simp
  moreover have "str_cmp v ys = 0 \<longleftrightarrow> (\<exists>u. xs = u @ ys)"
    using str_cmp_eq [OF nz] xs lv by auto
  ultimately show ?thesis using strlen_ok [OF s n(1)] strlen_ok [OF t n(2)] True by (simp add: ends_with_def)
next
  case False
  then have "\<nexists>u. xs = u @ ys" by auto
  then show ?thesis using strlen_ok [OF s n(1)] strlen_ok [OF t n(2)] False by (simp add: ends_with_def)
qed

lemma starts_with_ok:
  assumes s: "cstr m p xs" and t: "cstr m q ys" and n: "length xs < n" "length ys < n" "length ys < 4294967296"
  shows "starts_with n m p q = Inr (xs = ys)"
  using strlen_ok [OF s n(1)] strlen_ok [OF t n(2)] strncmp_loop_eq [OF s t] unat_of_nat_addr [OF n(3)]
  by (auto simp: starts_with_def strncmp_def)

lemma memcmp_loop_first:
  "memcmp_loop n m a b = (if n = 0 \<or> m a = m b then 0 else if sint (m a) < sint (m b) then -1 else 1)"
proof (induction n)
  case (Suc n)
  have "sint (m a) = sint (m b) \<longleftrightarrow> m a = m b" using signed_word_eqI by auto
  then show ?case using Suc by auto
qed simp

subsection \<open>Properties\<close>

text \<open>
  \<^verbatim>\<open>strcmp\<close> on terminated strings returns, and its result is a total order on them: 0
  exactly for equal strings, of opposite sign when the arguments are exchanged, transitive.
\<close>

theorem strcmp_total_order:
  assumes "cstr m p xs" "cstr m q ys" "cstr m r zs" "length xs < n" "length ys < n" "length zs < n"
  shows "\<exists>d e f. strcmp n m p q = Inr d \<and> strcmp n m q p = Inr (- d) \<and> strcmp n m q r = Inr e \<and>
    strcmp n m p r = Inr f \<and> (d = 0 \<longleftrightarrow> xs = ys) \<and> (d \<le> 0 \<and> e \<le> 0 \<longrightarrow> f \<le> 0)"
proof -
  have nz: "0 \<notin> set xs" "0 \<notin> set ys" "0 \<notin> set zs" using assms(1-3) by (simp_all add: cstr_def)
  have "strcmp n m p q = Inr (str_cmp xs ys)" "strcmp n m q p = Inr (- str_cmp xs ys)"
    "strcmp n m q r = Inr (str_cmp ys zs)" "strcmp n m p r = Inr (str_cmp xs zs)"
    using strcmp_ok assms str_cmp_swap [of ys xs] by simp_all
  with str_cmp_eq [OF nz(1,2)] str_cmp_trans [OF nz] show ?thesis by blast
qed

text \<open>A memory with the strings \<^verbatim>\<open>"a/b"\<close> at 16 and \<^verbatim>\<open>"ab"\<close> at 32.\<close>

definition demo_mem :: mem where
  "demo_mem = (\<lambda>_. 0)(16 := 0x61, 17 := 0x2F, 18 := 0x62, 32 := 0x61, 33 := 0x62)"

lemma demo_strings: "cstr demo_mem 16 [0x61, 0x2F, 0x62]" "cstr demo_mem 32 [0x61, 0x62]" "cstr demo_mem 33 [0x62]"
  by (simp_all add: demo_mem_def)

theorem strcmp_total_order_witness:
  "\<exists>d. strcmp 4 demo_mem 16 32 = Inr d \<and> strcmp 4 demo_mem 32 16 = Inr (- d) \<and> d \<noteq> 0"
  using strcmp_total_order [OF demo_strings(1,2,2), of 4] by auto

text \<open>
  \<^verbatim>\<open>ssplit\<close> returns for every terminated string, never stores past the end of its
  growing array, and splits faithfully: no piece contains the separator, and the pieces
  joined with it give the string back.
\<close>

theorem ssplit_join:
  assumes "cstr m s xs" "length xs < n"
  shows "\<exists>ps. ssplit n m s sep = Inr ps \<and> join_sep sep ps = xs \<and> ps \<noteq> [] \<and> (\<forall>p\<in>set ps. sep \<notin> set p)"
  using ssplit_loop_ok [OF assms(1,2,2), of 0 8 sep "[]"] by (auto simp: ssplit_def)

theorem ssplit_join_witness:
  "\<exists>ps. ssplit 4 demo_mem 16 0x2F = Inr ps \<and> join_sep 0x2F ps = [0x61, 0x2F, 0x62]"
  using ssplit_join [OF demo_strings(1), of 4 "0x2F"] by auto

text \<open>
  \<^verbatim>\<open>basename\<close> and \<^verbatim>\<open>dirname\<close>, after the trailing slashes are stripped: of a path
  \<open>d/b\<close> whose last component is \<open>b\<close> they return the string \<open>b\<close>, and \<open>d\<close> or, when \<open>d\<close> is
  empty, the static \<^verbatim>\<open>"/"\<close>; of a path without a slash the path and the static \<^verbatim>\<open>"."\<close>. A
  path of slashes only falls under the second case.
\<close>

theorem path_components:
  assumes "cstr m path xs" "length xs < n" "path \<noteq> 0" "unat path + length xs < 4294967296"
  shows "(chr_slash \<notin> set (strip_end xs) \<longrightarrow>
      (\<exists>m'. basename n m dot slash path = Inr (m', path) \<and> cstr m' path (strip_end xs)) \<and>
      (\<exists>m'. dirname n m dot slash path = Inr (m', dot))) \<and>
    (path_cut d b (strip_end xs) \<longrightarrow>
      (\<exists>m' a. basename n m dot slash path = Inr (m', a) \<and> cstr m' a b) \<and>
      (\<exists>m' a. dirname n m dot slash path = Inr (m', a) \<and> (if d = [] then a = slash else a = path \<and> cstr m' path d)))"
proof -
  have "length xs < 4294967296" using assms(4) by simp
  note plain = basedirname_plain [OF assms(1,2) this, of dot slash]
  note cut = basedirname_cut [OF assms, of d b dot slash]
  show ?thesis unfolding basename_def dirname_def
    using plain [of True] plain [of False] cut [of True] cut [of False] by simp blast
qed

theorem path_components_witness:
  "(\<exists>m' a. basename 4 demo_mem 64 80 16 = Inr (m', a) \<and> cstr m' a [0x62]) \<and>
   (\<exists>m'. dirname 4 demo_mem 64 80 16 = Inr (m', 16) \<and> cstr m' 16 [0x61])"
proof -
  have "path_cut [0x61] [0x62] (strip_end [0x61, 0x2F, 0x62])"
    by (simp add: path_cut_def strip_end_def chr_slash_def)
  then show ?thesis
    using path_components [OF demo_strings(1), of 4 64 80 "[0x61]" "[0x62]"] by simp
qed

text \<open>
  \<^verbatim>\<open>memcpy\<close> of disjoint areas copies every byte and \<^verbatim>\<open>memset\<close> fills every byte, and
  neither writes elsewhere. \<^verbatim>\<open>memcmp\<close> compares only the first bytes of its areas, whatever
  their length, because its loop never moves its pointers.
\<close>

theorem memory_routines:
  assumes "\<And>i j. i < unat n \<Longrightarrow> j < unat n \<Longrightarrow> d + of_nat i \<noteq> s + of_nat j" "k < unat n"
    and "\<And>i. i < unat n \<Longrightarrow> a \<noteq> d + of_nat i"
  shows "memcpy m d s n (d + of_nat k) = m (s + of_nat k) \<and> memcpy m d s n a = m a \<and>
    memset m d c n (d + of_nat k) = word_of_int c \<and> memset m d c n a = m a \<and>
    memcmp m d s n = (if m d = m s then 0 else if sint (m d) < sint (m s) then -1 else 1)"
proof -
  have n: "unat n < 4294967296" using unsigned_less [of n] by simp
  show ?thesis
    using memcpy_loop_copies [OF assms(1) n assms(2), of m] memcpy_loop_outside [OF assms(3)]
      memset_loop_fills [OF assms(2) n] memset_loop_outside [OF assms(3)] memcmp_loop_first assms(2)
    by (simp add: memcpy_def memset_def memcmp_def)
qed

theorem memory_routines_witness:
  "memcpy demo_mem 48 16 2 49 = 0x2F \<and> memcpy demo_mem 48 16 2 50 = 0 \<and> memcmp demo_mem 16 32 2 = 0"
proof -
  have "48 + of_nat i \<noteq> (16 :: addr) + of_nat j" "16 + of_nat i \<noteq> (32 :: addr) + of_nat j"
    "(50 :: addr) \<noteq> 48 + of_nat i" "(50 :: addr) \<noteq> 16 + of_nat i" if "i < 2" "j < 2" for i j
    using that by (auto simp: less_2_cases_iff)
  then show ?thesis
    using memory_routines [of 2 48 16 1 50 demo_mem 0] memory_routines [of 2 16 32 1 50 demo_mem 0]
    by (simp add: demo_mem_def)
qed

text \<open>
  \<^verbatim>\<open>ends_with\<close> holds exactly when the second string is a suffix of the first.
  \<^verbatim>\<open>starts_with\<close> holds exactly when the two strings are equal: \<^verbatim>\<open>strncmp\<close> compares the
  character after the last one it was asked to compare, so a proper prefix is refused.
\<close>

theorem string_affixes:
  assumes "cstr m p xs" "cstr m q ys" "length xs < n" "length ys < n" "length ys < 4294967296"
  shows "ends_with n m p q = Inr (\<exists>u. xs = u @ ys) \<and> starts_with n m p q = Inr (xs = ys)"
  using ends_with_ok [OF assms(1-4)] starts_with_ok [OF assms] ..

theorem string_affixes_witness:
  "ends_with 4 demo_mem 16 33 = Inr True \<and> starts_with 4 demo_mem 16 33 = Inr False"
  using string_affixes [OF demo_strings(1,3), of 4] by (auto intro: exI [of _ "[0x61, 0x2F]"])

end
