(* ===== verification/Map_Keys.thy ===== *)
theory Map_Keys
  imports Map_Spec Kstring
begin

unbundle bit_operations_syntax

text \<open>
  The key orders of \<^verbatim>\<open>libk/map.c\<close>: strings, zero-terminated arrays of words and compound
  byte keys. Array keys live in a memory of words, four bytes apart.
\<close>

type_synonym wmem = "addr \<Rightarrow> u32"

subsection \<open>Strings as keys\<close>

definition map_strcmp :: "nat \<Rightarrow> mem \<Rightarrow> map_key \<Rightarrow> map_key \<Rightarrow> int res" where
  "map_strcmp n m k1 k2 = strcmp n m k1 k2"

subsection \<open>Arrays as keys\<close>

fun arraycmp_loop :: "nat \<Rightarrow> wmem \<Rightarrow> addr \<Rightarrow> addr \<Rightarrow> int res" where
  "arraycmp_loop 0 m a1 a2 = Inl OutOfFuel"
| "arraycmp_loop (Suc n) m a1 a2 =
     (if m a1 \<noteq> 0 \<and> m a2 \<noteq> 0 \<and> m a1 = m a2 then arraycmp_loop n m (a1 + 4) (a2 + 4)
      else Inr (map_keycmp (m a1) (m a2)))"

definition map_arraycmp :: "nat \<Rightarrow> wmem \<Rightarrow> map_key \<Rightarrow> map_key \<Rightarrow> int res" where
  "map_arraycmp n m k1 k2 = arraycmp_loop n m k1 k2"

text \<open>The three constructors; \<open>key\<close> is the address \<^verbatim>\<open>malloc\<close> returns.\<close>

definition map_arraykey1 :: "wmem \<Rightarrow> addr \<Rightarrow> map_key \<Rightarrow> wmem" where
  "map_arraykey1 m key k = m(key := k, key + 4 := 0)"

definition map_arraykey2 :: "wmem \<Rightarrow> addr \<Rightarrow> map_key \<Rightarrow> map_key \<Rightarrow> wmem" where
  "map_arraykey2 m key k1 k2 = m(key := k1, key + 4 := k2, key + 8 := 0)"

definition map_arraykey3 :: "wmem \<Rightarrow> addr \<Rightarrow> map_key \<Rightarrow> map_key \<Rightarrow> map_key \<Rightarrow> wmem" where
  "map_arraykey3 m key k1 k2 k3 = m(key := k1, key + 4 := k2, key + 8 := k3, key + 12 := 0)"

fun karr :: "wmem \<Rightarrow> addr \<Rightarrow> u32 list \<Rightarrow> bool" where
  "karr m p [] \<longleftrightarrow> m p = 0"
| "karr m p (x # xs) \<longleftrightarrow> x \<noteq> 0 \<and> m p = x \<and> karr m (p + 4) xs"

fun arr_cmp :: "u32 list \<Rightarrow> u32 list \<Rightarrow> int" where
  "arr_cmp [] [] = 0"
| "arr_cmp [] (y # ys) = map_keycmp 0 y"
| "arr_cmp (x # xs) [] = map_keycmp x 0"
| "arr_cmp (x # xs) (y # ys) = (if x = y then arr_cmp xs ys else map_keycmp x y)"

lemma map_arraycmp_ok:
  "karr m p xs \<Longrightarrow> karr m q ys \<Longrightarrow> length xs < n \<Longrightarrow> map_arraycmp n m p q = Inr (arr_cmp xs ys)"
  unfolding map_arraycmp_def
proof (induction n arbitrary: p q xs ys)
  case (Suc n)
  then show ?case by (cases xs; cases ys) auto
qed simp

text \<open>On non-zero words this is the lexicographic order, with prefixes first.\<close>

lemma arr_cmp_less:
  "0 \<notin> set xs \<Longrightarrow> 0 \<notin> set ys \<Longrightarrow> arr_cmp xs ys < 0 \<longleftrightarrow> (xs, ys) \<in> lexord {(a, b). a < b}"
proof (induction xs ys rule: arr_cmp.induct)
  case (2 y ys)
  then show ?case by (simp add: map_keycmp_sign word_gt_0)
qed (auto simp: map_keycmp_sign)

lemma arr_cmp_eq: "0 \<notin> set xs \<Longrightarrow> 0 \<notin> set ys \<Longrightarrow> arr_cmp xs ys = 0 \<longleftrightarrow> xs = ys"
  by (induction xs ys rule: arr_cmp.induct) (auto simp: map_keycmp_sign)

lemma arr_cmp_swap: "arr_cmp ys xs = - arr_cmp xs ys"
  by (induction xs ys rule: arr_cmp.induct) (auto simp: map_keycmp_def)

lemma karr_nz: "karr m p xs \<Longrightarrow> 0 \<notin> set xs"
  by (induction xs arbitrary: p) auto

subsection \<open>Compound keys\<close>

text \<open>
  The variable arguments of a compound key. A string argument is an address of the byte
  memory. An argument of another kind than the format asks for is \<open>BadAccess\<close>.
\<close>

datatype key_arg = I4 u32 | I8 u64 | S addr

definition rot32 :: "u32 \<Rightarrow> u32" where "rot32 i = push_bit 8 i OR drop_bit 24 i"
definition rot64 :: "u64 \<Rightarrow> u64" where "rot64 i = push_bit 8 i OR drop_bit 56 i"

fun put_rot32 :: "nat \<Rightarrow> u32 \<Rightarrow> u8 list" where
  "put_rot32 0 i = []"
| "put_rot32 (Suc n) i = (let i = rot32 i in ucast (i AND 0xff) # put_rot32 n i)"

fun put_rot64 :: "nat \<Rightarrow> u64 \<Rightarrow> u8 list" where
  "put_rot64 0 i = []"
| "put_rot64 (Suc n) i = (let i = rot64 i in ucast (i AND 0xff) # put_rot64 n i)"

definition mem_bytes :: "mem \<Rightarrow> addr \<Rightarrow> nat \<Rightarrow> u8 list" where
  "mem_bytes m p n = map (\<lambda>i. m (p + of_nat i)) [0..<n]"

text \<open>
  One pass over the format. With a buffer (\<open>Some buflen\<close>) the bytes are collected and a
  string ends the pass, taking what is left of the buffer; without one only the length is
  computed. A store past the end of the buffer is \<open>BadAccess\<close>. The result is the bytes, the length and whether a string ended the pass.
\<close>

fun compound_pass :: "nat \<Rightarrow> mem \<Rightarrow> nat option \<Rightarrow> string \<Rightarrow> key_arg list \<Rightarrow> u8 list \<Rightarrow> nat \<Rightarrow> (u8 list \<times> nat \<times> bool) res" where
  "compound_pass n m key [] args buf len = Inr (buf, len, False)"
| "compound_pass n m key (c # fs) args buf len =
     (if c = CHR ''i'' then
        (case fs of
           [] \<Rightarrow> Inl Panic
         | d # fs' \<Rightarrow>
             if d = CHR ''4'' then
               (case args of I4 i # args' \<Rightarrow>
                  (case key of
                     None \<Rightarrow> compound_pass n m key fs' args' buf (len + 4)
                   | Some buflen \<Rightarrow>
                       if buflen < len + 4 then Inl BadAccess
                       else compound_pass n m key fs' args' (buf @ put_rot32 4 i) (len + 4))
                | _ \<Rightarrow> Inl BadAccess)
             else if d = CHR ''8'' then
               (case args of I8 i # args' \<Rightarrow>
                  (case key of
                     None \<Rightarrow> compound_pass n m key fs' args' buf (len + 8)
                   | Some buflen \<Rightarrow>
                       if buflen < len + 8 then Inl BadAccess
                       else compound_pass n m key fs' args' (buf @ put_rot64 8 i) (len + 8))
                | _ \<Rightarrow> Inl BadAccess)
             else Inl Panic)
      else if c = CHR ''s'' then
        (case args of S s # args' \<Rightarrow>
           (case key of
              Some buflen \<Rightarrow>
                if buflen < len then Inl BadAccess else Inr (buf @ mem_bytes m s (buflen - len), len, True)
            | None \<Rightarrow> bindE (strlen n m s) (\<lambda>l. compound_pass n m key fs args' buf (len + l + 1)))
         | _ \<Rightarrow> Inl BadAccess)
      else Inl Panic)"

record compound_key =
  ck_buflen :: nat
  ck_buf :: "u8 list"

text \<open>\<^verbatim>\<open>map_compound_key_process\<close> on an allocated key of length \<open>buflen\<close>; 0 marks a temporary one of 24 bytes.\<close>

definition compound_fill :: "nat \<Rightarrow> mem \<Rightarrow> nat \<Rightarrow> string \<Rightarrow> key_arg list \<Rightarrow> compound_key res" where
  "compound_fill n m buflen fmt args =
     (let buflen = (if buflen = 0 then 24 else buflen) in
      bindE (compound_pass n m (Some buflen) fmt args [] 0) (\<lambda>(buf, len, str).
        Inr \<lparr>ck_buflen = (if str then buflen else len), ck_buf = buf\<rparr>))"

definition map_compound_key :: "nat \<Rightarrow> mem \<Rightarrow> string \<Rightarrow> key_arg list \<Rightarrow> compound_key res" where
  "map_compound_key n m fmt args =
     bindE (compound_pass n m None fmt args [] 0) (\<lambda>(buf, len, str). compound_fill n m len fmt args)"

definition map_compound_tempkey :: "nat \<Rightarrow> mem \<Rightarrow> string \<Rightarrow> key_arg list \<Rightarrow> compound_key res" where
  "map_compound_tempkey n m fmt args = compound_fill n m 0 fmt args"

text \<open>The comparison reads the two keys where they stand: \<open>b1\<close>, \<open>b2\<close> are their buffers.\<close>

definition map_compound_key_comp :: "mem \<Rightarrow> u32 \<Rightarrow> addr \<Rightarrow> u32 \<Rightarrow> addr \<Rightarrow> int" where
  "map_compound_key_comp m len1 b1 len2 b2 =
     (if len1 < len2 then
        let d = memcmp m b1 b2 len1 in if d \<noteq> 0 then d else -1
      else if len1 > len2 then
        let d = memcmp m b1 b2 len2 in if d \<noteq> 0 then d else 1
      else memcmp m b1 b2 len1)"

definition map_compound_key_prefix :: "mem \<Rightarrow> u32 \<Rightarrow> addr \<Rightarrow> u32 \<Rightarrow> addr \<Rightarrow> bool" where
  "map_compound_key_prefix m plen pbuf len buf =
     (if plen > len then False else memcmp m pbuf buf plen = 0)"

subsection \<open>The bytes of a compound key\<close>

definition be32 :: "u32 \<Rightarrow> u8 list" where
  "be32 i = [ucast (drop_bit 24 i), ucast (drop_bit 16 i), ucast (drop_bit 8 i), ucast i]"

definition be64 :: "u64 \<Rightarrow> u8 list" where
  "be64 i = [ucast (drop_bit 56 i), ucast (drop_bit 48 i), ucast (drop_bit 40 i), ucast (drop_bit 32 i),
             ucast (drop_bit 24 i), ucast (drop_bit 16 i), ucast (drop_bit 8 i), ucast i]"

lemma ucast_and_ff: "(ucast ((x :: 'a::len word) AND 0xff) :: u8) = ucast x"
proof -
  have "(0xff :: 'a word) = mask 8" by (simp add: mask_eq_exp_minus_1)
  then have "x AND 0xff = take_bit 8 x" by (simp only: take_bit_eq_mask)
  then show ?thesis by (simp only:) (rule bit_word_eqI, auto simp: bit_simps)
qed

lemma put_rot32_be: "put_rot32 4 i = be32 i"
proof -
  have "ucast (rot32 i) = (ucast (drop_bit 24 i) :: u8)"
    "ucast (rot32 (rot32 i)) = (ucast (drop_bit 16 i) :: u8)"
    "ucast (rot32 (rot32 (rot32 i))) = (ucast (drop_bit 8 i) :: u8)"
    "ucast (rot32 (rot32 (rot32 (rot32 i)))) = (ucast i :: u8)"
    by (rule bit_word_eqI; auto simp: rot32_def bit_simps dest: bit_imp_le_length)+
  then show ?thesis by (simp add: be32_def Let_def numeral_eq_Suc ucast_and_ff)
qed

lemma put_rot64_be: "put_rot64 8 i = be64 i"
proof -
  have "ucast (rot64 i) = (ucast (drop_bit 56 i) :: u8)"
    "ucast (rot64 (rot64 i)) = (ucast (drop_bit 48 i) :: u8)"
    "ucast (rot64 (rot64 (rot64 i))) = (ucast (drop_bit 40 i) :: u8)"
    "ucast (rot64 (rot64 (rot64 (rot64 i)))) = (ucast (drop_bit 32 i) :: u8)"
    "ucast (rot64 (rot64 (rot64 (rot64 (rot64 i))))) = (ucast (drop_bit 24 i) :: u8)"
    "ucast (rot64 (rot64 (rot64 (rot64 (rot64 (rot64 i)))))) = (ucast (drop_bit 16 i) :: u8)"
    "ucast (rot64 (rot64 (rot64 (rot64 (rot64 (rot64 (rot64 i))))))) = (ucast (drop_bit 8 i) :: u8)"
    "ucast (rot64 (rot64 (rot64 (rot64 (rot64 (rot64 (rot64 (rot64 i)))))))) = (ucast i :: u8)"
    by (rule bit_word_eqI; auto simp: rot64_def bit_simps dest: bit_imp_le_length)+
  then show ?thesis by (simp add: be64_def Let_def numeral_eq_Suc ucast_and_ff)
qed

definition unbe :: "u8 list \<Rightarrow> 'a::len word" where
  "unbe bs = fold (\<lambda>b v. push_bit 8 v OR ucast b) bs 0"

lemma byte_step: "push_bit 8 (drop_bit (k + 8) i) OR ucast (ucast (drop_bit k i) :: u8) = drop_bit k (i :: 'a::len word)"
proof (rule bit_word_eqI)
  fix n assume "n < LENGTH('a)"
  then show "bit (push_bit 8 (drop_bit (k + 8) i) OR ucast (ucast (drop_bit k i) :: u8)) n \<longleftrightarrow> bit (drop_bit k i) n"
    by (cases "n < 8") (auto simp: bit_simps ac_simps dest: bit_imp_le_length)
qed

lemma top_byte32: "ucast (ucast (drop_bit 24 i) :: u8) = drop_bit 24 (i :: u32)"
  by (rule bit_word_eqI) (auto simp: bit_simps dest: bit_imp_le_length)

lemma top_byte64: "ucast (ucast (drop_bit 56 i) :: u8) = drop_bit 56 (i :: u64)"
  by (rule bit_word_eqI) (auto simp: bit_simps dest: bit_imp_le_length)

lemma unbe_be32: "unbe (be32 i) = i"
  using byte_step [of 16 i] byte_step [of 8 i] byte_step [of 0 i] by (simp add: unbe_def be32_def top_byte32)

lemma unbe_be64: "unbe (be64 i) = i"
  using byte_step [of 48 i] byte_step [of 40 i] byte_step [of 32 i] byte_step [of 24 i]
    byte_step [of 16 i] byte_step [of 8 i] byte_step [of 0 i] by (simp add: unbe_def be64_def top_byte64)

lemma length_be [simp]: "length (be32 i) = 4" "length (be64 j) = 8"
  by (simp_all add: be32_def be64_def)

text \<open>The format of a list of integers, their bytes, and how a reader gets them back.\<close>

fun int_fmt :: "key_arg list \<Rightarrow> string" where
  "int_fmt [] = []"
| "int_fmt (I4 _ # as) = CHR ''i'' # CHR ''4'' # int_fmt as"
| "int_fmt (I8 _ # as) = CHR ''i'' # CHR ''8'' # int_fmt as"
| "int_fmt (S _ # as) = int_fmt as"

fun int_bytes :: "key_arg list \<Rightarrow> u8 list" where
  "int_bytes [] = []"
| "int_bytes (I4 i # as) = be32 i @ int_bytes as"
| "int_bytes (I8 i # as) = be64 i @ int_bytes as"
| "int_bytes (S _ # as) = int_bytes as"

fun key_decode :: "string \<Rightarrow> u8 list \<Rightarrow> key_arg list" where
  "key_decode (c # d # fs) bs =
     (if d = CHR ''4'' then I4 (unbe (take 4 bs)) # key_decode fs (drop 4 bs)
      else I8 (unbe (take 8 bs)) # key_decode fs (drop 8 bs))"
| "key_decode _ bs = []"

abbreviation is_int :: "key_arg \<Rightarrow> bool" where
  "is_int a \<equiv> (case a of S _ \<Rightarrow> False | _ \<Rightarrow> True)"

lemma key_decode_bytes: "\<forall>a\<in>set as. is_int a \<Longrightarrow> key_decode (int_fmt as) (int_bytes as @ bs) = as"
  by (induction as rule: int_fmt.induct) (auto simp: unbe_be32 unbe_be64)

lemma compound_size:
  "\<forall>a\<in>set as. is_int a \<Longrightarrow> compound_pass n m None (int_fmt as @ fs) (as @ bs) buf len
     = compound_pass n m None fs bs buf (len + length (int_bytes as))"
  by (induction as arbitrary: len rule: int_fmt.induct) (auto simp: ac_simps)

lemma compound_bytes:
  "\<forall>a\<in>set as. is_int a \<Longrightarrow> len + length (int_bytes as) \<le> l \<Longrightarrow>
   compound_pass n m (Some l) (int_fmt as @ fs) (as @ bs) buf len
     = compound_pass n m (Some l) fs bs (buf @ int_bytes as) (len + length (int_bytes as))"
  by (induction as arbitrary: len buf rule: int_fmt.induct) (auto simp: ac_simps put_rot32_be put_rot64_be)

lemma bytes_at_mem_bytes: "bytes_at m p xs \<Longrightarrow> mem_bytes m p (length xs) = xs"
proof (induction xs arbitrary: p)
  case (Cons x xs)
  have "mem_bytes m p (length (x # xs)) = m p # mem_bytes m (p + 1) (length xs)"
    unfolding mem_bytes_def length_Cons by (simp add: upt_conv_Cons map_Suc_upt [symmetric] o_def add.assoc del: upt_Suc)
  with Cons show ?case by simp
qed (simp add: mem_bytes_def)



text \<open>
  Array keys. \<^verbatim>\<open>map_arraycmp\<close> on two zero-terminated arrays returns; it gives 0 exactly
  for equal arrays and a negative number exactly when the first comes before the second in
  the lexicographic order, so all keys that extend a one-word key \<open>k\<close> lie between the keys
  \<^verbatim>\<open>map_arraykey1(k)\<close> and \<^verbatim>\<open>map_arraykey1(k+1)\<close> that a range walk is given.
\<close>

theorem array_keys_lexicographic:
  assumes "karr m p xs" "karr m q ys" "length xs < n"
  shows "\<exists>d. map_arraycmp n m p q = Inr d \<and> (d = 0 \<longleftrightarrow> xs = ys) \<and>
    (d < 0 \<longleftrightarrow> (xs, ys) \<in> lexord {(a, b). a < b}) \<and>
    (\<forall>k r. ys = k # r \<and> xs = [k] \<longrightarrow> d \<le> 0) \<and> (\<forall>k r. xs = k # r \<and> ys = [k + 1] \<longrightarrow> d < 0)"
proof -
  note nz = karr_nz [OF assms(1)] karr_nz [OF assms(2)]
  have "arr_cmp xs ys \<le> 0" if "ys = k # r" "xs = [k]" for k r
    using that nz by (cases r) (auto simp: map_keycmp_sign)
  moreover have "arr_cmp xs ys < 0" if "xs = k # r" "ys = [k + 1]" for k r
  proof -
    have "k + 1 \<noteq> 0" "k \<noteq> k + 1" using that nz by auto
    then have "k < k + 1" using unatSuc [of k] by (simp add: word_less_nat_alt add.commute)
    with \<open>k \<noteq> k + 1\<close> that show ?thesis by (simp add: map_keycmp_sign)
  qed
  ultimately show ?thesis
    using map_arraycmp_ok [OF assms] arr_cmp_eq [OF nz] arr_cmp_less [OF nz] by auto
qed

definition demo_words :: wmem where
  "demo_words = map_arraykey2 (map_arraykey1 (\<lambda>_. 0) 64 5) 128 5 9"

lemma demo_arrays: "karr demo_words 64 [5]" "karr demo_words 128 [5, 9]"
  by (simp_all add: demo_words_def map_arraykey1_def map_arraykey2_def)

theorem array_keys_lexicographic_witness: "\<exists>d. map_arraycmp 3 demo_words 64 128 = Inr d \<and> d < 0"
  using array_keys_lexicographic [OF demo_arrays, of 3] by auto

text \<open>
  Compound keys compare by their first byte and their length only: keys of equal
  length whose first bytes agree are equal to \<^verbatim>\<open>map_compound_key_comp\<close>, and any key passes
  for a prefix of a longer one that starts with the same byte.
\<close>

theorem compound_keys_collide:
  assumes "m b1 = m b2"
  shows "map_compound_key_comp m l b1 l b2 = 0 \<and> (map_compound_key_prefix m l1 b1 l2 b2 \<longleftrightarrow> l1 \<le> l2)"
  using assms by (auto simp: map_compound_key_comp_def map_compound_key_prefix_def memcmp_def memcmp_loop_first)

theorem compound_keys_collide_witness: "map_compound_key_comp demo_mem 2 16 2 32 = 0 \<and> demo_mem 17 \<noteq> demo_mem 33"
  using compound_keys_collide [of demo_mem 16 32 2] by (simp add: demo_mem_def)

end
