(* ===== verification/Map_Ops.thy ===== *)
theory Map_Ops
  imports Tree_Refine Map_Keys
begin

text \<open>
  The dispatching layer of \<^verbatim>\<open>libk/map.c\<close>: a map is a container with a table of
  operations, and every \<^verbatim>\<open>map_*\<close> function calls through the table. A null entry of the
  table is \<open>None\<close>, and calling it is \<open>NullDeref\<close>. The casts between pointers and
  integers are the identity on 32-bit words. A callback threads the state its \<^verbatim>\<open>p\<close>
  argument points to.
\<close>

type_synonym 'p walk_func = "'p \<Rightarrow> map_key \<Rightarrow> map_data \<Rightarrow> 'p"

record ('s, 'p) map_ops =
  op_destroy :: "('s \<Rightarrow> 's res) option"
  op_walk :: "('s \<Rightarrow> 'p walk_func \<Rightarrow> 'p \<Rightarrow> ('s \<times> 'p) res) option"
  op_walk_range :: "('s \<Rightarrow> 'p walk_func \<Rightarrow> 'p \<Rightarrow> map_key \<Rightarrow> map_key \<Rightarrow> ('s \<times> 'p) res) option"
  op_walk_prefix :: "('s \<Rightarrow> 'p walk_func \<Rightarrow> 'p \<Rightarrow> map_key \<Rightarrow> ('s \<times> 'p) res) option"
  op_put :: "('s \<Rightarrow> map_key \<Rightarrow> map_data \<Rightarrow> ('s \<times> map_data) res) option"
  op_get :: "('s \<Rightarrow> map_key \<Rightarrow> map_eq_test \<Rightarrow> ('s \<times> map_data) res) option"
  op_remove :: "('s \<Rightarrow> map_key \<Rightarrow> ('s \<times> map_data) res) option"
  op_optimize :: "('s \<Rightarrow> 's res) option"

definition call :: "'f option \<Rightarrow> ('f \<Rightarrow> 'a res) \<Rightarrow> 'a res" where
  "call f g = (case f of None \<Rightarrow> Inl NullDeref | Some f \<Rightarrow> g f)"

lemma call_simps [simp]: "call None g = Inl NullDeref" "call (Some f) g = g f"
  by (simp_all add: call_def)

definition map_destroy :: "('s, 'p) map_ops \<Rightarrow> 's \<Rightarrow> 's res" where
  "map_destroy ops s = call (op_destroy ops) (\<lambda>f. f s)"

subsection \<open>Walks\<close>

record 'p walk_wrapper =
  w_f :: "'p walk_func"
  w_p :: 'p

definition walk_walkip_func :: "'p walk_wrapper walk_func" where
  "walk_walkip_func w key data = w\<lparr>w_p := w_f w (w_p w) key data\<rparr>"

definition walk_walkpp_func :: "'p walk_wrapper walk_func" where
  "walk_walkpp_func w key data = w\<lparr>w_p := w_f w (w_p w) key data\<rparr>"

definition walk_walkpi_func :: "'p walk_wrapper walk_func" where
  "walk_walkpi_func w key data = w\<lparr>w_p := w_f w (w_p w) key data\<rparr>"

definition unwrap :: "('s \<times> 'p walk_wrapper) res \<Rightarrow> ('s \<times> 'p) res" where
  "unwrap r = bindE r (\<lambda>(s, w). Inr (s, w_p w))"

definition map_walkip :: "('s, 'p walk_wrapper) map_ops \<Rightarrow> 's \<Rightarrow> 'p walk_func \<Rightarrow> 'p \<Rightarrow> ('s \<times> 'p) res" where
  "map_walkip ops s func p = call (op_walk ops) (\<lambda>walk. unwrap (walk s walk_walkip_func \<lparr>w_f = func, w_p = p\<rparr>))"

definition map_walkpp :: "('s, 'p walk_wrapper) map_ops \<Rightarrow> 's \<Rightarrow> 'p walk_func \<Rightarrow> 'p \<Rightarrow> ('s \<times> 'p) res" where
  "map_walkpp ops s func p = call (op_walk ops) (\<lambda>walk. unwrap (walk s walk_walkpp_func \<lparr>w_f = func, w_p = p\<rparr>))"

definition map_walkpi :: "('s, 'p walk_wrapper) map_ops \<Rightarrow> 's \<Rightarrow> 'p walk_func \<Rightarrow> 'p \<Rightarrow> ('s \<times> 'p) res" where
  "map_walkpi ops s func p = call (op_walk ops) (\<lambda>walk. unwrap (walk s walk_walkpi_func \<lparr>w_f = func, w_p = p\<rparr>))"

definition map_walk :: "('s, 'p) map_ops \<Rightarrow> 's \<Rightarrow> 'p walk_func \<Rightarrow> 'p \<Rightarrow> ('s \<times> 'p) res" where
  "map_walk ops s func p = call (op_walk ops) (\<lambda>walk. walk s func p)"

definition map_walkip_range ::
  "('s, 'p walk_wrapper) map_ops \<Rightarrow> 's \<Rightarrow> 'p walk_func \<Rightarrow> 'p \<Rightarrow> map_key \<Rightarrow> map_key \<Rightarrow> ('s \<times> 'p) res" where
  "map_walkip_range ops s func p lo hi =
     call (op_walk_range ops) (\<lambda>walk. unwrap (walk s walk_walkip_func \<lparr>w_f = func, w_p = p\<rparr> lo hi))"

definition map_walkpp_range ::
  "('s, 'p walk_wrapper) map_ops \<Rightarrow> 's \<Rightarrow> 'p walk_func \<Rightarrow> 'p \<Rightarrow> map_key \<Rightarrow> map_key \<Rightarrow> ('s \<times> 'p) res" where
  "map_walkpp_range ops s func p lo hi =
     call (op_walk_range ops) (\<lambda>walk. unwrap (walk s walk_walkpp_func \<lparr>w_f = func, w_p = p\<rparr> lo hi))"

definition map_walkpi_range ::
  "('s, 'p walk_wrapper) map_ops \<Rightarrow> 's \<Rightarrow> 'p walk_func \<Rightarrow> 'p \<Rightarrow> map_key \<Rightarrow> map_key \<Rightarrow> ('s \<times> 'p) res" where
  "map_walkpi_range ops s func p lo hi =
     call (op_walk_range ops) (\<lambda>walk. unwrap (walk s walk_walkpi_func \<lparr>w_f = func, w_p = p\<rparr> lo hi))"

definition map_walk_range ::
  "('s, 'p) map_ops \<Rightarrow> 's \<Rightarrow> 'p walk_func \<Rightarrow> 'p \<Rightarrow> map_key \<Rightarrow> map_key \<Rightarrow> ('s \<times> 'p) res" where
  "map_walk_range ops s func p lo hi = call (op_walk_range ops) (\<lambda>walk. walk s func p lo hi)"

definition map_walkpp_prefix ::
  "('s, 'p walk_wrapper) map_ops \<Rightarrow> 's \<Rightarrow> 'p walk_func \<Rightarrow> 'p \<Rightarrow> map_key \<Rightarrow> ('s \<times> 'p) res" where
  "map_walkpp_prefix ops s func p prefix =
     call (op_walk_prefix ops) (\<lambda>walk. unwrap (walk s walk_walkpp_func \<lparr>w_f = func, w_p = p\<rparr> prefix))"

definition map_walkpi_prefix ::
  "('s, 'p walk_wrapper) map_ops \<Rightarrow> 's \<Rightarrow> 'p walk_func \<Rightarrow> 'p \<Rightarrow> map_key \<Rightarrow> ('s \<times> 'p) res" where
  "map_walkpi_prefix ops s func p prefix =
     call (op_walk_prefix ops) (\<lambda>walk. unwrap (walk s walk_walkpi_func \<lparr>w_f = func, w_p = p\<rparr> prefix))"

subsection \<open>Single entries\<close>

definition map_put :: "('s, 'p) map_ops \<Rightarrow> 's \<Rightarrow> map_key \<Rightarrow> map_data \<Rightarrow> ('s \<times> map_data) res" where
  "map_put ops s key data = call (op_put ops) (\<lambda>f. f s key data)"

definition map_putpi :: "('s, 'p) map_ops \<Rightarrow> 's \<Rightarrow> map_key \<Rightarrow> map_data \<Rightarrow> ('s \<times> map_data) res" where
  "map_putpi ops s key data = call (op_put ops) (\<lambda>f. f s key data)"

definition map_putip :: "('s, 'p) map_ops \<Rightarrow> 's \<Rightarrow> map_key \<Rightarrow> addr \<Rightarrow> ('s \<times> addr) res" where
  "map_putip ops s key data = call (op_put ops) (\<lambda>f. f s key data)"

definition map_putpp :: "('s, 'p) map_ops \<Rightarrow> 's \<Rightarrow> addr \<Rightarrow> addr \<Rightarrow> ('s \<times> addr) res" where
  "map_putpp ops s key data = call (op_put ops) (\<lambda>f. f s key data)"

definition map_get_cond :: "('s, 'p) map_ops \<Rightarrow> 's \<Rightarrow> map_key \<Rightarrow> map_eq_test \<Rightarrow> ('s \<times> map_data) res" where
  "map_get_cond ops s key cond = call (op_get ops) (\<lambda>f. f s key cond)"

definition map_getpi_cond :: "('s, 'p) map_ops \<Rightarrow> 's \<Rightarrow> addr \<Rightarrow> map_eq_test \<Rightarrow> ('s \<times> map_data) res" where
  "map_getpi_cond ops s key cond = call (op_get ops) (\<lambda>f. f s key cond)"

definition map_getip_cond :: "('s, 'p) map_ops \<Rightarrow> 's \<Rightarrow> map_key \<Rightarrow> map_eq_test \<Rightarrow> ('s \<times> addr) res" where
  "map_getip_cond ops s key cond = call (op_get ops) (\<lambda>f. f s key cond)"

definition map_getpp_cond :: "('s, 'p) map_ops \<Rightarrow> 's \<Rightarrow> addr \<Rightarrow> map_eq_test \<Rightarrow> ('s \<times> addr) res" where
  "map_getpp_cond ops s key cond = call (op_get ops) (\<lambda>f. f s key cond)"

definition map_get :: "('s, 'p) map_ops \<Rightarrow> 's \<Rightarrow> map_key \<Rightarrow> ('s \<times> map_data) res" where
  "map_get ops s key = call (op_get ops) (\<lambda>f. f s key MAP_EQ)"

definition map_getpi :: "('s, 'p) map_ops \<Rightarrow> 's \<Rightarrow> addr \<Rightarrow> ('s \<times> map_data) res" where
  "map_getpi ops s key = call (op_get ops) (\<lambda>f. f s key MAP_EQ)"

definition map_getip :: "('s, 'p) map_ops \<Rightarrow> 's \<Rightarrow> map_key \<Rightarrow> ('s \<times> addr) res" where
  "map_getip ops s key = call (op_get ops) (\<lambda>f. f s key MAP_EQ)"

definition map_getpp :: "('s, 'p) map_ops \<Rightarrow> 's \<Rightarrow> addr \<Rightarrow> ('s \<times> addr) res" where
  "map_getpp ops s key = call (op_get ops) (\<lambda>f. f s key MAP_EQ)"

definition map_remove :: "('s, 'p) map_ops \<Rightarrow> 's \<Rightarrow> map_key \<Rightarrow> ('s \<times> map_data) res" where
  "map_remove ops s key = call (op_remove ops) (\<lambda>f. f s key)"

definition map_removepi :: "('s, 'p) map_ops \<Rightarrow> 's \<Rightarrow> addr \<Rightarrow> ('s \<times> map_data) res" where
  "map_removepi ops s key = call (op_remove ops) (\<lambda>f. f s key)"

definition map_removepp :: "('s, 'p) map_ops \<Rightarrow> 's \<Rightarrow> addr \<Rightarrow> ('s \<times> addr) res" where
  "map_removepp ops s key = call (op_remove ops) (\<lambda>f. f s key)"

definition map_removeip :: "('s, 'p) map_ops \<Rightarrow> 's \<Rightarrow> map_key \<Rightarrow> ('s \<times> addr) res" where
  "map_removeip ops s key = call (op_remove ops) (\<lambda>f. f s key)"

definition map_optimize :: "('s, 'p) map_ops \<Rightarrow> 's \<Rightarrow> 's res" where
  "map_optimize ops s = call (op_optimize ops) (\<lambda>f. f s)"

text \<open>Copying all entries of one map into another.\<close>

definition map_put_all_walk :: "('s, 'p) map_ops \<Rightarrow> 's res walk_func" where
  "map_put_all_walk ops p key data =
     bindE p (\<lambda>to. bindE (map_put ops to key data) (\<lambda>(to, old). Inr to))"

definition map_put_all :: "('s, 'p) map_ops \<Rightarrow> 's \<Rightarrow> ('f, 's res) map_ops \<Rightarrow> 'f \<Rightarrow> ('f \<times> 's res) res" where
  "map_put_all to_ops to from_ops frm = map_walk from_ops frm (map_put_all_walk to_ops) (Inr to)"

subsection \<open>The table of the trees\<close>

definition tree_ops :: "nat \<Rightarrow> (tree_state \<Rightarrow> addr) \<Rightarrow> (tree_state, 'p) map_ops" where
  "tree_ops n alloc =
     \<lparr>op_destroy = Some (\<lambda>s. Inr s),
      op_walk = Some (\<lambda>s func p. bindE (tree_walk n (fst s) (snd s) func p) (\<lambda>p. Inr (s, p))),
      op_walk_range = Some (\<lambda>s func p lo hi.
        bindE (tree_walk_range n (fst s) (snd s) func p lo hi) (\<lambda>(h, t, p). Inr ((h, t), p))),
      op_walk_prefix = None,
      op_put = Some (\<lambda>s k v. put_map n s (alloc s) k v),
      op_get = Some (\<lambda>s k cond. get_map n s k cond),
      op_remove = Some (\<lambda>s k. remove_map n s k),
      op_optimize = Some (\<lambda>s. tree_optimize n (fst s) (snd s))\<rparr>"

lemma tree_ops_sel [simp]:
  "op_walk (tree_ops n alloc) = Some (\<lambda>s func p. bindE (tree_walk n (fst s) (snd s) func p) (\<lambda>p. Inr (s, p)))"
  "op_walk_prefix (tree_ops n alloc) = None"
  "op_put (tree_ops n alloc) = Some (\<lambda>s k v. put_map n s (alloc s) k v)"
  "op_get (tree_ops n alloc) = Some (\<lambda>s k cond. get_map n s k cond)"
  "op_remove (tree_ops n alloc) = Some (\<lambda>s k. remove_map n s k)"
  by (simp_all add: tree_ops_def)

lemma wrapped_fold:
  "fold (\<lambda>e w. w\<lparr>w_p := visit (w_f w) e (w_p w)\<rparr>) es \<lparr>w_f = func, w_p = p\<rparr>
    = \<lparr>w_f = func, w_p = fold (visit func) es p\<rparr>"
  by (induction es arbitrary: p) simp_all

lemmas wrapper_defs = walk_walkip_func_def walk_walkpp_func_def walk_walkpi_func_def

lemma tree_walk_rep:
  assumes "tree_rep cmp s es" "2 * length es < n"
  shows "tree_walk n (fst s) (snd s) func p = Inr (fold (visit func) es p)"
proof -
  obtain T where T: "tree_at (fst s) (snd s) T" "entries (fst s) T = es" using assms(1) by (auto simp: tree_rep_def)
  then have "2 * size T < n" using assms(2) length_entries [of "fst s" T] by simp
  with tree_walk_ok [OF T(1)] T(2) show ?thesis by simp
qed

lemma put_all_fold:
  assumes om: "ordered_map cmp (tree_rep cmp) tree_fresh tree_need put_map get_map remove_map"
    and "tree_rep cmp s es" "\<And>s es. tree_rep cmp s es \<Longrightarrow> length es \<le> b \<Longrightarrow> tree_fresh s (alloc s)"
    "length es + length xs \<le> b" "2 * b + 4 \<le> n"
  shows "\<exists>s'. fold (\<lambda>e p. map_put_all_walk (tree_ops n alloc) p (fst e) (snd e)) xs (Inr s) = Inr s' \<and>
    tree_rep cmp s' (fold (\<lambda>e. al_put cmp (fst e) (snd e)) xs es)"
  using assms(2,4)
proof (induction xs arbitrary: s es)
  case (Cons x xs)
  have "length es \<le> b" "tree_need (length es) \<le> n" using Cons.prems(2) assms(5) by (simp_all add: tree_need_def)
  from ordered_map.put_law [OF om Cons.prems(1) assms(3) [OF Cons.prems(1) this(1)] this(2)]
  obtain s1 d where s1: "put_map n s (alloc s) (fst x) (snd x) = Inr (s1, d)" "tree_rep cmp s1 (al_put cmp (fst x) (snd x) es)"
    by blast
  have "length (al_put cmp (fst x) (snd x) es) + length xs \<le> b"
    using length_al_put [of cmp "fst x" "snd x" es] Cons.prems(2) by simp
  from Cons.IH [OF s1(2) this] s1(1) show ?case
    by (simp add: map_put_all_walk_def map_put_def)
qed simp

text \<open>
  The typed walks of the map interface over a tree: the wrapper that carries the
  callback and its argument is transparent, so that every entry reaches the callback once,
  in ascending order; a walk by prefix, which trees do not implement, calls a null pointer.
\<close>

theorem map_walks_on_trees:
  assumes "tree_rep cmp s es" "2 * length es < n"
  shows "map_walkpp (tree_ops n alloc) s func p = Inr (s, fold (visit func) es p) \<and>
    map_walkip (tree_ops n alloc) s func p = Inr (s, fold (visit func) es p) \<and>
    map_walkpi (tree_ops n alloc) s func p = Inr (s, fold (visit func) es p) \<and>
    map_walkpp_prefix (tree_ops n alloc) s func p prefix = Inl NullDeref"
  by (simp add: map_walkpp_def map_walkip_def map_walkpi_def map_walkpp_prefix_def unwrap_def
      tree_walk_rep [OF assms] wrapped_fold wrapper_defs)

lemma two_rep: "tree_rep map_keycmp (two_nodes, two_tree mode) [(3, 30), (5, 50)]"
  using two_nodes_at [of mode] two_entries by (auto simp: tree_rep_def)

theorem map_walks_on_trees_witness:
  "map_walkpp (tree_ops 5 (\<lambda>_. 48)) (two_nodes, two_tree TREE_SPLAY) (\<lambda>p k d. p @ [d]) []
     = Inr ((two_nodes, two_tree TREE_SPLAY), [30, 50])"
  using map_walks_on_trees [OF two_rep [of TREE_SPLAY], of 5 "\<lambda>_. 48" "\<lambda>p k d. p @ [d]" "[]"] by simp

text \<open>
  \<^verbatim>\<open>map_put_all\<close> from one tree to another puts every entry of the first into the second,
  in ascending order of the first; the first is unchanged and the second holds what those
  insertions give on its list of entries.
\<close>

theorem map_put_all_trees:
  assumes "comparator cmp" "tree_rep cmp s es" "tree_rep cmp' f fs" "2 * length fs < k"
    and "\<And>s es. tree_rep cmp s es \<Longrightarrow> length es \<le> b \<Longrightarrow> tree_fresh s (alloc s)"
    and "length es + length fs \<le> b" "2 * b + 4 \<le> n"
  shows "\<exists>s'. map_put_all (tree_ops n alloc :: (tree_state, 'q) map_ops) s (tree_ops k alloc') f = Inr (f, Inr s') \<and>
    tree_rep cmp s' (fold (\<lambda>e. al_put cmp (fst e) (snd e)) fs es)"
proof -
  note om = tree_order.tree_map_law [OF tree_orderI [OF assms(1)]]
  obtain s' where s': "fold (\<lambda>e p. map_put_all_walk (tree_ops n alloc :: (tree_state, 'q) map_ops) p (fst e) (snd e)) fs (Inr s) = Inr s'"
    "tree_rep cmp s' (fold (\<lambda>e. al_put cmp (fst e) (snd e)) fs es)"
    using put_all_fold [where b = b and n = n and alloc = alloc and xs = fs, OF om assms(2) _ assms(6,7)] assms(5) by blast
  then show ?thesis using tree_walk_rep [OF assms(3,4), of "map_put_all_walk (tree_ops n alloc :: (tree_state, 'q) map_ops)" "Inr s"]
    by (simp add: map_put_all_def map_walk_def)
qed

theorem map_put_all_trees_witness:
  "\<exists>s'. map_put_all (tree_ops 12 (pool_alloc [16, 32, 48, 64, 80])) (two_nodes, (two_tree TREE_SPLAY)\<lparr>t_root := 0\<rparr>)
      (tree_ops 5 (\<lambda>_. 0)) (two_nodes, two_tree TREE_TREAP) = Inr ((two_nodes, two_tree TREE_TREAP), Inr s') \<and>
    tree_rep map_keycmp s' [(3, 30), (5, 50)]"
proof -
  have "tree_at two_nodes ((two_tree TREE_SPLAY)\<lparr>t_root := 0\<rparr>) Leaf" by (simp add: tree_at_def zinv_def entries_def asc_def)
  then have e: "tree_rep map_keycmp (two_nodes, (two_tree TREE_SPLAY)\<lparr>t_root := 0\<rparr>) []"
    unfolding tree_rep_def by (auto simp: entries_def intro: exI [of _ Leaf])
  have al: "tree_fresh s (pool_alloc [16, 32, 48, 64, 80] s)" if "tree_rep map_keycmp s es" "length es \<le> 4" for s es
    using pool_alloc_fresh [OF that(1), of "[16, 32, 48, 64, 80]"] that(2) by simp
  show ?thesis
    using map_put_all_trees [where b = 4 and n = 12 and k = 5 and alloc' = "\<lambda>_. 0",
        OF keycmp.comparator_axioms e two_rep [of TREE_TREAP] _ al]
    by (simp add: map_keycmp_def)
qed

end
