(* ===== verification/Arraymap.thy ===== *)
theory Arraymap
  imports Ordered_Map
begin

text \<open>
  The map in a sorted array of \<^verbatim>\<open>libk/arraymap.c\<close>. The array of pairs is a list as long
  as the capacity, of which the first \<^verbatim>\<open>count\<close> pairs are in use; an access outside the
  array is \<open>BadAccess\<close>. The binary search is a loop that need not end, so it takes fuel.
\<close>

record arraymap_t =
  am_capacity :: nat
  am_count :: nat
  am_comp :: "map_key \<Rightarrow> map_key \<Rightarrow> int"
  am_data :: "(map_key \<times> map_data) list"

definition am_at :: "arraymap_t \<Rightarrow> int \<Rightarrow> (map_key \<times> map_data) res" where
  "am_at m i = (if 0 \<le> i \<and> i < int (length (am_data m)) then Inr (am_data m ! nat i) else Inl BadAccess)"

definition am_set :: "arraymap_t \<Rightarrow> nat \<Rightarrow> map_key \<times> map_data \<Rightarrow> arraymap_t res" where
  "am_set m i e = (if i < length (am_data m) then Inr (m\<lparr>am_data := (am_data m)[i := e]\<rparr>) else Inl BadAccess)"

fun get_index_loop :: "nat \<Rightarrow> arraymap_t \<Rightarrow> map_key \<Rightarrow> map_eq_test \<Rightarrow> int \<Rightarrow> int \<Rightarrow> int res" where
  "get_index_loop 0 m key cond low high = Inl OutOfFuel"
| "get_index_loop (Suc n) m key cond low high =
     (let i = (low + high) div 2 in
      bindE (am_at m i) (\<lambda>e.
      let diff = am_comp m key (fst e) in
      if diff < 0 then
        let high = i in
        if low = high - 1 then
          Inr (case cond of MAP_GT \<Rightarrow> i | MAP_GE \<Rightarrow> i | MAP_LT \<Rightarrow> i - 1 | MAP_LE \<Rightarrow> i - 1 | MAP_EQ \<Rightarrow> -1)
        else get_index_loop n m key cond low high
      else if diff > 0 then
        let low = i in
        if low = high - 1 then
          Inr (case cond of
                 MAP_GT \<Rightarrow> if i < int (am_count m) then i + 1 else -1
               | MAP_GE \<Rightarrow> if i < int (am_count m) then i + 1 else -1
               | MAP_LT \<Rightarrow> i | MAP_LE \<Rightarrow> i | MAP_EQ \<Rightarrow> -1)
        else get_index_loop n m key cond low high
      else
        Inr (case cond of
               MAP_LT \<Rightarrow> i - 1
             | MAP_GT \<Rightarrow> if i < int (am_count m) then i + 1 else -1
             | _ \<Rightarrow> i)))"

definition arraymap_get_index :: "nat \<Rightarrow> arraymap_t \<Rightarrow> map_key \<Rightarrow> map_eq_test \<Rightarrow> int res" where
  "arraymap_get_index n m key cond = get_index_loop n m key cond 0 (int (am_count m))"

fun walk_span :: "arraymap_t \<Rightarrow> ('p \<Rightarrow> map_key \<Rightarrow> map_data \<Rightarrow> 'p) \<Rightarrow> 'p \<Rightarrow> int \<Rightarrow> nat \<Rightarrow> 'p res" where
  "walk_span m func p i 0 = Inr p"
| "walk_span m func p i (Suc n) = bindE (am_at m i) (\<lambda>e. walk_span m func (func p (fst e) (snd e)) (i + 1) n)"

definition arraymap_walk :: "arraymap_t \<Rightarrow> ('p \<Rightarrow> map_key \<Rightarrow> map_data \<Rightarrow> 'p) \<Rightarrow> 'p \<Rightarrow> 'p res" where
  "arraymap_walk m func p = walk_span m func p 0 (am_count m)"

definition arraymap_walk_range ::
  "nat \<Rightarrow> arraymap_t \<Rightarrow> ('p \<Rightarrow> map_key \<Rightarrow> map_data \<Rightarrow> 'p) \<Rightarrow> 'p \<Rightarrow> map_key \<Rightarrow> map_key \<Rightarrow> 'p res" where
  "arraymap_walk_range n m func p lo hi =
     bindE (arraymap_get_index n m lo MAP_GE) (\<lambda>indexfrom.
     bindE (arraymap_get_index n m hi MAP_LT) (\<lambda>indexto.
       walk_span m func p indexfrom (nat (indexto + 1 - indexfrom))))"

text \<open>The search of \<^verbatim>\<open>arraymap_put\<close>: an index with an equal key, or where to insert.\<close>

fun put_search :: "nat \<Rightarrow> arraymap_t \<Rightarrow> map_key \<Rightarrow> int \<Rightarrow> int \<Rightarrow> (int + int) res" where
  "put_search 0 m key low high = Inl OutOfFuel"
| "put_search (Suc n) m key low high =
     (let i = (low + high) div 2 in
      bindE (am_at m i) (\<lambda>e.
      let diff = am_comp m key (fst e) in
      if diff = 0 then Inr (Inl i)
      else
        let high = (if diff < 0 then i else high); low = (if diff < 0 then low else i) in
        if low < high - 1 then put_search n m key low high else Inr (Inr low)))"

fun shuffle :: "nat \<Rightarrow> arraymap_t \<Rightarrow> nat \<Rightarrow> map_key \<times> map_data \<Rightarrow> arraymap_t res" where
  "shuffle 0 m i e = Inr m"
| "shuffle (Suc n) m i e =
     bindE (am_at m (int i)) (\<lambda>temp. bindE (am_set m i e) (\<lambda>m. shuffle n m (i + 1) temp))"

definition arraymap_put :: "nat \<Rightarrow> arraymap_t \<Rightarrow> map_key \<Rightarrow> map_data \<Rightarrow> (arraymap_t \<times> map_data) res" where
  "arraymap_put n m key data =
     (if am_count m \<noteq> 0 then
        bindE (put_search n m key 0 (int (am_count m))) (\<lambda>r.
        case r of
          Inl i \<Rightarrow> bindE (am_at m i) (\<lambda>e. bindE (am_set m (nat i) (fst e, data)) (\<lambda>m. Inr (m, snd e)))
        | Inr low \<Rightarrow>
            if am_count m = am_capacity m then Inl (Throw ArrayMapFullException)
            else
              let m = m\<lparr>am_count := am_count m + 1\<rparr> in
              bindE (am_at m low) (\<lambda>e.
              let insert = (if am_comp m key (fst e) > 0 then nat (low + 1) else nat low) in
              bindE (shuffle (am_count m - insert) m insert (key, data)) (\<lambda>m. Inr (m, 0))))
      else
        bindE (am_set (m\<lparr>am_count := 1\<rparr>) 0 (key, data)) (\<lambda>m. Inr (m, 0)))"

definition arraymap_get :: "nat \<Rightarrow> arraymap_t \<Rightarrow> map_key \<Rightarrow> map_eq_test \<Rightarrow> map_data res" where
  "arraymap_get n m key cond =
     bindE (arraymap_get_index n m key cond) (\<lambda>i.
       if i \<ge> 0 then bindE (am_at m i) (\<lambda>e. Inr (snd e)) else Inr 0)"

fun close_gap :: "nat \<Rightarrow> arraymap_t \<Rightarrow> nat \<Rightarrow> arraymap_t res" where
  "close_gap 0 m i = am_set m i (0, 0)"
| "close_gap (Suc n) m i =
     bindE (am_at m (int i + 1)) (\<lambda>e. bindE (am_set m i e) (\<lambda>m. close_gap n m (i + 1)))"

definition arraymap_remove :: "nat \<Rightarrow> arraymap_t \<Rightarrow> map_key \<Rightarrow> (arraymap_t \<times> map_data) res" where
  "arraymap_remove n m key =
     bindE (arraymap_get_index n m key MAP_EQ) (\<lambda>i.
     if i \<ge> 0 then
       bindE (am_at m i) (\<lambda>old.
       let m = m\<lparr>am_count := am_count m - 1\<rparr> in
       bindE (close_gap (am_count m - nat i) m (nat i)) (\<lambda>m. Inr (m, snd old)))
     else Inr (m, 0))"

definition arraymap_new :: "(map_key \<Rightarrow> map_key \<Rightarrow> int) option \<Rightarrow> nat \<Rightarrow> arraymap_t" where
  "arraymap_new cmp capacity =
     \<lparr>am_capacity = capacity, am_count = 0, am_comp = (case cmp of None \<Rightarrow> map_keycmp | Some c \<Rightarrow> c),
      am_data = replicate capacity (0, 0)\<rparr>"

subsection \<open>The array as an ordered list\<close>

definition am_ents :: "arraymap_t \<Rightarrow> (map_key \<times> map_data) list" where
  "am_ents m = take (am_count m) (am_data m)"

text \<open>The slots in use ascend, the others are clear.\<close>

definition am_ok :: "arraymap_t \<Rightarrow> bool" where
  "am_ok m \<longleftrightarrow> am_count m \<le> am_capacity m \<and> length (am_data m) = am_capacity m \<and>
     asc (am_comp m) (am_ents m) \<and> drop (am_count m) (am_data m) = replicate (am_capacity m - am_count m) (0, 0)"

abbreviation am_key :: "arraymap_t \<Rightarrow> nat \<Rightarrow> map_key" where
  "am_key m i \<equiv> fst (am_data m ! i)"

lemma am_at_in: "am_ok m \<Longrightarrow> i < am_count m \<Longrightarrow> am_at m (int i) = Inr (am_data m ! i)"
  by (simp add: am_at_def am_ok_def)

lemma length_am_ents: "am_ok m \<Longrightarrow> length (am_ents m) = am_count m"
  by (simp add: am_ents_def am_ok_def)

lemma am_ents_nth: "i < am_count m \<Longrightarrow> am_ents m ! i = am_data m ! i"
  by (simp add: am_ents_def)

lemma am_mono: "am_ok m \<Longrightarrow> i < j \<Longrightarrow> j < am_count m \<Longrightarrow> am_comp m (am_key m i) (am_key m j) < 0"
  using sorted_wrt_nth_less [of "\<lambda>a b. am_comp m (fst a) (fst b) < 0" "am_ents m" i j] am_ents_nth [of i m] am_ents_nth [of j m] length_am_ents [of m]
  by (simp add: am_ok_def asc_def)

lemma take_Suc_upd: "i < length xs \<Longrightarrow> take (i + 1) (xs[i := x]) = take i xs @ [x]"
  by (simp add: take_Suc_conv_app_nth)

lemma shuffle_ok:
  assumes "i + n < length (am_data m)"
  shows "shuffle (Suc n) m i e = Inr (m\<lparr>am_data :=
    take i (am_data m) @ e # take n (drop i (am_data m)) @ drop (i + n + 1) (am_data m)\<rparr>)"
  using assms
proof (induction n arbitrary: m i e)
  case 0
  then show ?case by (simp add: am_at_def am_set_def upd_conv_take_nth_drop)
next
  case (Suc n)
  let ?D = "am_data m" and ?m = "m\<lparr>am_data := (am_data m)[i := e]\<rparr>"
  have i: "i < length ?D" and i0: "i < length ?D" using Suc.prems by simp_all
  have "shuffle (Suc (Suc n)) m i e = shuffle (Suc n) ?m (i + 1) (?D ! i)"
    using i by (simp add: am_at_def am_set_def)
  also have "\<dots> = Inr (?m\<lparr>am_data := take (i + 1) (?D[i := e]) @ ?D ! i # take n (drop (i + 1) (?D[i := e]))
      @ drop (i + 1 + n + 1) (?D[i := e])\<rparr>)"
    using Suc.IH [of "i + 1" ?m "?D ! i"] Suc.prems by simp
  also have "take (i + 1) (?D[i := e]) @ ?D ! i # take n (drop (i + 1) (?D[i := e])) @ drop (i + 1 + n + 1) (?D[i := e])
      = take i ?D @ e # take (Suc n) (drop i ?D) @ drop (i + Suc n + 1) ?D"
    using i unfolding take_Suc_upd [OF i0] by (simp add: Cons_nth_drop_Suc [symmetric])
  finally show ?case by simp
qed

lemma close_gap_ok:
  assumes "i + n < length (am_data m)"
  shows "close_gap n m i = Inr (m\<lparr>am_data :=
    take i (am_data m) @ take n (drop (i + 1) (am_data m)) @ (0, 0) # drop (i + n + 1) (am_data m)\<rparr>)"
  using assms
proof (induction n arbitrary: m i)
  case 0
  then show ?case by (simp add: am_set_def upd_conv_take_nth_drop)
next
  case (Suc n)
  let ?D = "am_data m" and ?e = "am_data m ! (i + 1)"
  let ?m = "m\<lparr>am_data := (am_data m)[i := am_data m ! (i + 1)]\<rparr>"
  have i: "i + 1 < length ?D" and i0: "i < length ?D" using Suc.prems by simp_all
  have "close_gap (Suc n) m i = close_gap n ?m (i + 1)"
    using i by (simp add: am_at_def am_set_def nat_add_distrib)
  also have "\<dots> = Inr (?m\<lparr>am_data := take (i + 1) (?D[i := ?e]) @ take n (drop (i + 2) (?D[i := ?e]))
      @ (0, 0) # drop (i + 1 + n + 1) (?D[i := ?e])\<rparr>)"
    using Suc.IH [of "i + 1" ?m] Suc.prems by simp
  also have "take (i + 1) (?D[i := ?e]) @ take n (drop (i + 2) (?D[i := ?e])) @ (0, 0) # drop (i + 1 + n + 1) (?D[i := ?e])
      = take i ?D @ take (Suc n) (drop (i + 1) ?D) @ (0, 0) # drop (i + Suc n + 1) ?D"
    using i unfolding take_Suc_upd [OF i0] by (simp add: Cons_nth_drop_Suc [symmetric])
  finally show ?case by simp
qed

text \<open>The index a search returns when the key is at \<open>j\<close>, and when it belongs before \<open>j\<close>.\<close>

fun hit_index :: "map_eq_test \<Rightarrow> nat \<Rightarrow> int" where
  "hit_index MAP_LT j = int j - 1"
| "hit_index MAP_GT j = int j + 1"
| "hit_index _ j = int j"

fun gap_index :: "map_eq_test \<Rightarrow> nat \<Rightarrow> int" where
  "gap_index MAP_LT j = int j - 1"
| "gap_index MAP_LE j = int j - 1"
| "gap_index MAP_EQ j = -1"
| "gap_index _ j = int j"

locale sorted_array = comparator cmp for cmp :: "map_key \<Rightarrow> map_key \<Rightarrow> int" +
  fixes m :: arraymap_t
  assumes ok: "am_ok m" and cmp_is: "am_comp m = cmp"
begin

lemma below_all:
  assumes "cmp k (am_key m j) \<le> 0" "j < am_count m" "j < i" "i < am_count m"
  shows "cmp k (am_key m i) < 0"
  using cmp_le_less [of k "am_key m j" "am_key m i"] am_mono [OF ok, of j i] assms cmp_is by simp

lemma above_all:
  assumes "0 \<le> cmp k (am_key m j)" "j < am_count m" "i < j"
  shows "0 < cmp k (am_key m i)"
  using cmp_ge_greater [of k "am_key m j" "am_key m i"] am_mono [OF ok, of i j] assms cmp_is by simp

text \<open>Splitting the entries at an index decides every lookup.\<close>

lemma ents_split: "j \<le> am_count m \<Longrightarrow> am_ents m = take j (am_ents m) @ drop j (am_ents m)"
  by simp

lemma take_above:
  assumes "0 < j" "j \<le> am_count m" "0 < cmp k (am_key m (j - 1))" "e \<in> set (take j (am_ents m))"
  shows "0 < cmp k (fst e)"
proof -
  obtain i where i: "i < j" "e = am_data m ! i"
    using assms(2,4) am_ents_nth by (auto simp: in_set_conv_nth length_am_ents [OF ok])
  then consider "i = j - 1" | "i < j - 1" by linarith
  then show ?thesis using i assms above_all [of k "j - 1" i] by cases auto
qed

lemma drop_below:
  assumes "j < am_count m" "cmp k (am_key m j) < 0" "e \<in> set (drop j (am_ents m))"
  shows "cmp k (fst e) < 0"
proof -
  obtain i where "i < am_count m - j" "e = am_ents m ! (j + i)"
    using assms(3) by (auto simp: in_set_conv_nth length_am_ents [OF ok])
  then have i: "j + i < am_count m" "e = am_data m ! (j + i)" using am_ents_nth [of "j + i" m] by auto
  then show ?thesis using assms below_all [of k j "j + i"] by (cases "i = 0") auto
qed

definition before :: "map_key \<Rightarrow> nat \<Rightarrow> bool" where
  "before k j \<longleftrightarrow> 0 < j \<and> j \<le> am_count m \<and> 0 < cmp k (am_key m (j - 1)) \<and>
     (j < am_count m \<longrightarrow> cmp k (am_key m j) < 0)"

lemma get_at_gap:
  assumes "before k j"
  shows "al_get cmp k MAP_EQ (am_ents m) = None"
    "al_get cmp k MAP_GE (am_ents m) = first_of (drop j (am_ents m))" "al_get cmp k MAP_GT (am_ents m) = first_of (drop j (am_ents m))"
    "al_get cmp k MAP_LE (am_ents m) = last_of (take j (am_ents m))" "al_get cmp k MAP_LT (am_ents m) = last_of (take j (am_ents m))"
    "al_put cmp k v (am_ents m) = take j (am_ents m) @ (k, v) # drop j (am_ents m)"
proof -
  have j: "0 < j" "j \<le> am_count m" "0 < cmp k (am_key m (j - 1))" using assms by (auto simp: before_def)
  have l: "\<And>e. e \<in> set (take j (am_ents m)) \<Longrightarrow> 0 < cmp k (fst e)" using take_above [OF j] .
  have r: "\<And>e. e \<in> set (drop j (am_ents m)) \<Longrightarrow> cmp k (fst e) < 0"
    using drop_below [of j k] assms length_am_ents [OF ok] by (cases "j < am_count m") (auto simp: before_def)
  show "al_get cmp k MAP_EQ (am_ents m) = None"
    "al_get cmp k MAP_GE (am_ents m) = first_of (drop j (am_ents m))" "al_get cmp k MAP_GT (am_ents m) = first_of (drop j (am_ents m))"
    "al_get cmp k MAP_LE (am_ents m) = last_of (take j (am_ents m))" "al_get cmp k MAP_LT (am_ents m) = last_of (take j (am_ents m))"
    using al_get_absent [of "take j (am_ents m)" cmp k "drop j (am_ents m)", OF l r] by simp_all
  show "al_put cmp k v (am_ents m) = take j (am_ents m) @ (k, v) # drop j (am_ents m)"
    using al_put_split [of "take j (am_ents m)" cmp k "drop j (am_ents m)" v, OF l r] by simp
qed

lemma ents_at: "j < am_count m \<Longrightarrow> am_ents m = take j (am_ents m) @ am_data m ! j # drop (Suc j) (am_ents m)"
  using id_take_nth_drop [of j "am_ents m"] am_ents_nth [of j m] length_am_ents [OF ok] by simp

lemma hit_bounds:
  assumes j: "j < am_count m" and eq: "cmp k (am_key m j) = 0"
  shows "\<And>e. e \<in> set (take j (am_ents m)) \<Longrightarrow> 0 < cmp k (fst e)"
    "\<And>e. e \<in> set (drop (Suc j) (am_ents m)) \<Longrightarrow> cmp k (fst e) < 0"
proof -
  have s: "asc cmp (take j (am_ents m) @ am_data m ! j # drop (Suc j) (am_ents m))"
    using ok cmp_is ents_at [OF j] by (simp add: am_ok_def)
  show "\<And>e. e \<in> set (take j (am_ents m)) \<Longrightarrow> 0 < cmp k (fst e)" using asc_above [OF s] eq by simp
  show "\<And>e. e \<in> set (drop (Suc j) (am_ents m)) \<Longrightarrow> cmp k (fst e) < 0" using asc_below [OF s] eq by simp
qed

lemma get_at_hit:
  assumes j: "j < am_count m" and eq: "cmp k (am_key m j) = 0"
  shows "al_get cmp k MAP_EQ (am_ents m) = Some (am_data m ! j)"
    "al_get cmp k MAP_GE (am_ents m) = Some (am_data m ! j)" "al_get cmp k MAP_LE (am_ents m) = Some (am_data m ! j)"
    "al_get cmp k MAP_GT (am_ents m) = first_of (drop (Suc j) (am_ents m))"
    "al_get cmp k MAP_LT (am_ents m) = last_of (take j (am_ents m))"
    "al_put cmp k v (am_ents m) = take j (am_ents m) @ (k, v) # drop (Suc j) (am_ents m)"
    "al_del cmp k (am_ents m) = take j (am_ents m) @ drop (Suc j) (am_ents m)"
proof -
  let ?l = "take j (am_ents m)" and ?r = "drop (Suc j) (am_ents m)" and ?e = "am_data m ! j"
  note b = hit_bounds [OF j eq]
  note g = al_get_present [of ?l cmp k ?r ?e, OF b eq, folded ents_at [OF j]]
  show "al_get cmp k MAP_EQ (am_ents m) = Some ?e" "al_get cmp k MAP_GE (am_ents m) = Some ?e"
    "al_get cmp k MAP_LE (am_ents m) = Some ?e" "al_get cmp k MAP_GT (am_ents m) = first_of ?r"
    "al_get cmp k MAP_LT (am_ents m) = last_of ?l" using g by simp_all
  show "al_put cmp k v (am_ents m) = ?l @ (k, v) # ?r"
    using al_put_replace [of ?l cmp k ?e v ?r, OF b(1) eq, folded ents_at [OF j]] by simp
  have "filter (\<lambda>e. cmp k (fst e) \<noteq> 0) ?l = ?l" "filter (\<lambda>e. cmp k (fst e) \<noteq> 0) ?r = ?r"
    using b by (force simp: filter_id_conv)+
  then have "al_del cmp k (?l @ ?e # ?r) = ?l @ ?r" using eq by (simp add: al_del_def)
  then show "al_del cmp k (am_ents m) = ?l @ ?r" by (simp only: ents_at [OF j, symmetric])
qed

text \<open>
  The search of a lookup, for a key above the first one: it ends, at the entry with the key
  or at the gap where it belongs.
\<close>

lemma get_index_loop_ok:
  assumes "0 < cmp k (am_key m 0)" "low < high" "high \<le> am_count m" "0 < cmp k (am_key m low)"
    "high < am_count m \<Longrightarrow> cmp k (am_key m high) < 0" "high - low < n"
  shows "\<exists>j. get_index_loop n m k cond (int low) (int high) =
      Inr (if j < am_count m \<and> cmp k (am_key m j) = 0
           then hit_index cond j
           else gap_index cond j) \<and>
    (j < am_count m \<and> cmp k (am_key m j) = 0 \<or> before k j)"
  using assms(2-)
proof (induction n arbitrary: low high)
  case (Suc n)
  define i where "i = (low + high) div 2"
  have i: "(int low + int high) div 2 = int i" "low \<le> i" "i < high" "i < am_count m"
    using Suc.prems(1,2) by (auto simp: i_def zdiv_int)
  have at: "am_at m (int i) = Inr (am_data m ! i)" using am_at_in [OF ok i(4)] .
  consider "cmp k (am_key m i) < 0" | "0 < cmp k (am_key m i)" | "cmp k (am_key m i) = 0" by linarith
  then show ?case
  proof cases
    case 1
    then have li: "low < i" using i(2) Suc.prems(3) by (cases "low = i") auto
    show ?thesis
    proof (cases "low = i - 1")
      case True
      then have "before k i" using li i 1 Suc.prems(3) by (auto simp: before_def)
      then show ?thesis using 1 True li i at cmp_is by (intro exI [of _ i]) (auto simp: Let_def split: map_eq_test.split)
    next
      case False
      then have "int low \<noteq> int i - 1" using li by linarith
      then have "get_index_loop (Suc n) m k cond (int low) (int high) = get_index_loop n m k cond (int low) (int i)"
        using 1 i at cmp_is by (simp add: Let_def)
      moreover note Suc.IH [OF li _ Suc.prems(3)]
      ultimately show ?thesis using 1 i Suc.prems(5) by simp
    qed
  next
    case 2
    show ?thesis
    proof (cases "Suc i = high")
      case True
      then have "before k (Suc i)" using i 2 Suc.prems(4) by (auto simp: before_def)
      moreover have "int i = int high - 1" using True by linarith
      moreover have "\<not> (Suc i < am_count m \<and> cmp k (am_key m (Suc i)) = 0)" using Suc.prems(4) True by auto
      ultimately show ?thesis using 2 i at cmp_is
        by (intro exI [of _ "Suc i"]) (simp add: Let_def split: map_eq_test.split)
    next
      case False
      then have "int i \<noteq> int high - 1" "i < high" using i by linarith+
      then have "get_index_loop (Suc n) m k cond (int low) (int high) = get_index_loop n m k cond (int i) (int high)"
        using 2 i at cmp_is by (simp add: Let_def)
      moreover have "low \<noteq> i" using False i(2) Suc.prems(1) by (auto simp: i_def)
      then have "high - i < n" using Suc.prems(5) i(2,3) by linarith
      moreover note Suc.IH [OF i(3) Suc.prems(2) 2 Suc.prems(4)]
      ultimately show ?thesis by simp
    qed
  next
    case 3
    then show ?thesis using i at cmp_is by (intro exI [of _ i]) (auto simp: Let_def split: map_eq_test.split)
  qed
qed simp

lemma get_index_ok:
  assumes "0 < cmp k (am_key m 0)" "0 < am_count m" "am_count m < n"
  obtains (hit) j where "j < am_count m" "cmp k (am_key m j) = 0" "arraymap_get_index n m k cond = Inr (hit_index cond j)"
    | (gap) j where "before k j" "arraymap_get_index n m k cond = Inr (gap_index cond j)"
proof -
  have h: "am_count m < am_count m \<Longrightarrow> cmp k (am_key m (am_count m)) < 0" by simp
  have n: "am_count m - 0 < n" using assms(3) by simp
  obtain j where j: "arraymap_get_index n m k cond =
      Inr (if j < am_count m \<and> cmp k (am_key m j) = 0 then hit_index cond j else gap_index cond j)"
    "j < am_count m \<and> cmp k (am_key m j) = 0 \<or> before k j"
    using get_index_loop_ok [OF assms(1,2) order_refl assms(1) h n, of cond] unfolding arraymap_get_index_def by auto
  then show thesis using hit gap by (cases "j < am_count m \<and> cmp k (am_key m j) = 0") auto
qed

lemma first_of_drop: "first_of (drop j (am_ents m)) = (if j < am_count m then Some (am_data m ! j) else None)"
  using length_am_ents [OF ok] am_ents_nth [of j m] by (auto simp: first_of_def Cons_nth_drop_Suc [symmetric])

lemma last_of_take: "0 < j \<Longrightarrow> j \<le> am_count m \<Longrightarrow> last_of (take j (am_ents m)) = Some (am_data m ! (j - 1))"
  using length_am_ents [OF ok] am_ents_nth [of "j - 1" m] by (auto simp: last_of_def last_conv_nth min_def)

lemma am_at_end: "am_count m < am_capacity m \<Longrightarrow> am_at m (int (am_count m)) = Inr (0, 0)"
proof -
  assume l: "am_count m < am_capacity m"
  have "drop (am_count m) (am_data m) ! 0 = replicate (am_capacity m - am_count m) (0, 0) ! 0"
    using ok unfolding am_ok_def by metis
  moreover have len: "length (am_data m) = am_capacity m" using ok by (simp add: am_ok_def)
  ultimately have "am_data m ! am_count m = (0, 0)" using l by simp
  then show ?thesis using l len by (simp add: am_at_def)
qed

lemma arraymap_get_above:
  assumes k: "0 < cmp k (am_key m 0)" "0 < am_count m" "am_count m < n" and c: "am_count m < am_capacity m"
  shows "arraymap_get n m k cond = Inr (data_of (al_get cmp k cond (am_ents m)))"
proof -
  have at: "bindE (am_at m (int i)) (\<lambda>e. Inr (snd e)) = Inr (data_of (if i < am_count m then Some (am_data m ! i) else None))"
    if "i \<le> am_count m" for i
    using that am_at_in [OF ok, of i] am_at_end [OF c] by (cases "i < am_count m") (auto simp: data_of_def)
  have low: "bindE (am_at m (int j - 1)) (\<lambda>e. Inr (snd e)) = Inr (data_of (last_of (take j (am_ents m))))"
    if "0 < j" "j \<le> am_count m" for j
    using that am_at_in [OF ok, of "j - 1"] last_of_take [of j] by (simp add: of_nat_diff data_of_def)
  show ?thesis
  proof (rule get_index_ok [OF k, of cond])
    fix j assume j: "j < am_count m" "cmp k (am_key m j) = 0" "arraymap_get_index n m k cond = Inr (hit_index cond j)"
    then have "0 < j" using k by (cases j) auto
    then show ?thesis using j get_at_hit [OF j(1,2)] at [of j] at [of "Suc j"] low [OF \<open>0 < j\<close>]
      by (cases cond) (simp_all add: arraymap_get_def first_of_drop add.commute data_of_def)
  next
    fix j assume j: "before k j" "arraymap_get_index n m k cond = Inr (gap_index cond j)"
    then have "0 < j" "j \<le> am_count m" by (auto simp: before_def)
    then show ?thesis using j get_at_gap [OF j(1)] at [of j] low [of j]
      by (cases cond) (simp_all add: arraymap_get_def first_of_drop data_of_def)
  qed
qed

lemma put_search_ok:
  assumes "low < high" "high \<le> am_count m" "low = 0 \<or> 0 < cmp k (am_key m low)"
    "high < am_count m \<Longrightarrow> cmp k (am_key m high) < 0" "high - low < n"
  shows "(\<exists>j < am_count m. put_search n m k (int low) (int high) = Inr (Inl (int j)) \<and> cmp k (am_key m j) = 0) \<or>
    (\<exists>j < am_count m. put_search n m k (int low) (int high) = Inr (Inr (int j)) \<and>
       (j = 0 \<or> 0 < cmp k (am_key m j)) \<and> (Suc j < am_count m \<longrightarrow> cmp k (am_key m (Suc j)) < 0) \<and>
       (am_count m = 1 \<longrightarrow> cmp k (am_key m j) \<noteq> 0))"
  using assms
proof (induction n arbitrary: low high)
  case (Suc n)
  define i where "i = (low + high) div 2"
  have i: "(int low + int high) div 2 = int i" "low \<le> i" "i < high" "i < am_count m"
    using Suc.prems(1,2) by (auto simp: i_def zdiv_int)
  have at: "am_at m (int i) = Inr (am_data m ! i)" using am_at_in [OF ok i(4)] .
  consider "cmp k (am_key m i) < 0" | "0 < cmp k (am_key m i)" | "cmp k (am_key m i) = 0" by linarith
  then show ?case
  proof cases
    case 1
    have run: "put_search (Suc n) m k (int low) (int high)
        = (if low < i - 1 then put_search n m k (int low) (int i) else Inr (Inr (int low)))"
      using 1 i at cmp_is by (auto simp: Let_def)
    show ?thesis
    proof (cases "low < i - 1")
      case True
      show ?thesis unfolding run if_P [OF True] by (rule Suc.IH) (use True 1 i Suc.prems(3,5) in auto)
    next
      case False
      have "cmp k (am_key m (Suc low)) < 0" if "Suc low < am_count m"
      proof (cases "Suc low = i")
        case neq: False
        then have "low = i" using False i(2) by linarith
        then show ?thesis using below_all [of k i "Suc low"] 1 i that by simp
      qed (use 1 in simp)
      moreover have "am_count m = 1 \<longrightarrow> cmp k (am_key m low) \<noteq> 0" using 1 i by auto
      ultimately show ?thesis using run False Suc.prems(3) i by auto
    qed
  next
    case 2
    have run: "put_search (Suc n) m k (int low) (int high)
        = (if Suc i < high then put_search n m k (int i) (int high) else Inr (Inr (int i)))"
      using 2 i at cmp_is by (auto simp: Let_def)
    show ?thesis
    proof (cases "Suc i < high")
      case True
      then have "low \<noteq> i" using i(2) by (auto simp: i_def)
      then have "high - i < n" using Suc.prems(5) i by linarith
      then show ?thesis unfolding run if_P [OF True] by (intro Suc.IH) (use True 2 i Suc.prems(2,4) in auto)
    next
      case False
      then have "Suc i = high" using i(3) by simp
      then have "Suc i < am_count m \<longrightarrow> cmp k (am_key m (Suc i)) < 0" using Suc.prems(4) by auto
      then show ?thesis unfolding run if_not_P [OF False] using 2 i(4) by auto
    qed
  next
    case 3
    then have "put_search (Suc n) m k (int low) (int high) = Inr (Inl (int i))"
      using i at cmp_is by (simp add: Let_def)
    then show ?thesis using 3 i by blast
  qed
qed simp

lemma am_data_split: "am_data m = am_ents m @ replicate (am_capacity m - am_count m) (0, 0)"
  using ok append_take_drop_id [of "am_count m" "am_data m"] by (simp add: am_ents_def am_ok_def)

text \<open>Insertion at an index shifts the later entries into the first clear slot.\<close>

lemma put_at:
  assumes j: "j \<le> am_count m" and c: "am_count m < am_capacity m"
  shows "\<exists>m'. shuffle (Suc (am_count m) - j) (m\<lparr>am_count := Suc (am_count m)\<rparr>) j e = Inr m' \<and>
    am_ents m' = take j (am_ents m) @ e # drop j (am_ents m) \<and> am_count m' = Suc (am_count m) \<and>
    am_comp m' = cmp \<and> am_capacity m' = am_capacity m \<and> length (am_data m') = am_capacity m \<and>
    drop (am_count m') (am_data m') = replicate (am_capacity m - am_count m') (0, 0)"
proof -
  let ?D = "am_data m" and ?m = "m\<lparr>am_count := Suc (am_count m)\<rparr>" and ?n = "am_count m - j"
  let ?D' = "take j ?D @ e # take ?n (drop j ?D) @ drop (j + ?n + 1) ?D"
  have len: "length ?D = am_capacity m" using ok by (simp add: am_ok_def)
  have "Suc (am_count m) - j = Suc ?n" using j by simp
  then have run: "shuffle (Suc (am_count m) - j) ?m j e = Inr (?m\<lparr>am_data := ?D'\<rparr>)"
    using shuffle_ok [of j ?n ?m e] c j len by simp
  have "take j ?D = take j (am_ents m)" using j by (simp add: am_ents_def min_def)
  moreover have "take ?n (drop j ?D) = drop j (am_ents m)" using j by (simp add: am_ents_def drop_take)
  moreover define P R where "P = take j (am_ents m) @ e # drop j (am_ents m)" and "R = drop (Suc (am_count m)) ?D"
  ultimately have D': "?D' = P @ R" using j by simp
  have l: "length P = Suc (am_count m)" using length_am_ents [OF ok] j by (simp add: P_def)
  have R: "R = replicate (am_capacity m - Suc (am_count m)) (0, 0)"
    unfolding R_def using length_am_ents [OF ok] by (subst am_data_split) simp
  define m' where "m' = ?m\<lparr>am_data := P @ R\<rparr>"
  have "shuffle (Suc (am_count m) - j) ?m j e = Inr m'" using run unfolding m'_def D' .
  moreover have "am_ents m' = P" "am_count m' = Suc (am_count m)" "am_comp m' = cmp" "am_capacity m' = am_capacity m"
    "length (am_data m') = am_capacity m" "drop (am_count m') (am_data m') = R"
    using l c cmp_is R by (simp_all add: m'_def am_ents_def)
  ultimately show ?thesis using R by (auto simp: P_def)
qed

definition put_meets :: "(arraymap_t \<times> map_data) res \<Rightarrow> map_key \<Rightarrow> map_data \<Rightarrow> bool" where
  "put_meets r k v \<longleftrightarrow> (if al_get cmp k MAP_EQ (am_ents m) = None \<and> am_count m = am_capacity m
      then r = Inl (Throw ArrayMapFullException)
      else \<exists>m'. r = Inr (m', data_of (al_get cmp k MAP_EQ (am_ents m))) \<and>
        am_ok m' \<and> am_comp m' = cmp \<and> am_ents m' = al_put cmp k v (am_ents m))"

lemma put_empty:
  assumes "am_count m = 0" "0 < am_capacity m"
  shows "put_meets (arraymap_put n m k v) k v"
proof -
  define D where "D = am_data m"
  have len: "length D = am_capacity m" and clear: "drop 0 D = replicate (am_capacity m) (0, 0)"
    using ok assms(1) by (auto simp: am_ok_def D_def)
  have e: "am_ents m = []" using assms(1) by (simp add: am_ents_def)
  obtain x xs where D: "D = x # xs" using len assms(2) by (cases D) auto
  then have "xs = replicate (am_capacity m - 1) (0, 0)" using clear by (cases "am_capacity m") auto
  then show ?thesis using assms len D e cmp_is
    by (simp add: put_meets_def arraymap_put_def am_set_def D_def [symmetric] am_ok_def am_ents_def asc_def data_of_def)
qed

lemma put_hit:
  assumes j: "j < am_count m" "put_search n m k 0 (int (am_count m)) = Inr (Inl (int j))" "am_key m j = k"
  shows "put_meets (arraymap_put n m k v) k v"
proof -
  have eq: "cmp k (am_key m j) = 0" using j(3) by simp
  have len: "j < length (am_data m)" using ok j(1) by (simp add: am_ok_def)
  let ?m = "m\<lparr>am_data := (am_data m)[j := (k, v)]\<rparr>"
  have run: "arraymap_put n m k v = Inr (?m, snd (am_data m ! j))"
    using j am_at_in [OF ok j(1)] len by (simp add: arraymap_put_def am_set_def)
  have ents: "am_ents ?m = al_put cmp k v (am_ents m)"
    using get_at_hit(6) [OF j(1) eq, of v] upd_conv_take_nth_drop [of j "am_ents m" "(k, v)"] j(1) length_am_ents [OF ok]
    by (simp add: am_ents_def take_update_swap)
  have "am_ok ?m" using ok ents asc_al_put [of "am_ents m" k v] cmp_is j(1) by (auto simp: am_ok_def)
  then show ?thesis using run ents get_at_hit(1) [OF j(1) eq] cmp_is by (simp add: put_meets_def data_of_def)
qed

lemma put_split:
  assumes "q = 0 \<or> before k q" "q = 0 \<Longrightarrow> 0 < am_count m \<and> cmp k (am_key m 0) < 0"
  shows "al_get cmp k MAP_EQ (am_ents m) = None"
    "al_put cmp k v (am_ents m) = take q (am_ents m) @ (k, v) # drop q (am_ents m)"
proof -
  have r: "\<And>e. e \<in> set (am_ents m) \<Longrightarrow> cmp k (fst e) < 0" if "q = 0"
    using drop_below [of 0 k] assms(2) [OF that] by simp
  show "al_get cmp k MAP_EQ (am_ents m) = None"
    using assms(1) get_at_gap(1) al_get_absent(1) [of "[]" cmp k "am_ents m"] r by (cases "q = 0") auto
  show "al_put cmp k v (am_ents m) = take q (am_ents m) @ (k, v) # drop q (am_ents m)"
    using assms(1) get_at_gap(6) al_put_split [of "[]" cmp k "am_ents m" v] r by (cases "q = 0") auto
qed

lemma put_new:
  assumes j: "j < am_count m" "put_search n m k 0 (int (am_count m)) = Inr (Inr (int j))"
      "j = 0 \<or> 0 < cmp k (am_key m j)" "Suc j < am_count m \<longrightarrow> cmp k (am_key m (Suc j)) < 0"
    and nz: "cmp k (am_key m j) \<noteq> 0"
  shows "put_meets (arraymap_put n m k v) k v"
proof -
  define q where "q = (if 0 < cmp k (am_key m j) then Suc j else j)"
  have q: "q \<le> am_count m" "q = 0 \<or> before k q" "q = 0 \<Longrightarrow> 0 < am_count m \<and> cmp k (am_key m 0) < 0"
    using j nz by (auto simp: q_def before_def split: if_splits)
  note split = put_split(1) [OF q(2,3)] put_split(2) [OF q(2,3), of v]
  show ?thesis
  proof (cases "am_count m = am_capacity m")
    case True
    then show ?thesis using j(1,2) split(1) by (simp add: put_meets_def arraymap_put_def)
  next
    case room: False
    then have c': "am_count m < am_capacity m" using ok by (simp add: am_ok_def)
    from put_at [OF q(1) c', of "(k, v)"] obtain m' where m':
      "shuffle (Suc (am_count m) - q) (m\<lparr>am_count := Suc (am_count m)\<rparr>) q (k, v) = Inr m'"
      "am_ents m' = al_put cmp k v (am_ents m)" "am_count m' = Suc (am_count m)" "am_comp m' = cmp"
      "am_capacity m' = am_capacity m" "length (am_data m') = am_capacity m"
      "drop (am_count m') (am_data m') = replicate (am_capacity m - am_count m') (0, 0)" using split(2) by auto
    have at: "am_at (m\<lparr>am_count := Suc (am_count m)\<rparr>) (int j) = Inr (am_data m ! j)"
      using ok j(1) by (simp add: am_at_def am_ok_def)
    have "nat (int j + 1) = Suc j" by simp
    then have "arraymap_put n m k v = Inr (m', 0)"
      using j(1,2) room at m'(1) cmp_is by (cases "0 < cmp k (am_key m j)") (simp_all add: arraymap_put_def Let_def q_def)
    moreover have "am_ok m'" using m' c' asc_al_put [of "am_ents m" k v] ok cmp_is by (auto simp: am_ok_def)
    ultimately show ?thesis using m' split(1) room by (simp add: put_meets_def data_of_def)
  qed
qed

lemma arraymap_put_ok:
  assumes anti: "\<And>a b. cmp a b = 0 \<Longrightarrow> a = b" and first: "2 \<le> am_count m \<Longrightarrow> cmp k (am_key m 0) \<noteq> 0"
    and c: "0 < am_capacity m" "am_count m < n"
  shows "put_meets (arraymap_put n m k v) k v"
proof (cases "am_count m = 0")
  case True
  then show ?thesis using put_empty c(1) by blast
next
  case False
  then have "(\<exists>j < am_count m. put_search n m k (int 0) (int (am_count m)) = Inr (Inl (int j)) \<and> cmp k (am_key m j) = 0) \<or>
    (\<exists>j < am_count m. put_search n m k (int 0) (int (am_count m)) = Inr (Inr (int j)) \<and>
       (j = 0 \<or> 0 < cmp k (am_key m j)) \<and> (Suc j < am_count m \<longrightarrow> cmp k (am_key m (Suc j)) < 0) \<and>
       (am_count m = 1 \<longrightarrow> cmp k (am_key m j) \<noteq> 0))"
    using c by (intro put_search_ok) auto
  then consider (hit) j where "j < am_count m" "put_search n m k 0 (int (am_count m)) = Inr (Inl (int j))" "cmp k (am_key m j) = 0"
    | (new) j where "j < am_count m" "put_search n m k 0 (int (am_count m)) = Inr (Inr (int j))"
      "j = 0 \<or> 0 < cmp k (am_key m j)" "Suc j < am_count m \<longrightarrow> cmp k (am_key m (Suc j)) < 0"
      "am_count m = 1 \<longrightarrow> cmp k (am_key m j) \<noteq> 0" by auto
  then show ?thesis
  proof cases
    case (hit j)
    have "am_key m j = k" using anti [OF hit(3)] by simp
    then show ?thesis using put_hit [OF hit(1,2)] by blast
  next
    case (new j)
    have "cmp k (am_key m j) \<noteq> 0" using new first by (cases "j = 0"; cases "am_count m = 1") auto
    then show ?thesis using put_new [OF new(1-4)] by blast
  qed
qed

lemma remove_hit:
  assumes j: "j < am_count m" "arraymap_get_index n m k MAP_EQ = Inr (int j)" "cmp k (am_key m j) = 0"
  shows "\<exists>m'. arraymap_remove n m k = Inr (m', data_of (al_get cmp k MAP_EQ (am_ents m))) \<and>
    am_ok m' \<and> am_comp m' = cmp \<and> am_ents m' = al_del cmp k (am_ents m)"
proof -
  let ?D = "am_data m" and ?c = "am_count m - 1" and ?m = "m\<lparr>am_count := am_count m - 1\<rparr>"
  let ?D' = "take j ?D @ take (?c - j) (drop (j + 1) ?D) @ (0, 0) # drop (j + (?c - j) + 1) ?D"
  have len: "length ?D = am_capacity m" "am_count m \<le> am_capacity m" using ok by (auto simp: am_ok_def)
  have run: "arraymap_remove n m k = Inr (?m\<lparr>am_data := ?D'\<rparr>, snd (?D ! j))"
    using j close_gap_ok [of j "?c - j" ?m] am_at_in [OF ok j(1)] len by (simp add: arraymap_remove_def)
  define P R where "P = take j (am_ents m) @ drop (Suc j) (am_ents m)" and "R = (0, 0) # drop (am_count m) ?D"
  have "take j ?D = take j (am_ents m)" using j(1) by (simp add: am_ents_def min_def)
  moreover have "take (?c - j) (drop (j + 1) ?D) = drop (Suc j) (am_ents m)"
    using j(1) by (simp add: am_ents_def drop_take)
  ultimately have D': "?D' = P @ R" using j(1) by (simp add: P_def R_def)
  have l: "length P = ?c" using length_am_ents [OF ok] j(1) by (simp add: P_def)
  have R: "R = replicate (am_capacity m - ?c) (0, 0)"
    using ok j(1) len by (simp add: R_def am_ok_def Suc_diff_le flip: replicate_Suc)
  define m' where "m' = ?m\<lparr>am_data := P @ R\<rparr>"
  have P: "P = al_del cmp k (am_ents m)" using get_at_hit(7) [OF j(1,3)] by (simp add: P_def)
  have e: "am_ents m' = P" using l by (simp add: m'_def am_ents_def)
  have "am_ok m'"
    using l R e len asc_al_del [of "am_ents m" k] ok cmp_is P j(1) by (auto simp: am_ok_def m'_def)
  moreover have "arraymap_remove n m k = Inr (m', snd (?D ! j))" using run unfolding m'_def D' .
  ultimately show ?thesis using e P get_at_hit(1) [OF j(1,3)] cmp_is by (simp add: data_of_def) (simp add: m'_def)
qed

lemma arraymap_remove_ok:
  assumes k: "0 < cmp k (am_key m 0)" "0 < am_count m" "am_count m < n"
  shows "\<exists>m'. arraymap_remove n m k = Inr (m', data_of (al_get cmp k MAP_EQ (am_ents m))) \<and>
    am_ok m' \<and> am_comp m' = cmp \<and> am_ents m' = al_del cmp k (am_ents m)"
proof (rule get_index_ok [OF k, of MAP_EQ])
  fix j assume "j < am_count m" "cmp k (am_key m j) = 0" "arraymap_get_index n m k MAP_EQ = Inr (hit_index MAP_EQ j)"
  then show ?thesis using remove_hit [of j n k] by simp
next
  fix j assume j: "before k j" "arraymap_get_index n m k MAP_EQ = Inr (gap_index MAP_EQ j)"
  have "al_del cmp k (am_ents m) = am_ents m"
    unfolding al_del_def filter_id_conv using get_at_gap(1) [OF j(1)] by (auto simp: find_None_iff)
  then show ?thesis using j get_at_gap(1) [OF j(1)] ok cmp_is by (simp add: arraymap_remove_def data_of_def)
qed

text \<open>
  Below the first key the search goes wrong: with two or more entries the first one is
  never compared, and with one entry or none the loop never ends.
\<close>

lemma get_first_misses:
  assumes "2 \<le> am_count m" "cmp k (am_key m 0) \<le> 0"
  shows "high \<le> am_count m \<Longrightarrow> 2 \<le> high \<Longrightarrow> high < n \<Longrightarrow> get_index_loop n m k MAP_EQ 0 (int high) = Inr (-1)"
proof (induction n arbitrary: high)
  case (Suc n)
  let ?i = "high div 2"
  have i: "(0 + int high) div 2 = int ?i" "0 < ?i" "?i < high" "?i < am_count m"
    using Suc.prems by (auto simp: zdiv_int)
  have "am_comp m k (am_key m ?i) < 0" using below_all [of k 0 ?i] assms i cmp_is by simp
  then show ?case using i am_at_in [OF ok i(4)] Suc.IH [of ?i] Suc.prems
    by (cases "?i = 1") (simp_all add: Let_def)
qed simp

lemma get_stuck:
  assumes "am_count m \<le> 1" "0 < am_capacity m" "cmp k (am_key m 0) < 0"
  shows "low = 0 \<and> high \<in> {0, 1} \<Longrightarrow> get_index_loop n m k cond low high = Inl OutOfFuel"
proof (induction n arbitrary: low high)
  case (Suc n)
  have "am_at m 0 = Inr (am_data m ! 0)" using ok assms(2) by (simp add: am_at_def am_ok_def)
  moreover have "(low + high) div 2 = 0" using Suc.prems by auto
  ultimately show ?case using Suc assms(3) cmp_is by (simp add: Let_def)
qed simp

end

text \<open>A map of three of four slots, ordered by machine words.\<close>

definition demo_am :: arraymap_t where
  "demo_am = \<lparr>am_capacity = 4, am_count = 3, am_comp = map_keycmp, am_data = [(2, 20), (5, 50), (7, 70), (0, 0)]\<rparr>"

lemma demo_am_ents: "am_ents demo_am = [(2, 20), (5, 50), (7, 70)]"
  by (simp add: am_ents_def demo_am_def)

lemma demo_am_ok: "am_ok demo_am"
  unfolding am_ok_def demo_am_ents by (simp add: demo_am_def asc_def map_keycmp_sign)

text \<open>The map that \<^verbatim>\<open>arraymap_new\<close> makes is a sorted array, for every capacity.\<close>

interpretation new_array: sorted_array map_keycmp "arraymap_new None capacity" for capacity
  by unfold_locales (simp_all add: am_ok_def arraymap_new_def am_ents_def asc_def)

lemma sorted_arrayI: "comparator (am_comp m) \<Longrightarrow> am_ok m \<Longrightarrow> sorted_array (am_comp m) m"
  by (simp add: sorted_array_def sorted_array_axioms_def)

subsection \<open>Properties\<close>





text \<open>
  The first entry. With two or more entries, looking up the first key, or one below it,
  finds nothing, although the key is there; with one entry, or none, looking up a key below
  the first slot's never ends, whatever the fuel.
\<close>

theorem arraymap_first_lost:
  assumes "comparator (am_comp m)" "am_ok m" "0 < am_capacity m"
  shows "(2 \<le> am_count m \<and> am_comp m k (fst (am_data m ! 0)) \<le> 0 \<and> am_count m < n \<longrightarrow> arraymap_get n m k MAP_EQ = Inr 0) \<and>
    (am_count m \<le> 1 \<and> am_comp m k (fst (am_data m ! 0)) < 0 \<longrightarrow> arraymap_get n m k cond = Inl OutOfFuel)"
proof -
  have s: "sorted_array (am_comp m) m" using sorted_arrayI assms by blast
  have "arraymap_get n m k MAP_EQ = Inr 0"
    if "2 \<le> am_count m" "am_comp m k (fst (am_data m ! 0)) \<le> 0" "am_count m < n"
    using sorted_array.get_first_misses [OF s that(1,2), of "am_count m" n] that
    by (simp add: arraymap_get_def arraymap_get_index_def)
  moreover have "arraymap_get n m k cond = Inl OutOfFuel"
    if "am_count m \<le> 1" "am_comp m k (fst (am_data m ! 0)) < 0"
    using sorted_array.get_stuck [OF s that(1) assms(3) that(2), of 0 "int (am_count m)" n cond] that(1)
    by (cases "am_count m") (simp_all add: arraymap_get_def arraymap_get_index_def)
  ultimately show ?thesis by blast
qed

theorem arraymap_first_lost_witness:
  "arraymap_get 4 demo_am 2 MAP_EQ = Inr 0 \<and> (\<exists>e\<in>set (am_ents demo_am). fst e = 2)"
proof -
  have d: "am_comp demo_am = map_keycmp" "am_count demo_am = 3" "am_capacity demo_am = 4" "am_data demo_am ! 0 = (2, 20)"
    by (simp_all add: demo_am_def)
  then have "comparator (am_comp demo_am)" using keycmp.comparator_axioms by simp
  from arraymap_first_lost [OF this demo_am_ok, of 2 4 MAP_EQ] d show ?thesis
    by (simp add: demo_am_ents map_keycmp_def)
qed

end
