(* ===== verification/Vector.thy ===== *)
theory Vector
  imports Prelude
begin

text \<open>
  The radix tables of \<^verbatim>\<open>libk/vector.c\<close>: a table has a level and 64 entries, which are data
  at level 0 and pointers to tables of the next lower level above. The store maps addresses
  to tables; the addresses \<^verbatim>\<open>slab_calloc(tables)\<close> will return are a list. An entry pointer is
  a table and an index, and reading or writing through it outside the 64 entries is
  \<open>BadAccess\<close>. Keys are natural numbers below \<open>2 ^ 32\<close>; a shift of a 32-bit word by 32 bits
  or more is undefined in C and is \<open>BadAccess\<close> too.
\<close>

record vector_table_t =
  v_level :: nat
  v_d :: "nat \<Rightarrow> u32"

type_synonym vstore = "addr \<Rightarrow> vector_table_t"
type_synonym vstate = "vstore \<times> addr list"

definition vector_table_new :: "vstate \<Rightarrow> nat \<Rightarrow> (vstate \<times> addr) res" where
  "vector_table_new s level =
     (case snd s of
        [] \<Rightarrow> Inl (Throw OutOfMemoryException)
      | p # free \<Rightarrow> Inr (((fst s)(p := \<lparr>v_level = level, v_d = \<lambda>_. 0\<rparr>), free), p))"

definition set_d :: "vstore \<Rightarrow> addr \<Rightarrow> nat \<Rightarrow> u32 \<Rightarrow> vstore" where
  "set_d st p i v = st(p := (st p)\<lparr>v_d := (v_d (st p))(i := v)\<rparr>)"

fun vector_entry_get :: "nat \<Rightarrow> vstate \<Rightarrow> addr \<Rightarrow> nat \<Rightarrow> bool \<Rightarrow> (vstate \<times> (addr \<times> nat) option) res" where
  "vector_entry_get 0 s table i create = Inl OutOfFuel"
| "vector_entry_get (Suc n) s table i create =
     (let level = v_level (fst s table) in
      if level \<noteq> 0 then
        let shift = 6 * level in
        if 32 \<le> shift then Inl BadAccess
        else
          let index = i div 2 ^ shift in
          if 64 \<le> index then Inr (s, None)
          else if v_d (fst s table) index = 0 then
            if create then
              bindE (vector_table_new s (level - 1)) (\<lambda>((st, free), p).
                let st = set_d st table index p in
                vector_entry_get n (st, free) (v_d (st table) index) (i mod 2 ^ shift) create)
            else Inr (s, None)
          else vector_entry_get n s (v_d (fst s table) index) (i mod 2 ^ shift) create
      else Inr (s, Some (table, i)))"

definition entry_read :: "vstore \<Rightarrow> addr \<times> nat \<Rightarrow> u32 res" where
  "entry_read st e = (if snd e < 64 then Inr (v_d (st (fst e)) (snd e)) else Inl BadAccess)"

text \<open>A vector is the pointer to its top table.\<close>

fun vector_checksize :: "nat \<Rightarrow> vstate \<Rightarrow> addr \<Rightarrow> nat \<Rightarrow> (vstate \<times> addr) res" where
  "vector_checksize 0 s table i = Inl OutOfFuel"
| "vector_checksize (Suc n) s table i =
     (let shift = 6 * (v_level (fst s table) + 1) in
      if 32 \<le> shift then Inl BadAccess
      else if 2 ^ shift < i then
        bindE (vector_table_new s (v_level (fst s table) + 1)) (\<lambda>((st, free), p).
          vector_checksize n (set_d st p 0 table, free) p i)
      else Inr (s, table))"

definition vector_put :: "nat \<Rightarrow> vstate \<Rightarrow> addr \<Rightarrow> nat \<Rightarrow> u32 \<Rightarrow> (vstate \<times> addr \<times> u32) res" where
  "vector_put n s v i d =
     bindE (vector_checksize n s v i) (\<lambda>(s, v).
     bindE (vector_entry_get n s v i True) (\<lambda>((st, free), entry).
     case entry of
       None \<Rightarrow> Inl NullDeref
     | Some e \<Rightarrow> bindE (entry_read st e) (\<lambda>old. Inr ((set_d st (fst e) (snd e) d, free), v, old))))"

definition vector_get :: "nat \<Rightarrow> vstate \<Rightarrow> addr \<Rightarrow> nat \<Rightarrow> u32 res" where
  "vector_get n s v i =
     bindE (vector_entry_get n s v i False) (\<lambda>(s, entry).
     case entry of None \<Rightarrow> Inr 0 | Some e \<Rightarrow> entry_read (fst s) e)"

text \<open>The walk: \<open>k\<close> counts the entries of the table that are left.\<close>

function (sequential) vector_walk_table ::
  "nat \<Rightarrow> vstore \<Rightarrow> addr \<Rightarrow> nat \<Rightarrow> nat \<Rightarrow> ('p \<Rightarrow> nat \<Rightarrow> u32 \<Rightarrow> 'p) \<Rightarrow> 'p \<Rightarrow> 'p res" where
  "vector_walk_table n st t base 0 f arg = Inr arg"
| "vector_walk_table 0 st t base (Suc k) f arg = Inl OutOfFuel"
| "vector_walk_table (Suc n) st t base (Suc k) f arg =
     (let i = 64 - Suc k in
      bindE (if v_d (st t) i \<noteq> 0 then
               if v_level (st t) \<noteq> 0 then vector_walk_table n st (v_d (st t) i) ((base + i) * 64) 64 f arg
               else Inr (f arg (base + i) (v_d (st t) i))
             else Inr arg)
        (\<lambda>arg. vector_walk_table (Suc n) st t base k f arg))"
  by pat_completeness auto
termination by (relation "(\<lambda>(n, st, t, base, k, f, arg). n) <*mlex*> measure (\<lambda>(n, st, t, base, k, f, arg). k)")
  (auto simp: mlex_less mlex_leq wf_mlex)

definition vector_walk :: "nat \<Rightarrow> vstore \<Rightarrow> addr \<Rightarrow> ('p \<Rightarrow> nat \<Rightarrow> u32 \<Rightarrow> 'p) \<Rightarrow> 'p \<Rightarrow> 'p res" where
  "vector_walk n st v f arg = (if v \<noteq> 0 then vector_walk_table n st v 0 64 f arg else Inr arg)"

definition vector_new :: "vstate \<Rightarrow> (vstate \<times> addr) res" where
  "vector_new s = vector_table_new s 0"

subsection \<open>The table a vector stands for\<close>

fun vfoot :: "vstore \<Rightarrow> nat \<Rightarrow> addr \<Rightarrow> addr set" where
  "vfoot st 0 p = {p}"
| "vfoot st (Suc l) p = insert p (\<Union>i\<in>{i. i < 64 \<and> v_d (st p) i \<noteq> 0}. vfoot st l (v_d (st p) i))"

fun vok :: "vstore \<Rightarrow> nat \<Rightarrow> addr \<Rightarrow> bool" where
  "vok st 0 p \<longleftrightarrow> p \<noteq> 0 \<and> v_level (st p) = 0"
| "vok st (Suc l) p \<longleftrightarrow> p \<noteq> 0 \<and> v_level (st p) = Suc l \<and>
     (\<forall>i<64. v_d (st p) i \<noteq> 0 \<longrightarrow> vok st l (v_d (st p) i) \<and> p \<notin> vfoot st l (v_d (st p) i)) \<and>
     (\<forall>i<64. \<forall>j<64. i \<noteq> j \<and> v_d (st p) i \<noteq> 0 \<and> v_d (st p) j \<noteq> 0 \<longrightarrow>
        vfoot st l (v_d (st p) i) \<inter> vfoot st l (v_d (st p) j) = {})"

fun vlook :: "vstore \<Rightarrow> nat \<Rightarrow> addr \<Rightarrow> nat \<Rightarrow> u32" where
  "vlook st 0 p i = v_d (st p) i"
| "vlook st (Suc l) p i =
     (let q = v_d (st p) (i div 64 ^ Suc l) in if q = 0 then 0 else vlook st l q (i mod 64 ^ Suc l))"

lemma vok_level: "vok st l p \<Longrightarrow> p \<noteq> 0 \<and> v_level (st p) = l"
  by (cases l) auto

lemma vfoot_self: "p \<in> vfoot st l p"
  by (cases l) auto

lemma vfoot_child: "i < 64 \<Longrightarrow> v_d (st p) i \<noteq> 0 \<Longrightarrow> vfoot st l (v_d (st p) i) \<subseteq> vfoot st (Suc l) p"
  by auto

lemma vframe:
  "\<forall>a\<in>vfoot st l p. st' a = st a \<Longrightarrow>
   vfoot st' l p = vfoot st l p \<and> vok st' l p = vok st l p \<and> (\<forall>i < 64 ^ Suc l. vlook st' l p i = vlook st l p i)"
proof (induction l arbitrary: p)
  case (Suc l)
  have p: "st' p = st p" using Suc.prems by simp
  have ch: "vfoot st' l q = vfoot st l q" "vok st' l q = vok st l q" "\<And>i. i < 64 ^ Suc l \<Longrightarrow> vlook st' l q i = vlook st l q i"
    if "i < 64" "q = v_d (st p) i" "q \<noteq> 0" for i q
    using Suc.IH [of q] Suc.prems vfoot_child [of i st p l] that by auto
  have "vlook st' (Suc l) p i = vlook st (Suc l) p i" if i: "i < 64 ^ Suc (Suc l)" for i
  proof -
    have "i div 64 ^ Suc l < 64" using i by (simp add: less_mult_imp_div_less)
    moreover have "i mod 64 ^ Suc l < 64 ^ Suc l" by simp
    ultimately show ?thesis using ch(3) p by (simp add: Let_def)
  qed
  moreover have "vfoot st' (Suc l) p = vfoot st (Suc l) p" using p ch(1) by auto
  moreover have "vok st' (Suc l) p = vok st (Suc l) p" using p ch(1,2) by (simp cong: conj_cong imp_cong)
  ultimately show ?case by blast
qed simp

text \<open>The tables on the way to a key exist, and the entry they lead to.\<close>

fun vpath :: "vstore \<Rightarrow> nat \<Rightarrow> addr \<Rightarrow> nat \<Rightarrow> bool" where
  "vpath st 0 p i \<longleftrightarrow> True"
| "vpath st (Suc l) p i \<longleftrightarrow>
     v_d (st p) (i div 64 ^ Suc l) \<noteq> 0 \<and> vpath st l (v_d (st p) (i div 64 ^ Suc l)) (i mod 64 ^ Suc l)"

fun vloc :: "vstore \<Rightarrow> nat \<Rightarrow> addr \<Rightarrow> nat \<Rightarrow> addr \<times> nat" where
  "vloc st 0 p i = (p, i)"
| "vloc st (Suc l) p i = vloc st l (v_d (st p) (i div 64 ^ Suc l)) (i mod 64 ^ Suc l)"

lemma radix_index: "i < 64 ^ Suc (Suc l) \<Longrightarrow> i div 64 ^ Suc l < (64 :: nat)"
  by (simp add: less_mult_imp_div_less)

lemma radix_eq: "(i :: nat) = j \<longleftrightarrow> i div m = j div m \<and> i mod m = j mod m"
  by (metis div_mult_mod_eq)

lemma set_d_other: "a \<noteq> q \<Longrightarrow> set_d st q k v a = st a"
  by (simp add: set_d_def)

lemma vlook_at: "vpath st l p i \<Longrightarrow> vlook st l p i = v_d (st (fst (vloc st l p i))) (snd (vloc st l p i))"
  by (induction l arbitrary: p i) (simp_all add: Let_def)

lemma vlook_nopath: "\<not> vpath st l p i \<Longrightarrow> vlook st l p i = 0"
  by (induction l arbitrary: p i) (auto simp: Let_def)

lemma vset:
  assumes "vok st l p" "vpath st l p i" "i < 64 ^ Suc l" "vloc st l p i = (q, k)"
  shows "k < 64 \<and> q \<in> vfoot st l p \<and> vok (set_d st q k v) l p \<and> vfoot (set_d st q k v) l p = vfoot st l p \<and>
    (\<forall>j < 64 ^ Suc l. vlook (set_d st q k v) l p j = (if j = i then v else vlook st l p j))"
  using assms
proof (induction l arbitrary: p i)
  case 0
  then show ?case by (simp add: set_d_def)
next
  case (Suc l)
  let ?c = "i div 64 ^ Suc l" and ?M = "64 ^ Suc l :: nat"
  let ?r = "v_d (st p) ?c"
  let ?st = "set_d st q k v"
  have c: "?c < 64" using Suc.prems(3) by (rule radix_index)
  have r: "?r \<noteq> 0" "vpath st l ?r (i mod ?M)" "vok st l ?r" "p \<notin> vfoot st l ?r" using Suc.prems(1,2) c by auto
  have IH: "k < 64" "q \<in> vfoot st l ?r" "vok ?st l ?r" "vfoot ?st l ?r = vfoot st l ?r"
    "\<And>j. j < 64 ^ Suc l \<Longrightarrow> vlook ?st l ?r j = (if j = i mod ?M then v else vlook st l ?r j)"
    using Suc.IH [OF r(3,2)] Suc.prems(4) by simp_all
  have p: "?st p = st p" using IH(2) r(4) by (intro set_d_other) auto
  have oth: "vfoot ?st l s = vfoot st l s" "vok ?st l s = vok st l s" "\<And>j. j < ?M \<Longrightarrow> vlook ?st l s j = vlook st l s j"
    if "d < 64" "d \<noteq> ?c" "s = v_d (st p) d" "s \<noteq> 0" for d s
  proof -
    have "q \<notin> vfoot st l s" using Suc.prems(1) that c r(1) IH(2) by auto
    then have "\<forall>a\<in>vfoot st l s. ?st a = st a" using set_d_other by metis
    from vframe [OF this] show "vfoot ?st l s = vfoot st l s" "vok ?st l s = vok st l s"
      "\<And>j. j < ?M \<Longrightarrow> vlook ?st l s j = vlook st l s j" by blast+
  qed
  have foot: "vfoot ?st l (v_d (st p) d) = vfoot st l (v_d (st p) d)" if "d < 64" "v_d (st p) d \<noteq> 0" for d
    using oth(1) [OF that(1) _ refl that(2)] IH(4) by (cases "d = ?c") auto
  have ok: "vok ?st l (v_d (st p) d)" if "d < 64" "v_d (st p) d \<noteq> 0" for d
    using oth(2) [OF that(1) _ refl that(2)] IH(3) Suc.prems(1) that by (cases "d = ?c") auto
  have "vlook ?st (Suc l) p j = (if j = i then v else vlook st (Suc l) p j)" if j: "j < 64 ^ Suc (Suc l)" for j
  proof (cases "j div ?M = ?c")
    case True
    then show ?thesis using IH(5) [of "j mod ?M"] p r(1) radix_eq [of j i ?M] by (simp add: Let_def)
  next
    case False
    then show ?thesis
      using oth(3) [OF radix_index [OF j] False refl, of "j mod ?M"] p radix_eq [of j i ?M] by (auto simp: Let_def)
  qed
  moreover have "vfoot ?st (Suc l) p = vfoot st (Suc l) p" using p foot by auto
  moreover have "vok ?st (Suc l) p" using Suc.prems(1) p ok foot by simp
  moreover have "q \<in> vfoot st (Suc l) p" using IH(2) c r(1) by auto
  ultimately show ?case using IH(1) by blast
qed

lemma two_pow_64: "(2 :: nat) ^ (6 * l) = 64 ^ l"
  by (simp add: power_mult)

lemma entry_get_read:
  assumes "vok st l p" "i < 64 ^ Suc l" "l < n" "l \<le> 5"
  shows "vector_entry_get n (st, free) p i False = Inr ((st, free), if vpath st l p i then Some (vloc st l p i) else None)"
  using assms
proof (induction l arbitrary: p i n)
  case 0
  then show ?case by (cases n) auto
next
  case (Suc l)
  then obtain n' where n: "n = Suc n'" "l < n'" by (cases n) auto
  have c: "i div 64 ^ Suc l < 64" using radix_index Suc.prems(2) .
  have lv: "v_level (st p) = Suc l" using vok_level [OF Suc.prems(1)] by simp
  have "vector_entry_get n' (st, free) (v_d (st p) (i div 64 ^ Suc l)) (i mod 64 ^ Suc l) False = Inr ((st, free),
      if vpath st l (v_d (st p) (i div 64 ^ Suc l)) (i mod 64 ^ Suc l)
      then Some (vloc st l (v_d (st p) (i div 64 ^ Suc l)) (i mod 64 ^ Suc l)) else None)"
    if "v_d (st p) (i div 64 ^ Suc l) \<noteq> 0"
    using Suc.prems n c that by (intro Suc.IH) auto
  then show ?case using n(1) lv c Suc.prems(4) two_pow_64 [of "Suc l"] by (simp add: Let_def)
qed

lemma vok_new:
  assumes "st p = \<lparr>v_level = l, v_d = \<lambda>_. 0\<rparr>" "p \<noteq> 0"
  shows "vok st l p" "vfoot st l p = {p}" "vlook st l p i = 0"
  using assms by (cases l; simp add: Let_def)+

text \<open>A table in place after some of its empty subtables were added from the addresses \<open>us\<close>.\<close>

definition grown :: "vstore \<Rightarrow> vstore \<Rightarrow> addr list \<Rightarrow> nat \<Rightarrow> addr \<Rightarrow> bool" where
  "grown st st' us l p \<longleftrightarrow> vok st' l p \<and> vfoot st' l p \<subseteq> vfoot st l p \<union> set us \<and>
     (\<forall>j < 64 ^ Suc l. vlook st' l p j = vlook st l p j) \<and> (\<forall>a. a \<notin> vfoot st l p \<union> set us \<longrightarrow> st' a = st a)"

lemma grown_refl: "vok st l p \<Longrightarrow> grown st st [] l p"
  by (simp add: grown_def)

lemma grown_child:
  assumes ok: "vok st (Suc l) p" and c: "c < 64" "v_d (st p) c \<noteq> 0" and g: "grown st st' us l (v_d (st p) c)"
    and us: "set us \<inter> vfoot st (Suc l) p = {}"
  shows "grown st st' us (Suc l) p" "st' p = st p"
proof -
  let ?r = "v_d (st p) c"
  have r: "vok st l ?r" "p \<notin> vfoot st l ?r" using ok c by auto
  have out: "\<And>a. a \<notin> vfoot st l ?r \<Longrightarrow> a \<notin> set us \<Longrightarrow> st' a = st a" using g by (auto simp: grown_def)
  show p: "st' p = st p" using out r(2) us by auto
  have oth: "vfoot st' l (v_d (st p) d) = vfoot st l (v_d (st p) d)" "vok st' l (v_d (st p) d)"
    "\<And>j. j < 64 ^ Suc l \<Longrightarrow> vlook st' l (v_d (st p) d) j = vlook st l (v_d (st p) d) j"
    if d: "d < 64" "d \<noteq> c" "v_d (st p) d \<noteq> 0" for d
  proof -
    have "vfoot st l (v_d (st p) d) \<inter> vfoot st l ?r = {}" using ok c d by auto
    moreover have "vfoot st l (v_d (st p) d) \<subseteq> vfoot st (Suc l) p" using vfoot_child d by metis
    ultimately have "\<forall>a\<in>vfoot st l (v_d (st p) d). st' a = st a" using out us by blast
    from vframe [OF this] show "vfoot st' l (v_d (st p) d) = vfoot st l (v_d (st p) d)" "vok st' l (v_d (st p) d)"
      "\<And>j. j < 64 ^ Suc l \<Longrightarrow> vlook st' l (v_d (st p) d) j = vlook st l (v_d (st p) d) j" using ok d by auto
  qed
  have foot: "vfoot st' l (v_d (st p) d) \<subseteq> vfoot st l (v_d (st p) d) \<union> (if d = c then set us else {})"
    if "d < 64" "v_d (st p) d \<noteq> 0" for d
    using g oth(1) [of d] that by (cases "d = c") (auto simp: grown_def)
  have okc: "vok st' l (v_d (st p) d)" if "d < 64" "v_d (st p) d \<noteq> 0" for d
    using g oth(2) [of d] that by (cases "d = c") (auto simp: grown_def)
  have dj: "vfoot st' l (v_d (st p) d) \<inter> vfoot st' l (v_d (st p) e) = {}"
    if "d < 64" "e < 64" "d \<noteq> e" "v_d (st p) d \<noteq> 0" "v_d (st p) e \<noteq> 0" for d e
  proof -
    have "vfoot st l (v_d (st p) d) \<inter> vfoot st l (v_d (st p) e) = {}" using ok that by auto
    moreover have "vfoot st l (v_d (st p) d) \<inter> set us = {}" "vfoot st l (v_d (st p) e) \<inter> set us = {}"
      using us vfoot_child [of d st p l] vfoot_child [of e st p l] that by blast+
    moreover have "vfoot st' l (v_d (st p) d) \<subseteq> vfoot st l (v_d (st p) d) \<union> (if d = c then set us else {})"
      "vfoot st' l (v_d (st p) e) \<subseteq> vfoot st l (v_d (st p) e) \<union> (if e = c then set us else {})"
      using foot that by blast+
    ultimately show ?thesis using that(3) by (cases "d = c"; cases "e = c") (simp_all, blast+)
  qed
  have "p \<notin> vfoot st' l (v_d (st p) d)" if "d < 64" "v_d (st p) d \<noteq> 0" for d
    using foot [OF that] ok that us by (auto split: if_splits)
  then have "vok st' (Suc l) p" using ok p okc dj by simp
  moreover have "vfoot st' (Suc l) p \<subseteq> vfoot st (Suc l) p \<union> set us" using p foot by (fastforce split: if_splits)
  moreover have "vlook st' (Suc l) p j = vlook st (Suc l) p j" if "j < 64 ^ Suc (Suc l)" for j
    using g oth(3) [OF radix_index [OF that], of "j mod 64 ^ Suc l"] p
    by (cases "j div 64 ^ Suc l = c") (auto simp: grown_def Let_def)
  moreover have "st' a = st a" if "a \<notin> vfoot st (Suc l) p \<union> set us" for a
    using out that vfoot_child [of c st p l] c by blast
  ultimately show "grown st st' us (Suc l) p" unfolding grown_def by blast
qed

text \<open>Hanging a new empty table into an unused entry.\<close>

lemma grown_new:
  assumes ok: "vok st (Suc l) p" and c: "c < 64" "v_d (st p) c = 0" and f: "f \<noteq> 0" "f \<notin> vfoot st (Suc l) p"
  defines "st' \<equiv> set_d (st(f := \<lparr>v_level = l, v_d = \<lambda>_. 0\<rparr>)) p c f"
  shows "grown st st' [f] (Suc l) p" "v_d (st' p) c = f"
proof -
  have pf: "p \<noteq> f" using f(2) by auto
  have stp: "st' p = (st p)\<lparr>v_d := (v_d (st p))(c := f)\<rparr>" and stf: "st' f = \<lparr>v_level = l, v_d = \<lambda>_. 0\<rparr>"
    and sto: "\<And>a. a \<noteq> p \<Longrightarrow> a \<noteq> f \<Longrightarrow> st' a = st a" using pf by (auto simp: st'_def set_d_def)
  show "v_d (st' p) c = f" by (simp add: stp)
  note new = vok_new [of st' f l, OF stf f(1)]
  have oth: "vfoot st' l (v_d (st p) d) = vfoot st l (v_d (st p) d)" "vok st' l (v_d (st p) d)"
    "\<And>j. j < 64 ^ Suc l \<Longrightarrow> vlook st' l (v_d (st p) d) j = vlook st l (v_d (st p) d) j"
    "p \<notin> vfoot st l (v_d (st p) d)" "f \<notin> vfoot st l (v_d (st p) d)"
    if d: "d < 64" "v_d (st p) d \<noteq> 0" for d
  proof -
    show nf: "p \<notin> vfoot st l (v_d (st p) d)" "f \<notin> vfoot st l (v_d (st p) d)"
      using ok d f(2) vfoot_child [of d st p l] by auto
    then have "\<forall>a\<in>vfoot st l (v_d (st p) d). st' a = st a" using sto by metis
    from vframe [OF this] show "vfoot st' l (v_d (st p) d) = vfoot st l (v_d (st p) d)" "vok st' l (v_d (st p) d)"
      "\<And>j. j < 64 ^ Suc l \<Longrightarrow> vlook st' l (v_d (st p) d) j = vlook st l (v_d (st p) d) j" using ok d by auto
  qed
  have dp: "v_d (st' p) d = (if d = c then f else v_d (st p) d)" for d by (simp add: stp)
  have ch: "vok st' l (v_d (st' p) d) \<and> p \<notin> vfoot st' l (v_d (st' p) d)" if "d < 64" "v_d (st' p) d \<noteq> 0" for d
    using that oth(1,2,4) [of d] new pf by (cases "d = c") (auto simp: dp)
  have dj: "vfoot st' l (v_d (st' p) d) \<inter> vfoot st' l (v_d (st' p) e) = {}"
    if "d < 64" "e < 64" "d \<noteq> e" "v_d (st' p) d \<noteq> 0" "v_d (st' p) e \<noteq> 0" for d e
    using that oth(1,5) [of d] oth(1,5) [of e] new ok by (cases "d = c"; cases "e = c") (auto simp: dp)
  have "vok st' (Suc l) p" using ok ch dj stp by simp
  moreover have "vfoot st' (Suc l) p \<subseteq> vfoot st (Suc l) p \<union> {f}"
    using oth(1) new(2) c by (auto simp: dp split: if_splits)
  moreover have "vlook st' (Suc l) p j = vlook st (Suc l) p j" if "j < 64 ^ Suc (Suc l)" for j
    using oth(3) [OF radix_index [OF that], of "j mod 64 ^ Suc l"] new(3) c f(1)
    by (cases "j div 64 ^ Suc l = c") (auto simp: Let_def dp)
  moreover have "st' a = st a" if "a \<notin> vfoot st (Suc l) p \<union> {f}" for a using sto that by auto
  ultimately show "grown st st' [f] (Suc l) p" unfolding grown_def by auto
qed

lemma grown_trans: "grown st st1 us l p \<Longrightarrow> grown st1 st2 vs l p \<Longrightarrow> grown st st2 (us @ vs) l p"
  unfolding grown_def by fastforce

lemma entry_get_create:
  assumes "vok st l p" "i < 64 ^ Suc l" "l < n" "l \<le> 5" "l \<le> length free"
    "distinct free" "0 \<notin> set free" "set free \<inter> vfoot st l p = {}"
  shows "\<exists>st' us free'. vector_entry_get n (st, free) p i True = Inr ((st', free'), Some (vloc st' l p i)) \<and>
    free = us @ free' \<and> length us \<le> l \<and> grown st st' us l p \<and> vpath st' l p i"
  using assms
proof (induction l arbitrary: st p i n free)
  case 0
  then show ?case by (cases n) (auto intro: grown_refl)
next
  case (Suc l)
  obtain n' where n: "n = Suc n'" "l < n'" using Suc.prems(3) by (cases n) auto
  define c j where "c = i div 64 ^ Suc l" and "j = i mod 64 ^ Suc l"
  have c: "c < 64" unfolding c_def using radix_index Suc.prems(2) .
  have j: "j < 64 ^ Suc l" by (simp add: j_def)
  have lv: "v_level (st p) = Suc l" using vok_level [OF Suc.prems(1)] by simp
  have "\<exists>st1 us1 free1. free = us1 @ free1 \<and> length us1 \<le> 1 \<and> grown st st1 us1 (Suc l) p \<and> v_d (st1 p) c \<noteq> 0 \<and>
      vector_entry_get n (st, free) p i True = vector_entry_get n' (st1, free1) (v_d (st1 p) c) j True"
  proof (cases "v_d (st p) c = 0")
    case False
    have "vector_entry_get n (st, free) p i True = vector_entry_get n' (st, free) (v_d (st p) c) j True"
      using n(1) lv c False Suc.prems(4) two_pow_64 [of "Suc l"] by (simp add: Let_def c_def j_def)
    then show ?thesis using False grown_refl [OF Suc.prems(1)] by (intro exI [of _ st] exI [of _ "[]"] exI [of _ free]) simp
  next
    case True
    obtain f free1 where fr: "free = f # free1" using Suc.prems(5) by (cases free) auto
    let ?st = "set_d (st(f := \<lparr>v_level = l, v_d = \<lambda>_. 0\<rparr>)) p c f"
    have f: "f \<noteq> 0" "f \<notin> vfoot st (Suc l) p" using Suc.prems(7,8) fr by auto
    note g = grown_new [OF Suc.prems(1) c True f]
    have "vector_entry_get n (st, free) p i True = vector_entry_get n' (?st, free1) (v_d (?st p) c) j True"
      using n(1) lv c True Suc.prems(4) two_pow_64 [of "Suc l"] fr
      by (simp add: Let_def c_def j_def vector_table_new_def)
    then show ?thesis using g f fr by (intro exI [of _ ?st] exI [of _ "[f]"] exI [of _ free1]) simp
  qed
  then obtain st1 us1 free1 where s1: "free = us1 @ free1" "length us1 \<le> 1" "grown st st1 us1 (Suc l) p" "v_d (st1 p) c \<noteq> 0"
    "vector_entry_get n (st, free) p i True = vector_entry_get n' (st1, free1) (v_d (st1 p) c) j True" by blast
  have ok1: "vok st1 (Suc l) p" and ft: "vfoot st1 (Suc l) p \<subseteq> vfoot st (Suc l) p \<union> set us1"
    using s1(3) unfolding grown_def by blast+
  have "set free1 \<inter> set us1 = {}" "set free1 \<subseteq> set free" using s1(1) Suc.prems(6) by auto
  then have fd: "set free1 \<inter> vfoot st1 (Suc l) p = {}" using ft Suc.prems(8) by blast
  have sub: "vfoot st1 l (v_d (st1 p) c) \<subseteq> vfoot st1 (Suc l) p" using vfoot_child c s1(4) by metis
  have "vok st1 l (v_d (st1 p) c)" using ok1 c s1(4) by simp
  moreover have "l \<le> 5" "l \<le> length free1" "distinct free1" "0 \<notin> set free1"
    using s1(1,2) Suc.prems(4-7) by simp_all
  moreover have "set free1 \<inter> vfoot st1 l (v_d (st1 p) c) = {}" using fd sub by blast
  ultimately have ch: "vok st1 l (v_d (st1 p) c)" "l \<le> 5" "l \<le> length free1" "distinct free1" "0 \<notin> set free1"
    "set free1 \<inter> vfoot st1 l (v_d (st1 p) c) = {}" by simp_all
  from Suc.IH [OF ch(1) j n(2) ch(2-6)] obtain st' us free' where
    s2: "vector_entry_get n' (st1, free1) (v_d (st1 p) c) j True = Inr ((st', free'), Some (vloc st' l (v_d (st1 p) c) j))"
      "free1 = us @ free'" "length us \<le> l" "grown st1 st' us l (v_d (st1 p) c)" "vpath st' l (v_d (st1 p) c) j" by blast
  have "set us \<inter> vfoot st1 (Suc l) p = {}" using fd s2(2) by auto
  note g = grown_child [OF ok1 c s1(4) s2(4) this]
  have "vpath st' (Suc l) p i" "vloc st' (Suc l) p i = vloc st' l (v_d (st1 p) c) j"
    using s2(5) s1(4) g(2) by (simp_all add: c_def j_def)
  then show ?case using s1 s2 grown_trans [OF s1(3) g(1)]
    by (intro exI [of _ st'] exI [of _ "us1 @ us"] exI [of _ free']) simp
qed

subsection \<open>Growing the vector at the top\<close>

lemma extend_top:
  assumes ok: "vok st l p" and f: "f \<noteq> 0" "f \<notin> vfoot st l p"
  defines "st' \<equiv> set_d (st(f := \<lparr>v_level = Suc l, v_d = \<lambda>_. 0\<rparr>)) f 0 p"
  shows "vok st' (Suc l) f" "vfoot st' (Suc l) f = insert f (vfoot st l p)"
    "j < 64 ^ Suc (Suc l) \<Longrightarrow> vlook st' (Suc l) f j = (if j < 64 ^ Suc l then vlook st l p j else 0)"
proof -
  have "\<forall>a\<in>vfoot st l p. st' a = st a" using f(2) by (auto simp: st'_def set_d_def)
  note fr = vframe [OF this]
  have sf: "v_level (st' f) = Suc l" "\<And>d. v_d (st' f) d = (if d = 0 then p else 0)" by (simp_all add: st'_def set_d_def)
  have p: "p \<noteq> 0" using vok_level [OF ok] by simp
  have fr1: "vfoot st' l p = vfoot st l p" "vok st' l p" using fr ok by blast+
  show "vok st' (Suc l) f" using f fr1 p by (auto simp: sf)
  have "{i. i < 64 \<and> v_d (st' f) i \<noteq> 0} = {0}" using p by (auto simp: sf)
  then show "vfoot st' (Suc l) f = insert f (vfoot st l p)" using fr1 by (simp add: sf)
  have "j div 64 ^ Suc l = 0 \<longleftrightarrow> j < 64 ^ Suc l" by (simp add: div_eq_0_iff)
  then show "vlook st' (Suc l) f j = (if j < 64 ^ Suc l then vlook st l p j else 0)"
    using fr p by (simp add: Let_def sf)
qed

text \<open>The value at a key: 0 beyond the tables.\<close>

definition vval :: "vstore \<Rightarrow> nat \<Rightarrow> addr \<Rightarrow> nat \<Rightarrow> u32" where
  "vval st l p i = (if i < 64 ^ Suc l then vlook st l p i else 0)"

definition vector_at :: "vstate \<Rightarrow> nat \<Rightarrow> addr \<Rightarrow> bool" where
  "vector_at s l p \<longleftrightarrow> vok (fst s) l p \<and> l \<le> 4 \<and> distinct (snd s) \<and> 0 \<notin> set (snd s) \<and> set (snd s) \<inter> vfoot (fst s) l p = {}"

lemma vector_checksize_ok:
  assumes "vector_at (st, free) l p" "i \<le> 64 ^ 5" "4 - l \<le> length free" "5 - l < n"
  shows "\<exists>st' free' p' l'. vector_checksize n (st, free) p i = Inr ((st', free'), p') \<and> vector_at (st', free') l' p' \<and>
    l \<le> l' \<and> i \<le> 64 ^ Suc l' \<and> (\<forall>j. vval st' l' p' j = vval st l p j) \<and> length free = length free' + (l' - l)"
  using assms
proof (induction n arbitrary: st free l p)
  case (Suc n)
  have ok: "vok st l p" "l \<le> 4" "distinct free" "0 \<notin> set free" "set free \<inter> vfoot st l p = {}"
    using Suc.prems(1) by (auto simp: vector_at_def)
  have lv: "v_level (st p) = l" using vok_level [OF ok(1)] by simp
  have sh: "(2 :: nat) ^ (6 * (l + 1)) = 64 ^ Suc l" using two_pow_64 [of "Suc l"] by simp
  show ?case
  proof (cases "64 ^ Suc l < i")
    case False
    then show ?thesis using lv ok(2) sh Suc.prems(1) by (intro exI [of _ st] exI [of _ free] exI [of _ p] exI [of _ l]) simp
  next
    case True
    have l4: "l < 4" using True Suc.prems(2) ok(2) by (cases "l = 4") (auto simp: power_Suc)
    obtain f free1 where fr: "free = f # free1" using Suc.prems(3) l4 by (cases free) auto
    let ?st = "set_d (st(f := \<lparr>v_level = Suc l, v_d = \<lambda>_. 0\<rparr>)) f 0 p"
    have f: "f \<noteq> 0" "f \<notin> vfoot st l p" using ok fr by auto
    note ex = extend_top [OF ok(1) f]
    have run: "vector_checksize (Suc n) (st, free) p i = vector_checksize n (?st, free1) f i"
      using lv ok(2) sh True fr by (simp add: Let_def vector_table_new_def)
    have at: "vector_at (?st, free1) (Suc l) f" using ex(1,2) ok l4 fr by (auto simp: vector_at_def)
    have v: "vval ?st (Suc l) f j = vval st l p j" for j
    proof -
      have "(64 :: nat) ^ Suc l \<le> 64 ^ Suc (Suc l)" by (rule power_increasing) auto
      then have "j < 64 ^ Suc l \<Longrightarrow> j < 64 ^ Suc (Suc l)" by (rule less_le_trans [rotated])
      then show ?thesis using ex(3) [of j] by (auto simp: vval_def simp del: vlook.simps power_Suc)
    qed
    have "4 - Suc l \<le> length free1" "5 - Suc l < n" using Suc.prems(3,4) fr l4 by auto
    from Suc.IH [OF at Suc.prems(2) this] obtain st' free' p' l' where
      r: "vector_checksize n (?st, free1) f i = Inr ((st', free'), p')" "vector_at (st', free') l' p'"
      "Suc l \<le> l'" "i \<le> 64 ^ Suc l'" "\<forall>j. vval st' l' p' j = vval ?st (Suc l) f j" "length free1 = length free' + (l' - Suc l)"
      by blast
    have "\<forall>j. vval st' l' p' j = vval st l p j" "l \<le> l'" "length free = length free' + (l' - l)" using r(3,5,6) v fr by simp_all
    then show ?thesis using r(1,2,4) unfolding run by blast
  qed
qed simp

lemma vector_put_ok:
  assumes "vector_at (st, free) l v" "i < 64 ^ 5" "\<And>e. i \<noteq> 64 ^ Suc e" "8 \<le> length free" "6 < n"
  shows "\<exists>st' free' v' l'. vector_put n (st, free) v i d = Inr ((st', free'), v', vval st l v i) \<and>
    vector_at (st', free') l' v' \<and> l \<le> l' \<and> i < 64 ^ Suc l' \<and> length free \<le> length free' + 8 \<and>
    (\<forall>j. vval st' l' v' j = (if j = i then d else vval st l v j))"
proof -
  have i5: "i \<le> 64 ^ 5" using assms(2) by simp
  have "4 - l \<le> length free" "5 - l < n" using assms(4,5) by auto
  then obtain st1 free1 v1 l1 where
    c: "vector_checksize n (st, free) v i = Inr ((st1, free1), v1)" "vector_at (st1, free1) l1 v1" "l \<le> l1"
      "i \<le> 64 ^ Suc l1" "\<forall>j. vval st1 l1 v1 j = vval st l v j" "length free = length free1 + (l1 - l)"
    using vector_checksize_ok [OF assms(1) i5] by blast
  have il: "i < 64 ^ Suc l1" using c(4) assms(3) [of l1] by linarith
  have at: "vok st1 l1 v1" "l1 \<le> 4" "distinct free1" "0 \<notin> set free1" "set free1 \<inter> vfoot st1 l1 v1 = {}"
    using c(2) by (auto simp: vector_at_def)
  have "l1 < n" "l1 \<le> 5" "l1 \<le> length free1" using at(2) assms(4,5) c(6) by auto
  from entry_get_create [OF at(1) il this at(3-5)] obtain st2 us free2 where
    g: "vector_entry_get n (st1, free1) v1 i True = Inr ((st2, free2), Some (vloc st2 l1 v1 i))" "free1 = us @ free2"
      "length us \<le> l1" "grown st1 st2 us l1 v1" "vpath st2 l1 v1 i" by blast
  obtain q k where qk: "vloc st2 l1 v1 i = (q, k)" by fastforce
  have ok2: "vok st2 l1 v1" "vfoot st2 l1 v1 \<subseteq> vfoot st1 l1 v1 \<union> set us" "\<forall>j<64 ^ Suc l1. vlook st2 l1 v1 j = vlook st1 l1 v1 j"
    using g(4) by (simp_all add: grown_def)
  note s = vset [OF ok2(1) g(5) il qk, of d]
  have "v_d (st2 q) k = vval st l v i" 
    using vlook_at [OF g(5)] qk ok2(3) il c(5) [rule_format, of i] by (simp add: vval_def del: power_Suc)
  then have run: "vector_put n (st, free) v i d = Inr ((set_d st2 q k d, free2), v1, vval st l v i)"
    using c(1) g(1) qk s by (simp add: vector_put_def entry_read_def)
  have "vector_at (set_d st2 q k d, free2) l1 v1"
    using s ok2(2) at g(2) by (auto simp: vector_at_def)
  moreover have "vval (set_d st2 q k d) l1 v1 j = (if j = i then d else vval st1 l1 v1 j)" for j
    using s ok2(3) il by (simp add: vval_def del: power_Suc)
  then have "vval (set_d st2 q k d) l1 v1 j = (if j = i then d else vval st l v j)" for j using c(5) by simp
  moreover have "length free \<le> length free2 + 8" using c(6) g(2,3) at(2) by simp
  ultimately show ?thesis using run c(3) il by blast
qed

lemma entry_get_beyond:
  assumes "v_level (st t) = l" "l \<noteq> 0" "6 * l < 32" "64 \<le> i div 2 ^ (6 * l)"
  shows "vector_entry_get (Suc n) (st, free) t i create = Inr ((st, free), None)"
  using assms by (simp add: Let_def)

lemma vector_get_ok:
  assumes "vector_at (st, free) l v" "i < 64 ^ Suc l \<or> l \<noteq> 0" "4 < n"
  shows "vector_get n (st, free) v i = Inr (vval st l v i)"
proof (cases "i < 64 ^ Suc l")
  case True
  have at: "vok st l v" "l \<le> 4" using assms(1) by (auto simp: vector_at_def)
  have e: "vector_entry_get n (st, free) v i False = Inr ((st, free), if vpath st l v i then Some (vloc st l v i) else None)"
    by (rule entry_get_read [OF at(1) True]) (use at assms(3) in auto)
  show ?thesis
  proof (cases "vpath st l v i")
    case p: True
    obtain q k where qk: "vloc st l v i = (q, k)" by fastforce
    have "k < 64" using vset [OF at(1) p True qk] by blast
    then show ?thesis using e p vlook_at [OF p] qk True by (simp add: vector_get_def entry_read_def vval_def)
  next
    case False
    then show ?thesis using e vlook_nopath [OF False] True by (simp add: vector_get_def vval_def)
  qed
next
  case False
  then obtain k where k: "l = Suc k" using assms(2) by (cases l) auto
  have "vok st l v" "l \<le> 4" using assms(1) by (auto simp: vector_at_def)
  then have l: "l = Suc k" "v_level (st v) = Suc k" "k \<le> 3" using k vok_level [of st l v] by (simp_all del: vok.simps)
  have "64 * 64 ^ Suc k \<le> i" using False l(1) by simp
  then have "64 \<le> i div 64 ^ Suc k" by (simp add: less_eq_div_iff_mult_less_eq del: power_Suc)
  then have d: "64 \<le> i div 2 ^ (6 * Suc k)" unfolding two_pow_64 .
  have "6 * Suc k < 32" using l(3) by simp
  moreover obtain n' where "n = Suc n'" using assms(3) by (cases n) auto
  ultimately have "vector_entry_get n (st, free) v i False = Inr ((st, free), None)"
    using entry_get_beyond [of st v "Suc k" i] l(2) d by blast
  then show ?thesis using False by (simp add: vector_get_def vval_def)
qed

subsection \<open>The walk\<close>

lemma upt_segment: "[i * M..<(i + 1) * M] = map (\<lambda>j. i * M + j) [0..<M]" for M :: nat
  by (rule nth_equalityI) simp_all

lemma walk_segment:
  assumes "\<And>j. j < M \<Longrightarrow> look (i * M + j) = look' j"
  shows "fold (\<lambda>j. g (c + j) (look j)) (filter (\<lambda>j. look j \<noteq> 0) [i * M..<(i + 1) * M]) a =
    fold (\<lambda>j. g (c + i * M + j) (look' j)) (filter (\<lambda>j. look' j \<noteq> 0) [0..<M]) a"
proof -
  have "filter ((\<lambda>j. look j \<noteq> 0) \<circ> (\<lambda>j. i * M + j)) [0..<M] = filter (\<lambda>j. look' j \<noteq> 0) [0..<M]"
    by (rule filter_cong) (simp_all add: assms)
  then show ?thesis unfolding upt_segment filter_map fold_map o_def
    by (intro fold_cong) (auto simp: assms add.assoc)
qed

lemma walk_table_visits:
  fixes f :: "'p \<Rightarrow> nat \<Rightarrow> u32 \<Rightarrow> 'p"
  assumes "vok st l t" "l < n" "k \<le> 64"
  shows "vector_walk_table n st t base k f arg =
    Inr (fold (\<lambda>j a. f a (base * 64 ^ l + j) (vlook st l t j))
      (filter (\<lambda>j. vlook st l t j \<noteq> 0) [(64 - k) * 64 ^ l..<64 * 64 ^ l]) arg)"
  using assms
proof (induction l arbitrary: n t base k arg)
  case 0
  obtain n' where n: "n = Suc n'" using 0(2) by (cases n) auto
  have lv: "v_level (st t) = 0" using 0(1) by simp
  show ?case using 0(3)
  proof (induction k arbitrary: arg)
    case (Suc k)
    have "Suc (64 - Suc k) = 64 - k" "64 - Suc k < 64" using Suc.prems by auto
    then have "[64 - Suc k..<64] = (64 - Suc k) # [64 - k..<64]" using upt_conv_Cons by metis
    then show ?case using Suc lv by (simp add: n Let_def)
  qed simp
next
  case (Suc l)
  obtain n' where n: "n = Suc n'" "l < n'" using Suc.prems(2) by (cases n) auto
  have lv: "v_level (st t) = Suc l" using Suc.prems(1) by simp
  let ?M = "64 ^ Suc l :: nat"
  let ?look = "vlook st (Suc l) t" and ?f = "\<lambda>key d a. f a key d"
  show ?case using Suc.prems(3)
  proof (induction k arbitrary: arg)
    case 0
    then show ?case by simp
  next
    case step: (Suc k)
    define i where "i = 64 - Suc k"
    have i: "i < 64" "64 - k = i + 1" using step.prems by (auto simp: i_def)
    let ?q = "v_d (st t) i"
    have "i * ?M \<le> (i + 1) * ?M" "(i + 1) * ?M \<le> 64 * ?M" using i by (auto intro!: mult_le_mono1)
    then have sp: "[i * ?M..<64 * ?M] = [i * ?M..<(i + 1) * ?M] @ [(i + 1) * ?M..<64 * ?M]"
      using upt_add_eq_append [of "i * 64 ^ Suc l" "(i + 1) * 64 ^ Suc l" "64 * 64 ^ Suc l - (i + 1) * 64 ^ Suc l"] by (simp del: power_Suc)
    have look: "?look (i * ?M + j) = (if ?q = 0 then 0 else vlook st l ?q j)" if "j < ?M" for j
      using that by (simp add: Let_def)
    have seg: "fold (\<lambda>j a. f a (base * ?M + j) (?look j)) (filter (\<lambda>j. ?look j \<noteq> 0) [i * ?M..<(i + 1) * ?M]) arg =
       fold (\<lambda>j a. f a (base * ?M + i * ?M + j) (if ?q = 0 then 0 else vlook st l ?q j))
         (filter (\<lambda>j. (if ?q = 0 then 0 else vlook st l ?q j) \<noteq> 0) [0..<?M]) arg"
      by (rule walk_segment [where g = ?f and look = ?look and look' = "\<lambda>j. if ?q = 0 then 0 else vlook st l ?q j"])
        (rule look)
    have "vector_walk_table n' st ?q ((base + i) * 64) 64 f arg =
        Inr (fold (\<lambda>j a. f a (base * ?M + i * ?M + j) (vlook st l ?q j)) (filter (\<lambda>j. vlook st l ?q j \<noteq> 0) [0..<?M]) arg)"
      if "?q \<noteq> 0"
    proof -
      have "vok st l ?q" using Suc.prems(1) i(1) that by simp
      from Suc.IH [OF this n(2), of 64 "(base + i) * 64" arg] show ?thesis by (simp add: algebra_simps)
    qed
    then have run: "vector_walk_table n st t base (Suc k) f arg =
        vector_walk_table n st t base k f (fold (\<lambda>j a. f a (base * ?M + j) (?look j))
          (filter (\<lambda>j. ?look j \<noteq> 0) [i * ?M..<(i + 1) * ?M]) arg)"
      unfolding seg n(1) vector_walk_table.simps Let_def i_def [symmetric] lv
      by (cases "?q = 0") (simp_all del: power_Suc)
    have "k \<le> 64" using step.prems by simp
    note IH = step.IH [OF this]
    show ?case unfolding run IH i(2) i_def [symmetric] sp filter_append fold_append by simp
  qed
qed

subsection \<open>A vector in use\<close>

definition vec_state :: "vstate" where
  "vec_state = ((\<lambda>_. \<lparr>v_level = 0, v_d = \<lambda>_. 0\<rparr>), [0x1000, 0x2000, 0x3000, 0x4000, 0x5000, 0x6000, 0x7000, 0x8000, 0x9000])"

definition vec_state1 :: "vstate" where
  "vec_state1 = ((fst vec_state)(4096 := \<lparr>v_level = 0, v_d = \<lambda>_. 0\<rparr>), tl (snd vec_state))"

lemma vec_state1_at: "vector_at vec_state1 0 4096" "length (snd vec_state1) = 8"
  by (simp_all add: vector_at_def vec_state1_def vec_state_def)

lemma vector_new_ok:
  assumes "snd s = p # free" "distinct (p # free)" "0 \<notin> set (p # free)"
  shows "\<exists>st'. vector_new s = Inr ((st', free), p) \<and> vector_at (st', free) 0 p \<and> (\<forall>j. vval st' 0 p j = 0)"
  using assms by (auto simp: vector_new_def vector_table_new_def vector_at_def vval_def)



text \<open>
  C17 (functional). \<open>vector_walk\<close> calls the function once for every key with a nonzero value, in
  ascending order of the keys and with the value at the key.
\<close>

theorem vector_walk_ascending:
  fixes f :: "'p \<Rightarrow> nat \<Rightarrow> u32 \<Rightarrow> 'p"
  assumes "vector_at (st, free) l v" "4 < n"
  shows "vector_walk n st v f arg =
    Inr (fold (\<lambda>j a. f a j (vval st l v j)) (filter (\<lambda>j. vval st l v j \<noteq> 0) [0..<64 ^ Suc l]) arg)"
proof -
  have ok: "vok st l v" "l < n" using assms by (auto simp: vector_at_def)
  then have "v \<noteq> 0" using vok_level by blast
  moreover have "filter (\<lambda>j. vval st l v j \<noteq> 0) [0..<64 ^ Suc l] = filter (\<lambda>j. vlook st l v j \<noteq> 0) [0..<64 ^ Suc l]"
    by (rule filter_cong) (simp_all add: vval_def)
  moreover have "fold (\<lambda>j a. f a j (vval st l v j)) (filter (\<lambda>j. vlook st l v j \<noteq> 0) [0..<64 ^ Suc l]) arg =
     fold (\<lambda>j a. f a j (vlook st l v j)) (filter (\<lambda>j. vlook st l v j \<noteq> 0) [0..<64 ^ Suc l]) arg"
    by (rule fold_cong) (auto simp: vval_def)
  ultimately show ?thesis using walk_table_visits [OF ok, of 64 0 f arg] by (simp add: vector_walk_def)
qed

theorem vector_walk_ascending_witness:
  "vector_walk 5 (fst vec_state1) 4096 (\<lambda>a j d. a @ [(j, d)]) [] = Inr (fold (\<lambda>j a. a @ [(j, vval (fst vec_state1) 0 4096 j)])
     (filter (\<lambda>j. vval (fst vec_state1) 0 4096 j \<noteq> 0) [0..<64 ^ Suc 0]) [])"
  using vector_walk_ascending [of "fst vec_state1" "snd vec_state1" 0 4096 5 "\<lambda>a j d. a @ [(j, d)]" "[]"] vec_state1_at(1) by simp

text \<open>
  C24 (error). The boundary of a level. \<open>vector_checksize\<close> compares with \<^verbatim>\<open><\<close>, so a vector of
  level \<open>l\<close> is not extended for the key \<open>64 ^ Suc l\<close>, the first one beyond it: storing there goes
  outside the table at level 0 and through the null pointer at the higher levels.
\<close>

theorem vector_put_boundary:
  assumes "vector_at (st, free) l v" "0 < n"
  shows "vector_put n (st, free) v (64 ^ Suc l) d = Inl (if l = 0 then BadAccess else NullDeref)"
proof -
  obtain n' where n: "n = Suc n'" using assms(2) by (cases n) auto
  have at: "v_level (st v) = l" "l \<le> 4" using assms(1) vok_level [of st l v] by (auto simp: vector_at_def)
  have sh: "(2 :: nat) ^ (6 * (l + 1)) = 64 ^ Suc l" using two_pow_64 [of "Suc l"] by simp
  have c: "vector_checksize n (st, free) v (64 ^ Suc l) = Inr ((st, free), v)"
    using at sh by (simp add: n Let_def del: power_Suc)
  show ?thesis
  proof (cases "l = 0")
    case True
    then show ?thesis using c at by (simp add: vector_put_def n entry_read_def)
  next
    case False
    have "64 \<le> (64 :: nat) ^ Suc l div 2 ^ (6 * l)" unfolding two_pow_64 by simp
    then have "vector_entry_get n (st, free) v (64 ^ Suc l) True = Inr ((st, free), None)"
      using entry_get_beyond [of st v l "64 ^ Suc l"] at False n by (simp del: power_Suc)
    then show ?thesis using c False by (simp add: vector_put_def)
  qed
qed

theorem vector_put_boundary_witness:
  "vector_put 7 vec_state1 4096 64 5 = Inl BadAccess"
  using vector_put_boundary [of "fst vec_state1" "snd vec_state1" 0 4096 7 5] vec_state1_at(1) by simp

end
