(* ===== verification/Cpu.thy ===== *)
theory Cpu
  imports Prelude "HOL-Library.Signed_Division"
begin

unbundle bit_operations_syntax

text \<open>
  The processor and the interrupt hardware (\<^verbatim>\<open>src/arch/i386/i386.c\<close>, \<^verbatim>\<open>src/arch/i386/isa.c\<close>): the interrupt
  flag with its nesting level, spin locks, port output, the descriptor tables, the dispatch of
  interrupts, the interrupt controllers and the interval timer.

  Port output is the sequence of bytes written; what the devices answer to the coming reads is given
  with the machine. A call of a handler is a call of a function that is an argument of the dispatcher.
\<close>

record machine =
  cli_level :: int
  intr :: bool
  outs :: "(u16 \<times> u8) list"
  dev_in :: "nat \<Rightarrow> u16 \<Rightarrow> u8"
  reads :: nat
  gdt :: "u8 list list"
  tss :: "u32 list"
  idt :: "u16 list list"
  irq_table :: "addr list"
  irq_flag :: u32
  cr2 :: addr
  unhandled :: "u32 list"
  ticks :: int
  pit_expire :: addr
  pit_lock :: int
  halted :: bool

subsection \<open>Port I/O, the interrupt flag and spin locks\<close>

definition outb :: "machine \<Rightarrow> u16 \<Rightarrow> u8 \<Rightarrow> machine" where
  "outb m port v = m\<lparr>outs := outs m @ [(port, v)]\<rparr>"

definition inb :: "machine \<Rightarrow> u16 \<Rightarrow> machine \<times> u8" where
  "inb m port = (m\<lparr>reads := reads m + 1\<rparr>, dev_in m (reads m) port)"

definition sti :: "machine \<Rightarrow> machine" where
  "sti m = (let m = m\<lparr>cli_level := cli_level m - 1\<rparr> in if cli_level m = 0 then m\<lparr>intr := True\<rparr> else m)"

definition cli :: "machine \<Rightarrow> machine" where
  "cli m = m\<lparr>intr := False, cli_level := cli_level m + 1\<rparr>"

definition arch_atomic_postinc :: "machine \<Rightarrow> int \<Rightarrow> machine \<times> int \<times> int" where
  "arch_atomic_postinc m p = (let m = cli m; i = p; p = i + 1 in (sti m, p, i))"

definition arch_spin_trylock :: "machine \<Rightarrow> int \<Rightarrow> machine \<times> int \<times> int" where
  "arch_spin_trylock m p = (let m = cli m in if p \<noteq> 0 then (sti m, p, 0) else (m, 1, 1))"

text \<open>
  A failed attempt leaves the lock as it was, and there is one processor: the loop around it goes on
  for ever.
\<close>

definition arch_spin_lock :: "machine \<Rightarrow> int \<Rightarrow> (machine \<times> int) res" where
  "arch_spin_lock m p = (case arch_spin_trylock m p of (m, p, r) \<Rightarrow> if r \<noteq> 0 then Inr (m, p) else Inl OutOfFuel)"

definition arch_spin_unlock :: "machine \<Rightarrow> int \<Rightarrow> machine \<times> int" where
  "arch_spin_unlock m p = (let p = 0 in (sti m, p))"

definition spin_autolock :: "machine \<Rightarrow> int \<Rightarrow> int \<Rightarrow> (machine \<times> int \<times> int) res" where
  "spin_autolock m p state = (if state \<noteq> 0 then (case arch_spin_unlock m p of (m, p) \<Rightarrow> Inr (m, p, 0))
     else bindE (arch_spin_lock m p) (\<lambda>(m, p). Inr (m, p, 1)))"

subsection \<open>Descriptor tables\<close>

definition encodeGdtEntry :: "u8 list \<Rightarrow> addr \<Rightarrow> u32 \<Rightarrow> u8 \<Rightarrow> u8 list" where
  "encodeGdtEntry entry base sz type =
    (let (sz, entry) = (if sz > 0xffff then (drop_bit 12 sz, entry[6 := 0xc0]) else (sz, entry[6 := 0x40]));
       entry = entry[0 := ucast (sz AND 0xff)];
       entry = entry[1 := ucast (drop_bit 8 sz AND 0xff)];
       entry = entry[6 := (entry ! 6) OR ucast (drop_bit 16 sz AND 0xf)];
       entry = entry[2 := ucast (base AND 0xff)];
       entry = entry[3 := ucast (drop_bit 8 base AND 0xff)];
       entry = entry[4 := ucast (drop_bit 16 base AND 0xff)];
       entry = entry[7 := ucast (drop_bit 24 base AND 0xff)]
     in entry[5 := type])"

definition i386_set_idt :: "u16 list list \<Rightarrow> nat \<Rightarrow> addr \<Rightarrow> u16 \<Rightarrow> u16 list list" where
  "i386_set_idt t i p flags = t[i := (t ! i)[0 := ucast (p AND 0xffff), 1 := 0x8, 2 := flags, 3 := ucast (drop_bit 16 p)]]"

fun set_gates :: "u16 list list \<Rightarrow> (nat \<Rightarrow> addr) \<Rightarrow> u16 \<Rightarrow> nat \<Rightarrow> nat \<Rightarrow> u16 list list" where
  "set_gates t labels flags i 0 = t"
| "set_gates t labels flags i (Suc n) = set_gates (i386_set_idt t i (labels i) flags) labels flags (Suc i) n"

subsection \<open>The interrupt controllers\<close>

definition PIC_eoi :: "machine \<Rightarrow> nat \<Rightarrow> machine" where
  "PIC_eoi m irq = (let m = (if 8 \<le> irq then outb m 0xa0 0x20 else m) in outb m 0x20 0x20)"

definition PIC_remap :: "machine \<Rightarrow> u8 \<Rightarrow> u8 \<Rightarrow> machine" where
  "PIC_remap m offset1 offset2 =
    (let (m, a1) = inb m 0x21; (m, a2) = inb m 0xa1;
       m = outb m 0x20 0x11; m = outb m 0xa0 0x11;
       m = outb m 0x21 offset1; m = outb m 0xa1 offset2;
       m = outb m 0x21 4; m = outb m 0xa1 2;
       m = outb m 0x21 1; m = outb m 0xa1 1;
       m = outb m 0x21 a1
     in outb m 0xa1 a2)"

text \<open>Handlers have the type \<^verbatim>\<open>irq_func\<close>; \<open>call\<close> runs the one at an address.\<close>

type_synonym caller = "addr \<Rightarrow> machine \<Rightarrow> machine res"

definition i386_irq :: "caller \<Rightarrow> u32 \<Rightarrow> machine \<Rightarrow> machine res" where
  "i386_irq call num m =
    (let irq = unat (num - 0x20); m = m\<lparr>irq_flag := irq_flag m OR push_bit irq 1\<rparr> in
     if irq \<ge> length (irq_table m) then Inl BadAccess
     else bindE (if irq_table m ! irq \<noteq> 0 then call (irq_table m ! irq) m else Inr m) (\<lambda>m. Inr (PIC_eoi m irq)))"

definition add_irq :: "machine \<Rightarrow> nat \<Rightarrow> addr \<Rightarrow> (machine \<times> addr) res" where
  "add_irq m irq handler = (if irq \<ge> length (irq_table m) then Inl BadAccess
     else Inr (m\<lparr>irq_table := (irq_table m)[irq := handler]\<rparr>, irq_table m ! irq))"

function wait_scan :: "machine \<Rightarrow> nat \<Rightarrow> machine \<times> nat" where
  "wait_scan m irq = (if irq < 16 then
     (if irq_flag m AND push_bit irq 1 \<noteq> 0 then
        (let m = cli m; m = m\<lparr>irq_flag := irq_flag m AND NOT (push_bit irq 1)\<rparr> in (sti m, irq))
      else wait_scan m (irq + 1))
    else (m, 0))"
  by pat_completeness auto
termination by (relation "measure (\<lambda>(m, irq). 16 - irq)") auto

declare wait_scan.simps [simp del]

text \<open>With no interrupt flagged the processor halts until one comes; the machine then waits.\<close>

definition wait_irq :: "machine \<Rightarrow> (machine \<times> nat) res" where
  "wait_irq m = (if irq_flag m = 0 then Inl OutOfFuel else Inr (wait_scan m 0))"

subsection \<open>Interrupt dispatch\<close>

datatype isr_t = I386_de | I386_db | I386_nmi | I386_bp | I386_of | I386_br | I386_ud | I386_nm
  | I386_df | I386_ts | I386_np | I386_ss | I386_gp | I386_pf | I386_mf | I386_ac | I386_mc | I386_xm
  | I386_ve | I386_sx | I386_irq

definition itable :: "isr_t option list" where
  "itable = map Some [I386_de, I386_db, I386_nmi, I386_bp, I386_of, I386_br, I386_ud, I386_nm]
    @ [Some I386_df, None, Some I386_ts, Some I386_np, Some I386_ss, Some I386_gp, Some I386_pf, None]
    @ [Some I386_mf, Some I386_ac, Some I386_mc, Some I386_xm, Some I386_ve, None, None, None]
    @ [None, None, None, None, None, None, Some I386_sx, None]
    @ replicate 16 (Some I386_irq) @ replicate 208 None"

type_synonym fault = "addr \<Rightarrow> bool \<Rightarrow> bool \<Rightarrow> bool \<Rightarrow> machine \<Rightarrow> machine res"

definition i386_unhandled :: "u32 \<Rightarrow> machine \<Rightarrow> machine res" where
  "i386_unhandled num m = Inl Panic"

definition i386_de :: "u32 \<Rightarrow> machine \<Rightarrow> machine res" where "i386_de num m = i386_unhandled num m"
definition i386_db :: "u32 \<Rightarrow> machine \<Rightarrow> machine res" where "i386_db num m = i386_unhandled num m"
definition i386_nmi :: "u32 \<Rightarrow> machine \<Rightarrow> machine res" where "i386_nmi num m = i386_unhandled num m"
definition i386_bp :: "u32 \<Rightarrow> machine \<Rightarrow> machine res" where "i386_bp num m = i386_unhandled num m"
definition i386_of :: "u32 \<Rightarrow> machine \<Rightarrow> machine res" where "i386_of num m = i386_unhandled num m"
definition i386_br :: "u32 \<Rightarrow> machine \<Rightarrow> machine res" where "i386_br num m = i386_unhandled num m"
definition i386_ud :: "u32 \<Rightarrow> machine \<Rightarrow> machine res" where "i386_ud num m = i386_unhandled num m"
definition i386_nm :: "u32 \<Rightarrow> machine \<Rightarrow> machine res" where "i386_nm num m = i386_unhandled num m"
definition i386_df :: "u32 \<Rightarrow> machine \<Rightarrow> machine res" where "i386_df num m = i386_unhandled num m"
definition i386_ts :: "u32 \<Rightarrow> machine \<Rightarrow> machine res" where "i386_ts num m = i386_unhandled num m"
definition i386_np :: "u32 \<Rightarrow> machine \<Rightarrow> machine res" where "i386_np num m = i386_unhandled num m"
definition i386_ss :: "u32 \<Rightarrow> machine \<Rightarrow> machine res" where "i386_ss num m = i386_unhandled num m"
definition i386_gp :: "u32 \<Rightarrow> machine \<Rightarrow> machine res" where "i386_gp num m = i386_unhandled num m"
definition i386_mf :: "u32 \<Rightarrow> machine \<Rightarrow> machine res" where "i386_mf num m = i386_unhandled num m"
definition i386_ac :: "u32 \<Rightarrow> machine \<Rightarrow> machine res" where "i386_ac num m = i386_unhandled num m"
definition i386_mc :: "u32 \<Rightarrow> machine \<Rightarrow> machine res" where "i386_mc num m = i386_unhandled num m"
definition i386_xm :: "u32 \<Rightarrow> machine \<Rightarrow> machine res" where "i386_xm num m = i386_unhandled num m"
definition i386_ve :: "u32 \<Rightarrow> machine \<Rightarrow> machine res" where "i386_ve num m = i386_unhandled num m"
definition i386_sx :: "u32 \<Rightarrow> machine \<Rightarrow> machine res" where "i386_sx num m = i386_unhandled num m"

text \<open>The error code is word 9 (\<^verbatim>\<open>ISR_ERRORCODE\<close>) of the saved state.\<close>

definition i386_pf :: "fault \<Rightarrow> (nat \<Rightarrow> u32) \<Rightarrow> machine \<Rightarrow> machine res" where
  "i386_pf vm_page_fault state m =
     vm_page_fault (cr2 m) (state 9 AND 0x2 \<noteq> 0) (state 9 AND 0x4 \<noteq> 0) (state 9 AND 0x1 \<noteq> 0) m"

definition unhandled_isr :: "u32 \<Rightarrow> machine \<Rightarrow> machine res" where
  "unhandled_isr num m = Inr (m\<lparr>unhandled := unhandled m @ [num]\<rparr>)"

fun run_isr :: "caller \<Rightarrow> fault \<Rightarrow> isr_t \<Rightarrow> u32 \<Rightarrow> (nat \<Rightarrow> u32) \<Rightarrow> machine \<Rightarrow> machine res" where
  "run_isr call vpf I386_de num state m = i386_de num m"
| "run_isr call vpf I386_db num state m = i386_db num m"
| "run_isr call vpf I386_nmi num state m = i386_nmi num m"
| "run_isr call vpf I386_bp num state m = i386_bp num m"
| "run_isr call vpf I386_of num state m = i386_of num m"
| "run_isr call vpf I386_br num state m = i386_br num m"
| "run_isr call vpf I386_ud num state m = i386_ud num m"
| "run_isr call vpf I386_nm num state m = i386_nm num m"
| "run_isr call vpf I386_df num state m = i386_df num m"
| "run_isr call vpf I386_ts num state m = i386_ts num m"
| "run_isr call vpf I386_np num state m = i386_np num m"
| "run_isr call vpf I386_ss num state m = i386_ss num m"
| "run_isr call vpf I386_gp num state m = i386_gp num m"
| "run_isr call vpf I386_pf num state m = i386_pf vpf state m"
| "run_isr call vpf I386_mf num state m = i386_mf num m"
| "run_isr call vpf I386_ac num state m = i386_ac num m"
| "run_isr call vpf I386_mc num state m = i386_mc num m"
| "run_isr call vpf I386_xm num state m = i386_xm num m"
| "run_isr call vpf I386_ve num state m = i386_ve num m"
| "run_isr call vpf I386_sx num state m = i386_sx num m"
| "run_isr call vpf I386_irq num state m = i386_irq call num m"

definition i386_isr :: "caller \<Rightarrow> fault \<Rightarrow> u32 \<Rightarrow> (nat \<Rightarrow> u32) \<Rightarrow> machine \<Rightarrow> machine res" where
  "i386_isr call vpf num state m = (if unat num \<ge> length itable then Inl BadAccess
     else case itable ! unat num of Some isr \<Rightarrow> run_isr call vpf isr num state m | None \<Rightarrow> unhandled_isr num m)"

subsection \<open>The interval timer\<close>

definition pit_set :: "machine \<Rightarrow> machine" where
  "pit_set m = (if ticks m > 65535 then outb (outb (outb m 0x43 0x30) 0x40 0xff) 0x40 0xff
     else outb (outb (outb m 0x43 0x30) 0x40 (word_of_int (ticks m AND 0xff))) 0x40 (word_of_int (drop_bit 8 (ticks m))))"

definition pit_get :: "machine \<Rightarrow> machine \<times> int" where
  "pit_get m = (let m = outb m 0x43 0; (m, lo) = inb m 0x40; (m, hi) = inb m 0x40 in (m, uint lo + push_bit 8 (uint hi)))"

text \<open>\<open>with_pit\<close> is \<^verbatim>\<open>SPIN_AUTOLOCK(pit_lock)\<close>: lock, the body, unlock.\<close>

definition pit_locked :: "machine \<Rightarrow> machine res" where
  "pit_locked m = bindE (spin_autolock m (pit_lock m) 0) (\<lambda>(m, l, _). Inr (m\<lparr>pit_lock := l\<rparr>))"

definition pit_unlocked :: "machine \<Rightarrow> machine res" where
  "pit_unlocked m = bindE (spin_autolock m (pit_lock m) 1) (\<lambda>(m, l, _). Inr (m\<lparr>pit_lock := l\<rparr>))"

definition with_pit :: "machine \<Rightarrow> (machine \<Rightarrow> machine res) \<Rightarrow> machine res" where
  "with_pit m body = bindE (pit_locked m) (\<lambda>m. bindE (body m) pit_unlocked)"

definition pit_timer_int :: "caller \<Rightarrow> machine \<Rightarrow> machine res" where
  "pit_timer_int call m = with_pit m (\<lambda>m.
     if ticks m > 65535 then Inr (pit_set (m\<lparr>ticks := ticks m - 65535\<rparr>))
     else (let m = m\<lparr>ticks := 0\<rparr> in
       if pit_expire m \<noteq> 0 then
         (case arch_spin_unlock m (pit_lock m) of (m, l) \<Rightarrow>
          bindE (call (pit_expire m) (m\<lparr>pit_lock := l\<rparr>)) (\<lambda>m.
          bindE (arch_spin_lock m (pit_lock m)) (\<lambda>(m, l). Inr (m\<lparr>pit_lock := l\<rparr>))))
       else Inr m))"

text \<open>Times and ticks are \<^verbatim>\<open>int64_t\<close>.\<close>

definition s64 :: "int \<Rightarrow> int" where
  "s64 i = signed_take_bit 63 i"

definition pit_timer_set :: "machine \<Rightarrow> addr \<Rightarrow> int \<Rightarrow> machine res" where
  "pit_timer_set m expire usec = with_pit m (\<lambda>m.
     Inr (pit_set (m\<lparr>pit_expire := expire, ticks := s64 (1193180 * usec) sdiv 1000000\<rparr>)))"

definition pit_timer_clear :: "machine \<Rightarrow> (machine \<times> int) res" where
  "pit_timer_clear m = bindE (pit_locked m) (\<lambda>m.
     case pit_get m of (m, c) \<Rightarrow>
     (let remaining = (if ticks m > 65535 then ticks m - 65535 + c else c); m = m\<lparr>ticks := 0, pit_expire := 0\<rparr> in
      bindE (pit_unlocked m) (\<lambda>m. Inr (m, s64 (remaining * 1000000) sdiv 1193180))))"

text \<open>\<open>initial\<close> is the address of the initial thread; its fields are set in the theory of threads.\<close>

definition gdt_entry_set :: "nat \<Rightarrow> addr \<Rightarrow> u32 \<Rightarrow> u8 \<Rightarrow> machine \<Rightarrow> machine" where
  "gdt_entry_set i base sz type m = m\<lparr>gdt := (gdt m)[i := encodeGdtEntry (gdt m ! i) base sz type]\<rparr>"

definition idt_set :: "(nat \<Rightarrow> addr) \<Rightarrow> u16 \<Rightarrow> nat \<Rightarrow> nat \<Rightarrow> machine \<Rightarrow> machine" where
  "idt_set labels flags i n m = m\<lparr>idt := set_gates (idt m) labels flags i n\<rparr>"

definition i386_init :: "machine \<Rightarrow> addr \<Rightarrow> (nat \<Rightarrow> addr) \<Rightarrow> machine" where
  "i386_init m tss_addr isr_labels =
    (let m = gdt_entry_set 0 0 0 0 m;
       m = gdt_entry_set 1 0 0xffffffff 0x9a m;
       m = gdt_entry_set 2 0 0xffffffff 0x92 m;
       m = gdt_entry_set 3 0 0xffffffff (0x9a OR 0x60) m;
       m = gdt_entry_set 4 0 0xffffffff (0x92 OR 0x60) m;
       m = gdt_entry_set 5 tss_addr (4 * of_nat (length (tss m))) 0x89 m;
       m = m\<lparr>tss := (tss m)[2 := 0x10]\<rparr>;
       m = idt_set isr_labels 0x8f00 0 (length (idt m)) m;
       m = idt_set isr_labels 0x8e00 0x20 16 m;
       m = PIC_remap m 0x20 0x30;
       m = cli m
     in sti m)"

subsection \<open>Descriptors\<close>

text \<open>How the processor reads a segment descriptor and a gate.\<close>

definition gdt_base :: "u8 list \<Rightarrow> nat" where
  "gdt_base e = unat (e ! 2) + 256 * unat (e ! 3) + 65536 * unat (e ! 4) + 16777216 * unat (e ! 7)"

definition gdt_limit :: "u8 list \<Rightarrow> nat" where
  "gdt_limit e = (let l = unat (e ! 0) + 256 * unat (e ! 1) + 65536 * (unat (e ! 6) mod 16) in
     if 128 \<le> unat (e ! 6) then 4096 * l + 4095 else l)"

definition gate_offset :: "u16 list \<Rightarrow> nat" where
  "gate_offset g = unat (g ! 0) + 65536 * unat (g ! 3)"

lemma and_low_nat: "(x :: nat) AND 15 = x mod 16" "x AND 255 = x mod 256" "x AND 65535 = x mod 65536"
proof -
  have m: "x AND mask n = x mod 2 ^ n" for n using take_bit_eq_mask [of n x] take_bit_eq_mod [of n x] by simp
  show "x AND 15 = x mod 16" using m [of 4] by (simp add: mask_eq_exp_minus_1)
  show "x AND 255 = x mod 256" using m [of 8] by (simp add: mask_eq_exp_minus_1)
  show "x AND 65535 = x mod 65536" using m [of 16] by (simp add: mask_eq_exp_minus_1)
qed

lemma unat_drop: "unat (drop_bit n (w :: u32)) = unat w div 2 ^ n"
  unfolding unat_drop_bit_eq by (rule drop_bit_eq_div)

lemma byte_of: "unat (ucast (drop_bit n w AND 0xff :: u32) :: u8) = unat w div 2 ^ n mod 256"
  by (simp add: unsigned_ucast_eq take_bit_eq_mod unsigned_and_eq unat_drop and_low_nat)

lemma low_of:
  "unat (ucast (w AND 0xff :: u32) :: u8) = unat w mod 256"
  "unat (ucast (w AND 0xffff :: u32) :: u16) = unat w mod 65536"
  "unat (ucast (drop_bit 16 w :: u32) :: u16) = unat w div 65536"
proof -
  have "unat w div 65536 < 65536" using unsigned_less [of w, where ?'a = nat] by (simp add: less_mult_imp_div_less)
  then show "unat (ucast (drop_bit 16 w :: u32) :: u16) = unat w div 65536"
    by (simp add: unsigned_ucast_eq take_bit_eq_mod unat_drop)
qed (simp_all add: unsigned_ucast_eq take_bit_eq_mod unsigned_and_eq and_low_nat)

lemma gran_byte:
  assumes "g = 0xc0 \<or> g = (0x40 :: u8)"
  shows "unat (g OR ucast (drop_bit 16 w AND 0xf :: u32)) = unat g + unat w div 65536 mod 16"
proof -
  define k where "k = unat w div 65536 mod 16"
  have k: "k < 16" by (simp add: k_def)
  have "(ucast (drop_bit 16 w AND 0xf :: u32) :: u8) = of_nat k"
    by (rule word_unat_eq_iff [THEN iffD2]) (simp add: unsigned_ucast_eq take_bit_eq_mod unsigned_and_eq unat_drop and_low_nat k_def unat_of_nat mod_mod_cancel)
  moreover have "unat (0xc0 OR (of_nat k :: u8)) = 0xc0 + k \<and> unat (0x40 OR (of_nat k :: u8)) = 0x40 + k"
  proof -
    have "\<forall>k \<in> set [0..<16]. unat (0xc0 OR (of_nat k :: u8)) = 0xc0 + k \<and> unat (0x40 OR (of_nat k :: u8)) = 0x40 + k"
      by code_simp
    then show ?thesis using k by auto
  qed
  ultimately show ?thesis using assms unfolding k_def by auto
qed

lemma digits_256:
  assumes "(u :: nat) < 4294967296"
  shows "u mod 256 + 256 * (u div 256 mod 256) + 65536 * (u div 65536 mod 256) + 16777216 * (u div 16777216 mod 256) = u"
proof -
  define a b c where abc: "a = u div 256" "b = a div 256" "c = b div 256"
  have e: "u div 65536 = b" "u div 16777216 = c" unfolding abc by (simp_all add: div_mult2_eq [symmetric])
  have "c < 256" using assms unfolding e(2) [symmetric] by (simp add: less_mult_imp_div_less)
  then have "c mod 256 = c" by simp
  moreover have "u mod 256 + 256 * a = u" "a mod 256 + 256 * b = a" "b mod 256 + 256 * c = b" unfolding abc by simp_all
  ultimately show ?thesis unfolding e abc(1) [symmetric] by linarith
qed

lemma digits_20: "(u :: nat) < 1048576 \<Longrightarrow> u mod 256 + 256 * (u div 256 mod 256) + 65536 * (u div 65536 mod 16) = u"
  using digits_256 [of u] by (simp add: div_less mod_less less_mult_imp_div_less)

text \<open>A descriptor decodes to the base and type given and to the limit, rounded up to the end of its page
  above 64 KiB.\<close>

lemma gdt_entry:
  fixes base :: addr and sz :: u32 and type :: u8
  assumes "length e = 8"
  defines "d \<equiv> encodeGdtEntry e base sz type"
  shows "gdt_base d = unat base" "d ! 5 = type" "length d = 8"
    "gdt_limit d = (if sz \<le> 0xffff then unat sz else unat sz div 4096 * 4096 + 4095)"
proof -
  define s where "s = (if sz > 0xffff then drop_bit 12 sz else sz)"
  define g where "g = (if sz > 0xffff then 0xc0 else 0x40 :: u8)"
  have us: "unat s < 1048576" "sz \<le> 0xffff \<Longrightarrow> s = sz" "\<not> sz \<le> 0xffff \<Longrightarrow> unat s = unat sz div 4096"
    using unsigned_less [of sz, where ?'a = nat]
    by (auto simp: s_def unat_drop word_le_nat_alt word_less_nat_alt less_mult_imp_div_less)
  obtain b0 b1 b2 b3 b4 b5 b6 b7 where e: "e = [b0, b1, b2, b3, b4, b5, b6, b7]"
    using assms(1) by (auto simp: length_Suc_conv numeral_eq_Suc)
  have d: "d = [ucast (s AND 0xff), ucast (drop_bit 8 s AND 0xff), ucast (base AND 0xff), ucast (drop_bit 8 base AND 0xff), ucast (drop_bit 16 base AND 0xff),
      type, g OR ucast (drop_bit 16 s AND 0xf), ucast (drop_bit 24 base AND 0xff)]"
    by (simp add: d_def encodeGdtEntry_def Let_def s_def g_def e)
  show "d ! 5 = type" "length d = 8" by (simp_all add: d)
  show "gdt_base d = unat base"
    using digits_256 [of "unat base"] unsigned_less [of base, where ?'a = nat]
    by (simp add: d gdt_base_def low_of byte_of unat_drop)
  define q where "q = unat s div 65536 mod 16"
  have d6: "unat (d ! 6) = unat g + q" using gran_byte [of g s] by (simp add: d g_def q_def)
  have q: "q < 16" by (simp add: q_def)
  have gv: "unat g = (if sz \<le> 0xffff then 64 else 192)" by (auto simp: g_def not_le)
  have "unat (d ! 6) mod 16 = q" "128 \<le> unat (d ! 6) \<longleftrightarrow> \<not> sz \<le> 0xffff" unfolding d6 gv using q by (simp_all add: mod_add_eq [of 64 16, symmetric] mod_add_eq [of 192 16, symmetric])
  moreover have "unat (d ! 0) + 256 * unat (d ! 1) + 65536 * q = unat s"
  proof -
    have "unat (d ! 0) = unat s mod 256" "unat (d ! 1) = unat s div 256 mod 256" by (simp_all add: d low_of unat_drop)
    then show ?thesis using digits_20 [OF us(1)] unfolding q_def by (simp only:)
  qed
  ultimately have "gdt_limit d = (if \<not> sz \<le> 0xffff then 4096 * unat s + 4095 else unat s)" by (simp only: gdt_limit_def Let_def)
  then show "gdt_limit d = (if sz \<le> 0xffff then unat sz else unat sz div 4096 * 4096 + 4095)"
    using us(2,3) by (simp add: mult.commute)
qed


lemma set_idt_gate:
  assumes "i < length t" "length (t ! i) = 4"
  shows "gate_offset (i386_set_idt t i p flags ! i) = unat p" "i386_set_idt t i p flags ! i ! 1 = 8"
    "i386_set_idt t i p flags ! i ! 2 = flags" "length (i386_set_idt t i p flags ! j) = length (t ! j)"
    "j \<noteq> i \<Longrightarrow> i386_set_idt t i p flags ! j = t ! j" "length (i386_set_idt t i p flags) = length t"
proof -
  obtain a b c d where e: "t ! i = [a, b, c, d]" using assms(2) by (auto simp: length_Suc_conv numeral_eq_Suc)
  show "gate_offset (i386_set_idt t i p flags ! i) = unat p"
    using assms(1) mod_mult_div_eq [of "unat p" 65536] by (simp add: i386_set_idt_def e gate_offset_def low_of)
  show "i386_set_idt t i p flags ! i ! 1 = 8" "i386_set_idt t i p flags ! i ! 2 = flags"
    using assms(1) by (simp_all add: i386_set_idt_def e)
  show "length (i386_set_idt t i p flags ! j) = length (t ! j)"
    using assms by (cases "j = i") (simp_all add: i386_set_idt_def)
qed (simp_all add: i386_set_idt_def)

definition gate :: "u16 list \<Rightarrow> addr \<Rightarrow> u16 \<Rightarrow> bool" where
  "gate g p flags \<longleftrightarrow> gate_offset g = unat p \<and> g ! 1 = 8 \<and> g ! 2 = flags"

lemma set_gates_ok:
  assumes "i + n \<le> length t" "\<forall>g \<in> set t. length g = 4"
  shows "length (set_gates t labels flags i n) = length t \<and> (\<forall>g \<in> set (set_gates t labels flags i n). length g = 4) \<and>
    (\<forall>j < length t. if i \<le> j \<and> j < i + n then gate (set_gates t labels flags i n ! j) (labels j) flags
       else set_gates t labels flags i n ! j = t ! j)"
  using assms
proof (induction n arbitrary: i t)
  case (Suc n)
  define t' where "t' = i386_set_idt t i (labels i) flags"
  have i: "i < length t" "length (t ! i) = 4" using Suc.prems by auto
  note s = set_idt_gate [OF i, where p = "labels i" and flags = flags, folded t'_def]
  have l: "\<forall>g \<in> set t'. length g = 4" using s(4,6) Suc.prems(2) by (metis in_set_conv_nth nth_mem)
  have "Suc i + n \<le> length t'" using Suc.prems(1) s(6) by simp
  note IH = Suc.IH [OF this l]
  have g: "gate (t' ! i) (labels i) flags" using s(1-3) by (simp add: gate_def)
  have "if i \<le> j \<and> j < i + Suc n then gate (set_gates t' labels flags (Suc i) n ! j) (labels j) flags
       else set_gates t' labels flags (Suc i) n ! j = t ! j" if j: "j < length t" for j
  proof (cases "j = i")
    case True
    then have "set_gates t' labels flags (Suc i) n ! j = t' ! i" using IH j s(6) by auto
    then show ?thesis using g True by simp
  next
    case False
    then show ?thesis using IH j s(5) [OF False] s(6) by (auto simp: Suc_le_eq)
  qed
  moreover have e: "set_gates t labels flags i (Suc n) = set_gates t' labels flags (Suc i) n" by (simp add: t'_def)
  ultimately show ?case unfolding e using IH s(6) by (intro conjI) simp_all
qed auto

lemma init_fields [simp]:
  "gdt (gdt_entry_set i b s ty m) = (gdt m)[i := encodeGdtEntry (gdt m ! i) b s ty]" "tss (gdt_entry_set i b s ty m) = tss m"
  "idt (gdt_entry_set i b s ty m) = idt m" "outs (gdt_entry_set i b s ty m) = outs m" "dev_in (gdt_entry_set i b s ty m) = dev_in m"
  "reads (gdt_entry_set i b s ty m) = reads m" "cli_level (gdt_entry_set i b s ty m) = cli_level m"
  "gdt (idt_set l f j n m) = gdt m" "tss (idt_set l f j n m) = tss m" "idt (idt_set l f j n m) = set_gates (idt m) l f j n"
  "outs (idt_set l f j n m) = outs m" "dev_in (idt_set l f j n m) = dev_in m" "reads (idt_set l f j n m) = reads m"
  "cli_level (idt_set l f j n m) = cli_level m"
  by (simp_all add: gdt_entry_set_def idt_set_def)

lemma remap_fields [simp]:
  "gdt (PIC_remap m a b) = gdt m" "tss (PIC_remap m a b) = tss m" "idt (PIC_remap m a b) = idt m" "cli_level (PIC_remap m a b) = cli_level m"
  "outs (PIC_remap m a b) = outs m @ [(0x20, 0x11), (0xa0, 0x11), (0x21, a), (0xa1, b), (0x21, 4), (0xa1, 2), (0x21, 1), (0xa1, 1),
      (0x21, dev_in m (reads m) 0x21), (0xa1, dev_in m (reads m + 1) 0xa1)]"
  by (simp_all add: PIC_remap_def Let_def outb_def inb_def)

lemma cli_sti_fields [simp]:
  "gdt (sti m) = gdt m" "tss (sti m) = tss m" "idt (sti m) = idt m" "outs (sti m) = outs m" "cli_level (sti m) = cli_level m - 1"
  "gdt (cli m) = gdt m" "tss (cli m) = tss m" "idt (cli m) = idt m" "outs (cli m) = outs m" "cli_level (cli m) = cli_level m + 1"
  "intr (sti m) = (cli_level m = 1 \<or> intr m)" "\<not> intr (cli m)"
  by (simp_all add: sti_def cli_def Let_def)

text \<open>
  C17. The descriptor tables that \<^verbatim>\<open>i386_init\<close> builds: the flat code and data segments of both privilege
  levels span all of memory with the types given, the task segment is the table of the task state, and
  the gate of every vector leads to its label through the code segment, an interrupt gate for vectors
  32 to 47 and a trap gate for the rest. The two interrupt controllers are told the vectors 0x20 and
  0x30, their masks are written back, and interrupts are on again when they were at level 0.
\<close>

theorem descriptor_tables:
  fixes m :: machine and tss_addr :: addr and labels :: "nat \<Rightarrow> addr"
  assumes "length (gdt m) = 6" "\<forall>e \<in> set (gdt m). length e = 8" "length (tss m) = 26" "length (idt m) = 256" "\<forall>g \<in> set (idt m). length g = 4"
  defines "m' \<equiv> i386_init m tss_addr labels"
  shows "map (\<lambda>e. (gdt_base e, gdt_limit e, e ! 5)) (gdt m') =
      [(0, 0, 0), (0, 0xffffffff, 0x9a), (0, 0xffffffff, 0x92), (0, 0xffffffff, 0xfa), (0, 0xffffffff, 0xf2), (unat tss_addr, 104, 0x89)] \<and>
    (\<forall>i < 256. gate (idt m' ! i) (labels i) (if 32 \<le> i \<and> i < 48 then 0x8e00 else 0x8f00)) \<and>
    tss m' = (tss m)[2 := 0x10] \<and> cli_level m' = cli_level m \<and> (cli_level m = 0 \<longrightarrow> intr m') \<and>
    outs m' = outs m @ [(0x20, 0x11), (0xa0, 0x11), (0x21, 0x20), (0xa1, 0x30), (0x21, 4), (0xa1, 2), (0x21, 1), (0xa1, 1),
      (0x21, dev_in m (reads m) 0x21), (0xa1, dev_in m (reads m + 1) 0xa1)]"
proof -
  obtain e0 e1 e2 e3 e4 e5 where g: "gdt m = [e0, e1, e2, e3, e4, e5]" using assms(1) by (auto simp: length_Suc_conv numeral_eq_Suc)
  have l: "length e0 = 8" "length e1 = 8" "length e2 = 8" "length e3 = 8" "length e4 = 8" "length e5 = 8" using assms(2) g by auto
  define t1 where "t1 = set_gates (idt m) labels 0x8f00 0 256"
  define t2 where "t2 = set_gates t1 labels 0x8e00 0x20 16"
  have gd: "gdt m' = [encodeGdtEntry e0 0 0 0, encodeGdtEntry e1 0 0xffffffff 0x9a, encodeGdtEntry e2 0 0xffffffff 0x92,
      encodeGdtEntry e3 0 0xffffffff (0x9a OR 0x60), encodeGdtEntry e4 0 0xffffffff (0x92 OR 0x60), encodeGdtEntry e5 tss_addr 104 0x89]"
    using assms(3) by (simp add: m'_def i386_init_def Let_def g)
  have "map (\<lambda>e. (gdt_base e, gdt_limit e, e ! 5)) (gdt m') =
      [(0, 0, 0), (0, 0xffffffff, 0x9a), (0, 0xffffffff, 0x92), (0, 0xffffffff, 0xfa), (0, 0xffffffff, 0xf2), (unat tss_addr, 104, 0x89)]"
    by (simp add: gd gdt_entry l)
  moreover have "idt m' = t2"
    using assms(4) by (simp add: m'_def i386_init_def Let_def t1_def t2_def)
  moreover have "\<forall>i < 256. gate (t2 ! i) (labels i) (if 32 \<le> i \<and> i < 48 then 0x8e00 else 0x8f00)"
  proof -
    have p1: "0 + 256 \<le> length (idt m)" using assms(4) by simp
    note G1 = set_gates_ok [OF p1 assms(5), of labels "0x8f00", folded t1_def]
    have p2: "0x20 + 16 \<le> length t1" using G1 assms(4) by simp
    note G2 = set_gates_ok [OF p2 conjunct1 [OF conjunct2 [OF G1]], of labels "0x8e00", folded t2_def]
    show ?thesis
    proof (intro allI impI)
      fix i :: nat assume i: "i < 256"
      then have "gate (t1 ! i) (labels i) 0x8f00" using G1 assms(4) by auto
      then show "gate (t2 ! i) (labels i) (if 32 \<le> i \<and> i < 48 then 0x8e00 else 0x8f00)"
        using G2 G1 i assms(4) by (cases "32 \<le> i \<and> i < 48") auto
    qed
  qed
  moreover have "tss m' = (tss m)[2 := 0x10] \<and> cli_level m' = cli_level m \<and> (cli_level m = 0 \<longrightarrow> intr m')"
    by (simp add: m'_def i386_init_def Let_def)
  moreover have "outs m' = outs m @ [(0x20, 0x11), (0xa0, 0x11), (0x21, 0x20), (0xa1, 0x30), (0x21, 4), (0xa1, 2), (0x21, 1), (0xa1, 1),
      (0x21, dev_in m (reads m) 0x21), (0xa1, dev_in m (reads m + 1) 0xa1)]"
    by (simp add: m'_def i386_init_def Let_def)
  ultimately show ?thesis by simp
qed

definition cold :: machine where
  "cold = \<lparr>cli_level = 0, intr = False, outs = [], dev_in = \<lambda>_ _. 0, reads = 0, gdt = replicate 6 (replicate 8 0), tss = replicate 26 0,
     idt = replicate 256 (replicate 4 0), irq_table = replicate 16 0, irq_flag = 0, cr2 = 0, unhandled = [], ticks = 0, pit_expire = 0,
     pit_lock = 0, halted = False\<rparr>"

theorem descriptor_tables_witness:
  "gate (idt (i386_init cold 0x1000 (\<lambda>i. 0x2000 + of_nat i)) ! 32) 0x2020 0x8e00 \<and> intr (i386_init cold 0x1000 (\<lambda>i. 0x2000 + of_nat i))"
proof -
  have "length (gdt cold) = 6" "\<forall>e \<in> set (gdt cold). length e = 8" "length (tss cold) = 26" "length (idt cold) = 256"
    "\<forall>g \<in> set (idt cold). length g = 4" "cli_level cold = 0" by (simp_all add: cold_def)
  note d = descriptor_tables [OF this(1-5), of "0x1000" "\<lambda>i. 0x2000 + of_nat i"]
  have "gate (idt (i386_init cold 0x1000 (\<lambda>i. 0x2000 + of_nat i)) ! 32) (0x2000 + of_nat 32) (if 32 \<le> (32 :: nat) \<and> (32 :: nat) < 48 then 0x8e00 else 0x8f00)"
    using d [THEN conjunct2, THEN conjunct1, rule_format, of 32] by simp
  then show ?thesis using d \<open>cli_level cold = 0\<close> by simp
qed


subsection \<open>Interrupt delivery\<close>

definition exceptions :: "nat list" where
  "exceptions = [0..<9] @ [10, 11, 12, 13] @ [16..<21] @ [30]"

lemma itable_vectors:
  "length itable = 256"
  "k \<in> set exceptions \<Longrightarrow> \<exists>i. itable ! k = Some i \<and> i \<noteq> I386_pf \<and> i \<noteq> I386_irq"
  "itable ! 14 = Some I386_pf"
  "32 \<le> k \<Longrightarrow> k < 48 \<Longrightarrow> itable ! k = Some I386_irq"
  "k \<notin> set exceptions \<Longrightarrow> k \<noteq> 14 \<Longrightarrow> k < 32 \<or> 48 \<le> k \<and> k < 256 \<Longrightarrow> itable ! k = None"
proof -
  show l: "length itable = 256" by (simp add: itable_def)
  have e: "list_all (\<lambda>k. case itable ! k of Some i \<Rightarrow> i \<noteq> I386_pf \<and> i \<noteq> I386_irq | None \<Rightarrow> False) exceptions" by code_simp
  show "k \<in> set exceptions \<Longrightarrow> \<exists>i. itable ! k = Some i \<and> i \<noteq> I386_pf \<and> i \<noteq> I386_irq"
    using e by (auto simp: list_all_iff split: option.splits)
  show "itable ! 14 = Some I386_pf" by code_simp
  have i: "itable = take 32 itable @ replicate 16 (Some I386_irq) @ replicate 208 None" by (simp add: itable_def)
  have l32: "length (take 32 itable) = 32" using l by simp
  show "itable ! k = Some I386_irq" if "32 \<le> k" "k < 48"
  proof -
    have "\<not> k < 32" "k - 32 < 16" using that by auto
    then show ?thesis by (subst i) (simp add: nth_append l)
  qed
  have n: "list_all (\<lambda>k. k \<in> set exceptions \<or> k = 14 \<or> itable ! k = None) [0..<32]" by code_simp
  show "itable ! k = None" if "k \<notin> set exceptions" "k \<noteq> 14" "k < 32 \<or> 48 \<le> k \<and> k < 256"
  proof (cases "k < 32")
    case True
    then show ?thesis using n that(1,2) by (auto simp: list_all_iff)
  next
    case False
    then have "\<not> k < 32" "\<not> k - 32 < 16" "k - 48 < 208" using that(3) by auto
    then show ?thesis by (subst i) (simp add: nth_append l)
  qed
qed

lemma run_isr_exception: "i \<noteq> I386_pf \<Longrightarrow> i \<noteq> I386_irq \<Longrightarrow> run_isr call vpf i num state m = Inl Panic"
  by (cases i) (simp_all add: i386_unhandled_def i386_de_def i386_db_def i386_nmi_def i386_bp_def i386_of_def i386_br_def i386_ud_def
      i386_nm_def i386_df_def i386_ts_def i386_np_def i386_ss_def i386_gp_def i386_mf_def i386_ac_def i386_mc_def i386_xm_def
      i386_ve_def i386_sx_def)

lemma word_and_flags: "(w :: u32) AND 2 \<noteq> 0 \<longleftrightarrow> bit w 1" "w AND 4 \<noteq> 0 \<longleftrightarrow> bit w 2" "w AND 1 \<noteq> 0 \<longleftrightarrow> bit w 0"
proof -
  have "w AND 2 ^ n \<noteq> 0 \<longleftrightarrow> bit w n" if "n < 32" for n
    using that by (simp add: and_exp_eq_0_iff_not_bit)
  from this [of 1] this [of 2] this [of 0] show "w AND 2 \<noteq> 0 \<longleftrightarrow> bit w 1" "w AND 4 \<noteq> 0 \<longleftrightarrow> bit w 2" "w AND 1 \<noteq> 0 \<longleftrightarrow> bit w 0" by simp_all
qed

text \<open>
  C18. Where interrupts go. The processor's exceptions panic, but for the page fault, which goes to the
  memory manager with the address and the three bits of the error code. Vectors 32 to 47 flag their
  interrupt, run the handler registered for it if there is one, and acknowledge it to the second
  controller for 8 and above and to the first always. Every other vector is reported and nothing else
  is done: so it is with vectors 48 to 55, which \<^verbatim>\<open>i386_init\<close> gives to the second controller, whose
  interrupts reach no handler and are never acknowledged.
\<close>

theorem interrupt_delivery:
  assumes "unat num < 256" "length (irq_table m) = 16"
  shows "(unat num \<in> set exceptions \<longrightarrow> i386_isr call vpf num state m = Inl Panic) \<and>
    (num = 14 \<longrightarrow> i386_isr call vpf num state m = vpf (cr2 m) (bit (state 9) 1) (bit (state 9) 2) (bit (state 9) 0) m) \<and>
    (\<forall>irq < 16. unat num = 32 + irq \<longrightarrow> (let m1 = m\<lparr>irq_flag := irq_flag m OR 2 ^ irq\<rparr>; h = irq_table m ! irq in
       i386_isr call vpf num state m = bindE (if h = 0 then Inr m1 else call h m1)
         (\<lambda>m2. Inr (m2\<lparr>outs := outs m2 @ (if 8 \<le> irq then [(0xa0, 0x20)] else []) @ [(0x20, 0x20)]\<rparr>)))) \<and>
    (unat num \<notin> set exceptions \<and> num \<noteq> 14 \<and> (unat num < 32 \<or> 48 \<le> unat num) \<longrightarrow>
       i386_isr call vpf num state m = Inr (m\<lparr>unhandled := unhandled m @ [num]\<rparr>))"
proof (intro conjI impI allI)
  note l = itable_vectors(1)
  assume "unat num \<in> set exceptions"
  from itable_vectors(2) [OF this] obtain i where "itable ! unat num = Some i" "i \<noteq> I386_pf" "i \<noteq> I386_irq" by blast
  then show "i386_isr call vpf num state m = Inl Panic" using assms(1) l by (simp add: i386_isr_def run_isr_exception)
next
  assume "num = 14"
  then have "itable ! unat num = Some I386_pf" using itable_vectors(3) by simp
  then show "i386_isr call vpf num state m = vpf (cr2 m) (bit (state 9) 1) (bit (state 9) 2) (bit (state 9) 0) m"
    using assms(1) itable_vectors(1) by (simp add: i386_isr_def i386_pf_def word_and_flags)
next
  fix irq :: nat assume a: "irq < 16" "unat num = 32 + irq"
  then have "itable ! unat num = Some I386_irq" using itable_vectors(4) by simp
  moreover have "unat (num - 0x20) = irq" using a(2) by (simp add: unat_sub_if' word_le_nat_alt)
  ultimately show "let m1 = m\<lparr>irq_flag := irq_flag m OR 2 ^ irq\<rparr>; h = irq_table m ! irq in
       i386_isr call vpf num state m = bindE (if h = 0 then Inr m1 else call h m1)
         (\<lambda>m2. Inr (m2\<lparr>outs := outs m2 @ (if 8 \<le> irq then [(0xa0, 0x20)] else []) @ [(0x20, 0x20)]\<rparr>))"
    using assms a itable_vectors(1)
    by (simp add: i386_isr_def i386_irq_def Let_def push_bit_of_1 PIC_eoi_def outb_def)
next
  assume a: "unat num \<notin> set exceptions \<and> num \<noteq> 14 \<and> (unat num < 32 \<or> 48 \<le> unat num)"
  then have "unat num \<noteq> unat (14 :: u32)" using word_unat_eq_iff by blast
  then have "unat num \<noteq> 14" by simp
  then have "itable ! unat num = None" using itable_vectors(5) a assms(1) by blast
  then show "i386_isr call vpf num state m = Inr (m\<lparr>unhandled := unhandled m @ [num]\<rparr>)"
    using assms(1) itable_vectors(1) by (simp add: i386_isr_def unhandled_isr_def)
qed

theorem interrupt_delivery_witness:
  "i386_isr (\<lambda>_ _. Inl Panic) (\<lambda>_ _ _ _ _. Inl Panic) 0x30 (\<lambda>_. 0) cold = Inr (cold\<lparr>unhandled := [0x30]\<rparr>)"
proof -
  have "unat (0x30 :: u32) \<notin> set exceptions" by (simp add: exceptions_def)
  then show ?thesis
    using interrupt_delivery [of "0x30" cold "\<lambda>_ _. Inl Panic" "\<lambda>_ _ _ _ _. Inl Panic" "\<lambda>_. 0"] by (simp add: cold_def)
qed


subsection \<open>The countdown of the interval timer\<close>

lemma with_pit_unlocked:
  assumes "pit_lock m = 0"
  shows "with_pit m body = bindE (body ((cli m)\<lparr>pit_lock := 1\<rparr>)) (\<lambda>m. Inr ((sti m)\<lparr>pit_lock := 0\<rparr>))"
proof -
  have "pit_locked m = Inr ((cli m)\<lparr>pit_lock := 1\<rparr>)"
    using assms by (simp add: pit_locked_def spin_autolock_def arch_spin_lock_def arch_spin_trylock_def Let_def)
  moreover have "pit_unlocked = (\<lambda>m. Inr ((sti m)\<lparr>pit_lock := 0\<rparr>))"
    by (simp add: fun_eq_iff pit_unlocked_def spin_autolock_def arch_spin_unlock_def Let_def)
  ultimately show ?thesis by (simp add: with_pit_def)
qed

text \<open>The bytes that load the counter with \<open>c\<close>, and a run of \<open>n\<close> timer interrupts.\<close>

definition load :: "int \<Rightarrow> (u16 \<times> u8) list" where
  "load c = [(0x43, 0x30), (0x40, word_of_int (c mod 256)), (0x40, word_of_int (c div 256))]"

fun pit_ints :: "caller \<Rightarrow> nat \<Rightarrow> machine \<Rightarrow> machine res" where
  "pit_ints call 0 m = Inr m"
| "pit_ints call (Suc n) m = bindE (pit_timer_int call m) (pit_ints call n)"

lemma pit_set_loads: "pit_set m = m\<lparr>outs := outs m @ load (min (ticks m) 65535)\<rparr>"
proof -
  have "ticks m AND 255 = ticks m mod 256" using take_bit_eq_mask [of 8 "ticks m"] by (simp add: take_bit_eq_mod mask_eq_exp_minus_1)
  then show ?thesis by (simp add: pit_set_def load_def outb_def min_def drop_bit_eq_div)
qed

lemma cli_sti_pit [simp]:
  "ticks (cli m) = ticks m" "ticks (sti m) = ticks m" "pit_expire (cli m) = pit_expire m" "pit_expire (sti m) = pit_expire m"
  "pit_lock (cli m) = pit_lock m" "pit_lock (sti m) = pit_lock m"
  by (simp_all add: sti_def cli_def Let_def)

lemma pit_int_long:
  assumes "pit_lock m = 0" "ticks m > 65535"
  shows "\<exists>m'. pit_timer_int call m = Inr m' \<and> pit_lock m' = 0 \<and> ticks m' = ticks m - 65535 \<and> pit_expire m' = pit_expire m \<and>
    outs m' = outs m @ load (min (ticks m - 65535) 65535)"
  using assms unfolding pit_timer_int_def with_pit_unlocked [OF assms(1)] by (simp add: pit_set_loads)

lemma pit_ints_ok:
  assumes "pit_lock m = 0" "int n * 65535 < ticks m \<or> n = 0"
  shows "\<exists>m'. pit_ints call n m = Inr m' \<and> pit_lock m' = 0 \<and> ticks m' = ticks m - int n * 65535 \<and> pit_expire m' = pit_expire m \<and>
    outs m' = outs m @ concat (map (\<lambda>k. load (min (ticks m - (int k + 1) * 65535) 65535)) [0..<n])"
  using assms
proof (induction n arbitrary: m)
  case (Suc n)
  show ?case
  proof (cases n)
    case 0
    then have "ticks m > 65535" using Suc.prems(2) by simp
    then obtain m1 where "pit_timer_int call m = Inr m1 \<and> pit_lock m1 = 0 \<and> ticks m1 = ticks m - 65535 \<and> pit_expire m1 = pit_expire m \<and>
      outs m1 = outs m @ load (min (ticks m - 65535) 65535)" using pit_int_long [OF Suc.prems(1), of call] by blast
    then show ?thesis by (simp add: 0)
  next
    case (Suc k)
    have t: "ticks m > 65535" "int n * 65535 < ticks m - 65535" using Suc.prems(2) Suc by (simp_all add: algebra_simps)
    then obtain m1 where m1: "pit_timer_int call m = Inr m1" "pit_lock m1 = 0" "ticks m1 = ticks m - 65535" "pit_expire m1 = pit_expire m"
      "outs m1 = outs m @ load (min (ticks m - 65535) 65535)" using pit_int_long [OF Suc.prems(1), of call] by blast
    have "int n * 65535 < ticks m1 \<or> n = 0" using t(2) m1(3) by simp
    from Suc.IH [OF m1(2) this] obtain m2 where m2: "pit_ints call n m1 = Inr m2" "pit_lock m2 = 0" "ticks m2 = ticks m1 - int n * 65535"
      "pit_expire m2 = pit_expire m1" "outs m2 = outs m1 @ concat (map (\<lambda>k. load (min (ticks m1 - (int k + 1) * 65535) 65535)) [0..<n])" by blast
    have "[0..<Suc n] = 0 # map Suc [0..<n]" by (simp add: map_Suc_upt upt_conv_Cons)
    moreover have "map (\<lambda>k. load (min (ticks m1 - (int k + 1) * 65535) 65535)) [0..<n] = map (\<lambda>k. load (min (ticks m - (int k + 1) * 65535) 65535)) (map Suc [0..<n])"
    proof -
      have "ticks m1 - (int k + 1) * 65535 = ticks m - (int (Suc k) + 1) * 65535" for k using m1(3) by simp
      then show ?thesis by (simp only: map_map o_def)
    qed
    ultimately have "outs m2 = outs m @ concat (map (\<lambda>k. load (min (ticks m - (int k + 1) * 65535) 65535)) [0..<Suc n])"
      using m1(5) m2(5) by (simp del: upt_Suc map_map)
    moreover have "ticks m2 = ticks m - int (Suc n) * 65535" using m1(3) m2(3) by simp
    moreover have "pit_ints call (Suc n) m = Inr m2" using m1(1) m2(1) by simp
    ultimately show ?thesis using m2(2,4) m1(4) by metis
  qed
qed simp

lemma s64_id: "- (2 ^ 63) \<le> i \<Longrightarrow> i < 2 ^ 63 \<Longrightarrow> s64 i = i"
  unfolding s64_def by (rule signed_take_bit_int_eq_self)

text \<open>The values loaded: whole rounds of the counter, then what is left.\<close>

lemma countdown_loads:
  assumes Tn: "T = int n * 65535 + rest" and r: "0 \<le> rest" "rest \<le> 65535"
  shows "load (min T 65535) @ concat (map (\<lambda>k. load (min (T - (int k + 1) * 65535) 65535)) [0..<n]) = concat (replicate n (load 65535)) @ load rest"
proof (cases n)
  case 0
  then show ?thesis using assms by (simp add: min_def)
next
  case (Suc k)
  have "min T 65535 = 65535" using Tn r(1) Suc by simp
  moreover have "map (\<lambda>i. load (min (T - (int i + 1) * 65535) 65535)) [0..<n] = replicate k (load 65535) @ [load rest]"
  proof (rule nth_equalityI)
    show "length (map (\<lambda>i. load (min (T - (int i + 1) * 65535) 65535)) [0..<n]) = length (replicate k (load 65535) @ [load rest])" by (simp add: Suc)
    fix i assume "i < length (map (\<lambda>i. load (min (T - (int i + 1) * 65535) 65535)) [0..<n])"
    then have i: "i < Suc k" using Suc by simp
    show "map (\<lambda>i. load (min (T - (int i + 1) * 65535) 65535)) [0..<n] ! i = (replicate k (load 65535) @ [load rest]) ! i"
    proof (cases "i < k")
      case True
      then have "(int i + 1) * 65535 + 65535 \<le> int n * 65535" using Suc by simp
      then have "min (T - (int i + 1) * 65535) 65535 = 65535" using Tn r(1) by simp
      then show ?thesis using True Suc by (simp add: nth_append del: upt_Suc)
    next
      case False
      then have "i = k" using i by simp
      then have "T - (int i + 1) * 65535 = rest" using Tn Suc by (simp add: algebra_simps)
      then show ?thesis using \<open>i = k\<close> Suc r(2) by (simp add: nth_append min_def del: upt_Suc)
    qed
  qed
  ultimately show ?thesis using Suc by simp
qed

text \<open>The interrupt that finds no whole round left calls the handler with the lock released.\<close>

lemma pit_int_last:
  assumes "pit_lock m = 0" "ticks m \<le> 65535" "pit_expire m = expire" "expire \<noteq> 0"
  defines "m2 \<equiv> (sti ((cli m)\<lparr>pit_lock := 1, ticks := 0\<rparr>))\<lparr>pit_lock := 0\<rparr>"
  shows "pit_timer_int call m = bindE (call expire m2) (\<lambda>m. bindE (arch_spin_lock m (pit_lock m)) (\<lambda>(m, l). Inr ((sti m)\<lparr>pit_lock := 0\<rparr>)))"
    "pit_lock m2 = 0 \<and> pit_expire m2 = expire \<and> outs m2 = outs m"
proof -
  have "(sti (m\<lparr>pit_lock := l\<rparr>))\<lparr>pit_lock := 0\<rparr> = (sti m)\<lparr>pit_lock := 0\<rparr>" for m :: machine and l by (simp add: sti_def Let_def)
  then show "pit_timer_int call m = bindE (call expire m2) (\<lambda>m. bindE (arch_spin_lock m (pit_lock m)) (\<lambda>(m, l). Inr ((sti m)\<lparr>pit_lock := 0\<rparr>)))"
    unfolding pit_timer_int_def with_pit_unlocked [OF assms(1)] using assms(2-4) by (simp add: Let_def arch_spin_unlock_def m2_def bindE_assoc split_def)
  show "pit_lock m2 = 0 \<and> pit_expire m2 = expire \<and> outs m2 = outs m" using assms(3) by (simp add: m2_def)
qed

text \<open>
  C19. The interval timer counts down the time it is set to. For every time whose product with the
  clock rate fits 64 bits the loads of the counter are full ones and a rest, their sum is the time in
  ticks, each load but the last is followed by an interrupt that only loads the next, and the interrupt
  after the last calls the function given, once, with the lock released.
\<close>

theorem pit_countdown:
  assumes "pit_lock m = 0" "0 \<le> usec" "1193180 * usec < 2 ^ 63" "expire \<noteq> 0"
  defines "T \<equiv> 1193180 * usec div 1000000"
  defines "n \<equiv> nat ((T - 1) div 65535)"
  shows "\<exists>m0 m1 m2 rest. pit_timer_set m expire usec = Inr m0 \<and> pit_ints call n m0 = Inr m1 \<and>
    0 \<le> rest \<and> rest \<le> 65535 \<and> T = int n * 65535 + rest \<and> outs m1 = outs m @ concat (replicate n (load 65535)) @ load rest \<and>
    pit_lock m2 = 0 \<and> pit_expire m2 = expire \<and> outs m2 = outs m1 \<and>
    pit_timer_int call m1 = bindE (call expire m2) (\<lambda>m. bindE (arch_spin_lock m (pit_lock m)) (\<lambda>(m, l). Inr ((sti m)\<lparr>pit_lock := 0\<rparr>)))"
proof -
  have T0: "0 \<le> T" using assms(2) by (simp add: T_def)
  have "0 \<le> 1193180 * usec" using assms(2) by simp
  then have "s64 (1193180 * usec) sdiv 1000000 = 1193180 * usec div 1000000"
    using assms(3) by (cases "usec = 0") (simp_all only: s64_id signed_divide_int_def, auto simp: sgn_if)
  then have q: "s64 (1193180 * usec) sdiv 1000000 = T" by (simp only: T_def)
  define m0 where "m0 = (sti (pit_set ((cli m)\<lparr>pit_lock := 1, pit_expire := expire, ticks := T\<rparr>)))\<lparr>pit_lock := 0\<rparr>"
  have m0: "pit_timer_set m expire usec = Inr m0" unfolding pit_timer_set_def with_pit_unlocked [OF assms(1)] by (simp add: q m0_def)
  have f0: "pit_lock m0 = 0" "ticks m0 = T" "pit_expire m0 = expire" "outs m0 = outs m @ load (min T 65535)"
    by (simp_all add: m0_def pit_set_loads)
  define rest where "rest = T - int n * 65535"
  have n: "int n = (if T = 0 then 0 else (T - 1) div 65535)" using T0 by (auto simp: n_def pos_imp_zdiv_nonneg_iff)
  have dm: "T - 1 = 65535 * ((T - 1) div 65535) + (T - 1) mod 65535" by simp
  have r: "0 \<le> rest" "rest \<le> 65535" "int n * 65535 < T \<or> n = 0"
    using n T0 dm pos_mod_bound [of 65535 "T - 1"] pos_mod_sign [of 65535 "T - 1"] unfolding rest_def by (cases "T = 0"; simp; linarith)+
  from pit_ints_ok [of m0 n call] f0 r(3) obtain m1 where m1: "pit_ints call n m0 = Inr m1" "pit_lock m1 = 0" "ticks m1 = rest" "pit_expire m1 = expire"
    "outs m1 = outs m0 @ concat (map (\<lambda>k. load (min (T - (int k + 1) * 65535) 65535)) [0..<n])" by (auto simp: rest_def)
  have "T = int n * 65535 + rest" by (simp add: rest_def)
  then have "outs m1 = outs m @ concat (replicate n (load 65535)) @ load rest" using m1(5) f0(4) countdown_loads [OF _ r(1,2), of T n] by simp
  then show ?thesis using m0 m1(1,3) r pit_int_last(1) [OF m1(2) _ m1(4) assms(4), of call] pit_int_last(2) [OF m1(2) _ m1(4) assms(4)]
    by (intro exI [of _ m0] exI [of _ m1] exI [of _ "(sti ((cli m1)\<lparr>pit_lock := 1, ticks := 0\<rparr>))\<lparr>pit_lock := 0\<rparr>"] exI [of _ rest]) (simp add: rest_def)
qed

theorem pit_countdown_witness:
  "\<exists>m0 m1. pit_timer_set cold 0x1234 100000 = Inr m0 \<and> pit_ints (\<lambda>_ _. Inl Panic) 1 m0 = Inr m1 \<and>
     outs m1 = load 65535 @ load 53783"
proof -
  have "nat ((1193180 * 100000 div 1000000 - 1) div 65535) = (1 :: nat)" by simp
  then show ?thesis
    using pit_countdown [of cold 100000 "0x1234" "\<lambda>_ _. Inl Panic"] by (fastforce simp: cold_def)
qed

end
