(* ===== verification/Bitmap.thy ===== *)
theory Bitmap
  imports Prelude
begin

text \<open>
  The bitmaps of the page allocator (\<^verbatim>\<open>kernel/core.c\<close>) and of the slabs (\<^verbatim>\<open>libk/slab.c\<close>):
  arrays of 32-bit words in which entry \<open>i\<close> is the bit \<^verbatim>\<open>0x80000000 >> i%32\<close> of the word
  \<^verbatim>\<open>i/32\<close>, and the loop that looks for the first set bit of a word from the top.
\<close>

unbundle bit_operations_syntax

definition bmask :: "nat \<Rightarrow> u32" where
  "bmask i = drop_bit (i mod 32) 0x80000000"

definition bset :: "u32 list \<Rightarrow> nat \<Rightarrow> u32 list" where
  "bset av i = av[i div 32 := av ! (i div 32) OR bmask i]"

definition bclear :: "u32 list \<Rightarrow> nat \<Rightarrow> u32 \<Rightarrow> u32 list" where
  "bclear av w msk = av[w := av ! w AND NOT msk]"

function scan_mask :: "u32 \<Rightarrow> u32 \<Rightarrow> nat \<Rightarrow> u32 \<times> nat" where
  "scan_mask a msk slot =
     (if msk = 0 then (msk, slot)
      else if a AND msk \<noteq> 0 then (msk, slot)
      else scan_mask a (drop_bit 1 msk) (slot + 1))"
  by pat_completeness auto
termination
proof (relation "measure (\<lambda>(a, msk, slot). unat msk)")
  fix a msk :: u32 and slot :: nat
  assume m: "msk \<noteq> 0"
  then have "0 < unat msk" by (simp add: unat_gt_0)
  then have "unat msk div 2 < unat msk" by simp
  then show "((a, drop_bit 1 msk, slot + 1), a, msk, slot) \<in> measure (\<lambda>(a, msk, slot). unat msk)"
    by (simp add: unat_drop_bit_eq drop_bit_Suc unat_div)
qed simp

declare scan_mask.simps [simp del]

subsection \<open>Bits of the words\<close>

definition bfree :: "u32 list \<Rightarrow> nat \<Rightarrow> bool" where
  "bfree av i \<longleftrightarrow> bit (av ! (i div 32)) (31 - i mod 32)"

lemma top_exp: "(0x80000000 :: u32) = 2 ^ 31"
  by simp

lemma bit_top: "bit (0x80000000 :: u32) n \<longleftrightarrow> n = 31"
  unfolding top_exp bit_exp_iff by auto

lemma drop_top: "k < 32 \<Longrightarrow> drop_bit k (0x80000000 :: u32) = 2 ^ (31 - k)"
  by (rule bit_eqI) (simp only: bit_drop_bit_eq bit_exp_iff bit_top o_def, auto)

lemma and_drop_top: "k < 32 \<Longrightarrow> a AND drop_bit k (0x80000000 :: u32) \<noteq> 0 \<longleftrightarrow> bit a (31 - k)"
  by (simp add: drop_top and_exp_eq_0_iff_not_bit)

lemma bit_bmask: "bit (bmask i) n \<longleftrightarrow> n = 31 - i mod 32"
proof -
  have "i mod 32 < 32" by simp
  then show ?thesis unfolding bmask_def bit_drop_bit_eq o_def bit_top by linarith
qed

lemma scan_mask_from:
  assumes "k \<le> j" "j < 32" "bit a (31 - j)" "\<forall>i. k \<le> i \<and> i < j \<longrightarrow> \<not> bit a (31 - i)"
  shows "scan_mask a (drop_bit k 0x80000000) (s + k) = (bmask j, s + j)"
  using assms
proof (induction "j - k" arbitrary: k)
  case 0
  then have "k = j" by simp
  then show ?case using 0 and_drop_top [of j a] by (subst scan_mask.simps) (simp add: bmask_def)
next
  case (Suc d)
  then have k: "k < j" "\<not> bit a (31 - k)" by auto
  have "scan_mask a (drop_bit (Suc k) 0x80000000) (s + Suc k) = (bmask j, s + j)"
    by (rule Suc.hyps(1)) (use Suc k in auto)
  moreover have "drop_bit k (0x80000000 :: u32) \<noteq> 0" using k Suc.prems(2) by (simp add: drop_top)
  ultimately show ?case using k Suc.prems(2) and_drop_top [of k a]
    by (subst scan_mask.simps) (simp add: drop_bit_drop_bit)
qed

lemma scan_mask_first:
  assumes "a \<noteq> 0"
  shows "\<exists>j<32. scan_mask a 0x80000000 s = (bmask j, s + j) \<and> bit a (31 - j) \<and> (\<forall>i<j. \<not> bit a (31 - i))"
proof -
  obtain n where n: "bit a n" using assms bit_eq_iff [of a 0] by auto
  then have "n < 32" using bit_imp_le_length [of a n] by simp
  then have ex: "bit a (31 - (31 - n))" using n by simp
  define j where "j = (LEAST i. bit a (31 - i))"
  have j: "bit a (31 - j)" "j \<le> 31 - n" unfolding j_def using ex by (rule LeastI) (rule Least_le, rule ex)
  have lt: "\<forall>i<j. \<not> bit a (31 - i)" using not_less_Least unfolding j_def by blast
  have "scan_mask a (drop_bit 0 0x80000000) (s + 0) = (bmask j, s + j)"
    by (rule scan_mask_from) (use j lt in auto)
  then show ?thesis using j lt by (intro exI [of _ j]) simp
qed

lemma nth_update_word: "w < length av \<Longrightarrow> (av[w := v]) ! u = (if u = w then v else av ! u)"
  by (cases "u = w") simp_all

lemma same_entry: "i div 32 = j div 32 \<and> 31 - i mod 32 = 31 - j mod (32 :: nat) \<longleftrightarrow> i = j"
proof -
  have "31 - i mod 32 = 31 - j mod 32 \<longleftrightarrow> i mod 32 = j mod 32" using mod_less_divisor [of 32 i] mod_less_divisor [of 32 j] by linarith
  then show ?thesis by (metis div_mult_mod_eq)
qed

lemma bfree_bset: "i div 32 < length av \<Longrightarrow> bfree (bset av i) j \<longleftrightarrow> j = i \<or> bfree av j"
  using same_entry [of i j] by (auto simp: bfree_def bset_def nth_update_word bit_or_iff bit_bmask)

lemma bfree_bclear:
  assumes "i div 32 < length av"
  shows "bfree (bclear av (i div 32) (bmask i)) j \<longleftrightarrow> j \<noteq> i \<and> bfree av j"
proof -
  have "31 - j mod 32 < (32 :: nat)" by simp
  then show ?thesis using assms same_entry [of i j]
    by (auto simp: bfree_def bclear_def nth_update_word bit_and_iff bit_not_iff bit_bmask)
qed

lemma length_bset [simp]: "length (bset av i) = length av" and length_bclear [simp]: "length (bclear av w m) = length av"
  by (simp_all add: bset_def bclear_def)

text \<open>The first entry of a word that is set, from the top.\<close>

lemma word_first_entry:
  assumes "av ! w \<noteq> 0"
  shows "\<exists>j<32. scan_mask (av ! w) 0x80000000 s = (bmask (32 * w + j), s + j) \<and> bfree av (32 * w + j)"
  using scan_mask_first [OF assms, of s] by (fastforce simp: bfree_def bmask_def)

lemma word_empty_entries: "av ! w = 0 \<Longrightarrow> i div 32 = w \<Longrightarrow> \<not> bfree av i"
  by (auto simp: bfree_def)

end
