(* ===== verification/Allocator.thy ===== *)
theory Allocator
  imports Prelude
begin

text \<open>
  The contract an allocator has with its clients. \<open>used s\<close> is the set of things that are handed out
  in the state \<open>s\<close>. Allocation hands out something that is not in use; giving back something in use
  takes exactly that out of use. A client that runs any sequence of requests then never holds the
  same thing twice, and what is in use is what it held before or holds now. The page allocator of
  \<^verbatim>\<open>kernel/core.c\<close> and the slabs of \<^verbatim>\<open>libk/slab.c\<close> keep this contract.
\<close>

datatype alloc_op = Get | Put nat

text \<open>A client's requests: \<open>Put k\<close> gives back the \<open>k\<close>-th thing it holds.\<close>

fun alloc_run ::
  "('s \<Rightarrow> ('s \<times> 'a option) res) \<Rightarrow> ('s \<Rightarrow> 'a \<Rightarrow> 's res) \<Rightarrow> alloc_op list \<Rightarrow> 's \<Rightarrow> 'a list \<Rightarrow> ('s \<times> 'a list) res" where
  "alloc_run take_one give [] s h = Inr (s, h)"
| "alloc_run take_one give (Get # os) s h =
     bindE (take_one s) (\<lambda>(s, r). alloc_run take_one give os s (case r of None \<Rightarrow> h | Some p \<Rightarrow> p # h))"
| "alloc_run take_one give (Put k # os) s h =
     (if k < length h then bindE (give s (h ! k)) (\<lambda>s. alloc_run take_one give os s (take k h @ drop (Suc k) h))
      else alloc_run take_one give os s h)"

lemma drop_nth_set:
  assumes "distinct h" "k < length h"
  shows "distinct (take k h @ drop (Suc k) h)" "set (take k h @ drop (Suc k) h) = set h - {h ! k}"
proof -
  have h: "h = take k h @ h ! k # drop (Suc k) h" using id_take_nth_drop [OF assms(2)] .
  have "distinct (take k h @ h ! k # drop (Suc k) h)" using assms(1) h by simp
  then show "distinct (take k h @ drop (Suc k) h)" by simp
  have "set h = set (take k h @ h ! k # drop (Suc k) h)" using h by simp
  then show "set (take k h @ drop (Suc k) h) = set h - {h ! k}"
    using \<open>distinct (take k h @ h ! k # drop (Suc k) h)\<close> by auto
qed

locale allocator =
  fixes ok :: "'s \<Rightarrow> bool"
    and used :: "'s \<Rightarrow> 'a set"
    and take_one :: "'s \<Rightarrow> ('s \<times> 'a option) res"
    and give :: "'s \<Rightarrow> 'a \<Rightarrow> 's res"
  assumes take_law: "ok s \<Longrightarrow> take_one s = Inr (s', r) \<Longrightarrow>
      ok s' \<and> (case r of None \<Rightarrow> used s' = used s | Some p \<Rightarrow> p \<notin> used s \<and> used s' = insert p (used s))"
    and give_law: "ok s \<Longrightarrow> p \<in> used s \<Longrightarrow> \<exists>s'. give s p = Inr s' \<and> ok s' \<and> used s' = used s - {p}"
begin

lemma run_exclusive:
  assumes "alloc_run take_one give os s h = Inr (s', h')" "ok s" "distinct h" "set h \<inter> U = {}" "used s = U \<union> set h"
  shows "ok s' \<and> distinct h' \<and> set h' \<inter> U = {} \<and> used s' = U \<union> set h'"
  using assms
proof (induction os arbitrary: s h)
  case (Cons op os)
  show ?case
  proof (cases op)
    case Get
    from Cons.prems(1) obtain s1 r where t: "take_one s = Inr (s1, r)"
      "alloc_run take_one give os s1 (case r of None \<Rightarrow> h | Some p \<Rightarrow> p # h) = Inr (s', h')"
      by (auto simp: Get bindE_Inr_iff)
    have l: "ok s1" "case r of None \<Rightarrow> used s1 = used s | Some p \<Rightarrow> p \<notin> used s \<and> used s1 = insert p (used s)"
      using take_law [OF Cons.prems(2) t(1)] by auto
    show ?thesis
      by (rule Cons.IH [OF t(2) l(1)]) (use l(2) Cons.prems(3-5) in \<open>auto split: option.splits\<close>)
  next
    case (Put k)
    show ?thesis
    proof (cases "k < length h")
      case True
      have "h ! k \<in> used s" using Cons.prems(5) True by auto
      then obtain s1 where g: "give s (h ! k) = Inr s1" "ok s1" "used s1 = used s - {h ! k}"
        using give_law [OF Cons.prems(2)] by blast
      note d = drop_nth_set [OF Cons.prems(3) True]
      have "h ! k \<notin> U" using Cons.prems(4) nth_mem [OF True] by blast
      then show ?thesis
        by (intro Cons.IH [of s1 "take k h @ drop (Suc k) h"]) (use g d Cons.prems True Put in auto)
    next
      case False
      then show ?thesis using Cons Put by simp
    qed
  qed
qed simp

end

locale total_allocator = allocator +
  assumes take_total: "ok s \<Longrightarrow> \<exists>s' r. take_one s = Inr (s', r)"
begin

lemma run_total:
  assumes "ok s" "set h \<subseteq> used s" "distinct h"
  shows "\<exists>s' h'. alloc_run take_one give os s h = Inr (s', h')"
  using assms
proof (induction os arbitrary: s h)
  case (Cons op os)
  show ?case
  proof (cases op)
    case Get
    obtain s1 r where t: "take_one s = Inr (s1, r)" using take_total [OF Cons.prems(1)] by blast
    note l = take_law [OF Cons.prems(1) t]
    have "\<exists>s' h'. alloc_run take_one give os s1 (case r of None \<Rightarrow> h | Some p \<Rightarrow> p # h) = Inr (s', h')"
      by (rule Cons.IH) (use l Cons.prems in \<open>auto split: option.splits\<close>)
    then show ?thesis using t Get by simp
  next
    case (Put k)
    show ?thesis
    proof (cases "k < length h")
      case True
      then have "h ! k \<in> used s" using Cons.prems(2) by auto
      then obtain s1 where g: "give s (h ! k) = Inr s1" "ok s1" "used s1 = used s - {h ! k}"
        using give_law [OF Cons.prems(1)] by blast
      have "\<exists>s' h'. alloc_run take_one give os s1 (take k h @ drop (Suc k) h) = Inr (s', h')"
        by (rule Cons.IH) (use g drop_nth_set [OF Cons.prems(3) True] Cons.prems(2) in auto)
      then show ?thesis using g True Put by simp
    next
      case False
      then show ?thesis using Cons Put by simp
    qed
  qed
qed simp

end

end
