(* ===== verification/Page_Alloc.thy ===== *)
theory Page_Alloc
  imports Bitmap Allocator
begin

text \<open>
  The physical page allocator of \<^verbatim>\<open>kernel/core.c\<close>: up to 32 ranges of pages, each with a bitmap of
  the free ones and their number. The table is the list of the ranges added so far. A page is a
  32-bit page number.
\<close>

record kernel_mmap =
  mm_base :: u32
  mm_count :: int
  mm_free :: int
  mm_available :: "u32 list"

type_synonym mmap = "kernel_mmap list"

text \<open>\<^verbatim>\<open>bootstrap_alloc\<close> returns memory of its own for the bitmap.\<close>

definition page_add_range :: "mmap \<Rightarrow> u32 \<Rightarrow> u32 \<Rightarrow> mmap res" where
  "page_add_range mm base cnt =
     (let bitmapsize = (cnt + 31) div 32 in
      if 32 \<le> length mm then Inl BadAccess
      else Inr (mm @ [\<lparr>mm_base = base, mm_count = sint cnt, mm_free = 0, mm_available = replicate (unat bitmapsize) 0\<rparr>]))"

fun page_free :: "mmap \<Rightarrow> u32 \<Rightarrow> mmap res" where
  "page_free [] page = Inr []"
| "page_free (m # mm) page =
     (let p = sint (page - mm_base m) in
      if p > 0 \<and> p < mm_count m then
        if nat p div 32 < length (mm_available m) then
          Inr (m\<lparr>mm_available := bset (mm_available m) (nat p), mm_free := mm_free m + 1\<rparr> # mm)
        else Inl BadAccess
      else bindE (page_free mm page) (\<lambda>mm. Inr (m # mm)))"

text \<open>
  The search of one range: from the entry \<open>p\<close>, a multiple of 32, word by word. A nonzero word
  always has a set bit; the source's loop would go on after one without.
\<close>

lemma scan_mask_ge: "slot \<le> snd (scan_mask a msk slot)"
proof (induction a msk slot rule: scan_mask.induct)
  case (1 a msk slot)
  then show ?case by (subst scan_mask.simps) auto
qed

function page_scan :: "kernel_mmap \<Rightarrow> nat \<Rightarrow> (u32 \<times> nat) option res" where
  "page_scan m p =
     (if int p < mm_count m then
        if length (mm_available m) \<le> p div 32 then Inl BadAccess
        else if mm_available m ! (p div 32) \<noteq> 0 then
          let r = scan_mask (mm_available m ! (p div 32)) 0x80000000 p in
          if fst r \<noteq> 0 then Inr (Some r) else page_scan m (snd r + 32)
        else page_scan m (p + 32)
      else Inr None)"
  by pat_completeness auto
termination
proof (relation "measure (\<lambda>(m, p). nat (mm_count m) - p)")
  fix m :: kernel_mmap and p :: nat and r
  assume a: "int p < mm_count m" "r = scan_mask (mm_available m ! (p div 32)) 0x80000000 p"
  have "p \<le> snd r" unfolding a(2) by (rule scan_mask_ge)
  then show "((m, snd r + 32), m, p) \<in> measure (\<lambda>(m, p). nat (mm_count m) - p)" using a(1) by simp
qed auto

declare page_scan.simps [simp del]

fun page_alloc_from :: "nat \<Rightarrow> mmap \<Rightarrow> (mmap \<times> u32) res" where
  "page_alloc_from 0 mm = Inr (mm, 0)"
| "page_alloc_from (Suc m) mm =
     (let r = mm ! m in
      if mm_free r > 0 then
        bindE (page_scan r 0) (\<lambda>f. case f of
          Some (msk, p) \<Rightarrow>
            Inr (mm[m := r\<lparr>mm_available := bclear (mm_available r) (p div 32) msk, mm_free := mm_free r - 1\<rparr>],
                 mm_base r + of_nat p)
        | None \<Rightarrow> page_alloc_from m mm)
      else page_alloc_from m mm)"

definition page_alloc :: "mmap \<Rightarrow> (mmap \<times> u32) res" where
  "page_alloc mm = page_alloc_from (length mm) mm"

subsection \<open>The pages a table stands for\<close>

definition range_free :: "kernel_mmap \<Rightarrow> nat set" where
  "range_free m = {i. i < nat (mm_count m) \<and> bfree (mm_available m) i}"

text \<open>
  A range is well formed: the counts fit, the bitmap has an entry for every page and none beyond,
  entry 0 is never free, and the number of free pages is right.
\<close>

definition range_ok :: "kernel_mmap \<Rightarrow> bool" where
  "range_ok m \<longleftrightarrow> 0 \<le> mm_count m \<and> mm_count m < 2 ^ 31 \<and> unat (mm_base m) + nat (mm_count m) \<le> 2 ^ 32 \<and>
     length (mm_available m) = (nat (mm_count m) + 31) div 32 \<and>
     (\<forall>i < 32 * length (mm_available m). bfree (mm_available m) i \<longrightarrow> 0 < i \<and> i < nat (mm_count m)) \<and>
     mm_free m = int (card (range_free m))"

definition page_at :: "kernel_mmap \<Rightarrow> nat \<Rightarrow> u32" where
  "page_at m i = mm_base m + of_nat i"

definition range_pages :: "kernel_mmap \<Rightarrow> u32 set" where
  "range_pages m = {page_at m i | i. 0 < i \<and> i < nat (mm_count m)}"

definition free_pages :: "mmap \<Rightarrow> u32 set" where
  "free_pages mm = (\<Union>m\<in>set mm. page_at m ` range_free m)"

definition all_pages :: "mmap \<Rightarrow> u32 set" where
  "all_pages mm = (\<Union>m\<in>set mm. range_pages m)"

definition mmap_ok :: "mmap \<Rightarrow> bool" where
  "mmap_ok mm \<longleftrightarrow> (\<forall>m\<in>set mm. range_ok m) \<and>
     (\<forall>i<length mm. \<forall>j<length mm. i \<noteq> j \<longrightarrow> range_pages (mm ! i) \<inter> range_pages (mm ! j) = {})"

definition used_pages :: "mmap \<Rightarrow> u32 set" where
  "used_pages mm = all_pages mm - free_pages mm"

lemma signed_range:
  assumes "c < 2 ^ 31"
  shows "0 < sint (w :: u32) \<and> sint w < c \<longleftrightarrow> 0 < unat w \<and> int (unat w) < c"
    and "0 < unat w \<and> int (unat w) < c \<Longrightarrow> nat (sint w) = unat w"
proof -
  have b: "unat w < 2 ^ 32" using unsigned_less [of w, where ?'a = nat] by simp
  define u where "u = unat w"
  have s: "sint w = (if u < 2 ^ 31 then int u else int u - 2 ^ 32)" unfolding u_def by (rule sint_u32)
  show "0 < sint w \<and> sint w < c \<longleftrightarrow> 0 < unat w \<and> int (unat w) < c"
    unfolding u_def [symmetric] using s b [folded u_def] assms by (auto split: if_splits)
  show "nat (sint w) = unat w" if "0 < unat w \<and> int (unat w) < c"
    using s that assms unfolding u_def [symmetric] by simp
qed

lemma bmask_nz: "bmask i \<noteq> 0"
  using bit_bmask [of i "31 - i mod 32"] by auto

lemma range_free_lt: "i \<in> range_free m \<Longrightarrow> range_ok m \<Longrightarrow> i div 32 < length (mm_available m)"
  by (auto simp: range_free_def range_ok_def)

lemma page_scan_ok:
  assumes "range_ok m" "p mod 32 = 0" "\<forall>i<p. i \<notin> range_free m"
  shows "(page_scan m p = Inr None \<and> range_free m = {}) \<or>
    (\<exists>i. page_scan m p = Inr (Some (bmask i, i)) \<and> i \<in> range_free m)"
  using assms
proof (induction m p rule: page_scan.induct)
  case (1 m p)
  let ?av = "mm_available m" and ?w = "p div 32"
  have len: "length ?av = (nat (mm_count m) + 31) div 32"
    and bound: "\<And>i. i < 32 * length ?av \<Longrightarrow> bfree ?av i \<Longrightarrow> i < nat (mm_count m)"
    using 1(3) unfolding range_ok_def by blast+
  show ?case
  proof (cases "int p < mm_count m")
    case False
    then have "range_free m = {}" using 1(5) by (auto simp: range_free_def)
    then show ?thesis using False by (subst page_scan.simps) simp
  next
    case lt: True
    have w: "?w < length ?av" "p = 32 * ?w" using lt len 1(4) by auto
    show ?thesis
    proof (cases "?av ! ?w = 0")
      case True
      have "i \<notin> range_free m" if "i < p + 32" for i
      proof (cases "i < p")
        case False
        then have "i div 32 = ?w" using that w(2) by auto
        then show ?thesis using word_empty_entries [OF True] by (simp add: range_free_def)
      qed (use 1(5) in blast)
      moreover have "(p + 32) mod 32 = 0" using 1(4) by simp
      ultimately have "(page_scan m (p + 32) = Inr None \<and> range_free m = {}) \<or>
          (\<exists>i. page_scan m (p + 32) = Inr (Some (bmask i, i)) \<and> i \<in> range_free m)"
        by (intro 1(2)) (use lt w True 1(3) in auto)
      moreover have "page_scan m p = page_scan m (p + 32)" using lt w(1) True by (subst page_scan.simps) simp
      ultimately show ?thesis by simp
    next
      case False
      obtain j where j: "j < 32" "scan_mask (?av ! ?w) 0x80000000 p = (bmask (32 * ?w + j), p + j)" "bfree ?av (32 * ?w + j)"
        using word_first_entry [OF False, of p] by blast
      have pj: "32 * ?w + j = p + j" using w(2) by simp
      have "p + j < 32 * length ?av" using w j(1) by linarith
      then have "p + j \<in> range_free m" using j(3) bound unfolding pj by (simp add: range_free_def)
      moreover have "page_scan m p = Inr (Some (bmask (p + j), p + j))"
        using lt w(1) False j(2) bmask_nz unfolding pj by (subst page_scan.simps) (simp add: Let_def)
      ultimately show ?thesis by blast
    qed
  qed
qed

lemma page_at_inj:
  assumes "range_ok m" "page_at m i = page_at m j" "i < nat (mm_count m)" "j < nat (mm_count m)"
  shows "i = j"
  using assms(2) unfolding page_at_def by (rule addr_offset_inj) (use assms in \<open>auto simp: range_ok_def\<close>)

lemma range_free_pages:
  assumes "range_ok m" "i \<in> range_free m"
  shows "page_at m i \<in> range_pages m"
proof -
  have "bfree (mm_available m) i" "i < nat (mm_count m)" using assms(2) by (simp_all add: range_free_def)
  moreover have "i < 32 * length (mm_available m)" using range_free_lt [OF assms(2,1)] by linarith
  ultimately have "0 < i" "i < nat (mm_count m)" using assms(1) unfolding range_ok_def by blast+
  then show ?thesis unfolding range_pages_def by blast
qed

lemma range_pages_nz:
  assumes "range_ok m" "p \<in> range_pages m" shows "p \<noteq> 0"
proof -
  obtain i where i: "p = mm_base m + of_nat i" "0 < i" "i < nat (mm_count m)" using assms(2) by (auto simp: range_pages_def page_at_def)
  have b: "unat (mm_base m) + nat (mm_count m) \<le> 2 ^ 32" "mm_count m < 2 ^ 31" using assms(1) by (auto simp: range_ok_def)
  have "unat (of_nat i :: u32) = i" using i(3) b(2) by (intro unat_of_nat_addr) simp
  then have "unat p = unat (mm_base m) + i" using i b(1) by (simp add: unat_word_ariths)
  then show ?thesis using i(2) by auto
qed

text \<open>Taking entry \<open>i\<close> out of a range, and putting it in.\<close>

lemma range_take:
  assumes "range_ok m" "i \<in> range_free m"
  defines "m' \<equiv> m\<lparr>mm_available := bclear (mm_available m) (i div 32) (bmask i), mm_free := mm_free m - 1\<rparr>"
  shows "range_ok m'" "range_free m' = range_free m - {i}" "page_at m' = page_at m" "range_pages m' = range_pages m"
proof -
  have b: "bfree (mm_available m') j \<longleftrightarrow> j \<noteq> i \<and> bfree (mm_available m) j" for j
    using bfree_bclear [OF range_free_lt [OF assms(2,1)]] by (simp add: m'_def)
  have c: "mm_count m' = mm_count m" "length (mm_available m') = length (mm_available m)" "mm_base m' = mm_base m"
    by (simp_all add: m'_def)
  show f: "range_free m' = range_free m - {i}" using b by (auto simp: range_free_def c)
  show "page_at m' = page_at m" by (simp add: page_at_def fun_eq_iff c)
  then show "range_pages m' = range_pages m" by (simp add: range_pages_def c)
  have "finite (range_free m)" by (simp add: range_free_def)
  then have "0 < card (range_free m)" "card (range_free m') = card (range_free m) - 1"
    using assms(2) f by (auto simp: card_gt_0_iff)
  then have "mm_free m' = int (card (range_free m'))" using assms(1) by (simp add: m'_def range_ok_def of_nat_diff)
  then show "range_ok m'" using assms(1) b c by (auto simp: range_ok_def)
qed

lemma range_put:
  assumes "range_ok m" "0 < i" "i < nat (mm_count m)" "i \<notin> range_free m"
  defines "m' \<equiv> m\<lparr>mm_available := bset (mm_available m) i, mm_free := mm_free m + 1\<rparr>"
  shows "range_ok m'" "range_free m' = insert i (range_free m)" "page_at m' = page_at m" "range_pages m' = range_pages m"
proof -
  have "i div 32 < length (mm_available m)" using assms(1,3) by (auto simp: range_ok_def)
  then have b: "bfree (mm_available m') j \<longleftrightarrow> j = i \<or> bfree (mm_available m) j" for j
    using bfree_bset by (simp add: m'_def)
  have c: "mm_count m' = mm_count m" "length (mm_available m') = length (mm_available m)" "mm_base m' = mm_base m"
    by (simp_all add: m'_def)
  show f: "range_free m' = insert i (range_free m)" using b assms(3) by (auto simp: range_free_def c)
  show "page_at m' = page_at m" by (simp add: page_at_def fun_eq_iff c)
  then show "range_pages m' = range_pages m" by (simp add: range_pages_def c)
  have "finite (range_free m)" by (simp add: range_free_def)
  then have "mm_free m' = int (card (range_free m'))" using assms(1,4) f by (simp add: m'_def range_ok_def)
  then show "range_ok m'" using assms(1-3) b c by (auto simp: range_ok_def)
qed

subsection \<open>The table\<close>

lemma mmap_update:
  assumes "mmap_ok mm" "k < length mm" "range_ok m'" "range_pages m' = range_pages (mm ! k)"
  shows "mmap_ok (mm[k := m'])" "all_pages (mm[k := m']) = all_pages mm"
proof -
  have n: "range_pages (mm[k := m'] ! i) = range_pages (mm ! i)" for i
    using assms(2,4) by (cases "i = k") simp_all
  have "\<forall>m\<in>set (mm[k := m']). range_ok m" using assms(1,3) set_update_subset_insert [of mm k m'] by (auto simp: mmap_ok_def)
  then show "mmap_ok (mm[k := m'])" using assms(1) n by (simp add: mmap_ok_def)
  have "range_pages ` set (mm[k := m']) = range_pages ` set mm"
    unfolding set_map [symmetric] map_update assms(4) using assms(2) by (metis list_update_id nth_map)
  then show "all_pages (mm[k := m']) = all_pages mm" unfolding all_pages_def by simp
qed

text \<open>A page of range \<open>k\<close> is a page of no other range, so a change there is the only one.\<close>

lemma free_pages_nth: "free_pages mm = (\<Union>i<length mm. page_at (mm ! i) ` range_free (mm ! i))"
  unfolding free_pages_def by (force simp: in_set_conv_nth)

lemma free_in_range: "mmap_ok mm \<Longrightarrow> i < length mm \<Longrightarrow> page_at (mm ! i) ` range_free (mm ! i) \<subseteq> range_pages (mm ! i)"
  using range_free_pages by (auto simp: mmap_ok_def)

lemma free_pages_update:
  assumes "mmap_ok mm" "k < length mm"
  shows "free_pages (mm[k := m']) = page_at m' ` range_free m' \<union> (free_pages mm - range_pages (mm ! k))"
proof -
  have o: "page_at (mm ! i) ` range_free (mm ! i) \<inter> range_pages (mm ! k) = {}" if "i < length mm" "i \<noteq> k" for i
    using free_in_range [OF assms(1) that(1)] assms that by (fastforce simp: mmap_ok_def)
  have s: "page_at (mm ! k) ` range_free (mm ! k) - range_pages (mm ! k) = {}" using free_in_range [OF assms] by blast
  have "free_pages mm - range_pages (mm ! k) = (\<Union>i\<in>{i. i < length mm \<and> i \<noteq> k}. page_at (mm ! i) ` range_free (mm ! i))"
    unfolding free_pages_nth using o s by blast
  moreover have "{..<length mm} = insert k {i. i < length mm \<and> i \<noteq> k}" using assms(2) by auto
  ultimately show ?thesis unfolding free_pages_nth [of "mm[k := m']"] using assms(2) by simp
qed

lemma page_taken:
  assumes "mmap_ok mm" "k < length mm" "i \<in> range_free (mm ! k)"
  defines "m' \<equiv> (mm ! k)\<lparr>mm_available := bclear (mm_available (mm ! k)) (i div 32) (bmask i), mm_free := mm_free (mm ! k) - 1\<rparr>"
  shows "mmap_ok (mm[k := m'])" "all_pages (mm[k := m']) = all_pages mm"
    "free_pages (mm[k := m']) = free_pages mm - {page_at (mm ! k) i}" "page_at (mm ! k) i \<in> free_pages mm"
proof -
  have ok: "range_ok (mm ! k)" using assms(1,2) by (simp add: mmap_ok_def)
  note t = range_take [OF ok assms(3), folded m'_def]
  show "mmap_ok (mm[k := m'])" "all_pages (mm[k := m']) = all_pages mm" using mmap_update [OF assms(1,2) t(1,4)] by auto
  show f: "page_at (mm ! k) i \<in> free_pages mm" using assms(2,3) by (auto simp: free_pages_nth)
  have inj: "page_at (mm ! k) j \<noteq> page_at (mm ! k) i" if "j \<in> range_free (mm ! k)" "j \<noteq> i" for j
    using page_at_inj [OF ok] that assms(3) by (auto simp: range_free_def)
  have "page_at (mm ! k) ` (range_free (mm ! k) - {i}) = page_at (mm ! k) ` range_free (mm ! k) - {page_at (mm ! k) i}" using inj by auto
  moreover have "free_pages mm = page_at (mm ! k) ` range_free (mm ! k) \<union> (free_pages mm - range_pages (mm ! k))"
    using free_pages_update [OF assms(1,2), of "mm ! k"] by simp
  moreover have "page_at (mm ! k) i \<in> range_pages (mm ! k)" using range_free_pages [OF ok assms(3)] .
  ultimately show "free_pages (mm[k := m']) = free_pages mm - {page_at (mm ! k) i}"
    unfolding free_pages_update [OF assms(1,2), of m'] t(2,3) by blast
qed

lemma page_alloc_from_ok:
  assumes "mmap_ok mm" "n \<le> length mm" "\<forall>i<length mm. n \<le> i \<longrightarrow> range_free (mm ! i) = {}"
  shows "\<exists>mm' p. page_alloc_from n mm = Inr (mm', p) \<and> mmap_ok mm' \<and> all_pages mm' = all_pages mm \<and>
    (if free_pages mm = {} then p = 0 \<and> mm' = mm else p \<in> free_pages mm \<and> free_pages mm' = free_pages mm - {p})"
  using assms
proof (induction n)
  case 0
  then have "free_pages mm = {}" unfolding free_pages_nth by simp
  then show ?case using 0 by simp
next
  case (Suc n)
  let ?r = "mm ! n"
  have n: "n < length mm" using Suc.prems(2) by simp
  have ok: "range_ok ?r" using Suc.prems(1) n by (simp add: mmap_ok_def)
  have fin: "finite (range_free ?r)" by (simp add: range_free_def)
  show ?case
  proof (cases "range_free ?r = {}")
    case True
    then have "mm_free ?r = 0" using ok by (simp add: range_ok_def)
    moreover have "\<forall>i<length mm. n \<le> i \<longrightarrow> range_free (mm ! i) = {}" using Suc.prems(3) True by (metis le_antisym not_less_eq_eq)
    ultimately show ?thesis using Suc.IH Suc.prems(1) n by (simp add: Let_def)
  next
    case False
    then have "0 < mm_free ?r" using ok fin by (simp add: range_ok_def card_gt_0_iff)
    moreover obtain i where i: "page_scan ?r 0 = Inr (Some (bmask i, i))" "i \<in> range_free ?r"
      using page_scan_ok [OF ok, of 0] False by auto
    note t = page_taken [OF Suc.prems(1) n i(2)]
    ultimately show ?thesis using t i(1) by (auto simp: Let_def page_at_def)
  qed
qed

lemma page_alloc_ok:
  assumes "mmap_ok mm"
  shows "\<exists>mm' p. page_alloc mm = Inr (mm', p) \<and> mmap_ok mm' \<and> all_pages mm' = all_pages mm \<and>
    (if free_pages mm = {} then p = 0 \<and> mm' = mm else p \<in> free_pages mm \<and> free_pages mm' = free_pages mm - {p})"
  unfolding page_alloc_def by (rule page_alloc_from_ok [OF assms]) auto

lemma page_in_range:
  assumes "range_ok m"
  shows "0 < sint (page - mm_base m) \<and> sint (page - mm_base m) < mm_count m \<longleftrightarrow> page \<in> range_pages m"
    and "0 < sint (page - mm_base m) \<and> sint (page - mm_base m) < mm_count m \<Longrightarrow> page = page_at m (nat (sint (page - mm_base m)))"
proof -
  have c: "mm_count m < 2 ^ 31" using assms by (simp add: range_ok_def)
  note sr = signed_range [OF c, of "page - mm_base m"]
  have at: "page = page_at m (unat (page - mm_base m))" by (simp add: page_at_def)
  let ?l = "0 < sint (page - mm_base m) \<and> sint (page - mm_base m) < mm_count m"
  show "?l \<Longrightarrow> page = page_at m (nat (sint (page - mm_base m)))" using sr at by simp
  show "?l \<longleftrightarrow> page \<in> range_pages m"
  proof
    assume ?l
    then have "0 < unat (page - mm_base m)" "unat (page - mm_base m) < nat (mm_count m)" using sr(1) by linarith+
    then show "page \<in> range_pages m" using at unfolding range_pages_def by blast
  next
    assume "page \<in> range_pages m"
    then obtain i where i: "page = page_at m i" "0 < i" "i < nat (mm_count m)" by (auto simp: range_pages_def)
    have "unat (page - mm_base m) = i" using i(1,3) c by (simp add: page_at_def unat_of_nat_addr)
    then show ?l using sr(1) i(2,3) by linarith
  qed
qed

lemma page_free_at:
  assumes "\<forall>m\<in>set mm. range_ok m" "k < length mm" "\<forall>j<k. page \<notin> range_pages (mm ! j)" "page = page_at (mm ! k) i"
    "0 < i" "i < nat (mm_count (mm ! k))"
  shows "page_free mm page =
    Inr (mm[k := (mm ! k)\<lparr>mm_available := bset (mm_available (mm ! k)) i, mm_free := mm_free (mm ! k) + 1\<rparr>])"
  using assms
proof (induction mm arbitrary: k)
  case (Cons m mm)
  have ok: "range_ok m" using Cons.prems(1) by simp
  show ?case
  proof (cases k)
    case 0
    have "page \<in> range_pages m" using Cons.prems(4-6) 0 by (auto simp: range_pages_def)
    then have l: "0 < sint (page - mm_base m) \<and> sint (page - mm_base m) < mm_count m" using page_in_range(1) [OF ok] by blast
    have "page_at m i = page_at m (nat (sint (page - mm_base m)))" using page_in_range(2) [OF ok l] Cons.prems(4) 0 by simp
    then have "i = nat (sint (page - mm_base m))" using page_at_inj [OF ok] l Cons.prems(6) 0 by simp
    moreover have "i div 32 < length (mm_available m)" using Cons.prems(6) 0 ok by (auto simp: range_ok_def)
    ultimately show ?thesis using l 0 by (simp add: Let_def)
  next
    case (Suc k')
    have "page \<notin> range_pages m" using Cons.prems(3) Suc by force
    then have "\<not> (0 < sint (page - mm_base m) \<and> sint (page - mm_base m) < mm_count m)" using page_in_range(1) [OF ok] by blast
    moreover have "page_free mm page = Inr (mm[k' := (mm ! k')\<lparr>mm_available := bset (mm_available (mm ! k')) i, mm_free := mm_free (mm ! k') + 1\<rparr>])"
      by (rule Cons.IH) (use Cons.prems Suc in auto)
    ultimately show ?thesis using Suc by (auto simp: Let_def)
  qed
qed simp

lemma page_free_ignored:
  assumes "\<forall>m\<in>set mm. range_ok m" "page \<notin> all_pages mm"
  shows "page_free mm page = Inr mm"
  using assms
proof (induction mm)
  case (Cons m mm)
  have "\<not> (0 < sint (page - mm_base m) \<and> sint (page - mm_base m) < mm_count m)"
    using page_in_range(1) [of m page] Cons.prems by (auto simp: all_pages_def)
  then show ?case using Cons by (auto simp: Let_def all_pages_def)
qed simp

lemma page_free_ok:
  assumes "mmap_ok mm" "page \<in> used_pages mm"
  shows "\<exists>mm'. page_free mm page = Inr mm' \<and> mmap_ok mm' \<and> all_pages mm' = all_pages mm \<and>
    free_pages mm' = insert page (free_pages mm)"
proof -
  obtain k where k: "k < length mm" "page \<in> range_pages (mm ! k)"
    using assms(2) by (auto simp: used_pages_def all_pages_def in_set_conv_nth)
  then obtain i where i: "page = page_at (mm ! k) i" "0 < i" "i < nat (mm_count (mm ! k))" by (auto simp: range_pages_def)
  have ok: "range_ok (mm ! k)" "\<forall>m\<in>set mm. range_ok m" using assms(1) k(1) by (auto simp: mmap_ok_def)
  have "page \<notin> range_pages (mm ! j)" if "j < k" for j
  proof -
    have "range_pages (mm ! j) \<inter> range_pages (mm ! k) = {}" using assms(1) k(1) that unfolding mmap_ok_def by simp
    then show ?thesis using k(2) by blast
  qed
  then have run: "page_free mm page =
      Inr (mm[k := (mm ! k)\<lparr>mm_available := bset (mm_available (mm ! k)) i, mm_free := mm_free (mm ! k) + 1\<rparr>])"
    by (intro page_free_at [OF ok(2) k(1) _ i]) auto
  have nf: "i \<notin> range_free (mm ! k)" using assms(2) i(1) k(1) by (auto simp: used_pages_def free_pages_nth)
  note t = range_put [OF ok(1) i(2,3) nf]
  note u = mmap_update [OF assms(1) k(1) t(1,4)]
  have "free_pages mm = page_at (mm ! k) ` range_free (mm ! k) \<union> (free_pages mm - range_pages (mm ! k))"
    using free_pages_update [OF assms(1) k(1), of "mm ! k"] by simp
  moreover note free_pages_update [OF assms(1) k(1), of
    "(mm ! k)\<lparr>mm_available := bset (mm_available (mm ! k)) i, mm_free := mm_free (mm ! k) + 1\<rparr>", unfolded t(2,3)]
  ultimately have "free_pages (mm[k := (mm ! k)\<lparr>mm_available := bset (mm_available (mm ! k)) i, mm_free := mm_free (mm ! k) + 1\<rparr>]) =
      insert page (free_pages mm)" using i(1) by blast
  then show ?thesis using run u by blast
qed

text \<open>A page in a range is taken or given back through the contract of an allocator; 0 is no page.\<close>

definition take_page :: "mmap \<Rightarrow> (mmap \<times> u32 option) res" where
  "take_page mm = bindE (page_alloc mm) (\<lambda>(mm, p). Inr (mm, if p = 0 then None else Some p))"

lemma free_pages_sub: "mmap_ok mm \<Longrightarrow> free_pages mm \<subseteq> all_pages mm"
  using range_free_pages by (fastforce simp: free_pages_def all_pages_def mmap_ok_def)

lemma all_pages_nz: "mmap_ok mm \<Longrightarrow> 0 \<notin> all_pages mm"
  using range_pages_nz by (fastforce simp: all_pages_def mmap_ok_def)

lemma take_page_ok:
  assumes "mmap_ok mm"
  shows "\<exists>mm' r. take_page mm = Inr (mm', r) \<and> mmap_ok mm' \<and> all_pages mm' = all_pages mm \<and>
    (case r of None \<Rightarrow> free_pages mm = {} \<and> mm' = mm | Some p \<Rightarrow> p \<in> free_pages mm \<and> free_pages mm' = free_pages mm - {p})"
proof -
  obtain mm' p where r: "page_alloc mm = Inr (mm', p)" "mmap_ok mm'" "all_pages mm' = all_pages mm"
    "if free_pages mm = {} then p = 0 \<and> mm' = mm else p \<in> free_pages mm \<and> free_pages mm' = free_pages mm - {p}"
    using page_alloc_ok [OF assms] by blast
  have "p \<noteq> 0" if "p \<in> free_pages mm" using that free_pages_sub [OF assms] all_pages_nz [OF assms] by auto
  then show ?thesis using r by (auto simp: take_page_def split: if_splits)
qed

interpretation pages: total_allocator mmap_ok used_pages take_page page_free
proof
  fix mm mm' :: mmap and r
  assume a: "mmap_ok mm" "take_page mm = Inr (mm', r)"
  from take_page_ok [OF a(1)] a(2) free_pages_sub [OF a(1)]
  show "mmap_ok mm' \<and> (case r of None \<Rightarrow> used_pages mm' = used_pages mm
      | Some p \<Rightarrow> p \<notin> used_pages mm \<and> used_pages mm' = insert p (used_pages mm))"
    by (auto simp: used_pages_def split: option.splits)
next
  fix mm :: mmap and p
  assume a: "mmap_ok mm" "p \<in> used_pages mm"
  then show "\<exists>mm'. page_free mm p = Inr mm' \<and> mmap_ok mm' \<and> used_pages mm' = used_pages mm - {p}"
    using page_free_ok [OF a] by (auto simp: used_pages_def)
next
  fix mm assume "mmap_ok mm"
  then show "\<exists>mm' r. take_page mm = Inr (mm', r)" using take_page_ok by blast
qed

subsection \<open>Setting up a table\<close>

lemma page_add_range_ok:
  assumes "mmap_ok mm" "length mm < 32" "unat cnt < 2 ^ 31" "unat base + unat cnt \<le> 2 ^ 32"
    "\<forall>i. 0 < i \<and> i < unat cnt \<longrightarrow> base + of_nat i \<notin> all_pages mm"
  shows "\<exists>mm'. page_add_range mm base cnt = Inr mm' \<and> mmap_ok mm' \<and> free_pages mm' = free_pages mm \<and>
    all_pages mm' = all_pages mm \<union> {base + of_nat i | i. 0 < i \<and> i < unat cnt}"
proof -
  define m where "m = \<lparr>mm_base = base, mm_count = sint cnt, mm_free = 0, mm_available = replicate (unat ((cnt + 31) div 32)) 0\<rparr>"
  have c: "nat (mm_count m) = unat cnt" "0 \<le> mm_count m" "mm_count m < 2 ^ 31"
  proof -
    have "int (unat cnt) < int (2 ^ 31)" using assms(3) unfolding of_nat_less_iff .
    moreover have "mm_count m = int (unat cnt)" using assms(3) sint_u32 [of cnt] by (simp add: m_def)
    ultimately show "nat (mm_count m) = unat cnt" "0 \<le> mm_count m" "mm_count m < 2 ^ 31" by simp_all
  qed
  have "unat (cnt + 31) = unat cnt + 31" using assms(3) by (simp add: unat_word_ariths)
  then have len: "length (mm_available m) = (unat cnt + 31) div 32" by (simp add: m_def unat_div)
  have nf: "\<not> bfree (mm_available m) i" if "i < 32 * length (mm_available m)" for i
  proof -
    have "i div 32 < length (mm_available m)" using that by linarith
    then show ?thesis by (simp add: bfree_def m_def)
  qed
  have "i < 32 * length (mm_available m)" if "i < unat cnt" for i using that len by linarith
  then have f: "range_free m = {}" using nf c(1) by (auto simp: range_free_def)
  have "mm_free m = 0" "mm_base m = base" by (simp_all add: m_def)
  then have ok: "range_ok m" using c f nf len assms(4) by (simp add: range_ok_def)
  have pg: "range_pages m = {base + of_nat i | i. 0 < i \<and> i < unat cnt}"
    unfolding range_pages_def c(1) page_at_def by (simp add: m_def)
  have dj: "range_pages (mm ! i) \<inter> range_pages m = {}" if "i < length mm" for i
    using assms(5) that unfolding pg all_pages_def by (auto simp: disjoint_iff)
  have "mmap_ok (mm @ [m])" using assms(1) ok dj by (auto simp: mmap_ok_def nth_append less_Suc_eq disjoint_iff)
  moreover have "page_add_range mm base cnt = Inr (mm @ [m])" using assms(2) by (simp add: page_add_range_def m_def)
  ultimately show ?thesis using f pg by (auto simp: free_pages_def all_pages_def)
qed

definition demo_mmap :: mmap where
  "demo_mmap = [\<lparr>mm_base = 0x100, mm_count = 40, mm_free = 0, mm_available = [0, 0]\<rparr>]"

lemma demo_mmap_ok: "mmap_ok demo_mmap" "0x105 \<in> used_pages demo_mmap" "0x100 \<notin> all_pages demo_mmap"
proof -
  obtain mm where r: "page_add_range [] 0x100 40 = Inr mm" "mmap_ok mm" "free_pages mm = free_pages []"
    "all_pages mm = all_pages [] \<union> {0x100 + of_nat i | i. 0 < i \<and> i < unat (40 :: u32)}"
    using page_add_range_ok [of "[]" 40 "0x100"] by (auto simp: mmap_ok_def all_pages_def)
  have "unat ((40 + 31 :: u32) div 32) = 2" by code_simp
  then have mm: "mm = demo_mmap" using r(1) by (simp add: page_add_range_def demo_mmap_def eval_nat_numeral)
  show "mmap_ok demo_mmap" using r(2) mm by simp
  have "(0x105 :: u32) = 0x100 + of_nat 5 \<and> 0 < (5 :: nat) \<and> 5 < unat (40 :: u32)" by simp
  then have "0x105 \<in> all_pages demo_mmap" using r(4) mm by blast
  then show "0x105 \<in> used_pages demo_mmap" using r(3) mm by (simp add: used_pages_def free_pages_def)
  have "i = 0" if "(of_nat i :: u32) = 0" "i < 40" for i :: nat using that unat_of_nat_addr [of i] by simp
  then show "0x100 \<notin> all_pages demo_mmap" using r(4) mm by (auto simp: all_pages_def)
qed

text \<open>
  C12. The page allocator. Over any sequence of requests, starting with the pages \<open>h\<close> in its hands, a
  client is served without an access outside the bitmaps and never holds a page twice: the pages in
  use are always the ones others hold and the ones it holds.
\<close>

theorem page_alloc_exclusive:
  assumes "mmap_ok mm" "distinct h" "set h \<inter> U = {}" "used_pages mm = U \<union> set h"
  shows "\<exists>mm' h'. alloc_run take_page page_free os mm h = Inr (mm', h') \<and> mmap_ok mm' \<and> distinct h' \<and>
    set h' \<inter> U = {} \<and> used_pages mm' = U \<union> set h'"
proof -
  have "set h \<subseteq> used_pages mm" using assms(4) by blast
  then obtain mm' h' where r: "alloc_run take_page page_free os mm h = Inr (mm', h')"
    using pages.run_total [OF assms(1) _ assms(2)] by blast
  from pages.run_exclusive [OF r assms] r show ?thesis by blast
qed

theorem page_alloc_exclusive_witness:
  "\<exists>mm' h'. alloc_run take_page page_free [Put 0, Get, Get] demo_mmap [0x105] = Inr (mm', h') \<and> distinct h' \<and>
    used_pages mm' = (used_pages demo_mmap - {0x105}) \<union> set h'"
  using page_alloc_exclusive [of demo_mmap "[0x105]" "used_pages demo_mmap - {0x105}" "[Put 0, Get, Get]"] demo_mmap_ok
  by auto

text \<open>
  C13. What the operations do to the set of free pages: \<open>page_alloc\<close> returns a free page and takes
  exactly it out, and returns 0 only when there is none; \<open>page_free\<close> adds a page in use to the free
  ones, and ignores a page that is in no range or is the first one of a range. A new range has no
  free page until its pages are freed.
\<close>

theorem page_operations:
  assumes "mmap_ok mm"
  shows "(\<exists>mm' p. page_alloc mm = Inr (mm', p) \<and> mmap_ok mm' \<and> all_pages mm' = all_pages mm \<and>
      (if free_pages mm = {} then p = 0 \<and> mm' = mm else p \<noteq> 0 \<and> p \<in> free_pages mm \<and> free_pages mm' = free_pages mm - {p})) \<and>
    (\<forall>page. page \<in> used_pages mm \<longrightarrow> (\<exists>mm'. page_free mm page = Inr mm' \<and> mmap_ok mm' \<and> all_pages mm' = all_pages mm \<and>
      free_pages mm' = insert page (free_pages mm))) \<and>
    (\<forall>page. page \<notin> all_pages mm \<longrightarrow> page_free mm page = Inr mm) \<and>
    (\<forall>base cnt. length mm < 32 \<and> unat cnt < 2 ^ 31 \<and> unat base + unat cnt \<le> 2 ^ 32 \<and>
       (\<forall>i. 0 < i \<and> i < unat cnt \<longrightarrow> base + of_nat i \<notin> all_pages mm) \<longrightarrow>
       (\<exists>mm'. page_add_range mm base cnt = Inr mm' \<and> mmap_ok mm' \<and> free_pages mm' = free_pages mm \<and>
          all_pages mm' = all_pages mm \<union> {base + of_nat i | i. 0 < i \<and> i < unat cnt}))"
proof (intro conjI allI impI)
  show "\<exists>mm' p. page_alloc mm = Inr (mm', p) \<and> mmap_ok mm' \<and> all_pages mm' = all_pages mm \<and>
      (if free_pages mm = {} then p = 0 \<and> mm' = mm else p \<noteq> 0 \<and> p \<in> free_pages mm \<and> free_pages mm' = free_pages mm - {p})"
    using page_alloc_ok [OF assms] free_pages_sub [OF assms] all_pages_nz [OF assms] by (metis subsetD)
  show "\<exists>mm'. page_free mm page = Inr mm' \<and> mmap_ok mm' \<and> all_pages mm' = all_pages mm \<and>
      free_pages mm' = insert page (free_pages mm)" if "page \<in> used_pages mm" for page
    using page_free_ok [OF assms that] .
  show "page_free mm page = Inr mm" if "page \<notin> all_pages mm" for page
    using page_free_ignored [OF _ that] assms by (simp add: mmap_ok_def)
  show "\<exists>mm'. page_add_range mm base cnt = Inr mm' \<and> mmap_ok mm' \<and> free_pages mm' = free_pages mm \<and>
          all_pages mm' = all_pages mm \<union> {base + of_nat i | i. 0 < i \<and> i < unat cnt}"
    if "length mm < 32 \<and> unat cnt < 2 ^ 31 \<and> unat base + unat cnt \<le> 2 ^ 32 \<and>
       (\<forall>i. 0 < i \<and> i < unat cnt \<longrightarrow> base + of_nat i \<notin> all_pages mm)" for base cnt
    using page_add_range_ok [OF assms] that by blast
qed

theorem page_operations_witness:
  "(\<exists>mm'. page_free demo_mmap 0x105 = Inr mm' \<and> free_pages mm' = insert 0x105 (free_pages demo_mmap)) \<and>
   page_free demo_mmap 0x100 = Inr demo_mmap"
proof -
  note p = page_operations [OF demo_mmap_ok(1), THEN conjunct2]
  have "\<exists>mm'. page_free demo_mmap 0x105 = Inr mm' \<and> free_pages mm' = insert 0x105 (free_pages demo_mmap)"
    using p [THEN conjunct1, rule_format, OF demo_mmap_ok(2)] by blast
  moreover have "page_free demo_mmap 0x100 = Inr demo_mmap"
    using p [THEN conjunct2, THEN conjunct1, rule_format, OF demo_mmap_ok(3)] .
  ultimately show ?thesis ..
qed

end
