(* ===== verification/Page_Heap.thy ===== *)
theory Page_Heap
  imports Page_Alloc
begin

text \<open>
  The kernel heap's pages: the bump allocator of \<^verbatim>\<open>arch/i386/init.c\<close> (\<^verbatim>\<open>bootstrap_alloc\<close>,
  \<^verbatim>\<open>arch_heap_page\<close>) and the cache of freed pages of \<^verbatim>\<open>kernel/core.c\<close>, a list linked through the
  first word of each page. \<open>ph_mem\<close> is the memory of the pages, by word; \<open>ph_maps\<close> is whatever the
  mapping component keeps. \<^verbatim>\<open>vmap_map\<close> is an argument of the operations that call it: it may take
  pages of its own from the page allocator. The spin lock around the cache is held for the whole
  operation with interrupts off, so each operation is one step.
\<close>

record 'v page_heap =
  ph_mmap :: mmap
  ph_maps :: 'v
  ph_next :: addr
  ph_cache :: addr
  ph_mem :: "addr \<Rightarrow> u32"

type_synonym 'v mapper = "mmap \<times> 'v \<Rightarrow> addr \<Rightarrow> u32 \<Rightarrow> (mmap \<times> 'v) res"

text \<open>Moving \<^verbatim>\<open>nextalloc\<close> beyond the end of the address space is no pointer any more.\<close>

definition bump :: "addr \<Rightarrow> u32 \<Rightarrow> addr res" where
  "bump p sz = (if unat p + unat sz < 2 ^ 32 then Inr (p + sz) else Inl BadAccess)"

definition bootstrap_alloc :: "addr \<Rightarrow> u32 \<Rightarrow> (addr \<times> addr) res" where
  "bootstrap_alloc nextalloc sz =
     (let m = nextalloc;
          sz = sz + 15;
          sz = sz AND NOT 15
      in bindE (bump nextalloc sz) (\<lambda>nextalloc. Inr (nextalloc, m)))"

definition bootstrap_finish :: "addr \<Rightarrow> addr res" where
  "bootstrap_finish nextalloc = bindE (bump nextalloc 4096) (\<lambda>nextalloc. Inr (nextalloc AND NOT 4095))"

definition arch_heap_page :: "'v page_heap \<Rightarrow> ('v page_heap \<times> addr) res" where
  "arch_heap_page h = bindE (bump (ph_next h) 4096) (\<lambda>nextalloc. Inr (h\<lparr>ph_next := nextalloc\<rparr>, ph_next h))"

definition arch_is_heap_pointer :: "addr \<Rightarrow> 'v page_heap \<Rightarrow> addr \<Rightarrow> bool" where
  "arch_is_heap_pointer start h p \<longleftrightarrow> start \<le> p \<and> p < ph_next h"

definition clear_page :: "(addr \<Rightarrow> u32) \<Rightarrow> addr \<Rightarrow> addr \<Rightarrow> u32" where
  "clear_page m p = (\<lambda>a. if a - p < 4096 then 0 else m a)"

definition page_heap_alloc :: "'v mapper \<Rightarrow> 'v page_heap \<Rightarrow> ('v page_heap \<times> addr) res" where
  "page_heap_alloc vmap_map h =
     bindE (if ph_cache h \<noteq> 0 then Inr (h\<lparr>ph_cache := ph_mem h (ph_cache h)\<rparr>, ph_cache h)
            else
              bindE (arch_heap_page h) (\<lambda>(h, p).
              bindE (page_alloc (ph_mmap h)) (\<lambda>(mm, page).
              bindE (vmap_map (mm, ph_maps h) p page) (\<lambda>(mm, maps).
                Inr (h\<lparr>ph_mmap := mm, ph_maps := maps\<rparr>, p)))))
       (\<lambda>(h, p). Inr (h\<lparr>ph_mem := clear_page (ph_mem h) p\<rparr>, p))"

definition page_heap_free :: "'v page_heap \<Rightarrow> addr \<Rightarrow> 'v page_heap res" where
  "page_heap_free h p =
     (if p = 0 then Inl NullDeref
      else Inr (h\<lparr>ph_mem := (ph_mem h)(p := ph_cache h), ph_cache := p\<rparr>))"

subsection \<open>The pages in the cache and the pages in use\<close>

fun cache_list :: "(addr \<Rightarrow> u32) \<Rightarrow> addr \<Rightarrow> addr list \<Rightarrow> bool" where
  "cache_list m c [] \<longleftrightarrow> c = 0"
| "cache_list m c (x # xs) \<longleftrightarrow> c = x \<and> x \<noteq> 0 \<and> cache_list m (m x) xs"

text \<open>The pages handed out so far, from \<open>start\<close> to \<^verbatim>\<open>nextalloc\<close>.\<close>

definition heap_pages :: "addr \<Rightarrow> 'v page_heap \<Rightarrow> addr set" where
  "heap_pages start h = {p. 4096 dvd unat p \<and> start \<le> p \<and> p < ph_next h}"

definition cached :: "'v page_heap \<Rightarrow> addr set" where
  "cached h = {p. \<exists>xs. cache_list (ph_mem h) (ph_cache h) xs \<and> p \<in> set xs}"

definition heap_ok :: "addr \<Rightarrow> 'v page_heap \<Rightarrow> bool" where
  "heap_ok start h \<longleftrightarrow> mmap_ok (ph_mmap h) \<and> 4096 dvd unat start \<and> 4096 dvd unat (ph_next h) \<and> 0 < start \<and> start \<le> ph_next h \<and>
     (\<exists>xs. cache_list (ph_mem h) (ph_cache h) xs \<and> distinct xs \<and> set xs \<subseteq> heap_pages start h)"

definition used_heap :: "addr \<Rightarrow> 'v page_heap \<Rightarrow> addr set" where
  "used_heap start h = heap_pages start h - cached h"

lemma cache_list_unique: "cache_list m c xs \<Longrightarrow> cache_list m c ys \<Longrightarrow> xs = ys"
proof (induction xs arbitrary: c ys)
  case Nil
  then show ?case by (cases ys) auto
next
  case (Cons x xs)
  then show ?case by (cases ys) auto
qed

lemma cache_list_cong: "cache_list m c xs \<Longrightarrow> \<forall>x\<in>set xs. m' x = m x \<Longrightarrow> cache_list m' c xs"
  by (induction xs arbitrary: c) auto

lemma cached_eq: "cache_list (ph_mem h) (ph_cache h) xs \<Longrightarrow> cached h = set xs"
  unfolding cached_def using cache_list_unique [of "ph_mem h" "ph_cache h" xs] by blast

text \<open>Two different page addresses are a page apart.\<close>

lemma aligned_apart:
  assumes "4096 dvd unat p" "4096 dvd unat (q :: addr)" "p \<noteq> q"
  shows "\<not> q - p < 4096"
proof
  assume a: "q - p < 4096"
  have "unat p < 2 ^ 32" using unsigned_less [of p, where ?'a = nat] by simp
  have "unat (q - p) < 4096" using a by (simp add: word_less_nat_alt)
  moreover have "4096 dvd unat (q - p)"
  proof (cases "p \<le> q")
    case True
    then have "unat (q - p) = unat q - unat p" by (simp add: unat_sub)
    then show ?thesis using assms(1,2) by (simp add: dvd_diff_nat)
  next
    case False
    then have lt: "unat q < unat p" by (simp add: word_le_nat_alt)
    have "unat (q - p) = unat q + 2 ^ 32 - unat p" using lt unat_sub_if' [of q p] by simp
    then have "unat (q - p) = 2 ^ 32 + unat q - unat p" by simp
    moreover have "(4096 :: nat) dvd 2 ^ 32" by simp
    ultimately show ?thesis using assms(1,2) by (metis dvd_add dvd_diff_nat)
  qed
  ultimately have "unat (q - p) = 0" using nat_dvd_not_less by blast
  then show False using assms(3) by (simp add: unat_eq_zero)
qed

lemma bump_page:
  assumes "bump p 4096 = Inr p'"
  shows "unat p' = unat p + 4096"
  using assms by (auto simp: bump_def unat_word_ariths split: if_splits)

text \<open>What the heap relies on of the mapping: it returns, and leaves the page allocator in order.\<close>

definition mapper_ok :: "'v mapper \<Rightarrow> bool" where
  "mapper_ok vmap_map \<longleftrightarrow> (\<forall>mm v p page mm' v'. mmap_ok mm \<and> vmap_map (mm, v) p page = Inr (mm', v') \<longrightarrow> mmap_ok mm')"

lemma heap_pages_apart: "p \<in> heap_pages start h \<Longrightarrow> q \<in> heap_pages start h \<Longrightarrow> p \<noteq> q \<Longrightarrow> \<not> q - p < 4096"
  by (rule aligned_apart) (auto simp: heap_pages_def)

lemma heap_pages_nz: "heap_ok start h \<Longrightarrow> 0 \<notin> heap_pages start h"
  by (auto simp: heap_ok_def heap_pages_def)

lemma page_heap_alloc_ok:
  assumes "mapper_ok vmap_map" "heap_ok start h" "page_heap_alloc vmap_map h = Inr (h', p)"
  shows "heap_ok start h'" "p \<notin> used_heap start h" "used_heap start h' = insert p (used_heap start h)"
    "\<forall>a. a - p < 4096 \<longrightarrow> ph_mem h' a = 0"
proof -
  obtain xs where xs: "cache_list (ph_mem h) (ph_cache h) xs" "distinct xs" "set xs \<subseteq> heap_pages start h"
    using assms(2) by (auto simp: heap_ok_def)
  have base: "mmap_ok (ph_mmap h)" "4096 dvd unat start" "4096 dvd unat (ph_next h)" "0 < start" "start \<le> ph_next h"
    using assms(2) by (auto simp: heap_ok_def)
  obtain h1 where h1: "h' = h1\<lparr>ph_mem := clear_page (ph_mem h1) p\<rparr>" and
    src: "(if ph_cache h \<noteq> 0 then Inr (h\<lparr>ph_cache := ph_mem h (ph_cache h)\<rparr>, ph_cache h)
            else
              bindE (arch_heap_page h) (\<lambda>(h, p).
              bindE (page_alloc (ph_mmap h)) (\<lambda>(mm, page).
              bindE (vmap_map (mm, ph_maps h) p page) (\<lambda>(mm, maps).
                Inr (h\<lparr>ph_mmap := mm, ph_maps := maps\<rparr>, p))))) = Inr (h1, p)"
    using assms(3) unfolding page_heap_alloc_def by (auto simp: bindE_Inr_iff simp del: if_split)
  show "\<forall>a. a - p < 4096 \<longrightarrow> ph_mem h' a = 0" by (simp add: h1 clear_page_def)
  have mem: "cache_list (ph_mem h') c ys" if "cache_list (ph_mem h1) c ys" "set ys \<subseteq> heap_pages start h'" "p \<in> heap_pages start h'" "p \<notin> set ys" for c ys
    by (rule cache_list_cong [OF that(1)]) (use that heap_pages_apart in \<open>fastforce simp: h1 clear_page_def\<close>)
  have "heap_ok start h' \<and> p \<notin> used_heap start h \<and> used_heap start h' = insert p (used_heap start h)"
  proof (cases xs)
    case (Cons x ys)
    then have s1: "h1 = h\<lparr>ph_cache := ph_mem h x\<rparr>" "p = x" "ph_cache h = x" "x \<noteq> 0" using src xs(1) by auto
    have hp: "heap_pages start h' = heap_pages start h" by (simp add: heap_pages_def h1 s1)
    have cl: "cache_list (ph_mem h') (ph_cache h') ys"
      using mem [of "ph_mem h x" ys] xs Cons hp s1 by (auto simp: h1)
    have "cached h' = set ys" "cached h = insert x (set ys)" using cached_eq cl cached_eq [OF xs(1)] Cons by auto
    moreover have "heap_ok start h'" using base cl xs Cons hp by (auto simp: heap_ok_def h1 s1)
    ultimately show ?thesis using hp xs Cons s1(2) by (auto simp: used_heap_def)
  next
    case Nil
    then have c0: "ph_cache h = 0" using xs(1) by simp
    obtain nx mm page mm2 v2 where s1: "bump (ph_next h) 4096 = Inr nx" "page_alloc (ph_mmap h) = Inr (mm, page)"
      "vmap_map (mm, ph_maps h) p page = Inr (mm2, v2)" "p = ph_next h"
      "h1 = h\<lparr>ph_next := nx, ph_mmap := mm2, ph_maps := v2\<rparr>"
      using src c0 by (auto simp: bindE_Inr_iff arch_heap_page_def)
    have nx: "unat nx = unat p + 4096" using bump_page [OF s1(1)] s1(4) by simp
    have "mmap_ok mm" using page_alloc_ok [OF base(1)] s1(2) by auto
    then have mm2: "mmap_ok mm2" using assms(1) s1(3) unfolding mapper_ok_def by blast
    have hp: "heap_pages start h' = insert p (heap_pages start h)"
    proof -
      have "q < nx \<longleftrightarrow> q < p \<or> q = p" if "4096 dvd unat q" for q :: addr
      proof -
        have "unat q < unat p + 4096 \<longleftrightarrow> unat q \<le> unat p"
          using that base(3) s1(4) by (auto elim!: dvdE)
        then show ?thesis unfolding word_less_nat_alt nx by (auto simp: word_unat_eq_iff)
      qed
      then show ?thesis using base s1(4) by (auto simp: heap_pages_def h1 s1(5))
    qed
    have cl: "cache_list (ph_mem h') (ph_cache h') []" using c0 by (simp add: h1 s1(5))
    have "cached h' = {}" "cached h = {}" using cached_eq [OF cl] cached_eq [OF xs(1)] Nil by auto
    moreover have "p \<notin> heap_pages start h" using s1(4) by (simp add: heap_pages_def)
    moreover have "heap_ok start h'"
    proof -
      have "4096 dvd unat nx" "start \<le> nx" using nx base s1(4) by (simp_all add: word_le_nat_alt)
      then show ?thesis using mm2 base(2,4) cl by (auto simp: heap_ok_def h1 s1(5) intro!: exI [of _ "[]"])
    qed
    ultimately show ?thesis using hp by (auto simp: used_heap_def)
  qed
  then show "heap_ok start h'" "p \<notin> used_heap start h" "used_heap start h' = insert p (used_heap start h)" by blast+
qed

lemma page_heap_free_ok:
  assumes "heap_ok start h" "p \<in> used_heap start h"
  shows "\<exists>h'. page_heap_free h p = Inr h' \<and> heap_ok start h' \<and> used_heap start h' = used_heap start h - {p}"
proof -
  obtain xs where xs: "cache_list (ph_mem h) (ph_cache h) xs" "distinct xs" "set xs \<subseteq> heap_pages start h"
    using assms(1) by (auto simp: heap_ok_def)
  define h' where "h' = h\<lparr>ph_mem := (ph_mem h)(p := ph_cache h), ph_cache := p\<rparr>"
  have p: "p \<in> heap_pages start h" "p \<notin> set xs" "p \<noteq> 0"
    using assms cached_eq [OF xs(1)] heap_pages_nz [OF assms(1)] by (auto simp: used_heap_def)
  have hp: "heap_pages start h' = heap_pages start h" by (simp add: heap_pages_def h'_def)
  have "cache_list (ph_mem h') (ph_cache h) xs" by (rule cache_list_cong [OF xs(1)]) (use p(2) in \<open>auto simp: h'_def\<close>)
  then have cl: "cache_list (ph_mem h') (ph_cache h') (p # xs)" using p(3) by (simp add: h'_def)
  have "heap_ok start h'" unfolding heap_ok_def hp using assms(1) cl xs p
    by (auto simp: heap_ok_def h'_def intro!: exI [of _ "p # xs"])
  moreover have "used_heap start h' = used_heap start h - {p}"
    using hp cached_eq [OF cl] cached_eq [OF xs(1)] by (auto simp: used_heap_def)
  ultimately show ?thesis using p(3) by (simp add: page_heap_free_def h'_def)
qed

end
