(* ===== verification/Slab.thy ===== *)
theory Slab
  imports Page_Heap Linked_List Kstring
begin

text \<open>
  The slab allocator of \<^verbatim>\<open>libk/slab.c\<close>. A slab is a page: the header \<^verbatim>\<open>slab_t\<close> of 28 bytes, two
  bitmaps of \<^verbatim>\<open>(count+32)/32\<close> words, and the slots. The slabs of a type and the types are circular
  lists linked with the macros of \<^verbatim>\<open>libk/list.c\<close>. The state maps the addresses of the types and of the
  slabs to their records; \<open>sh_heap\<close> is the state of the page heap, and the two operations of it the
  slabs call, \<^verbatim>\<open>page_heap_alloc\<close> and \<^verbatim>\<open>arch_is_heap_pointer\<close>, are arguments. A type's \<^verbatim>\<open>mark\<close> function
  is the list of pointers it marks; the calls of \<^verbatim>\<open>finalize\<close> functions are recorded in \<open>sh_final\<close>.
\<close>

record slab_type_t =
  st_magic :: u32
  st_esize :: u32
  st_count :: nat
  st_first :: addr
  st_mark :: "(addr \<Rightarrow> addr list) option"
  st_finalize :: bool

record slab_t =
  sl_magic :: u32
  sl_type :: addr
  sl_available :: "u32 list"
  sl_finalize :: "u32 list"
  sl_data :: addr

record 'h slab_heap =
  sh_type :: "addr \<Rightarrow> slab_type_t"
  sh_slab :: "addr \<Rightarrow> slab_t"
  sh_links :: links
  sh_tlinks :: links
  sh_types :: addr
  sh_spin :: bool
  sh_heap :: 'h
  sh_final :: "addr list"

definition page_align :: "addr \<Rightarrow> addr" where
  "page_align p = p AND NOT 4095"

subsection \<open>A new slab\<close>

definition slot_mask :: "nat \<Rightarrow> nat \<Rightarrow> u32" where
  "slot_mask cnt i = (if cnt - i < 32 then NOT (drop_bit (cnt - i) (NOT 0)) else NOT 0)"

function fill_masks :: "nat \<Rightarrow> nat \<Rightarrow> u32 list \<Rightarrow> u32 list" where
  "fill_masks cnt i av = (if i < cnt then fill_masks cnt (i + 32) (av[i div 32 := slot_mask cnt i]) else av)"
  by pat_completeness auto
termination by (relation "measure (\<lambda>(cnt, i, av). cnt - i)") auto

declare fill_masks.simps [simp del]

definition bitmap_words :: "nat \<Rightarrow> nat" where
  "bitmap_words cnt = (cnt + 32) div 32"

definition type_init :: "'h slab_heap \<Rightarrow> addr \<Rightarrow> 'h slab_heap" where
  "type_init s t =
     (if st_magic (sh_type s t) = 0 then
        let ty = sh_type s t;
            ty = ty\<lparr>st_first := 0, st_magic := 997 * 0xaf653de9 * t, st_count := unat (32480 div (8 * st_esize ty + 2))\<rparr>;
            (lk, ts) = LIST_APPEND (sh_tlinks s) (sh_types s) t
        in s\<lparr>sh_type := (sh_type s)(t := ty), sh_tlinks := lk, sh_types := ts\<rparr>
      else s)"

definition slab_make :: "'h slab_heap \<Rightarrow> addr \<Rightarrow> addr \<Rightarrow> 'h slab_heap" where
  "slab_make s t p =
     (let ty = sh_type s t;
          words = bitmap_words (st_count ty);
          slab = \<lparr>sl_magic = st_magic ty, sl_type = t, sl_available = fill_masks (st_count ty) 0 (replicate words 0),
                  sl_finalize = replicate words 0, sl_data = p + of_nat (28 + 8 * words)\<rparr>;
          (lk, first) = LIST_PREPEND (sh_links s) (st_first ty) p
      in s\<lparr>sh_slab := (sh_slab s)(p := slab), sh_links := lk, sh_type := (sh_type s)(t := ty\<lparr>st_first := first\<rparr>)\<rparr>)"

definition slab_new :: "('h \<Rightarrow> ('h \<times> addr) res) \<Rightarrow> 'h slab_heap \<Rightarrow> addr \<Rightarrow> ('h slab_heap \<times> addr) res" where
  "slab_new pha s t =
     bindE (pha (sh_heap s)) (\<lambda>(h, p).
       if p = 0 then Inl NullDeref else Inr (slab_make (type_init (s\<lparr>sh_heap := h\<rparr>) t) t p, p))"

subsection \<open>Allocation\<close>

text \<open>A lock that is taken is never released while the caller spins.\<close>

definition slab_lock :: "'h slab_heap \<Rightarrow> 'h slab_heap res" where
  "slab_lock s = (if sh_spin s then Inl OutOfFuel else Inr (s\<lparr>sh_spin := True\<rparr>))"

definition slab_unlock :: "'h slab_heap \<Rightarrow> 'h slab_heap" where
  "slab_unlock s = s\<lparr>sh_spin := False\<rparr>"

function find_word :: "u32 list \<Rightarrow> nat \<Rightarrow> nat \<Rightarrow> nat option res" where
  "find_word av cnt i =
     (if i < cnt then
        if length av \<le> i div 32 then Inl BadAccess
        else if av ! (i div 32) \<noteq> 0 then Inr (Some i) else find_word av cnt (i + 32)
      else Inr None)"
  by pat_completeness auto
termination by (relation "measure (\<lambda>(av, cnt, i). cnt - i)") auto

declare find_word.simps [simp del]

definition upd_slab :: "addr \<Rightarrow> (slab_t \<Rightarrow> slab_t) \<Rightarrow> 'h slab_heap \<Rightarrow> 'h slab_heap" where
  "upd_slab p f s = s\<lparr>sh_slab := (sh_slab s)(p := f (sh_slab s p))\<rparr>"

definition slab_take :: "'h slab_heap \<Rightarrow> addr \<Rightarrow> ('h slab_heap \<times> addr) option res" where
  "slab_take s p =
     (let slab = sh_slab s p; ty = sh_type s (sl_type slab); av = sl_available slab in
      bindE (find_word av (st_count ty) 0) (\<lambda>r. case r of
        None \<Rightarrow> Inr None
      | Some i \<Rightarrow>
          let (msk, slot) = scan_mask (av ! (i div 32)) 0x80000000 i in
          Inr (Some (upd_slab p (\<lambda>sl. sl\<lparr>sl_available := bclear av (i div 32) msk\<rparr>) s,
                     sl_data slab + st_esize ty * of_nat slot))))"

fun slab_alloc_loop ::
  "nat \<Rightarrow> ('h \<Rightarrow> ('h \<times> addr) res) \<Rightarrow> 'h slab_heap \<Rightarrow> addr \<Rightarrow> addr \<Rightarrow> ('h slab_heap \<times> addr option) res" where
  "slab_alloc_loop 0 pha s t slab = Inl OutOfFuel"
| "slab_alloc_loop (Suc n) pha s t slab =
     (if slab \<noteq> 0 then
        bindE (slab_take s slab) (\<lambda>r. case r of
          Some (s, p) \<Rightarrow> Inr (s, Some p)
        | None \<Rightarrow>
            let slab = LIST_NEXT (sh_links s) (st_first (sh_type s t)) slab in
            if slab = 0 then bindE (slab_new pha s t) (\<lambda>(s, slab). slab_alloc_loop n pha s t slab)
            else slab_alloc_loop n pha s t slab)
      else Inr (s, None))"

definition slab_alloc :: "nat \<Rightarrow> ('h \<Rightarrow> ('h \<times> addr) res) \<Rightarrow> 'h slab_heap \<Rightarrow> addr \<Rightarrow> ('h slab_heap \<times> addr) res" where
  "slab_alloc n pha s t =
     bindE (slab_lock s) (\<lambda>s.
     bindE (if st_first (sh_type s t) \<noteq> 0 then Inr (s, st_first (sh_type s t)) else slab_new pha s t) (\<lambda>(s, slab).
     bindE (slab_alloc_loop n pha s t slab) (\<lambda>(s, r).
     case r of
       Some p \<Rightarrow> Inr (slab_unlock s, p)
     | None \<Rightarrow> Inl (Throw OutOfMemoryException))))"

definition slab_calloc ::
  "nat \<Rightarrow> ('h \<Rightarrow> ('h \<times> addr) res) \<Rightarrow> 'h slab_heap \<Rightarrow> mem \<Rightarrow> addr \<Rightarrow> ('h slab_heap \<times> mem \<times> addr) res" where
  "slab_calloc n pha s m t =
     bindE (slab_alloc n pha s t) (\<lambda>(s, p). Inr (s, memset m p 0 (st_esize (sh_type s t)), p))"

subsection \<open>Finding a slot again\<close>

definition slab_get :: "('h \<Rightarrow> addr \<Rightarrow> bool) \<Rightarrow> 'h slab_heap \<Rightarrow> addr \<Rightarrow> addr" where
  "slab_get is_heap s p =
     (if is_heap (sh_heap s) p then
        let slab = page_align p; sl = sh_slab s slab in
        if slab = page_align (sl_data sl) \<and> sl_magic sl = st_magic (sh_type s (sl_type sl)) \<and> sl_data sl \<le> p
        then slab else 0
      else 0)"

definition slot_of :: "'h slab_heap \<Rightarrow> addr \<Rightarrow> addr \<Rightarrow> nat" where
  "slot_of s slab p = unat ((p - sl_data (sh_slab s slab)) div st_esize (sh_type s (sl_type (sh_slab s slab))))"

definition slab_free :: "('h \<Rightarrow> addr \<Rightarrow> bool) \<Rightarrow> 'h slab_heap \<Rightarrow> addr \<Rightarrow> 'h slab_heap res" where
  "slab_free is_heap s p =
     (let slab = slab_get is_heap s p in
      if slab \<noteq> 0 then
        bindE (slab_lock s) (\<lambda>s.
          let i = slot_of s slab p; av = sl_available (sh_slab s slab) in
          if length av \<le> i div 32 then Inl BadAccess
          else
            let s = upd_slab slab (\<lambda>sl. sl\<lparr>sl_available := bset av i\<rparr>) s;
                s = (if st_finalize (sh_type s (sl_type (sh_slab s slab))) then s\<lparr>sh_final := sh_final s @ [p]\<rparr> else s)
            in Inr (slab_unlock s))
      else Inr s)"

subsection \<open>The general allocator\<close>

definition pool_sizes :: "u32 list" where
  "pool_sizes = [8, 12, 16, 24, 32, 48, 64, 96, 128, 196, 256, 384, 512, 768, 1024, 1536, (4096 - 8) div 2, 4096 - 8]"

text \<open>The pools are an array of types, 32 bytes each.\<close>

fun malloc_from ::
  "nat \<Rightarrow> ('h \<Rightarrow> ('h \<times> addr) res) \<Rightarrow> 'h slab_heap \<Rightarrow> nat \<Rightarrow> addr \<Rightarrow> u32 \<Rightarrow> ('h slab_heap \<times> addr) res" where
  "malloc_from n pha s 0 pool sz = Inl (Throw AllocationTooBigException)"
| "malloc_from n pha s (Suc k) pool sz =
     (if st_esize (sh_type s pool) > sz then slab_alloc n pha s pool else malloc_from n pha s k (pool + 32) sz)"

definition malloc :: "nat \<Rightarrow> ('h \<Rightarrow> ('h \<times> addr) res) \<Rightarrow> addr \<Rightarrow> 'h slab_heap \<Rightarrow> u32 \<Rightarrow> ('h slab_heap \<times> addr) res" where
  "malloc n pha pools s sz = malloc_from n pha s (length pool_sizes) pools sz"

definition calloc ::
  "nat \<Rightarrow> ('h \<Rightarrow> ('h \<times> addr) res) \<Rightarrow> addr \<Rightarrow> 'h slab_heap \<Rightarrow> mem \<Rightarrow> u32 \<Rightarrow> u32 \<Rightarrow> ('h slab_heap \<times> mem \<times> addr) res" where
  "calloc n pha pools s m num sz =
     bindE (malloc n pha pools s (num * sz)) (\<lambda>(s, p). Inr (s, if p \<noteq> 0 then memset m p 0 (num * sz) else m, p))"

definition realloc ::
  "nat \<Rightarrow> ('h \<Rightarrow> ('h \<times> addr) res) \<Rightarrow> ('h \<Rightarrow> addr \<Rightarrow> bool) \<Rightarrow> addr \<Rightarrow> 'h slab_heap \<Rightarrow> mem \<Rightarrow> addr \<Rightarrow> u32 \<Rightarrow>
   ('h slab_heap \<times> mem \<times> addr) res" where
  "realloc n pha is_heap pools s m p sz =
     (if p = 0 then bindE (malloc n pha pools s sz) (\<lambda>(s, p). Inr (s, m, p))
      else
        let slab = slab_get is_heap s p in
        if slab \<noteq> 0 then
          let esize = st_esize (sh_type s (sl_type (sh_slab s slab))) in
          if sz \<le> esize then Inr (s, m, p)
          else bindE (malloc n pha pools s sz) (\<lambda>(s, q). Inr (s, memcpy m q p esize, q))
        else Inl Panic)"

subsection \<open>Layout\<close>

definition esize_ok :: "u32 \<Rightarrow> bool" where
  "esize_ok e \<longleftrightarrow> 0 < unat e \<and> unat e < 2 ^ 28"

definition slab_count :: "u32 \<Rightarrow> nat" where
  "slab_count e = 32480 div (8 * unat e + 2)"

lemma count_formula: "esize_ok e \<Longrightarrow> unat (32480 div (8 * e + 2)) = slab_count e"
  by (simp add: esize_ok_def slab_count_def unat_div unat_word_ariths)

definition data_offset :: "nat \<Rightarrow> nat" where
  "data_offset cnt = 28 + 8 * bitmap_words cnt"

lemma layout_fits:
  assumes "c = slab_count e"
  shows "data_offset c + c * unat e \<le> 4096"
proof -
  have "c * (8 * unat e + 2) \<le> 32480" unfolding assms slab_count_def by (rule div_times_less_eq_dividend)
  then have "8 * (c * unat e) + 2 * c \<le> 32480" by (simp add: algebra_simps)
  moreover have "32 * bitmap_words c \<le> c + 32" unfolding bitmap_words_def by simp
  ultimately show ?thesis unfolding data_offset_def by linarith
qed

lemma slot_fits:
  assumes "c = slab_count e" "j < c"
  shows "data_offset c + unat e * j + unat e \<le> 4096"
proof -
  have "unat e * j + unat e \<le> c * unat e" using assms(2) by (metis Suc_leI mult.commute mult_Suc add.commute mult_le_mono1)
  then show ?thesis using layout_fits [OF assms(1)] by linarith
qed

lemma unat_aligned_add:
  assumes "4096 dvd unat (p :: addr)" "k < 4096"
  shows "unat (p + of_nat k) = unat p + k"
proof -
  have "unat p < 2 ^ 32" using unsigned_less [of p, where ?'a = nat] by simp
  obtain q where q: "unat p = 4096 * q" using assms(1) by (rule dvdE)
  then have "q < 1048576" using \<open>unat p < 2 ^ 32\<close> by simp
  then have "unat p + k < 2 ^ 32" using q assms(2) by simp
  moreover have "unat (of_nat k :: addr) = k" using assms(2) by (simp add: unat_of_nat_addr)
  ultimately show ?thesis by (simp add: unat_word_ariths)
qed

lemma unat_page_align: "unat (page_align p) = unat p - unat p mod 4096"
proof -
  have m: "(4095 :: addr) = mask 12" by (simp add: mask_eq_exp_minus_1)
  show ?thesis unfolding page_align_def m unat_align_down by simp
qed

lemma page_align_add:
  assumes "4096 dvd unat (p :: addr)" "k < 4096"
  shows "page_align (p + of_nat k) = p"
proof -
  have "unat (page_align (p + of_nat k)) = unat p"
    unfolding unat_page_align unat_aligned_add [OF assms] using assms by (auto elim!: dvdE)
  then show ?thesis by (simp add: word_unat_eq_iff)
qed

subsection \<open>The bitmap of a new slab\<close>

lemma bit_slot_mask: "i < cnt \<Longrightarrow> k < 32 \<Longrightarrow> bit (slot_mask cnt i) (31 - k) \<longleftrightarrow> i + k < cnt"
  unfolding slot_mask_def by (auto simp: bit_simps)

lemma fill_masks_bits:
  assumes "i mod 32 = 0" "(cnt + 31) div 32 \<le> length av"
  shows "(bfree (fill_masks cnt i av) j \<longleftrightarrow> (if i \<le> j \<and> 32 * (j div 32) < cnt then j < cnt else bfree av j)) \<and>
    length (fill_masks cnt i av) = length av"
  using assms
proof (induction cnt i av rule: fill_masks.induct)
  case (1 cnt i av)
  let ?av = "av[i div 32 := slot_mask cnt i]"
  show ?case
  proof (cases "i < cnt")
    case True
    have w: "i div 32 < length av" "i = 32 * (i div 32)" using True 1(2,3) by auto
    have IH: "bfree (fill_masks cnt (i + 32) ?av) j \<longleftrightarrow> (if i + 32 \<le> j \<and> 32 * (j div 32) < cnt then j < cnt else bfree ?av j)"
      "length (fill_masks cnt (i + 32) ?av) = length av"
      using 1(1) [OF True] 1(2,3) by simp_all
    have st: "fill_masks cnt i av = fill_masks cnt (i + 32) ?av" using True by (subst fill_masks.simps) simp
    show ?thesis
    proof (cases "j div 32 = i div 32")
      case same: True
      have "j mod 32 < 32" "j = i + j mod 32" using same w(2) mult_div_mod_eq [of 32 j] by simp_all
      then have "i \<le> j" "\<not> i + 32 \<le> j" "32 * (j div 32) < cnt" using same w(2) True by linarith+
      moreover have "bfree ?av j \<longleftrightarrow> j < cnt"
        using bit_slot_mask [OF True \<open>j mod 32 < 32\<close>] \<open>j = i + j mod 32\<close> same w(1) by (simp add: bfree_def)
      ultimately show ?thesis using st IH by simp
    next
      case False
      then have "bfree ?av j \<longleftrightarrow> bfree av j" by (simp add: bfree_def)
      moreover have "i + 32 \<le> j \<longleftrightarrow> i \<le> j" using False w(2) by auto
      ultimately show ?thesis using st IH by simp
    qed
  next
    case False
    have "i = 32 * (i div 32)" using 1(2) by auto
    then have "i \<le> 32 * (j div 32)" if "i \<le> j" using div_le_mono [OF that, of 32] by linarith
    then have "\<not> (i \<le> j \<and> 32 * (j div 32) < cnt)" using False by auto
    moreover have "fill_masks cnt i av = av" using False by (subst fill_masks.simps) simp
    ultimately show ?thesis by auto
  qed
qed

lemma words_ge: "(cnt + 31) div 32 \<le> bitmap_words cnt"
  by (simp add: bitmap_words_def div_le_mono)

lemma fill_masks_new:
  assumes "j < 32 * bitmap_words cnt"
  shows "bfree (fill_masks cnt 0 (replicate (bitmap_words cnt) 0)) j \<longleftrightarrow> j < cnt"
proof -
  have "j div 32 < bitmap_words cnt" using assms by linarith
  then have "\<not> bfree (replicate (bitmap_words cnt) 0) j" by (simp add: bfree_def)
  then show ?thesis using fill_masks_bits [of 0 cnt "replicate (bitmap_words cnt) 0" j] words_ge by auto
qed

lemma find_word_ok:
  assumes "i mod 32 = 0" "(cnt + 31) div 32 \<le> length av" "\<forall>j < 32 * length av. bfree av j \<longrightarrow> j < cnt" "\<forall>j<i. \<not> bfree av j"
  shows "(find_word av cnt i = Inr None \<and> (\<forall>j<cnt. \<not> bfree av j)) \<or>
    (\<exists>w. find_word av cnt i = Inr (Some (32 * w)) \<and> w < length av \<and> av ! w \<noteq> 0)"
  using assms
proof (induction av cnt i rule: find_word.induct)
  case (1 av cnt i)
  show ?case
  proof (cases "i < cnt")
    case False
    then show ?thesis using 1(5) by (subst (1) find_word.simps) auto
  next
    case True
    have w: "i div 32 < length av" "i = 32 * (i div 32)" using True 1(2,3) by auto
    show ?thesis
    proof (cases "av ! (i div 32) = 0")
      case z: True
      have "\<not> bfree av j" if "j < i + 32" for j
      proof (cases "j < i")
        case False
        then have "j div 32 = i div 32" using that w(2) by auto
        then show ?thesis using word_empty_entries [OF z] by simp
      qed (use 1(5) in blast)
      then have "(find_word av cnt (i + 32) = Inr None \<and> (\<forall>j<cnt. \<not> bfree av j)) \<or>
          (\<exists>w. find_word av cnt (i + 32) = Inr (Some (32 * w)) \<and> w < length av \<and> av ! w \<noteq> 0)"
        by (intro 1(1)) (use True w z 1(2-4) in auto)
      moreover have "find_word av cnt i = find_word av cnt (i + 32)" using True w(1) z by (subst find_word.simps) simp
      ultimately show ?thesis by simp
    next
      case False
      then have "find_word av cnt i = Inr (Some (32 * (i div 32)))" using True w by (subst find_word.simps) simp
      then show ?thesis using False w(1) by blast
    qed
  qed
qed

subsection \<open>Well-formed heaps\<close>

definition slab_of :: "'h slab_heap \<Rightarrow> addr \<Rightarrow> addr \<Rightarrow> bool" where
  "slab_of s t p \<longleftrightarrow>
     (let sl = sh_slab s p; ty = sh_type s t; words = bitmap_words (st_count ty) in
      sl_type sl = t \<and> sl_magic sl = st_magic ty \<and> length (sl_available sl) = words \<and> length (sl_finalize sl) = words \<and>
      sl_data sl = p + of_nat (data_offset (st_count ty)) \<and>
      (\<forall>j < 32 * words. bfree (sl_available sl) j \<longrightarrow> j < st_count ty) \<and> 4096 dvd unat p \<and> p \<noteq> 0)"

text \<open>\<open>L t\<close> are the slabs of the type \<open>t\<close>, \<open>T\<close> the types in use; \<open>hused\<close> are the pages of the heap in use.\<close>

definition slab_inv :: "('h \<Rightarrow> addr set) \<Rightarrow> 'h slab_heap \<Rightarrow> (addr \<Rightarrow> addr list) \<Rightarrow> addr list \<Rightarrow> bool" where
  "slab_inv hused s L T \<longleftrightarrow>
     clist (sh_tlinks s) (sh_types s) T \<and> (\<forall>t. t \<in> set T \<longleftrightarrow> st_magic (sh_type s t) \<noteq> 0) \<and>
     (\<forall>t\<in>set T. esize_ok (st_esize (sh_type s t)) \<and> st_count (sh_type s t) = slab_count (st_esize (sh_type s t))) \<and>
     (\<forall>t. clist (sh_links s) (st_first (sh_type s t)) (L t)) \<and> (\<forall>t. t \<notin> set T \<longrightarrow> L t = []) \<and>
     (\<forall>t. \<forall>p\<in>set (L t). slab_of s t p) \<and>
     (\<forall>p. sl_type (sh_slab s p) \<noteq> 0 \<longrightarrow> p \<in> set (L (sl_type (sh_slab s p)))) \<and>
     (\<forall>p. sl_type (sh_slab s p) = 0 \<longrightarrow> sl_data (sh_slab s p) = 0) \<and>
     (\<forall>t. set (L t) \<subseteq> hused (sh_heap s))"

definition obj :: "'h slab_heap \<Rightarrow> addr \<Rightarrow> nat \<Rightarrow> addr" where
  "obj s p j = sl_data (sh_slab s p) + st_esize (sh_type s (sl_type (sh_slab s p))) * of_nat j"

definition slots :: "'h slab_heap \<Rightarrow> addr \<Rightarrow> nat" where
  "slots s p = st_count (sh_type s (sl_type (sh_slab s p)))"

definition used_slots :: "'h slab_heap \<Rightarrow> (addr \<times> nat) set" where
  "used_slots s = {(p, j). sl_type (sh_slab s p) \<noteq> 0 \<and> j < slots s p \<and> \<not> bfree (sl_available (sh_slab s p)) j}"

definition used_objs :: "'h slab_heap \<Rightarrow> addr set" where
  "used_objs s = (\<lambda>(p, j). obj s p j) ` used_slots s"

lemma used_objs_cong: "(\<And>p j. (p, j) \<in> used_slots s' \<Longrightarrow> obj s' p j = obj s p j) \<Longrightarrow> used_slots s' = used_slots s \<Longrightarrow> used_objs s' = used_objs s"
  unfolding used_objs_def by (rule image_cong) auto

lemma slab_inv_D:
  assumes "slab_inv hused s L T"
  shows "clist (sh_tlinks s) (sh_types s) T" "t \<in> set T \<longleftrightarrow> st_magic (sh_type s t) \<noteq> 0"
    "t \<in> set T \<Longrightarrow> esize_ok (st_esize (sh_type s t))" "t \<in> set T \<Longrightarrow> st_count (sh_type s t) = slab_count (st_esize (sh_type s t))"
    "clist (sh_links s) (st_first (sh_type s t)) (L t)" "t \<notin> set T \<Longrightarrow> L t = []"
    "p \<in> set (L t) \<Longrightarrow> slab_of s t p" "sl_type (sh_slab s p) \<noteq> 0 \<Longrightarrow> p \<in> set (L (sl_type (sh_slab s p)))"
    "sl_type (sh_slab s p) = 0 \<Longrightarrow> sl_data (sh_slab s p) = 0" "p \<in> set (L t) \<Longrightarrow> p \<in> hused (sh_heap s)"
  using assms unfolding slab_inv_def by blast+

lemma slab_inv_in_T: "slab_inv hused s L T \<Longrightarrow> p \<in> set (L t) \<Longrightarrow> t \<in> set T"
  using slab_inv_D(6) by fastforce

lemma slab_inv_T_nz: "slab_inv hused s L T \<Longrightarrow> 0 \<notin> set T"
  using slab_inv_D(1) clist_distinct by blast

lemma slab_of_D:
  assumes "slab_of s t p"
  shows "sl_type (sh_slab s p) = t" "sl_magic (sh_slab s p) = st_magic (sh_type s t)"
    "length (sl_available (sh_slab s p)) = bitmap_words (st_count (sh_type s t))"
    "length (sl_finalize (sh_slab s p)) = bitmap_words (st_count (sh_type s t))"
    "sl_data (sh_slab s p) = p + of_nat (data_offset (st_count (sh_type s t)))"
    "\<forall>j < 32 * bitmap_words (st_count (sh_type s t)). bfree (sl_available (sh_slab s p)) j \<longrightarrow> j < st_count (sh_type s t)"
    "4096 dvd unat p" "p \<noteq> 0"
  using assms unfolding slab_of_def Let_def by blast+

lemma obj_at:
  assumes "slab_of s t p" "st_count (sh_type s t) = slab_count (st_esize (sh_type s t))" "esize_ok (st_esize (sh_type s t))"
    "j < st_count (sh_type s t)"
  shows "unat (obj s p j) = unat p + data_offset (st_count (sh_type s t)) + unat (st_esize (sh_type s t)) * j"
    "page_align (obj s p j) = p"
proof -
  let ?e = "st_esize (sh_type s t)" and ?c = "st_count (sh_type s t)"
  define k where "k = data_offset ?c + unat ?e * j"
  have lt: "k < 4096" using slot_fits [OF assms(2,4)] assms(3) unfolding k_def esize_ok_def by linarith
  have o: "obj s p j = p + of_nat k" unfolding obj_def slab_of_D(1) [OF assms(1)] slab_of_D(5) [OF assms(1)] k_def by simp
  show "unat (obj s p j) = unat p + data_offset ?c + unat ?e * j"
    unfolding o unat_aligned_add [OF slab_of_D(7) [OF assms(1)] lt] by (simp add: k_def)
  show "page_align (obj s p j) = p" unfolding o by (rule page_align_add [OF slab_of_D(7) [OF assms(1)] lt])
qed

lemma obj_slot:
  assumes "slab_of s t p" "st_count (sh_type s t) = slab_count (st_esize (sh_type s t))" "esize_ok (st_esize (sh_type s t))"
    "j < st_count (sh_type s t)"
  shows "slot_of s p (obj s p j) = j" "sl_data (sh_slab s p) \<le> obj s p j"
proof -
  let ?e = "st_esize (sh_type s t)" and ?c = "st_count (sh_type s t)"
  have "0 < ?c" using assms(4) by simp
  have d: "unat (sl_data (sh_slab s p)) = unat p + data_offset ?c"
    using obj_at(1) [OF assms(1-3) \<open>0 < ?c\<close>] by (simp add: obj_def)
  have o: "unat (obj s p j) = unat (sl_data (sh_slab s p)) + unat ?e * j"
    using obj_at(1) [OF assms] d by simp
  then show le: "sl_data (sh_slab s p) \<le> obj s p j" by (simp add: word_le_nat_alt)
  have "unat (obj s p j - sl_data (sh_slab s p)) = unat ?e * j" using unat_sub [OF le] o by simp
  then show "slot_of s p (obj s p j) = j"
    unfolding slot_of_def slab_of_D(1) [OF assms(1)] unat_div using assms(3) by (simp add: esize_ok_def)
qed

lemma obj_inj:
  assumes "slab_inv hused s L T" "sl_type (sh_slab s p) \<noteq> 0" "sl_type (sh_slab s q) \<noteq> 0" "i < slots s p" "j < slots s q"
    "obj s p i = obj s q j"
  shows "p = q \<and> i = j"
proof -
  have st: "slab_of s (sl_type (sh_slab s r)) r" "st_count (sh_type s (sl_type (sh_slab s r))) = slab_count (st_esize (sh_type s (sl_type (sh_slab s r))))"
    "esize_ok (st_esize (sh_type s (sl_type (sh_slab s r))))" if "sl_type (sh_slab s r) \<noteq> 0" for r
  proof -
    note r = slab_inv_D(8) [OF assms(1) that]
    note T = slab_inv_in_T [OF assms(1) r]
    show "slab_of s (sl_type (sh_slab s r)) r" by (rule slab_inv_D(7) [OF assms(1) r])
    show "st_count (sh_type s (sl_type (sh_slab s r))) = slab_count (st_esize (sh_type s (sl_type (sh_slab s r))))"
      "esize_ok (st_esize (sh_type s (sl_type (sh_slab s r))))" by (rule slab_inv_D(4) [OF assms(1) T], rule slab_inv_D(3) [OF assms(1) T])
  qed
  have "page_align (obj s p i) = p" "page_align (obj s q j) = q"
    by (rule obj_at(2) [OF st [OF assms(2)]], use assms(4) in \<open>simp add: slots_def\<close>)
      (rule obj_at(2) [OF st [OF assms(3)]], use assms(5) in \<open>simp add: slots_def\<close>)
  then have pq: "p = q" using assms(6) by simp
  have "slot_of s p (obj s p i) = i" "slot_of s q (obj s q j) = j"
    by (rule obj_slot(1) [OF st [OF assms(2)]], use assms(4) in \<open>simp add: slots_def\<close>)
      (rule obj_slot(1) [OF st [OF assms(3)]], use assms(5) in \<open>simp add: slots_def\<close>)
  then show ?thesis using pq assms(6) by metis
qed

subsection \<open>Taking a slot\<close>

lemma slab_take_ok:
  assumes "slab_of s t p"
  shows "(slab_take s p = Inr None \<and> (\<forall>j < st_count (sh_type s t). \<not> bfree (sl_available (sh_slab s p)) j)) \<or>
    (\<exists>j < st_count (sh_type s t). bfree (sl_available (sh_slab s p)) j \<and> slab_take s p =
       Inr (Some (upd_slab p (\<lambda>sl. sl\<lparr>sl_available := bclear (sl_available (sh_slab s p)) (j div 32) (bmask j)\<rparr>) s, obj s p j)))"
proof -
  let ?av = "sl_available (sh_slab s p)" and ?c = "st_count (sh_type s t)"
  note d = slab_of_D [OF assms]
  have b: "\<forall>j < 32 * length ?av. bfree ?av j \<longrightarrow> j < ?c" using d(3,6) by simp
  have l: "(?c + 31) div 32 \<le> length ?av" using d(3) words_ge by simp
  consider "find_word ?av ?c 0 = Inr None" "\<forall>j<?c. \<not> bfree ?av j"
    | w where "find_word ?av ?c 0 = Inr (Some (32 * w))" "w < length ?av" "?av ! w \<noteq> 0"
    using find_word_ok [OF _ l b, of 0] by auto
  then show ?thesis
  proof cases
    case 1
    then show ?thesis by (simp add: slab_take_def Let_def d(1))
  next
    case (2 w)
    obtain j where j: "j < 32" "scan_mask (?av ! w) 0x80000000 (32 * w) = (bmask (32 * w + j), 32 * w + j)" "bfree ?av (32 * w + j)"
      using word_first_entry [OF 2(3), of "32 * w"] by blast
    have "32 * w + j < 32 * length ?av" using 2(2) j(1) by linarith
    then have "32 * w + j < ?c" using b j(3) by blast
    moreover have "(32 * w + j) div 32 = w" using j(1) by simp
    ultimately show ?thesis using 2(1) j(2,3)
      by (intro disjI2 exI [of _ "32 * w + j"]) (simp add: slab_take_def Let_def d(1) obj_def)
  qed
qed

text \<open>Changing the bitmap of one slab.\<close>

lemma upd_slab_simps [simp]:
  "sh_type (upd_slab p f s) = sh_type s" "sh_links (upd_slab p f s) = sh_links s" "sh_tlinks (upd_slab p f s) = sh_tlinks s"
  "sh_types (upd_slab p f s) = sh_types s" "sh_spin (upd_slab p f s) = sh_spin s" "sh_heap (upd_slab p f s) = sh_heap s"
  "sh_final (upd_slab p f s) = sh_final s" "sh_slab (upd_slab p f s) = (sh_slab s)(p := f (sh_slab s p))"
  by (simp_all add: upd_slab_def)

lemma upd_av_obj:
  assumes "s' = upd_slab p (\<lambda>sl. sl\<lparr>sl_available := av\<rparr>) s"
  shows "obj s' q j = obj s q j" "slots s' q = slots s q" "sl_type (sh_slab s' q) = sl_type (sh_slab s q)"
    "sl_data (sh_slab s' q) = sl_data (sh_slab s q)" "sl_finalize (sh_slab s' q) = sl_finalize (sh_slab s q)"
    "sl_magic (sh_slab s' q) = sl_magic (sh_slab s q)"
    "sl_available (sh_slab s' q) = (if q = p then av else sl_available (sh_slab s q))"
  by (simp_all add: assms obj_def slots_def)

lemma upd_av_inv:
  assumes "slab_inv hused s L T" "p \<in> set (L t)" "length av = length (sl_available (sh_slab s p))"
    "\<forall>j < 32 * length av. bfree av j \<longrightarrow> j < st_count (sh_type s t)" "s' = upd_slab p (\<lambda>sl. sl\<lparr>sl_available := av\<rparr>) s"
  shows "slab_inv hused s' L T"
proof -
  note u = upd_av_obj [OF assms(5)]
  have ty: "sh_type s' = sh_type s" by (simp add: assms(5))
  have "slab_of s' t' q" if "q \<in> set (L t')" for t' q
  proof -
    have q: "slab_of s t' q" using slab_inv_D(7) [OF assms(1) that] .
    have p: "slab_of s t p" using slab_inv_D(7) [OF assms(1,2)] .
    show ?thesis using q p assms(3,4) unfolding slab_of_def Let_def u ty by (cases "q = p") auto
  qed
  then show ?thesis using assms(1) unfolding slab_inv_def u ty by (simp add: assms(5))
qed

lemma take_slot:
  assumes "slab_inv hused s L T" "p \<in> set (L t)" "j < st_count (sh_type s t)" "bfree (sl_available (sh_slab s p)) j"
    "s' = upd_slab p (\<lambda>sl. sl\<lparr>sl_available := bclear (sl_available (sh_slab s p)) (j div 32) (bmask j)\<rparr>) s"
  shows "slab_inv hused s' L T" "obj s p j \<notin> used_objs s" "used_objs s' = insert (obj s p j) (used_objs s)"
proof -
  let ?av = "sl_available (sh_slab s p)"
  have p: "slab_of s t p" using slab_inv_D(7) [OF assms(1,2)] .
  note d = slab_of_D [OF p]
  have tnz: "t \<noteq> 0" using slab_inv_T_nz [OF assms(1)] slab_inv_in_T [OF assms(1,2)] by metis
  have "j < 32 * ((st_count (sh_type s t) + 31) div 32)" using assms(3) by linarith
  also have "\<dots> \<le> 32 * length ?av" using d(3) words_ge by simp
  finally have jl: "j div 32 < length ?av" by linarith
  note cl = bfree_bclear [OF jl]
  show "slab_inv hused s' L T"
    by (rule upd_av_inv [OF assms(1,2) _ _ assms(5)]) (use d(3,6) cl in auto)
  note u = upd_av_obj [OF assms(5)]
  have sl: "slots s p = st_count (sh_type s t)" by (simp add: slots_def d(1))
  show "obj s p j \<notin> used_objs s"
  proof
    assume "obj s p j \<in> used_objs s"
    then obtain q i where q: "obj s p j = obj s q i" "sl_type (sh_slab s q) \<noteq> 0" "i < slots s q" "\<not> bfree (sl_available (sh_slab s q)) i"
      by (auto simp: used_objs_def used_slots_def)
    have "p = q \<and> j = i" by (rule obj_inj [OF assms(1) _ q(2) _ q(3,1)]) (use d(1) tnz assms(3) sl in auto)
    then show False using q(4) assms(4) by simp
  qed
  show "used_objs s' = insert (obj s p j) (used_objs s)"
  proof -
    have "(q, i) \<in> used_slots s' \<longleftrightarrow> (q, i) = (p, j) \<or> (q, i) \<in> used_slots s" for q i
      using tnz assms(3) by (cases "q = p") (auto simp: used_slots_def u cl d(1) sl)
    then have "used_slots s' = insert (p, j) (used_slots s)" by auto
    then show ?thesis unfolding used_objs_def u by simp
  qed
qed

subsection \<open>A slot is given back\<close>

lemma slab_get_obj:
  assumes "slab_inv hused s L T" "(p, j) \<in> used_slots s" "is_heap (sh_heap s) (obj s p j)"
  shows "slab_get is_heap s (obj s p j) = p" "slot_of s p (obj s p j) = j" "p \<in> set (L (sl_type (sh_slab s p)))" "p \<noteq> 0"
proof -
  have a: "sl_type (sh_slab s p) \<noteq> 0" "j < slots s p" using assms(2) by (auto simp: used_slots_def)
  show p: "p \<in> set (L (sl_type (sh_slab s p)))" using slab_inv_D(8) [OF assms(1) a(1)] .
  note T = slab_inv_in_T [OF assms(1) p]
  note sp = slab_inv_D(7) [OF assms(1) p]
  note c = slab_inv_D(4) [OF assms(1) T] and e = slab_inv_D(3) [OF assms(1) T]
  have j: "j < st_count (sh_type s (sl_type (sh_slab s p)))" using a(2) by (simp add: slots_def)
  show "p \<noteq> 0" using slab_of_D(8) [OF sp] .
  show "slot_of s p (obj s p j) = j" by (rule obj_slot(1) [OF sp c e j])
  have pa: "page_align (obj s p j) = p" by (rule obj_at(2) [OF sp c e j])
  have "page_align (sl_data (sh_slab s p)) = p" using obj_at(2) [OF sp c e, of 0] j by (simp add: obj_def)
  then show "slab_get is_heap s (obj s p j) = p"
    using assms(3) pa slab_of_D(2) [OF sp] obj_slot(2) [OF sp c e j] by (simp add: slab_get_def Let_def)
qed

lemma slab_free_ok:
  assumes "slab_inv hused s L T" "(p, j) \<in> used_slots s" "is_heap (sh_heap s) (obj s p j)" "\<not> sh_spin s"
  shows "\<exists>s'. slab_free is_heap s (obj s p j) = Inr s' \<and> slab_inv hused s' L T \<and> used_objs s' = used_objs s - {obj s p j} \<and>
    sh_heap s' = sh_heap s \<and> \<not> sh_spin s' \<and> sh_type s' = sh_type s \<and>
    sh_final s' = sh_final s @ (if st_finalize (sh_type s (sl_type (sh_slab s p))) then [obj s p j] else [])"
proof -
  note g = slab_get_obj [where is_heap = is_heap, OF assms(1-3)]
  let ?t = "sl_type (sh_slab s p)" and ?av = "sl_available (sh_slab s p)"
  have a: "?t \<noteq> 0" "j < slots s p" "\<not> bfree ?av j" using assms(2) by (auto simp: used_slots_def)
  note sp = slab_inv_D(7) [OF assms(1) g(3)]
  note d = slab_of_D [OF sp]
  have j: "j < st_count (sh_type s ?t)" using a(2) by (simp add: slots_def)
  have "j < 32 * ((st_count (sh_type s ?t) + 31) div 32)" using j by linarith
  also have "\<dots> \<le> 32 * length ?av" using d(3) words_ge by simp
  finally have jl: "j div 32 < length ?av" by linarith
  note bs = bfree_bset [OF jl]
  define s1 where "s1 = upd_slab p (\<lambda>sl. sl\<lparr>sl_available := bset ?av j\<rparr>) s"
  note u = upd_av_obj [OF s1_def]
  have inv1: "slab_inv hused s1 L T"
    by (rule upd_av_inv [OF assms(1) g(3) _ _ s1_def]) (use d(3,6) bs j in auto)
  have "(q, i) \<in> used_slots s1 \<longleftrightarrow> (q, i) \<noteq> (p, j) \<and> (q, i) \<in> used_slots s" for q i
    by (cases "q = p") (auto simp: used_slots_def u bs)
  then have us: "used_slots s1 = used_slots s - {(p, j)}" by auto
  have inj: "obj s q i \<noteq> obj s p j" if "(q, i) \<in> used_slots s - {(p, j)}" for q i
    using obj_inj [OF assms(1), of q p i j] that assms(2) by (auto simp: used_slots_def)
  have uo: "used_objs s1 = used_objs s - {obj s p j}" unfolding used_objs_def us u using inj by (force simp: image_iff)
  have sp0: "\<not> sh_spin s" using assms(4) .
  define s2 where "s2 = s1\<lparr>sh_final := sh_final s @ (if st_finalize (sh_type s ?t) then [obj s p j] else []), sh_spin := False\<rparr>"
  have run: "slab_free is_heap s (obj s p j) = Inr s2"
    using g jl sp0
    by (simp add: slab_free_def slab_lock_def slab_unlock_def Let_def slot_of_def s2_def s1_def upd_slab_def)
  have "slab_inv hused s2 L T" using inv1 by (simp add: s2_def slab_inv_def slab_of_def)
  moreover have "used_objs s2 = used_objs s1" by (rule used_objs_cong) (simp_all add: s2_def obj_def used_slots_def slots_def)
  ultimately show ?thesis using run uo by (simp add: s2_def s1_def)
qed

end
