(* ===== verification/Thread.thy ===== *)
theory Thread
  imports Cpu Slab
begin

text \<open>
  Threads (\<^verbatim>\<open>src/kernel/thread.c\<close>, with \<^verbatim>\<open>arch_thread_fork\<close> and \<^verbatim>\<open>arch_thread_switch\<close> of
  \<^verbatim>\<open>src/arch/i386/i386.c\<close> and the checks of \<^verbatim>\<open>src/kernel/check.c\<close>): thread-local storage, the run queues and the
  scheduler, forking with the relocation of the stack, switching.

  A jump buffer is the six registers that \<^verbatim>\<open>setjmp\<close> saves (eip, esp, ebp, ebx, esi, edi); the registers of
  the running thread are \<open>regs\<close>. The running thread is found as the code finds it, in the first word of
  the page the stack pointer is in. The part of a function behind a call of the scheduler runs when its
  thread is switched to again.
\<close>

datatype tstate = THREAD_NEW | THREAD_RUNNABLE | THREAD_RUNNING | THREAD_SLEEPING | THREAD_TERMINATED

definition TLS_MAX :: nat where "TLS_MAX = 32"

definition THREAD_PRIORITIES :: nat where "THREAD_PRIORITIES = 3"

record thread_t =
  tls :: "addr list"
  ctx_stack :: addr
  ctx_state :: "u32 list"
  process :: addr
  tstate :: tstate
  priority :: nat
  retval :: addr

record 'h kstate =
  mach :: machine
  regs :: "u32 list"
  smem :: "addr \<Rightarrow> u32"
  thr :: "addr \<Rightarrow> thread_t"
  tlinks :: links
  queue :: "addr list"
  queuelock :: int
  tls_next :: int
  slabs :: "'h slab_heap"

subsection \<open>Checks\<close>

definition check_not_null :: "addr \<Rightarrow> unit res" where
  "check_not_null p = (if p = 0 then Inl (Throw NullPointerException) else Inr ())"

definition check_int_bounds :: "int \<Rightarrow> int \<Rightarrow> int \<Rightarrow> unit res" where
  "check_int_bounds i low high = (if i < low \<or> i > high then Inl (Throw IntBoundsException) else Inr ())"

definition check_ptr_bounds :: "addr \<Rightarrow> addr \<Rightarrow> addr \<Rightarrow> unit res" where
  "check_ptr_bounds p low high = (if p < low \<or> p \<ge> high then Inl (Throw PtrBoundsException) else Inr ())"

definition check_int_is :: "int \<Rightarrow> int \<Rightarrow> unit res" where
  "check_int_is i v = (if i \<noteq> v then Inl (Throw IntValueException) else Inr ())"

subsection \<open>The running thread\<close>

definition ARCH_PTRI_BASE :: "u32 \<Rightarrow> u32" where
  "ARCH_PTRI_BASE p = p AND NOT 0xfff"

definition ARCH_PTRI_OFFSET :: "u32 \<Rightarrow> u32" where
  "ARCH_PTRI_OFFSET p = p AND 0xfff"

definition arch_get_thread :: "'h kstate \<Rightarrow> addr" where
  "arch_get_thread s = smem s (ARCH_PTRI_BASE (regs s ! 1))"

definition upd_thr :: "addr \<Rightarrow> (thread_t \<Rightarrow> thread_t) \<Rightarrow> 'h kstate \<Rightarrow> 'h kstate" where
  "upd_thr t f s = s\<lparr>thr := (thr s)(t := f (thr s t))\<rparr>"

definition setjmp :: "'h kstate \<Rightarrow> addr \<Rightarrow> 'h kstate" where
  "setjmp s t = upd_thr t (\<lambda>x. x\<lparr>ctx_state := regs s\<rparr>) s"

definition longjmp :: "'h kstate \<Rightarrow> addr \<Rightarrow> 'h kstate" where
  "longjmp s t = s\<lparr>regs := ctx_state (thr s t)\<rparr>"

subsection \<open>Thread-local storage\<close>

definition tls_get_key :: "'h kstate \<Rightarrow> 'h kstate \<times> int" where
  "tls_get_key s = (case arch_atomic_postinc (mach s) (tls_next s) of (m, p, i) \<Rightarrow> (s\<lparr>mach := m, tls_next := p\<rparr>, i))"

definition tls_set :: "'h kstate \<Rightarrow> int \<Rightarrow> addr \<Rightarrow> 'h kstate res" where
  "tls_set s key p = (let thread = arch_get_thread s in
     bindE (check_not_null thread) (\<lambda>_. bindE (check_int_bounds key 1 (int TLS_MAX - 1)) (\<lambda>_.
     Inr (upd_thr thread (\<lambda>x. x\<lparr>tls := (tls x)[nat key := p]\<rparr>) s))))"

definition tls_get :: "'h kstate \<Rightarrow> int \<Rightarrow> addr res" where
  "tls_get s key = (let thread = arch_get_thread s in
     bindE (check_not_null thread) (\<lambda>_. bindE (check_int_bounds key 1 (int TLS_MAX - 1)) (\<lambda>_.
     Inr (tls (thr s thread) ! nat key))))"

subsection \<open>Queues\<close>

definition thread_prequeue :: "'h kstate \<Rightarrow> addr \<Rightarrow> addr \<Rightarrow> tstate \<Rightarrow> 'h kstate \<times> addr" where
  "thread_prequeue s q thread state =
    (let thread = (if thread = 0 then arch_get_thread s else thread);
       s = upd_thr thread (\<lambda>x. x\<lparr>tstate := state\<rparr>) s;
       (lk, q) = LIST_PREPEND (tlinks s) q thread in (s\<lparr>tlinks := lk\<rparr>, q))"

definition thread_queue :: "'h kstate \<Rightarrow> addr \<Rightarrow> addr \<Rightarrow> tstate \<Rightarrow> 'h kstate \<times> addr" where
  "thread_queue s q thread state =
    (let thread = (if thread = 0 then arch_get_thread s else thread);
       s = upd_thr thread (\<lambda>x. x\<lparr>tstate := state\<rparr>) s;
       (lk, q) = LIST_APPEND (tlinks s) q thread in (s\<lparr>tlinks := lk\<rparr>, q))"

text \<open>The loop around \<^verbatim>\<open>spin_trylock\<close> does not end when the lock is taken, see \<open>arch_spin_lock\<close>.\<close>

definition scheduler_lock :: "'h kstate \<Rightarrow> 'h kstate res" where
  "scheduler_lock s = (case arch_spin_trylock (mach s) (queuelock s) of (m, l, r) \<Rightarrow>
     if r \<noteq> 0 then Inr (s\<lparr>mach := m, queuelock := l\<rparr>) else Inl OutOfFuel)"

definition scheduler_unlock :: "'h kstate \<Rightarrow> 'h kstate" where
  "scheduler_unlock s = (case arch_spin_unlock (mach s) (queuelock s) of (m, l) \<Rightarrow> s\<lparr>mach := m, queuelock := l\<rparr>)"

definition set_queue :: "'h kstate \<times> addr \<Rightarrow> nat \<Rightarrow> 'h kstate" where
  "set_queue sq i = (case sq of (s, q) \<Rightarrow> s\<lparr>queue := (queue s)[i := q]\<rparr>)"

subsection \<open>Switching and scheduling\<close>

definition arch_thread_switch :: "'h kstate \<Rightarrow> addr \<Rightarrow> 'h kstate" where
  "arch_thread_switch s thread =
    (let old = arch_get_thread s in
     if old = thread then upd_thr thread (\<lambda>x. x\<lparr>tstate := THREAD_RUNNING\<rparr>) s
     else
       let s = (if tstate (thr s old) = THREAD_RUNNING then upd_thr old (\<lambda>x. x\<lparr>tstate := THREAD_RUNNABLE\<rparr>) s else s);
         s = setjmp s old;
         s = (if tstate (thr s thread) = THREAD_RUNNABLE then upd_thr thread (\<lambda>x. x\<lparr>tstate := THREAD_RUNNING\<rparr>) s else s);
         s = s\<lparr>mach := (mach s)\<lparr>tss := (tss (mach s))[1 := ctx_stack (thr s thread) + 4096]\<rparr>\<rparr>
       in longjmp s thread)"

fun schedule_from :: "nat \<Rightarrow> 'h kstate \<Rightarrow> nat \<Rightarrow> 'h kstate res" where
  "schedule_from 0 s i = Inl Panic"
| "schedule_from (Suc n) s i = (let next = queue s ! i in
     if next = 0 then schedule_from n s (i + 1)
     else bindE (LIST_DELETE (tlinks s) next next) (\<lambda>(lk, q).
       Inr (arch_thread_switch (scheduler_unlock (set_queue (s\<lparr>tlinks := lk\<rparr>, q) i)) next)))"

definition thread_schedule :: "'h kstate \<Rightarrow> 'h kstate res" where
  "thread_schedule s = bindE (scheduler_lock s) (\<lambda>s. schedule_from THREAD_PRIORITIES s 0)"

definition thread_preempt :: "'h kstate \<Rightarrow> 'h kstate res" where
  "thread_preempt s = (let this = arch_get_thread s; priority = priority (thr s this) in
     bindE (scheduler_lock s) (\<lambda>s.
     thread_schedule (scheduler_unlock (set_queue (thread_prequeue s (queue s ! priority) this THREAD_RUNNABLE) priority))))"

definition thread_yield :: "'h kstate \<Rightarrow> 'h kstate res" where
  "thread_yield s = (let this = arch_get_thread s; priority = priority (thr s this) in
     bindE (scheduler_lock s) (\<lambda>s.
     thread_schedule (scheduler_unlock (set_queue (thread_queue s (queue s ! priority) this THREAD_RUNNABLE) priority))))"

definition thread_resume :: "'h kstate \<Rightarrow> addr \<Rightarrow> 'h kstate res" where
  "thread_resume s thread = (if thread = 0 then Inl NullDeref else let priority = priority (thr s thread) in
     bindE (scheduler_lock s) (\<lambda>s.
     Inr (scheduler_unlock (set_queue (thread_queue s (queue s ! priority) thread THREAD_RUNNABLE) priority))))"

definition thread_set_priority :: "'h kstate \<Rightarrow> addr \<Rightarrow> int \<Rightarrow> 'h kstate res" where
  "thread_set_priority s thread p = bindE (check_int_bounds p 0 2) (\<lambda>_.
     let thread = (if thread = 0 then arch_get_thread s else thread) in
     Inr (upd_thr thread (\<lambda>x. x\<lparr>priority := nat p\<rparr>) s))"

subsection \<open>Forking\<close>

text \<open>A word that points into the page \<open>spage\<close> is moved to the same offset in \<open>dpage\<close>.\<close>

definition relocate :: "u32 \<Rightarrow> u32 \<Rightarrow> u32 \<Rightarrow> u32" where
  "relocate spage dpage w = (if ARCH_PTRI_BASE w = ARCH_PTRI_BASE spage then dpage OR ARCH_PTRI_OFFSET w else w)"

fun copy_stack :: "(addr \<Rightarrow> u32) \<Rightarrow> u32 \<Rightarrow> u32 \<Rightarrow> nat \<Rightarrow> nat \<Rightarrow> addr \<Rightarrow> u32" where
  "copy_stack mem spage dpage i 0 = mem"
| "copy_stack mem spage dpage i (Suc n) =
     copy_stack (mem(dpage + 4 * of_nat i := relocate spage dpage (mem (spage + 4 * of_nat i)))) spage dpage (Suc i) n"

definition arch_thread_fork :: "('h \<Rightarrow> ('h \<times> addr) res) \<Rightarrow> 'h kstate \<Rightarrow> addr \<Rightarrow> 'h kstate res" where
  "arch_thread_fork pha s dest =
    (let source = arch_get_thread s;
       s = s\<lparr>thr := (thr s)(dest := thr s source),
             tlinks := set_nx dest (nx (tlinks s) source) (set_pv dest (pv (tlinks s) source) (tlinks s))\<rparr> in
     bindE (pha (sh_heap (slabs s))) (\<lambda>(h, p).
     let s = s\<lparr>slabs := (slabs s)\<lparr>sh_heap := h\<rparr>\<rparr>;
       s = upd_thr dest (\<lambda>x. x\<lparr>ctx_stack := p\<rparr>) s;
       dpage = ARCH_PTRI_BASE p;
       spage = ARCH_PTRI_BASE (ctx_stack (thr s source));
       s = s\<lparr>smem := (smem s)(dpage := dest)\<rparr>;
       s = s\<lparr>smem := copy_stack (smem s) spage dpage 1 1023\<rparr>;
       s = setjmp s dest;
       s = upd_thr dest (\<lambda>x. x\<lparr>ctx_state := map (relocate spage dpage) (ctx_state x)\<rparr>) s
     in Inr (upd_thr dest (\<lambda>x. x\<lparr>tls := map (relocate spage dpage) (tls x)\<rparr>) s)))"

text \<open>The parent returns with the new thread; the child returns with null when it is switched to.\<close>

definition thread_fork ::
    "nat \<Rightarrow> ('h \<Rightarrow> ('h \<times> addr) res) \<Rightarrow> addr \<Rightarrow> 'h kstate \<Rightarrow> ('h kstate \<times> addr) res" where
  "thread_fork n pha threads s =
    (let this = arch_get_thread s in
     bindE (slab_alloc n pha (slabs s) threads) (\<lambda>(sl, thread).
     let s = s\<lparr>slabs := sl\<rparr>;
       s = upd_thr thread (\<lambda>x. x\<lparr>priority := priority (thr s this), process := process (thr s this)\<rparr>) s in
     bindE (arch_thread_fork pha s thread) (\<lambda>s.
     bindE (thread_resume s thread) (\<lambda>s. Inr (s, thread)))))"


subsection \<open>The queues as sequences\<close>

text \<open>
  A thread waits in a run queue, on a mutex or on a monitor. \<open>H\<close> gives the head of each queue and \<open>L\<close> the
  threads in it.
\<close>

datatype qid = Run nat | Mtx addr | Mon addr

fun state_of :: "qid \<Rightarrow> tstate" where
  "state_of (Run i) = THREAD_RUNNABLE"
| "state_of _ = THREAD_SLEEPING"

definition resumable :: "'h kstate \<Rightarrow> addr \<Rightarrow> bool" where
  "resumable s t \<longleftrightarrow> smem s (ARCH_PTRI_BASE (ctx_state (thr s t) ! 1)) = t"

definition qinv :: "'h kstate \<Rightarrow> (qid \<Rightarrow> addr) \<Rightarrow> (qid \<Rightarrow> addr list) \<Rightarrow> bool" where
  "qinv s H L \<longleftrightarrow> (\<forall>q. clist (tlinks s) (H q) (L q)) \<and> (\<forall>q q'. q \<noteq> q' \<longrightarrow> set (L q) \<inter> set (L q') = {}) \<and>
     (\<forall>q. \<forall>t \<in> set (L q). tstate (thr s t) = state_of q \<and> priority (thr s t) < 3 \<and>
        (t \<noteq> arch_get_thread s \<longrightarrow> resumable s t)) \<and>
     (\<forall>i<3. H (Run i) = queue s ! i) \<and> (\<forall>i\<ge>3. L (Run i) = []) \<and> length (queue s) = 3 \<and> arch_get_thread s \<noteq> 0 \<and>
     priority (thr s (arch_get_thread s)) < 3"

definition waiting :: "(qid \<Rightarrow> addr list) \<Rightarrow> addr set" where
  "waiting L = (\<Union>q. set (L q))"

lemma qinv_D:
  assumes "qinv s H L"
  shows "clist (tlinks s) (H q) (L q)" "q \<noteq> q' \<Longrightarrow> set (L q) \<inter> set (L q') = {}"
    "t \<in> set (L q) \<Longrightarrow> tstate (thr s t) = state_of q" "t \<in> set (L q) \<Longrightarrow> priority (thr s t) < 3"
    "t \<in> set (L q) \<Longrightarrow> t \<noteq> arch_get_thread s \<Longrightarrow> resumable s t"
    "i < 3 \<Longrightarrow> H (Run i) = queue s ! i" "length (queue s) = 3" "arch_get_thread s \<noteq> 0" "priority (thr s (arch_get_thread s)) < 3"
    "3 \<le> i \<Longrightarrow> L (Run i) = []" "t \<in> set (L q) \<Longrightarrow> t \<noteq> 0" "distinct (L q)"
  using assms clist_distinct [of "tlinks s" "H q" "L q"] unfolding qinv_def by blast+

lemma upd_thr_fields [simp]:
  "tlinks (upd_thr t f s) = tlinks s" "queue (upd_thr t f s) = queue s" "regs (upd_thr t f s) = regs s" "smem (upd_thr t f s) = smem s"
  "queuelock (upd_thr t f s) = queuelock s" "mach (upd_thr t f s) = mach s" "slabs (upd_thr t f s) = slabs s"
  "thr (upd_thr t f s) = (thr s)(t := f (thr s t))" "arch_get_thread (upd_thr t f s) = arch_get_thread s"
  by (simp_all add: upd_thr_def arch_get_thread_def)

lemma waiting_append: "waiting (L(q := L q @ [t])) = insert t (waiting L)"
  by (auto simp: waiting_def split: if_splits)

lemma waiting_take:
  assumes "qinv s H L" "L q = t # r"
  shows "t \<notin> waiting (L(q := r))" "waiting L = insert t (waiting (L(q := r)))"
proof -
  have "t \<notin> set ((L(q := r)) q')" for q'
    using qinv_D(2) [OF assms(1), of q q'] qinv_D(12) [OF assms(1), of q] assms(2) by auto
  then show "t \<notin> waiting (L(q := r))" by (auto simp: waiting_def)
  have sub: "set (L q') \<subseteq> insert t (set ((L(q := r)) q'))" "set ((L(q := r)) q') \<subseteq> set (L q')" for q' using assms(2) by auto
  have "t \<in> set (L q)" using assms(2) by simp
  then have "t \<in> waiting L" unfolding waiting_def by blast
  then show "waiting L = insert t (waiting (L(q := r)))" using sub unfolding waiting_def by blast
qed

text \<open>Appending a thread that waits nowhere to a queue.\<close>

lemma qinv_append:
  assumes "qinv s H L" "t \<notin> waiting L" "t \<noteq> 0" "priority (thr s t) < 3" "t \<noteq> arch_get_thread s \<Longrightarrow> resumable s t"
    "LIST_APPEND (tlinks s) (H q) t = (lk, h)" "\<And>i. q = Run i \<Longrightarrow> i < 3"
  defines "s' \<equiv> (upd_thr t (\<lambda>x. x\<lparr>tstate := state_of q\<rparr>) s)\<lparr>tlinks := lk, queue := (case q of Run i \<Rightarrow> (queue s)[i := h] | _ \<Rightarrow> queue s)\<rparr>"
  shows "qinv s' (H(q := h)) (L(q := L q @ [t]))"
proof -
  note D = qinv_D [OF assms(1)]
  have tn: "t \<notin> set (L q')" for q' using assms(2) by (auto simp: waiting_def)
  have f: "tlinks s' = lk" "arch_get_thread s' = arch_get_thread s" "thr s' = (thr s)(t := (thr s t)\<lparr>tstate := state_of q\<rparr>)"
    "resumable s' u \<longleftrightarrow> resumable s u" for u
    by (simp_all add: s'_def arch_get_thread_def resumable_def upd_thr_def)
  have c: "clist lk h (L q @ [t])" using LIST_APPEND_clist [OF D(1) [of q] assms(3) tn] assms(6) by simp
  have o: "clist lk (H q') (L q')" if "q' \<noteq> q" for q'
  proof -
    have "nx lk y = nx (tlinks s) y \<and> pv lk y = pv (tlinks s) y" if y: "y \<in> set (L q')" for y
      using LIST_APPEND_frame [OF D(1) [of q], of y t] assms(6) y D(2) [OF \<open>q' \<noteq> q\<close>] tn [of q'] by auto
    then show ?thesis using clist_cong [of "L q'" lk "tlinks s" "H q'"] D(1) [of q'] by blast
  qed
  have 1: "\<forall>q'. clist (tlinks s') ((H(q := h)) q') ((L(q := L q @ [t])) q')" using c o f(1) by simp
  have 2: "\<forall>q1 q2. q1 \<noteq> q2 \<longrightarrow> set ((L(q := L q @ [t])) q1) \<inter> set ((L(q := L q @ [t])) q2) = {}" using D(2) tn by auto
  have 3: "tstate (thr s' u) = state_of q' \<and> priority (thr s' u) < 3 \<and> (u \<noteq> arch_get_thread s' \<longrightarrow> resumable s' u)"
    if "u \<in> set ((L(q := L q @ [t])) q')" for q' u
  proof (cases "u = t")
    case True
    then have "q' = q" using that tn by (auto split: if_splits)
    then show ?thesis using True assms(4,5) by (simp add: f)
  next
    case False
    then have "u \<in> set (L q')" using that by (auto split: if_splits)
    then show ?thesis using False D(3,4,5) by (simp add: f)
  qed
  have 4: "\<forall>i<3. (H(q := h)) (Run i) = queue s' ! i" "length (queue s') = 3" using D(6,7) by (auto simp: s'_def split: qid.splits)
  have 5: "\<forall>i\<ge>3. (L(q := L q @ [t])) (Run i) = []" using D(10) assms(7) by fastforce
  show ?thesis unfolding qinv_def using 1 2 3 4 5 D(8,9) assms(4) by (simp add: f(2,3))
qed

text \<open>Taking the first thread out of a queue.\<close>

lemma qinv_delete:
  assumes "qinv s H L" "L q = t # r" "LIST_DELETE (tlinks s) (H q) t = Inr (lk, h)"
  defines "s' \<equiv> s\<lparr>tlinks := lk, queue := (case q of Run i \<Rightarrow> (queue s)[i := h] | _ \<Rightarrow> queue s)\<rparr>"
  shows "qinv s' (H(q := h)) (L(q := r))"
proof -
  note D = qinv_D [OF assms(1)]
  have t: "t \<in> set (L q)" using assms(2) by simp
  have f: "tlinks s' = lk" "arch_get_thread s' = arch_get_thread s" "thr s' = thr s" "resumable s' u \<longleftrightarrow> resumable s u" for u
    by (simp_all add: s'_def arch_get_thread_def resumable_def)
  have c: "clist lk h r" using LIST_DELETE_clist [OF D(1) [of q] t] assms(2,3) by auto
  have o: "clist lk (H q') (L q')" if "q' \<noteq> q" for q'
  proof -
    have "nx lk y = nx (tlinks s) y \<and> pv lk y = pv (tlinks s) y" if y: "y \<in> set (L q')" for y
      using LIST_DELETE_frame [OF D(1) [of q] t _ assms(3), of y] y D(2) [OF \<open>q' \<noteq> q\<close>] by auto
    then show ?thesis using clist_cong [of "L q'" lk "tlinks s" "H q'"] D(1) [of q'] by blast
  qed
  have sub: "set ((L(q := r)) q') \<subseteq> set (L q')" for q' using assms(2) by auto
  have 1: "\<forall>q'. clist (tlinks s') ((H(q := h)) q') ((L(q := r)) q')" using c o f(1) by simp
  have 2: "\<forall>q1 q2. q1 \<noteq> q2 \<longrightarrow> set ((L(q := r)) q1) \<inter> set ((L(q := r)) q2) = {}" using D(2) sub by blast
  have 3: "tstate (thr s' u) = state_of q' \<and> priority (thr s' u) < 3 \<and> (u \<noteq> arch_get_thread s' \<longrightarrow> resumable s' u)"
    if "u \<in> set ((L(q := r)) q')" for q' u
    using D(3,4,5) [of u q'] that sub [of q'] by (auto simp: f)
  have 4: "\<forall>i<3. (H(q := h)) (Run i) = queue s' ! i" "length (queue s') = 3" using D(6,7) by (auto simp: s'_def split: qid.splits)
  have 5: "\<forall>i\<ge>3. (L(q := r)) (Run i) = []"
  proof (intro allI impI)
    fix i :: nat assume "3 \<le> i"
    then show "(L(q := r)) (Run i) = []" using D(10) [of i] sub [of "Run i"] by auto
  qed
  show ?thesis unfolding qinv_def using 1 2 3 4 5 D(8,9) by (simp add: f(2,3))
qed


subsection \<open>Switching\<close>

lemma switch_ok:
  assumes "qinv s H L" "t \<notin> waiting L" "t \<noteq> 0" "tstate (thr s t) = THREAD_RUNNABLE" "priority (thr s t) < 3"
    "t \<noteq> arch_get_thread s \<Longrightarrow> resumable s t"
  defines "s' \<equiv> arch_thread_switch s t"
  shows "qinv s' H L" "arch_get_thread s' = t" "tlinks s' = tlinks s" "queue s' = queue s" "queuelock s' = queuelock s"
    "tstate (thr s' t) = THREAD_RUNNING" "priority (thr s' u) = priority (thr s u)" "cli_level (mach s') = cli_level (mach s)"
    "t \<noteq> arch_get_thread s \<Longrightarrow> resumable s' (arch_get_thread s)"
proof -
  note D = qinv_D [OF assms(1)]
  define old where "old = arch_get_thread s"
  have all: "qinv s' H L \<and> arch_get_thread s' = t \<and> tlinks s' = tlinks s \<and> queue s' = queue s \<and> queuelock s' = queuelock s \<and>
    tstate (thr s' t) = THREAD_RUNNING \<and> (\<forall>u. priority (thr s' u) = priority (thr s u)) \<and> cli_level (mach s') = cli_level (mach s) \<and>
    (t \<noteq> old \<longrightarrow> resumable s' old)"
  proof (cases "old = t")
    case True
    then have s': "s' = upd_thr t (\<lambda>x. x\<lparr>tstate := THREAD_RUNNING\<rparr>) s" by (simp add: s'_def arch_thread_switch_def old_def)
    have tn: "t \<notin> set (L q)" for q using assms(2) by (auto simp: waiting_def)
    have r: "resumable s' u \<longleftrightarrow> resumable s u" for u by (simp add: s' resumable_def)
    have "tstate (thr s' u) = state_of q \<and> priority (thr s' u) < 3 \<and> (u \<noteq> t \<longrightarrow> resumable s' u)" if "u \<in> set (L q)" for u q
      using D(3-5) [OF that] tn [of q] that True by (auto simp: s' r old_def resumable_def)
    then have "qinv s' H L" unfolding qinv_def using D(1,2,6-10) True by (simp add: s' old_def)
    then show ?thesis using True by (simp add: s' old_def)
  next
    case False
    define f where "f = (\<lambda>x :: thread_t. x\<lparr>tstate := (if tstate x = THREAD_RUNNING then THREAD_RUNNABLE else tstate x), ctx_state := regs s\<rparr>)"
    have th: "thr s' = (thr s)(old := f (thr s old), t := (thr s t)\<lparr>tstate := THREAD_RUNNING\<rparr>)"
      and o: "tlinks s' = tlinks s" "queue s' = queue s" "queuelock s' = queuelock s" "smem s' = smem s" "regs s' = ctx_state (thr s t)"
        "cli_level (mach s') = cli_level (mach s)"
      using False assms(4) by (auto simp: s'_def arch_thread_switch_def old_def [symmetric] Let_def setjmp_def longjmp_def f_def fun_eq_iff upd_thr_def)
    have r: "resumable s t" using assms(6) False by (simp add: old_def)
    have cur: "arch_get_thread s' = t" using r by (simp add: arch_get_thread_def resumable_def o)
    have ro: "resumable s' old" using False by (simp add: resumable_def th o f_def old_def arch_get_thread_def)
    have pr: "priority (thr s' u) = priority (thr s u)" for u by (simp add: th f_def)
    have tn: "t \<notin> set (L q)" for q using assms(2) by (auto simp: waiting_def)
    have "tstate (thr s' u) = state_of q \<and> priority (thr s' u) < 3 \<and> (u \<noteq> t \<longrightarrow> resumable s' u)" if u: "u \<in> set (L q)" for u q
    proof -
      have ut: "u \<noteq> t" using tn u by blast
      have st: "state_of q \<noteq> THREAD_RUNNING" by (cases q) simp_all
      show ?thesis
      proof (cases "u = old")
        case True
        then have "tstate (thr s' u) = state_of q" using D(3) [OF u] st ut by (simp add: th f_def)
        then show ?thesis using D(4) [OF u] ro True pr by simp
      next
        case False
        then have "thr s' u = thr s u" using ut by (simp add: th)
        then show ?thesis using D(3,4) [OF u] D(5) [OF u] False by (simp add: old_def resumable_def o)
      qed
    qed
    then have "qinv s' H L" unfolding qinv_def using D(1,2,6,7,10) assms(3,5) pr by (simp add: o cur)
    then show ?thesis using cur o pr ro by (simp add: th)
  qed
  then show "qinv s' H L" "arch_get_thread s' = t" "tlinks s' = tlinks s" "queue s' = queue s" "queuelock s' = queuelock s"
    "tstate (thr s' t) = THREAD_RUNNING" "priority (thr s' u) = priority (thr s u)" "cli_level (mach s') = cli_level (mach s)"
    "t \<noteq> arch_get_thread s \<Longrightarrow> resumable s' (arch_get_thread s)"
    by (simp_all add: old_def)
qed

lemma lock_unlock:
  assumes "queuelock s = 0"
  shows "scheduler_lock s = Inr (s\<lparr>mach := cli (mach s), queuelock := 1\<rparr>)"
    "scheduler_unlock s' = s'\<lparr>mach := sti (mach s'), queuelock := 0\<rparr>"
  using assms by (simp_all add: scheduler_lock_def scheduler_unlock_def arch_spin_trylock_def arch_spin_unlock_def Let_def)

lemma qinv_mach: "qinv (s\<lparr>mach := m, queuelock := l\<rparr>) H L \<longleftrightarrow> qinv s H L"
  by (simp add: qinv_def arch_get_thread_def resumable_def)

lemma schedule_skip:
  assumes "\<forall>j<k. queue s ! (i + j) = 0"
  shows "schedule_from (k + n) s i = schedule_from n s (i + k)"
  using assms
proof (induction k arbitrary: i)
  case (Suc k)
  have "queue s ! i = 0" using Suc.prems by force
  moreover have "\<forall>j<k. queue s ! (Suc i + j) = 0" using Suc.prems by force
  ultimately show ?case using Suc.IH [of "Suc i"] by (simp add: Let_def)
qed simp

text \<open>The scheduler runs the first thread of the first queue that is not empty, and panics with none.\<close>

lemma schedule_ok:
  assumes "qinv s H L" "queuelock s = 0" "i < 3" "L (Run i) = t # r" "\<forall>j<i. L (Run j) = []"
  shows "\<exists>s' h. thread_schedule s = Inr s' \<and> qinv s' (H(Run i := h)) (L(Run i := r)) \<and> arch_get_thread s' = t \<and> queuelock s' = 0 \<and>
    (\<forall>u. priority (thr s' u) = priority (thr s u)) \<and> tstate (thr s' t) = THREAD_RUNNING \<and> cli_level (mach s') = cli_level (mach s) \<and>
    (t \<noteq> arch_get_thread s \<longrightarrow> resumable s' (arch_get_thread s))"
proof -
  note D = qinv_D [OF assms(1)]
  have tL: "t \<in> set (L (Run i))" using assms(4) by simp
  define s1 where "s1 = s\<lparr>mach := cli (mach s), queuelock := 1\<rparr>"
  have q1: "qinv s1 H L" using assms(1) qinv_mach [where s = s] by (simp add: s1_def)
  have hd: "H (Run i) = t" using D(1) [of "Run i"] assms(4) by (simp add: clist_def)
  have z: "queue s1 ! (0 + j) = 0" if "j < i" for j
    using D(1) [of "Run j"] D(6) [of j] that assms(3,5) by (simp add: s1_def)
  obtain n where n: "THREAD_PRIORITIES = i + Suc n" using assms(3) less_imp_Suc_add [of i 3] by (auto simp: THREAD_PRIORITIES_def)
  have nx: "queue s1 ! i = t" using D(6) [OF assms(3)] hd by (simp add: s1_def)
  have tnz: "t \<noteq> 0" using D(11) tL by blast
  obtain lk h where del: "LIST_DELETE (tlinks s1) t t = Inr (lk, h)"
    using LIST_DELETE_clist [OF D(1) [of "Run i"] tL] hd by (auto simp: s1_def)
  define s2 where "s2 = s1\<lparr>tlinks := lk, queue := (queue s1)[i := h]\<rparr>"
  have q2: "qinv s2 (H(Run i := h)) (L(Run i := r))"
    using qinv_delete [OF q1 assms(4), of lk h] del hd by (simp add: s2_def)
  define s3 where "s3 = s2\<lparr>mach := sti (mach s2), queuelock := 0\<rparr>"
  have q3: "qinv s3 (H(Run i := h)) (L(Run i := r))" using q2 qinv_mach [where s = s2] by (simp add: s3_def)
  have "schedule_from THREAD_PRIORITIES s1 0 = schedule_from (Suc n) s1 i" unfolding n using schedule_skip [of i s1 0 "Suc n"] z by simp
  then have e: "thread_schedule s = Inr (arch_thread_switch s3 t)"
    using nx tnz del
    unfolding thread_schedule_def lock_unlock(1) [OF assms(2)] s1_def [symmetric]
    by (simp add: Let_def lock_unlock(2) [OF assms(2)] set_queue_def s2_def s3_def)
  have tn: "t \<notin> waiting (L(Run i := r))" using waiting_take [OF assms(1,4)] by blast
  have th: "thr s3 = thr s" "arch_get_thread s3 = arch_get_thread s" "resumable s3 t \<longleftrightarrow> resumable s t" "queuelock s3 = 0" "cli_level (mach s3) = cli_level (mach s)"
    by (simp_all add: s3_def s2_def s1_def arch_get_thread_def resumable_def)
  have p: "tstate (thr s3 t) = THREAD_RUNNABLE" "priority (thr s3 t) < 3" "t \<noteq> arch_get_thread s3 \<Longrightarrow> resumable s3 t"
    using D(3-5) [OF tL] th by simp_all
  note sw = switch_ok [OF q3 tn tnz p]
  show ?thesis using e sw th by (intro exI [of _ "arch_thread_switch s3 t"] exI [of _ h]) simp
qed

lemma schedule_empty:
  assumes "qinv s H L" "\<forall>j<3. L (Run j) = []"
  shows "\<exists>e. thread_schedule s = Inl e"
proof -
  note D = qinv_D [OF assms(1)]
  have "queue s ! j = 0" if "j < 3" for j using D(1) [of "Run j"] D(6) [OF that] assms(2) that by simp
  then have "schedule_from 3 (s\<lparr>mach := m, queuelock := l\<rparr>) 0 = Inl Panic" for m l
    using schedule_skip [of 3 "s\<lparr>mach := m, queuelock := l\<rparr>" 0 0] by simp
  then show ?thesis by (simp add: thread_schedule_def scheduler_lock_def THREAD_PRIORITIES_def split: prod.splits)
qed


text \<open>Making a thread that waits nowhere runnable.\<close>

lemma resume_ok:
  assumes "qinv s H L" "queuelock s = 0" "t \<notin> waiting L" "t \<noteq> 0" "priority (thr s t) < 3" "t \<noteq> arch_get_thread s \<Longrightarrow> resumable s t"
  defines "q \<equiv> Run (priority (thr s t))"
  shows "\<exists>s' h. thread_resume s t = Inr s' \<and> qinv s' (H(q := h)) (L(q := L q @ [t])) \<and> arch_get_thread s' = arch_get_thread s \<and> queuelock s' = 0 \<and>
    (\<forall>u. priority (thr s' u) = priority (thr s u)) \<and> cli_level (mach s') = cli_level (mach s) \<and> (\<forall>u. resumable s' u \<longleftrightarrow> resumable s u)"
proof -
  define p where "p = priority (thr s t)"
  have p3: "p < 3" using assms(5) by (simp add: p_def)
  obtain lk h where ap: "LIST_APPEND (tlinks s) (H q) t = (lk, h)" by fastforce
  have hq: "H q = queue s ! p" using qinv_D(6) [OF assms(1) p3] by (simp add: q_def p_def)
  define s1 where "s1 = (upd_thr t (\<lambda>x. x\<lparr>tstate := THREAD_RUNNABLE\<rparr>) s)\<lparr>tlinks := lk, queue := (queue s)[p := h]\<rparr>"
  have q1: "qinv s1 (H(q := h)) (L(q := L q @ [t]))"
    using qinv_append [OF assms(1,3-5) _ ap] assms(6) p3 by (simp add: s1_def q_def p_def)
  define s2 where "s2 = s1\<lparr>mach := sti (cli (mach s)), queuelock := 0\<rparr>"
  have "qinv s2 (H(q := h)) (L(q := L q @ [t]))" using q1 qinv_mach [where s = s1] by (simp add: s2_def)
  moreover have "thread_resume s t = Inr s2"
    using assms(4) ap hq unfolding thread_resume_def lock_unlock(1) [OF assms(2)]
    by (simp add: Let_def lock_unlock(2) [OF assms(2)] thread_queue_def set_queue_def s2_def s1_def upd_thr_def p_def [symmetric])
  moreover have "arch_get_thread s2 = arch_get_thread s" "queuelock s2 = 0" "\<forall>u. priority (thr s2 u) = priority (thr s u)"
    "cli_level (mach s2) = cli_level (mach s)" "\<forall>u. resumable s2 u \<longleftrightarrow> resumable s u"
    by (simp_all add: s2_def s1_def arch_get_thread_def resumable_def)
  ultimately show ?thesis by blast
qed

text \<open>Yielding puts the running thread behind its queue and runs the first of the first queue.\<close>

lemma yield_resume: "thread_yield s = bindE (thread_resume s (arch_get_thread s)) thread_schedule" if "arch_get_thread s \<noteq> 0"
  using that by (simp add: thread_yield_def thread_resume_def Let_def bindE_assoc)

lemma yield_ok:
  assumes "qinv s H L" "queuelock s = 0" "arch_get_thread s \<notin> waiting L" "i < 3" "p = priority (thr s (arch_get_thread s))"
    "L (Run i) @ (if i = p then [arch_get_thread s] else []) = t # r" "\<forall>j<i. L (Run j) = [] \<and> j \<noteq> p"
  defines "L' \<equiv> (L(Run p := L (Run p) @ [arch_get_thread s]))(Run i := r)"
  shows "\<exists>s' H'. thread_yield s = Inr s' \<and> qinv s' H' L' \<and> arch_get_thread s' = t \<and> queuelock s' = 0 \<and> t \<notin> waiting L' \<and>
    (\<forall>u. priority (thr s' u) = priority (thr s u)) \<and> cli_level (mach s') = cli_level (mach s) \<and>
    insert t (waiting L') = insert (arch_get_thread s) (waiting L)"
proof -
  let ?c = "arch_get_thread s"
  define L1 where "L1 = L(Run p := L (Run p) @ [?c])"
  note D = qinv_D [OF assms(1)]
  from resume_ok [OF assms(1-3) D(8,9)] obtain s1 h where s1: "thread_resume s ?c = Inr s1" "qinv s1 (H(Run p := h)) L1"
    "arch_get_thread s1 = ?c" "queuelock s1 = 0" "\<forall>u. priority (thr s1 u) = priority (thr s u)" "cli_level (mach s1) = cli_level (mach s)"
    unfolding assms(5) [symmetric] L1_def by blast
  have Li: "L1 (Run i) = t # r" using assms(6) by (cases "i = p") (simp_all add: L1_def)
  have "\<forall>j<i. L1 (Run j) = []" using assms(7) by (simp add: L1_def)
  note sch = schedule_ok [OF s1(2,4) assms(4) Li this]
  have L': "L' = L1(Run i := r)" by (simp add: L'_def L1_def)
  obtain s2 h2 where s2: "thread_schedule s1 = Inr s2" "qinv s2 (H(Run p := h, Run i := h2)) L'"
    "arch_get_thread s2 = t" "queuelock s2 = 0" "\<forall>u. priority (thr s2 u) = priority (thr s1 u)" "cli_level (mach s2) = cli_level (mach s1)"
    unfolding L' using sch by blast
  note w = waiting_take [OF s1(2) Li]
  have "waiting L1 = insert ?c (waiting L)" unfolding L1_def by (rule waiting_append)
  then have "insert t (waiting L') = insert ?c (waiting L)" "t \<notin> waiting L'" using w by (simp_all add: L')
  moreover have "thread_yield s = Inr s2" using s1(1) s2(1) yield_resume [OF D(8)] by simp
  ultimately show ?thesis using s1 s2 by (intro exI [of _ s2] exI [of _ "H(Run p := h, Run i := h2)"]) simp
qed

subsection \<open>Round robin\<close>

fun yields :: "nat \<Rightarrow> 'h kstate \<Rightarrow> 'h kstate res" where
  "yields 0 s = Inr s"
| "yields (Suc n) s = bindE (thread_yield s) (yields n)"

lemma round_robin_step:
  assumes "qinv s H L" "queuelock s = 0" "arch_get_thread s \<notin> waiting L" "p < 3" "\<forall>j<p. L (Run j) = []"
    "\<forall>t \<in> set (arch_get_thread s # L (Run p)). priority (thr s t) = p"
  defines "c \<equiv> rotate1 (arch_get_thread s # L (Run p))"
  shows "\<exists>s' H'. thread_yield s = Inr s' \<and> qinv s' H' (L(Run p := tl c)) \<and> queuelock s' = 0 \<and> arch_get_thread s' = hd c \<and>
    hd c \<notin> waiting (L(Run p := tl c)) \<and> (\<forall>t \<in> set c. priority (thr s' t) = p)"
proof -
  obtain t r where tr: "L (Run p) @ [arch_get_thread s] = t # r" by (cases "L (Run p) @ [arch_get_thread s]") auto
  have p: "p = priority (thr s (arch_get_thread s))" "L (Run p) @ (if p = p then [arch_get_thread s] else []) = t # r"
    "\<forall>j<p. L (Run j) = [] \<and> j \<noteq> p" using assms(5,6) tr by auto
  have c: "c = t # r" using tr by (simp add: c_def)
  have L': "(L(Run p := L (Run p) @ [arch_get_thread s]))(Run p := r) = L(Run p := tl c)" by (simp add: c)
  have "set c = set (arch_get_thread s # L (Run p))" by (simp add: c_def)
  then show ?thesis using yield_ok [OF assms(1-4) p] assms(6) unfolding L' by (auto simp: c)
qed


text \<open>
  C20. Round robin. When the running thread and the threads of its queue have one priority and no thread
  of a higher one is runnable, \<open>k\<close> yields turn the sequence of them by \<open>k\<close>: the running thread is
  the first of the turned sequence, the queue the rest. So each of \<open>n\<close> threads runs again after
  \<open>n\<close> yields, and none is passed over.
\<close>

theorem round_robin:
  assumes "qinv s H L" "queuelock s = 0" "arch_get_thread s \<notin> waiting L" "p < 3" "\<forall>j<p. L (Run j) = []"
    "\<forall>t \<in> set (arch_get_thread s # L (Run p)). priority (thr s t) = p"
  shows "\<exists>s' H'. yields k s = Inr s' \<and> arch_get_thread s' # tl (rotate k (arch_get_thread s # L (Run p))) = rotate k (arch_get_thread s # L (Run p)) \<and>
    qinv s' H' (L(Run p := tl (rotate k (arch_get_thread s # L (Run p))))) \<and> queuelock s' = 0"
  using assms
proof (induction k arbitrary: s H L)
  case 0
  then show ?case by (auto intro!: exI [of _ H])
next
  case (Suc k)
  define c where "c = rotate1 (arch_get_thread s # L (Run p))"
  define L1 where "L1 = L(Run p := tl c)"
  from round_robin_step [OF Suc.prems] obtain s1 H1 where s1: "thread_yield s = Inr s1" "qinv s1 H1 L1" "queuelock s1 = 0" "arch_get_thread s1 = hd c"
    "hd c \<notin> waiting L1" "\<forall>t \<in> set c. priority (thr s1 t) = p" unfolding c_def L1_def by blast
  have ne: "c \<noteq> []" by (simp add: c_def)
  have cc: "arch_get_thread s1 # L1 (Run p) = c" using ne s1(4) by (simp add: L1_def)
  have p: "arch_get_thread s1 \<notin> waiting L1" "\<forall>j<p. L1 (Run j) = []" "\<forall>t \<in> set (arch_get_thread s1 # L1 (Run p)). priority (thr s1 t) = p"
    using s1(4-6) Suc.prems(5) cc by (simp_all add: L1_def)
  have u: "L1(Run p := x) = L(Run p := x)" for x by (simp add: L1_def)
  have r: "rotate k c = rotate (Suc k) (arch_get_thread s # L (Run p))" by (simp only: c_def rotate_Suc rotate1_rotate_swap)
  from Suc.IH [OF s1(2,3) p(1) Suc.prems(4) p(2,3)] show ?case unfolding cc u r using s1(1) by simp
qed


definition no_slabs :: "unit slab_heap" where
  "no_slabs = \<lparr>sh_type = \<lambda>t. \<lparr>st_magic = 0, st_esize = 16, st_count = 0, st_first = 0, st_mark = None, st_finalize = False\<rparr>,
     sh_slab = \<lambda>_. \<lparr>sl_magic = 0, sl_type = 0, sl_available = [], sl_finalize = [], sl_data = 0\<rparr>,
     sh_links = self_links, sh_tlinks = self_links, sh_types = 0, sh_spin = False, sh_heap = (), sh_final = []\<rparr>"

text \<open>Three threads with their stacks at 0x1000, 0x2000 and 0x3000; the first runs.\<close>

definition demo_threads :: "'h slab_heap \<Rightarrow> 'h kstate" where
  "demo_threads sl = \<lparr>mach = cold, regs = [0, 0x1ff0, 0x1ff8, 0, 0, 0], smem = (\<lambda>_. 0)(0x1000 := 16, 0x2000 := 32, 0x3000 := 48, 0x1ff0 := 0x1ff8, 0x1ff4 := 77),
     thr = (\<lambda>t. \<lparr>tls = replicate 32 0, ctx_stack = t * 0x100, ctx_state = [0, t * 0x100 + 0xff0, 0, 0, 0, 0], process = 0,
       tstate = (if t = 16 then THREAD_RUNNING else THREAD_RUNNABLE), priority = 1, retval = 0\<rparr>),
     tlinks = \<lparr>nx = id(32 := 48, 48 := 32), pv = id(32 := 48, 48 := 32)\<rparr>, queue = [0, 32, 0], queuelock = 0, tls_next = 1, slabs = sl\<rparr>"

definition demo_L :: "qid \<Rightarrow> addr list" where
  "demo_L = (\<lambda>_. [])(Run 1 := [32, 48])"

lemma demo_threads_ok: "arch_get_thread (demo_threads sl) = 16" "qinv (demo_threads sl) ((\<lambda>_. 0)(Run 1 := 32)) demo_L" "waiting demo_L = {32, 48}"
proof -
  show c: "arch_get_thread (demo_threads sl) = 16" by (simp add: arch_get_thread_def demo_threads_def ARCH_PTRI_BASE_def)
  have "clist (tlinks (demo_threads sl)) 32 [32, 48]" by (simp add: clist_def ring_def demo_threads_def)
  moreover have "resumable (demo_threads sl) 32" "resumable (demo_threads sl) 48" by (simp_all add: resumable_def demo_threads_def ARCH_PTRI_BASE_def)
  moreover have "\<forall>i<3. (if i = (1 :: nat) then 32 else 0) = [0, 32, 0 :: addr] ! i" by (auto simp: numeral_3_eq_3 less_Suc_eq)
  ultimately show "qinv (demo_threads sl) ((\<lambda>_. 0)(Run 1 := 32)) demo_L"
    unfolding qinv_def c by (auto simp: demo_L_def demo_threads_def)
  show "waiting demo_L = {32, 48}" by (auto simp: waiting_def demo_L_def split: if_splits)
qed

theorem round_robin_witness: "\<exists>s'. yields 2 (demo_threads no_slabs) = Inr s' \<and> arch_get_thread s' = 48"
proof -
  have "arch_get_thread (demo_threads no_slabs) \<notin> waiting demo_L" by (simp add: demo_threads_ok)
  moreover have "\<forall>j<1. demo_L (Run j) = []" "\<forall>t \<in> set (arch_get_thread (demo_threads no_slabs) # demo_L (Run 1)). priority (thr (demo_threads no_slabs) t) = 1"
    "queuelock (demo_threads no_slabs) = 0" by (simp_all add: demo_L_def demo_threads_def)
  moreover have "rotate 2 [16, 32, 48 :: addr] = [48, 16, 32]" by (simp add: numeral_2_eq_2)
  ultimately show ?thesis
    using round_robin [of "demo_threads no_slabs" "(\<lambda>_. 0)(Run 1 := 32)" demo_L 1 2] demo_threads_ok(1,2) [where sl = no_slabs] by (auto simp: demo_L_def)
qed

subsection \<open>Forking\<close>

lemma ptri_base: "ARCH_PTRI_BASE = page_align"
  by (simp add: fun_eq_iff ARCH_PTRI_BASE_def page_align_def)

lemma page_word:
  assumes "ARCH_PTRI_BASE p = p" "i < 1024"
  shows "ARCH_PTRI_BASE (p + 4 * of_nat i) = p"
proof -
  have "unat p mod 4096 = 0" using unat_page_align [of p] assms(1) unfolding ptri_base
    by (metis diff_diff_cancel mod_less_eq_dividend cancel_comm_monoid_add_class.diff_cancel)
  then have "4096 dvd unat p" by (simp add: mod_eq_0_iff_dvd)
  from page_align_add [OF this, of "4 * i"] assms(2) show ?thesis by (simp add: ptri_base)
qed

lemma relocate_page:
  assumes "ARCH_PTRI_BASE d = d" "ARCH_PTRI_BASE sp = sp"
  shows "ARCH_PTRI_BASE w = sp \<Longrightarrow> ARCH_PTRI_BASE (relocate sp d w) = d \<and> ARCH_PTRI_OFFSET (relocate sp d w) = ARCH_PTRI_OFFSET w"
    "ARCH_PTRI_BASE w \<noteq> sp \<Longrightarrow> relocate sp d w = w"
proof -
  have d: "d AND 0xfff = 0" using assms(1) unfolding ARCH_PTRI_BASE_def
    by (metis and.assoc and.commute and_zero_eq bit.conj_cancel_right)
  show "ARCH_PTRI_BASE (relocate sp d w) = d \<and> ARCH_PTRI_OFFSET (relocate sp d w) = ARCH_PTRI_OFFSET w" if "ARCH_PTRI_BASE w = sp"
  proof -
    have r: "relocate sp d w = d OR (w AND 0xfff)" using that assms(2) by (simp add: relocate_def ARCH_PTRI_OFFSET_def)
    have "ARCH_PTRI_BASE (d OR (w AND 0xfff)) = (d AND NOT 0xfff) OR (w AND 0xfff AND NOT 0xfff)"
      by (simp only: ARCH_PTRI_BASE_def bit.conj_disj_distrib2 and.assoc)
    then have "ARCH_PTRI_BASE (relocate sp d w) = d" using assms(1) unfolding r ARCH_PTRI_BASE_def by simp
    moreover have "ARCH_PTRI_OFFSET (d OR (w AND 0xfff)) = (d AND 0xfff) OR (w AND 0xfff)"
      by (simp only: ARCH_PTRI_OFFSET_def bit.conj_disj_distrib2 and.assoc and.idem)
    ultimately show ?thesis unfolding r d by (simp add: ARCH_PTRI_OFFSET_def)
  qed
  show "ARCH_PTRI_BASE w \<noteq> sp \<Longrightarrow> relocate sp d w = w" using assms(2) by (simp add: relocate_def)
qed

lemma copy_stack_ok:
  assumes "ARCH_PTRI_BASE sp = sp" "ARCH_PTRI_BASE d = d" "d \<noteq> sp" "i + n \<le> 1024"
  shows "copy_stack mem sp d i n a = (if \<exists>j. i \<le> j \<and> j < i + n \<and> a = d + 4 * of_nat j
     then relocate sp d (mem (sp + (a - d))) else mem a)"
  using assms(4)
proof (induction n arbitrary: i mem)
  case (Suc n)
  define mem' where "mem' = mem(d + 4 * of_nat i := relocate sp d (mem (sp + 4 * of_nat i)))"
  have ne: "sp + 4 * of_nat j \<noteq> d + 4 * of_nat i" if "j < 1024" for j
    using page_word [OF assms(1) that] page_word [OF assms(2), of i] Suc.prems assms(3) by auto
  have IH: "copy_stack mem' sp d (Suc i) n a = (if \<exists>j. Suc i \<le> j \<and> j < Suc i + n \<and> a = d + 4 * of_nat j
     then relocate sp d (mem' (sp + (a - d))) else mem' a)" using Suc by simp
  have inj: "d + 4 * of_nat j \<noteq> d + 4 * of_nat i" if "Suc i \<le> j" "j < Suc i + n" for j
  proof
    assume "d + 4 * of_nat j = d + 4 * of_nat i"
    then have "d + of_nat (4 * j) = d + of_nat (4 * i)" by simp
    from addr_offset_inj [OF this] that Suc.prems show False by simp
  qed
  show ?case
  proof (cases "\<exists>j. Suc i \<le> j \<and> j < Suc i + n \<and> a = d + 4 * of_nat j")
    case True
    then obtain j where j: "Suc i \<le> j" "j < Suc i + n" "a = d + 4 * of_nat j" by blast
    have "mem' (sp + (a - d)) = mem (sp + (a - d))" using ne [of j] j Suc.prems by (simp add: mem'_def)
    moreover have "\<exists>j. i \<le> j \<and> j < i + Suc n \<and> a = d + 4 * of_nat j" using j by (intro exI [of _ j]) simp
    ultimately show ?thesis using IH True by (simp only: if_True copy_stack.simps mem'_def [symmetric])
  next
    case False
    then have "(\<exists>j. i \<le> j \<and> j < i + Suc n \<and> a = d + 4 * of_nat j) \<longleftrightarrow> a = d + 4 * of_nat i"
      by (metis Suc_leI add_Suc add_Suc_right le_eq_less_or_eq le_refl less_add_Suc1)
    moreover have "copy_stack mem sp d i (Suc n) a = mem' a" using IH False by (simp only: if_False copy_stack.simps mem'_def [symmetric])
    moreover have "mem' a = (if a = d + 4 * of_nat i then relocate sp d (mem (sp + (a - d))) else mem a)" by (simp add: mem'_def)
    ultimately show ?thesis by (simp only:)
  qed
qed auto

text \<open>
  C21. What a fork copies. The child is the parent with a stack page of its own. The first word of the
  page is the child; each further word, each saved register and each thread-local value is the parent's,
  moved to the same offset of the child's page when it points into the parent's stack page. No other
  memory and no other thread changes, the parent goes on as the running thread, and when the child's
  registers are loaded the child is the running thread.
\<close>

theorem fork_relocates:
  fixes s :: "'h kstate"
  assumes "t = arch_get_thread s" "sp = ctx_stack (thr s t)" "ARCH_PTRI_BASE sp = sp" "ARCH_PTRI_BASE (regs s ! 1) = sp" "1 < length (regs s)"
    "pha (sh_heap (slabs s)) = Inr (h, d)" "ARCH_PTRI_BASE d = d" "d \<noteq> sp" "dest \<noteq> t"
  shows "\<exists>s'. arch_thread_fork pha s dest = Inr s' \<and>
    thr s' = (thr s)(dest := (thr s t)\<lparr>ctx_stack := d, ctx_state := map (relocate sp d) (regs s), tls := map (relocate sp d) (tls (thr s t))\<rparr>) \<and>
    smem s' d = dest \<and> (\<forall>i. 1 \<le> i \<and> i < 1024 \<longrightarrow> smem s' (d + 4 * of_nat i) = relocate sp d (smem s (sp + 4 * of_nat i))) \<and>
    (\<forall>a. ARCH_PTRI_BASE a \<noteq> d \<longrightarrow> smem s' a = smem s a) \<and>
    (\<forall>w. if ARCH_PTRI_BASE w = sp then ARCH_PTRI_BASE (relocate sp d w) = d \<and> ARCH_PTRI_OFFSET (relocate sp d w) = ARCH_PTRI_OFFSET w
       else relocate sp d w = w) \<and>
    arch_get_thread s' = t \<and> arch_get_thread (longjmp s' dest) = dest"
proof -
  define mem1 where "mem1 = (smem s)(d := dest)"
  define s' where "s' = s\<lparr>thr := (thr s)(dest := (thr s t)\<lparr>ctx_stack := d, ctx_state := map (relocate sp d) (regs s), tls := map (relocate sp d) (tls (thr s t))\<rparr>),
     tlinks := set_nx dest (nx (tlinks s) t) (set_pv dest (pv (tlinks s) t) (tlinks s)), slabs := (slabs s)\<lparr>sh_heap := h\<rparr>,
     smem := copy_stack mem1 sp d 1 1023\<rparr>"
  have f: "arch_thread_fork pha s dest = Inr s'"
    using assms(6,9) unfolding arch_thread_fork_def assms(1) [symmetric]
    by (simp add: Let_def s'_def setjmp_def upd_thr_def assms(2) [symmetric] assms(3,7) mem1_def)
  note cs = copy_stack_ok [OF assms(3,7,8), of 1 1023 mem1, folded s'_def]
  have out: "smem s' a = mem1 a" if "ARCH_PTRI_BASE a \<noteq> d" for a
    using cs [of a] page_word [OF assms(7)] that unfolding s'_def by auto
  have d0: "smem s' d = dest"
  proof -
    have "d \<noteq> d + 4 * of_nat j" if "1 \<le> j" "j < 1024" for j :: nat
      using addr_offset_inj [of d 0 "4 * j"] that by auto
    then have "\<not> (\<exists>j. 1 \<le> j \<and> j < 1 + 1023 \<and> d = d + 4 * of_nat j)" by auto
    then have "smem s' d = mem1 d" using cs [of d] unfolding s'_def by (simp only: if_False) simp
    then show ?thesis by (simp add: mem1_def)
  qed
  have word: "smem s' (d + 4 * of_nat i) = relocate sp d (smem s (sp + 4 * of_nat i))" if i: "1 \<le> i \<and> i < 1024" for i
  proof -
    have "\<exists>j. 1 \<le> j \<and> j < 1 + 1023 \<and> d + 4 * of_nat i = d + 4 * of_nat j" using i by auto
    then have "smem s' (d + 4 * of_nat i) = relocate sp d (mem1 (sp + 4 * of_nat i))" using cs [of "d + 4 * of_nat i"] unfolding s'_def by (simp only: if_True) simp
    moreover have "sp + 4 * of_nat i \<noteq> d" using page_word [OF assms(3), of i] i assms(7,8) by auto
    ultimately show ?thesis by (simp add: mem1_def)
  qed
  have cur: "arch_get_thread s' = t" using out [of sp] assms(3,4,8) by (simp add: arch_get_thread_def mem1_def assms(1)) (simp add: s'_def assms(4))
  have "arch_get_thread (longjmp s' dest) = smem s' (ARCH_PTRI_BASE (relocate sp d (regs s ! 1)))"
    using assms(5) by (simp add: arch_get_thread_def longjmp_def s'_def)
  then have "arch_get_thread (longjmp s' dest) = dest" using relocate_page(1) [OF assms(7,3,4)] d0 by simp
  moreover have "\<forall>a. ARCH_PTRI_BASE a \<noteq> d \<longrightarrow> smem s' a = smem s a" using out assms(7) by (auto simp: mem1_def)
  ultimately show ?thesis using f d0 word cur relocate_page [OF assms(7,3)] by (intro exI [of _ s']) (simp add: s'_def)
qed

theorem fork_relocates_witness:
  "\<exists>s'. arch_thread_fork (\<lambda>_. Inr ((), 0x5000)) (demo_threads no_slabs) 64 = Inr s' \<and> arch_get_thread (longjmp s' 64) = 64 \<and> smem s' 0x5ff0 = 0x5ff8 \<and> smem s' 0x5ff4 = 77"
proof -
  have c: "arch_get_thread (demo_threads no_slabs) = 16" by (rule demo_threads_ok)
  have p: "0x1000 = ctx_stack (thr (demo_threads no_slabs) 16)" "ARCH_PTRI_BASE 0x1000 = 0x1000" "ARCH_PTRI_BASE (regs (demo_threads no_slabs) ! 1) = 0x1000"
    "1 < length (regs (demo_threads no_slabs))" "ARCH_PTRI_BASE 0x5000 = 0x5000" "(0x5000 :: addr) \<noteq> 0x1000" "(64 :: addr) \<noteq> 16"
    by (simp_all add: demo_threads_def ARCH_PTRI_BASE_def)
  from fork_relocates [OF c [symmetric] p(1-4) _ p(5-7), of "\<lambda>_. Inr ((), 0x5000)" "()"]
  obtain s' where s': "arch_thread_fork (\<lambda>_. Inr ((), 0x5000)) (demo_threads no_slabs) 64 = Inr s'" "arch_get_thread (longjmp s' 64) = 64"
    "\<forall>i. 1 \<le> i \<and> i < 1024 \<longrightarrow> smem s' (0x5000 + 4 * of_nat i) = relocate 0x1000 0x5000 (smem (demo_threads no_slabs) (0x1000 + 4 * of_nat i))"
    by blast
  have "smem s' 0x5ff0 = 0x5ff8" using s'(3) [rule_format, of 1020] by (simp add: relocate_def demo_threads_def ARCH_PTRI_BASE_def ARCH_PTRI_OFFSET_def)
  moreover have "smem s' 0x5ff4 = 77" using s'(3) [rule_format, of 1021] by (simp add: relocate_def demo_threads_def ARCH_PTRI_BASE_def)
  ultimately show ?thesis using s' by blast
qed

end
