(* ===== verification/Slab_Alloc.thy ===== *)
theory Slab_Alloc
  imports Slab
begin

text \<open>
  Allocation from slabs: a new slab keeps the heap well formed and hands out nothing; the search
  through a type's slabs finds a free slot or makes a new slab; slabs keep the contract of an
  allocator, on pages that come from any source with the contract of the page heap.
\<close>

subsection \<open>A new slab\<close>

lemma magic_nz: "t \<noteq> 0 \<Longrightarrow> 997 * 0xaf653de9 * (t :: u32) \<noteq> 0"
proof
  assume t: "t \<noteq> 0" and z: "997 * 0xaf653de9 * t = 0"
  have "(2119060837 * (997 * 0xaf653de9) :: u32) = 1" by simp
  then have "t = 2119060837 * (997 * 0xaf653de9) * t" by (simp only: mult_1)
  also have "\<dots> = 2119060837 * (997 * 0xaf653de9 * t)" by (simp only: mult.assoc)
  finally show False using t unfolding z by simp
qed

lemma type_init_fields:
  "sh_slab (type_init s t) = sh_slab s" "sh_links (type_init s t) = sh_links s" "sh_heap (type_init s t) = sh_heap s"
  "sh_spin (type_init s t) = sh_spin s" "sh_final (type_init s t) = sh_final s"
  "st_esize (sh_type (type_init s t) t') = st_esize (sh_type s t')"
  "t' \<noteq> t \<Longrightarrow> sh_type (type_init s t) t' = sh_type s t'"
  by (simp_all add: type_init_def Let_def split: prod.splits)

lemma type_init_inv:
  assumes "slab_inv hused s L T" "t \<noteq> 0" "esize_ok (st_esize (sh_type s t))"
  shows "\<exists>T'. slab_inv hused (type_init s t) L T' \<and> t \<in> set T'"
proof (cases "st_magic (sh_type s t) = 0")
  case False
  then show ?thesis using slab_inv_D(2) [OF assms(1)] assms(1) by (auto simp: type_init_def)
next
  case True
  note D = slab_inv_D [OF assms(1)]
  have t: "t \<notin> set T" using D(2) True by blast
  have Lt: "L t = []" using D(6) [OF t] .
  define s' where "s' = type_init s t"
  obtain lk ts where ap: "LIST_APPEND (sh_tlinks s) (sh_types s) t = (lk, ts)" by fastforce
  have tl: "clist lk ts (T @ [t])" using LIST_APPEND_clist [OF D(1) assms(2) t] ap by simp
  have f: "sh_tlinks s' = lk" "sh_types s' = ts"
    and ty: "sh_type s' t = (sh_type s t)\<lparr>st_first := 0, st_magic := 997 * 0xaf653de9 * t, st_count := slab_count (st_esize (sh_type s t))\<rparr>"
    using True ap count_formula [OF assms(3)] by (simp_all add: s'_def type_init_def Let_def)
  have o: "sh_slab s' = sh_slab s" "sh_links s' = sh_links s" "sh_heap s' = sh_heap s" "\<And>t'. t' \<noteq> t \<Longrightarrow> sh_type s' t' = sh_type s t'"
    unfolding s'_def by (rule type_init_fields)+
  have inT: "t' \<in> set (T @ [t]) \<longleftrightarrow> st_magic (sh_type s' t') \<noteq> 0" for t'
    using D(2) [of t'] o(4) [of t'] ty magic_nz [OF assms(2)] by (cases "t' = t") auto
  have es: "esize_ok (st_esize (sh_type s' t')) \<and> st_count (sh_type s' t') = slab_count (st_esize (sh_type s' t'))" if "t' \<in> set (T @ [t])" for t'
    using that D(3,4) [of t'] o(4) [of t'] ty assms(3) by (cases "t' = t") auto
  have cl: "clist (sh_links s') (st_first (sh_type s' t')) (L t')" for t'
    using D(5) [of t'] o(2) o(4) [of t'] ty Lt by (cases "t' = t") auto
  have so: "slab_of s' t' p" if "p \<in> set (L t')" for t' p
  proof -
    have "t' \<noteq> t" using that Lt by auto
    then show ?thesis using D(7) [OF that] o(1) o(4) [of t'] by (simp add: slab_of_def)
  qed
  have Ln: "L t' = []" if "t' \<notin> set (T @ [t])" for t' using D(6) that by simp
  have hu: "set (L t') \<subseteq> hused (sh_heap s)" for t' using D(10) by blast
  have "slab_inv hused s' L (T @ [t])"
    unfolding slab_inv_def f o(1,3) using tl inT es cl so Ln D(8,9) hu by blast
  then show ?thesis unfolding s'_def by auto
qed

lemma type_init_used:
  assumes "slab_inv hused s L T"
  shows "used_slots (type_init s t) = used_slots s" "used_objs (type_init s t) = used_objs s"
proof -
  have o: "sh_type (type_init s t) (sl_type (sh_slab s p)) = sh_type s (sl_type (sh_slab s p))" if "sl_type (sh_slab s p) \<noteq> 0" for p
  proof (cases "sl_type (sh_slab s p) = t")
    case True
    have "t \<in> set T" using slab_inv_in_T [OF assms slab_inv_D(8) [OF assms that]] True by simp
    then have "st_magic (sh_type s t) \<noteq> 0" using slab_inv_D(2) [OF assms] by blast
    then show ?thesis by (simp add: type_init_def)
  qed (simp add: type_init_fields)
  show us: "used_slots (type_init s t) = used_slots s" unfolding used_slots_def slots_def type_init_fields using o by auto
  show "used_objs (type_init s t) = used_objs s"
    by (rule used_objs_cong) (use us o in \<open>auto simp: obj_def type_init_fields used_slots_def\<close>)
qed

definition prepended :: "addr \<Rightarrow> addr list \<Rightarrow> addr list" where
  "prepended p xs = p # tl xs @ (if xs = [] then [] else [hd xs])"

lemma set_prepended: "set (prepended p xs) = insert p (set xs)"
  by (cases xs) (auto simp: prepended_def)

lemma slab_make_ok:
  assumes "slab_inv hused s L T" "t \<in> set T" "p \<noteq> 0" "4096 dvd unat p" "\<forall>t. p \<notin> set (L t)" "p \<in> hused (sh_heap s)"
    "s' = slab_make s t p"
  shows "slab_inv hused s' (L(t := prepended p (L t))) T" "used_objs s' = used_objs s"
    "sh_heap s' = sh_heap s" "sh_spin s' = sh_spin s" "sh_final s' = sh_final s"
    "st_esize (sh_type s' t') = st_esize (sh_type s t')" "st_count (sh_type s' t') = st_count (sh_type s t')"
    "\<forall>j < st_count (sh_type s t). bfree (sl_available (sh_slab s' p)) j"
proof -
  note D = slab_inv_D [OF assms(1)]
  let ?c = "st_count (sh_type s t)"
  let ?L = "L(t := prepended p (L t))"
  obtain lk fs where pp: "LIST_PREPEND (sh_links s) (st_first (sh_type s t)) p = (lk, fs)" by fastforce
  have cl0: "clist lk fs (prepended p (L t))"
    using LIST_PREPEND_clist [OF D(5) [of t] assms(3)] assms(5) pp unfolding prepended_def by simp
  have fr: "nx lk y = nx (sh_links s) y \<and> pv lk y = pv (sh_links s) y" if "y \<notin> set (L t)" "y \<noteq> p" for y
    using LIST_PREPEND_frame [OF D(5) that] pp by simp
  have f: "sh_links s' = lk" "sh_tlinks s' = sh_tlinks s" "sh_types s' = sh_types s"
    "sh_slab s' = (sh_slab s)(p := \<lparr>sl_magic = st_magic (sh_type s t), sl_type = t,
       sl_available = fill_masks ?c 0 (replicate (bitmap_words ?c) 0), sl_finalize = replicate (bitmap_words ?c) 0,
       sl_data = p + of_nat (data_offset ?c)\<rparr>)"
    "sh_type s' = (sh_type s)(t := (sh_type s t)\<lparr>st_first := fs\<rparr>)"
    using pp by (simp_all add: assms(7) slab_make_def Let_def data_offset_def)
  show "sh_heap s' = sh_heap s" "sh_spin s' = sh_spin s" "sh_final s' = sh_final s"
    using pp by (simp_all add: assms(7) slab_make_def Let_def)
  then have hp: "sh_heap s' = sh_heap s" by simp
  have ty: "st_esize (sh_type s' t') = st_esize (sh_type s t')" "st_count (sh_type s' t') = st_count (sh_type s t')"
    "st_magic (sh_type s' t') = st_magic (sh_type s t')" for t' by (simp_all add: f)
  then show "st_esize (sh_type s' t') = st_esize (sh_type s t')" "st_count (sh_type s' t') = st_count (sh_type s t')" by auto
  have ln: "length (fill_masks ?c 0 (replicate (bitmap_words ?c) 0)) = bitmap_words ?c"
    using fill_masks_bits [of 0 ?c "replicate (bitmap_words ?c) 0" 0] words_ge by simp
  have bits: "j < 32 * bitmap_words ?c \<Longrightarrow> bfree (fill_masks ?c 0 (replicate (bitmap_words ?c) 0)) j \<longleftrightarrow> j < ?c" for j
    by (rule fill_masks_new)
  have cw: "?c \<le> 32 * bitmap_words ?c" unfolding bitmap_words_def by linarith
  then show "\<forall>j < ?c. bfree (sl_available (sh_slab s' p)) j" using bits by (simp add: f(4))
  have so: "slab_of s' t' q" if "q \<in> set (?L t')" for t' q
  proof (cases "q = p")
    case True
    then have "t' = t" using that assms(5) by (auto split: if_splits)
    then show ?thesis using True ln bits assms(3,4) unfolding slab_of_def Let_def ty f(4) by simp
  next
    case False
    then have "q \<in> set (L t')" using that by (auto simp: set_prepended split: if_splits)
    then show ?thesis using D(7) [of q t'] False unfolding slab_of_def Let_def ty f(4) by simp
  qed
  have cl: "clist (sh_links s') (st_first (sh_type s' t')) (?L t')" for t'
  proof (cases "t' = t")
    case True
    then show ?thesis using cl0 by (simp add: f)
  next
    case False
    have "x \<notin> set (L t) \<and> x \<noteq> p" if "x \<in> set (L t')" for x
      using slab_of_D(1) [OF D(7) [OF that]] slab_of_D(1) [OF D(7), of x t] False assms(5) that by auto
    then have "clist lk (st_first (sh_type s t')) (L t')" using clist_cong [of "L t'" lk "sh_links s"] fr D(5) [of t'] by blast
    then show ?thesis using False by (simp add: f)
  qed
  have tnz: "t \<noteq> 0" using slab_inv_T_nz [OF assms(1)] assms(2) by metis
  have mem: "q \<in> set (?L (sl_type (sh_slab s' q)))" if "sl_type (sh_slab s' q) \<noteq> 0" for q
    using that D(8) [of q] by (cases "q = p") (auto simp: f(4) set_prepended)
  have z: "sl_data (sh_slab s' q) = 0" if "sl_type (sh_slab s' q) = 0" for q
    using that D(9) [of q] tnz by (cases "q = p") (auto simp: f(4))
  have hu: "set (?L t') \<subseteq> hused (sh_heap s')" for t' using D(10) assms(6) hp by (auto simp: set_prepended)
  have Ln: "?L t' = []" if "t' \<notin> set T" for t' using that D(6) assms(2) by auto
  show inv: "slab_inv hused s' ?L T"
    unfolding slab_inv_def f(2,3) ty using D(1-4) cl Ln so mem z hu by blast
  have np: "sl_type (sh_slab s p) = 0" using D(8) [of p] assms(5) by blast
  have "(q, i) \<in> used_slots s' \<longleftrightarrow> (q, i) \<in> used_slots s" for q i
    using np bits cw by (cases "q = p") (auto simp: used_slots_def slots_def ty f(4))
  then have us: "used_slots s' = used_slots s" by auto
  show "used_objs s' = used_objs s"
  proof (rule used_objs_cong [OF _ us])
    fix q i assume "(q, i) \<in> used_slots s'"
    then have "q \<noteq> p" using us np by (auto simp: used_slots_def)
    then show "obj s' q i = obj s q i" by (simp add: obj_def ty f(4))
  qed
qed

subsection \<open>The contract with the page heap\<close>

definition slab_get_one :: "nat \<Rightarrow> ('h \<Rightarrow> ('h \<times> addr) res) \<Rightarrow> addr \<Rightarrow> 'h slab_heap \<Rightarrow> ('h slab_heap \<times> addr option) res" where
  "slab_get_one n pha t s = bindE (slab_alloc n pha s t) (\<lambda>(s, p). Inr (s, Some p))"

definition slab_ok :: "('h \<Rightarrow> bool) \<Rightarrow> ('h \<Rightarrow> addr set) \<Rightarrow> addr \<Rightarrow> 'h slab_heap \<Rightarrow> bool" where
  "slab_ok hok hused t s \<longleftrightarrow> t \<noteq> 0 \<and> hok (sh_heap s) \<and> \<not> sh_spin s \<and> esize_ok (st_esize (sh_type s t)) \<and> (\<exists>L T. slab_inv hused s L T)"

lemma slab_okI:
  "t \<noteq> 0 \<Longrightarrow> hok (sh_heap s) \<Longrightarrow> \<not> sh_spin s \<Longrightarrow> esize_ok (st_esize (sh_type s t)) \<Longrightarrow> slab_inv hused s L T \<Longrightarrow> slab_ok hok hused t s"
  unfolding slab_ok_def by blast

lemma slab_inv_heap:
  assumes "slab_inv hused s L T" "hused (sh_heap s) \<subseteq> hused h"
  shows "slab_inv hused (s\<lparr>sh_heap := h, sh_spin := b\<rparr>) L T" "used_objs (s\<lparr>sh_heap := h, sh_spin := b\<rparr>) = used_objs s"
proof -
  show "slab_inv hused (s\<lparr>sh_heap := h, sh_spin := b\<rparr>) L T"
  proof -
    have "slab_of (s\<lparr>sh_heap := h, sh_spin := b\<rparr>) = slab_of s" by (simp add: fun_eq_iff slab_of_def)
    moreover have "\<forall>t. set (L t) \<subseteq> hused h" using slab_inv_D(10) [OF assms(1)] assms(2) by blast
    ultimately show ?thesis using assms(1) by (simp add: slab_inv_def)
  qed
  show "used_objs (s\<lparr>sh_heap := h, sh_spin := b\<rparr>) = used_objs s"
    by (rule used_objs_cong) (simp_all add: used_slots_def slots_def obj_def)
qed

locale page_source =
  fixes hok :: "'h \<Rightarrow> bool"
    and hused :: "'h \<Rightarrow> addr set"
    and pha :: "'h \<Rightarrow> ('h \<times> addr) res"
  assumes source: "hok h \<Longrightarrow> pha h = Inr (h', p) \<Longrightarrow>
    hok h' \<and> p \<notin> hused h \<and> hused h' = insert p (hused h) \<and> 4096 dvd unat p \<and> p \<noteq> 0"
begin

lemma slab_new_ok:
  assumes "slab_new pha s t = Inr (s', p)" "slab_inv hused s L T" "hok (sh_heap s)" "t \<noteq> 0" "esize_ok (st_esize (sh_type s t))"
  shows "\<exists>L' T'. slab_inv hused s' L' T' \<and> p \<in> set (L' t) \<and> hok (sh_heap s') \<and> used_objs s' = used_objs s \<and>
    sh_spin s' = sh_spin s \<and> (\<forall>t'. st_esize (sh_type s' t') = st_esize (sh_type s t'))"
proof -
  obtain h where h: "pha (sh_heap s) = Inr (h, p)" "s' = slab_make (type_init (s\<lparr>sh_heap := h\<rparr>) t) t p"
    using assms(1) by (auto simp: slab_new_def bindE_Inr_iff split: if_splits)
  have src: "hok h" "p \<notin> hused (sh_heap s)" "hused h = insert p (hused (sh_heap s))" "4096 dvd unat p" "p \<noteq> 0"
    using source [OF assms(3) h(1)] by auto
  define s1 where "s1 = s\<lparr>sh_heap := h\<rparr>"
  define s2 where "s2 = type_init s1 t"
  have "s1 = s\<lparr>sh_heap := h, sh_spin := sh_spin s\<rparr>" by (simp add: s1_def)
  then have i1: "slab_inv hused s1 L T" "used_objs s1 = used_objs s"
    using slab_inv_heap [OF assms(2), of h "sh_spin s"] src(3) by auto
  have "esize_ok (st_esize (sh_type s1 t))" using assms(5) by (simp add: s1_def)
  from type_init_inv [OF i1(1) assms(4) this] obtain T' where i2: "slab_inv hused s2 L T'" "t \<in> set T'"
    unfolding s2_def by blast
  have np: "\<forall>t. p \<notin> set (L t)" using slab_inv_D(10) [OF assms(2)] src(2) by blast
  have hp: "sh_heap s2 = h" by (simp add: s2_def type_init_fields s1_def)
  have pu: "p \<in> hused (sh_heap s2)" using hp src(3) by simp
  have "s' = slab_make s2 t p" using h(2) by (simp add: s2_def s1_def)
  note m = slab_make_ok [OF i2 src(5,4) np pu this]
  have "used_objs s2 = used_objs s" using type_init_used(2) [OF i1(1), of t] i1(2) by (simp add: s2_def)
  moreover have "sh_spin s2 = sh_spin s" "\<forall>t'. st_esize (sh_type s2 t') = st_esize (sh_type s t')"
    by (simp_all add: s2_def type_init_fields s1_def)
  ultimately show ?thesis using m hp src(1)
    by (intro exI [of _ "L(t := prepended p (L t))"] exI [of _ T']) (simp add: set_prepended)
qed

lemma alloc_loop_ok:
  assumes "slab_alloc_loop n pha s t p = Inr (s', r)" "slab_inv hused s L T" "hok (sh_heap s)" "t \<noteq> 0"
    "esize_ok (st_esize (sh_type s t))" "p \<in> set (L t)"
  shows "\<exists>q L' T'. r = Some q \<and> slab_inv hused s' L' T' \<and> hok (sh_heap s') \<and> q \<notin> used_objs s \<and>
    used_objs s' = insert q (used_objs s) \<and> sh_spin s' = sh_spin s \<and> (\<forall>t'. st_esize (sh_type s' t') = st_esize (sh_type s t'))"
  using assms
proof (induction n arbitrary: s L T p)
  case (Suc n)
  note sp = slab_inv_D(7) [OF Suc.prems(2,6)]
  have nz: "p \<noteq> 0" using slab_of_D(8) [OF sp] .
  consider (full) "slab_take s p = Inr None"
    | (free) j where "j < st_count (sh_type s t)" "bfree (sl_available (sh_slab s p)) j"
      "slab_take s p = Inr (Some (upd_slab p (\<lambda>sl. sl\<lparr>sl_available := bclear (sl_available (sh_slab s p)) (j div 32) (bmask j)\<rparr>) s, obj s p j))"
    using slab_take_ok [OF sp] by blast
  then show ?case
  proof cases
    case free
    note t = take_slot [OF Suc.prems(2,6) free(1,2) refl]
    show ?thesis using Suc.prems(1,3) free(3) nz t by (intro exI [of _ "obj s p j"] exI [of _ L] exI [of _ T]) auto
  next
    case full
    obtain u v where uv: "L t = u @ p # v" using Suc.prems(6) by (meson split_list)
    have nx: "LIST_NEXT (sh_links s) (st_first (sh_type s t)) p = (case v of [] \<Rightarrow> 0 | y # _ \<Rightarrow> y)"
      using LIST_NEXT_clist [of "sh_links s" "st_first (sh_type s t)" u p v] slab_inv_D(5) [OF Suc.prems(2), of t] uv by simp
    show ?thesis
    proof (cases v)
      case (Cons y w)
      have y: "y \<in> set (L t)" using uv Cons by simp
      then have "y \<noteq> 0" using slab_of_D(8) [OF slab_inv_D(7) [OF Suc.prems(2)]] by blast
      then have "slab_alloc_loop n pha s t y = Inr (s', r)" using Suc.prems(1) full nz nx Cons by (simp add: Let_def)
      then show ?thesis using Suc.IH Suc.prems(2-5) y by blast
    next
      case Nil
      then obtain s1 q where new: "slab_new pha s t = Inr (s1, q)" "slab_alloc_loop n pha s1 t q = Inr (s', r)"
        using Suc.prems(1) full nz nx by (auto simp: Let_def bindE_Inr_iff)
      from slab_new_ok [OF new(1) Suc.prems(2-5)] obtain L1 T1 where
        i: "slab_inv hused s1 L1 T1" "q \<in> set (L1 t)" "hok (sh_heap s1)" "used_objs s1 = used_objs s" "sh_spin s1 = sh_spin s"
          "\<forall>t'. st_esize (sh_type s1 t') = st_esize (sh_type s t')" by blast
      have "esize_ok (st_esize (sh_type s1 t))" using Suc.prems(5) i(6) by simp
      from Suc.IH [OF new(2) i(1,3) Suc.prems(4) this i(2)] show ?thesis using i(4-6) by simp
    qed
  qed
qed simp

lemma slab_alloc_ok:
  assumes "slab_alloc n pha s t = Inr (s', q)" "slab_ok hok hused t s"
  shows "slab_ok hok hused t s' \<and> q \<notin> used_objs s \<and> used_objs s' = insert q (used_objs s)"
proof -
  obtain L T where ok: "hok (sh_heap s)" "\<not> sh_spin s" "esize_ok (st_esize (sh_type s t))" "slab_inv hused s L T" and tnz: "t \<noteq> 0"
    using assms(2) by (auto simp: slab_ok_def)
  define s0 where "s0 = s\<lparr>sh_spin := True\<rparr>"
  have "s0 = s\<lparr>sh_heap := sh_heap s, sh_spin := True\<rparr>" by (simp add: s0_def)
  then have i0: "slab_inv hused s0 L T" "used_objs s0 = used_objs s" using slab_inv_heap [OF ok(4), of "sh_heap s" True] by auto
  have f0: "sh_heap s0 = sh_heap s" "sh_type s0 = sh_type s" by (simp_all add: s0_def)
  obtain s1 p s2 where r: "(if st_first (sh_type s0 t) \<noteq> 0 then Inr (s0, st_first (sh_type s0 t)) else slab_new pha s0 t) = Inr (s1, p)"
    "slab_alloc_loop n pha s1 t p = Inr (s2, Some q)" "s' = slab_unlock s2"
    using assms(1) ok(2) unfolding slab_alloc_def slab_lock_def s0_def [symmetric]
    by (auto simp: bindE_Inr_iff split: option.splits simp del: if_split)
  obtain L1 T1 where i1: "slab_inv hused s1 L1 T1" "p \<in> set (L1 t)" "hok (sh_heap s1)" "used_objs s1 = used_objs s"
    "\<forall>t'. st_esize (sh_type s1 t') = st_esize (sh_type s t')"
  proof (cases "st_first (sh_type s0 t) = 0")
    case True
    then have "slab_new pha s0 t = Inr (s1, p)" using r(1) by simp
    from slab_new_ok [OF this i0(1) _ tnz] ok(1,3) f0 i0(2) that show ?thesis by auto
  next
    case False
    then have s1: "s1 = s0" "p = st_first (sh_type s0 t)" using r(1) by auto
    have "L t \<noteq> []" "p = hd (L t)" using slab_inv_D(5) [OF i0(1), of t] False s1(2) by (auto simp: clist_def split: if_splits)
    then show ?thesis using that [of L T] i0 ok(1) f0 s1(1) by simp
  qed
  have "esize_ok (st_esize (sh_type s1 t))" using ok(3) i1(5) by simp
  from alloc_loop_ok [OF r(2) i1(1,3) tnz this i1(2)] obtain L2 T2 where
    i2: "slab_inv hused s2 L2 T2" "hok (sh_heap s2)" "q \<notin> used_objs s" "used_objs s2 = insert q (used_objs s)"
      "\<forall>t'. st_esize (sh_type s2 t') = st_esize (sh_type s t')" using i1(4,5) by auto
  have "s' = s2\<lparr>sh_heap := sh_heap s2, sh_spin := False\<rparr>" using r(3) by (simp add: slab_unlock_def)
  then have "slab_inv hused s' L2 T2" "used_objs s' = used_objs s2" "sh_heap s' = sh_heap s2" "\<not> sh_spin s'" "sh_type s' = sh_type s2"
    using slab_inv_heap [OF i2(1), of "sh_heap s2" False] by auto
  then show ?thesis using i2 ok(3) tnz slab_okI by metis
qed

text \<open>With slots in a slab and a page source that does not fail, allocation returns.\<close>

lemma new_slab_serves:
  assumes "slab_inv hused s L T" "p \<in> set (L t)" "\<forall>j < st_count (sh_type s t). bfree (sl_available (sh_slab s p)) j"
    "0 < st_count (sh_type s t)"
  shows "\<exists>s' q. slab_alloc_loop (Suc n) pha s t p = Inr (s', Some q)"
proof -
  note sp = slab_inv_D(7) [OF assms(1,2)]
  from slab_take_ok [OF sp] assms(3,4) obtain x where "slab_take s p = Inr (Some x)" by blast
  then show ?thesis using slab_of_D(8) [OF sp] by (cases x) simp
qed

lemma slab_new_free:
  assumes "slab_new pha s t = Inr (s', p)" "slab_inv hused s L T" "hok (sh_heap s)" "t \<noteq> 0" "esize_ok (st_esize (sh_type s t))"
  shows "\<forall>j < st_count (sh_type s' t). bfree (sl_available (sh_slab s' p)) j"
    "st_count (sh_type s' t) = slab_count (st_esize (sh_type s t))"
proof -
  obtain L' T' where i: "slab_inv hused s' L' T'" "p \<in> set (L' t)" "\<forall>t'. st_esize (sh_type s' t') = st_esize (sh_type s t')"
    using slab_new_ok [OF assms] by blast
  show "st_count (sh_type s' t) = slab_count (st_esize (sh_type s t))"
    using slab_inv_D(4) [OF i(1) slab_inv_in_T [OF i(1,2)]] i(3) by simp
  obtain h where h: "s' = slab_make (type_init (s\<lparr>sh_heap := h\<rparr>) t) t p"
    using assms(1) by (auto simp: slab_new_def bindE_Inr_iff split: if_splits)
  define s2 where "s2 = type_init (s\<lparr>sh_heap := h\<rparr>) t"
  have "s' = slab_make s2 t p" using h by (simp add: s2_def)
  then have "sl_available (sh_slab s' p) = fill_masks (st_count (sh_type s2 t)) 0 (replicate (bitmap_words (st_count (sh_type s2 t))) 0)"
    "st_count (sh_type s' t) = st_count (sh_type s2 t)"
    by (simp_all add: slab_make_def Let_def split: prod.splits)
  moreover have "st_count (sh_type s2 t) \<le> 32 * bitmap_words (st_count (sh_type s2 t))" unfolding bitmap_words_def by linarith
  ultimately show "\<forall>j < st_count (sh_type s' t). bfree (sl_available (sh_slab s' p)) j" using fill_masks_new by auto
qed

lemma alloc_loop_returns:
  assumes "slab_inv hused s L T" "hok (sh_heap s)" "t \<noteq> 0" "0 < slab_count (st_esize (sh_type s t))" "L t = u @ p # v"
    "\<exists>h' p. pha (sh_heap s) = Inr (h', p)"
  shows "\<exists>s' q. slab_alloc_loop (length v + 2 + n) pha s t p = Inr (s', Some q)"
  using assms(5)
proof (induction v arbitrary: u p)
  case (Cons y w)
  have p: "p \<in> set (L t)" and y: "y \<in> set (L t)" using Cons.prems by auto
  note sp = slab_inv_D(7) [OF assms(1) p]
  have nz: "p \<noteq> 0" "y \<noteq> 0" using slab_of_D(8) [OF sp] slab_of_D(8) [OF slab_inv_D(7) [OF assms(1) y]] by auto
  have nx: "LIST_NEXT (sh_links s) (st_first (sh_type s t)) p = y"
    using LIST_NEXT_clist [of "sh_links s" "st_first (sh_type s t)" u p "y # w"] slab_inv_D(5) [OF assms(1), of t] Cons.prems by simp
  have IH: "\<exists>s' q. slab_alloc_loop (length w + 2 + n) pha s t y = Inr (s', Some q)"
    using Cons.IH [of "u @ [p]" y] Cons.prems by simp
  show ?case
  proof (cases "slab_take s p = Inr None")
    case True
    then show ?thesis using IH nz nx by (simp add: Let_def)
  next
    case False
    then obtain x where "slab_take s p = Inr (Some x)" using slab_take_ok [OF sp] by blast
    then show ?thesis using nz by (cases x) simp
  qed
next
  case Nil
  have p: "p \<in> set (L t)" using Nil by simp
  note sp = slab_inv_D(7) [OF assms(1) p]
  have nz: "p \<noteq> 0" using slab_of_D(8) [OF sp] .
  have nx: "LIST_NEXT (sh_links s) (st_first (sh_type s t)) p = 0"
    using LIST_NEXT_clist [of "sh_links s" "st_first (sh_type s t)" u p "[]"] slab_inv_D(5) [OF assms(1), of t] Nil by simp
  have es: "esize_ok (st_esize (sh_type s t))" using slab_inv_D(3) [OF assms(1) slab_inv_in_T [OF assms(1) p]] .
  show ?case
  proof (cases "slab_take s p = Inr None")
    case True
    obtain h' q where h: "pha (sh_heap s) = Inr (h', q)" using assms(6) by blast
    then have "q \<noteq> 0" using source [OF assms(2) h] by blast
    then obtain s1 where new: "slab_new pha s t = Inr (s1, q)" using h by (simp add: slab_new_def)
    from slab_new_ok [OF new assms(1-3) es] obtain L1 T1 where i: "slab_inv hused s1 L1 T1" "q \<in> set (L1 t)" by blast
    note fr = slab_new_free [OF new assms(1-3) es]
    have "0 < st_count (sh_type s1 t)" using fr(2) assms(4) by simp
    from new_slab_serves [OF i fr(1) this, of n] show ?thesis using True nz nx new by (simp add: Let_def)
  next
    case False
    then obtain x where "slab_take s p = Inr (Some x)" using slab_take_ok [OF sp] by blast
    then show ?thesis using nz by (cases x) simp
  qed
qed

lemma slab_alloc_returns:
  assumes "slab_ok hok hused t s" "0 < slab_count (st_esize (sh_type s t))" "\<exists>h' p. pha (sh_heap s) = Inr (h', p)"
  shows "\<exists>N. \<forall>n\<ge>N. \<exists>s' q. slab_alloc n pha s t = Inr (s', q)"
proof -
  obtain L T where ok: "hok (sh_heap s)" "\<not> sh_spin s" "esize_ok (st_esize (sh_type s t))" "slab_inv hused s L T" and tnz: "t \<noteq> 0"
    using assms(1) by (auto simp: slab_ok_def)
  define s0 where "s0 = s\<lparr>sh_spin := True\<rparr>"
  have "s0 = s\<lparr>sh_heap := sh_heap s, sh_spin := True\<rparr>" by (simp add: s0_def)
  then have i0: "slab_inv hused s0 L T" using slab_inv_heap [OF ok(4), of "sh_heap s" True] by auto
  have f0: "sh_heap s0 = sh_heap s" "sh_type s0 = sh_type s" by (simp_all add: s0_def)
  have run: "\<exists>s' q. slab_alloc n pha s t = Inr (s', q)"
    if "(if st_first (sh_type s0 t) \<noteq> 0 then Inr (s0, st_first (sh_type s0 t)) else slab_new pha s0 t) = Inr (s1, p)"
      "slab_alloc_loop n pha s1 t p = Inr (s2, Some q)" for n s1 p s2 q
    using that ok(2) unfolding slab_alloc_def slab_lock_def s0_def [symmetric] by (simp del: if_split)
  show ?thesis
  proof (cases "L t")
    case Nil
    then have f: "st_first (sh_type s0 t) = 0" using slab_inv_D(5) [OF i0, of t] by simp
    obtain h' q where h: "pha (sh_heap s) = Inr (h', q)" using assms(3) by blast
    then have "q \<noteq> 0" using source [OF ok(1) h] by blast
    then obtain s1 where new: "slab_new pha s0 t = Inr (s1, q)" using h f0 by (simp add: slab_new_def)
    have pre: "hok (sh_heap s0)" "esize_ok (st_esize (sh_type s0 t))" using ok f0 by auto
    from slab_new_ok [OF new i0 pre(1) tnz pre(2)] obtain L1 T1 where i: "slab_inv hused s1 L1 T1" "q \<in> set (L1 t)" by blast
    note fr = slab_new_free [OF new i0 pre(1) tnz pre(2)]
    have "0 < st_count (sh_type s1 t)" using fr(2) assms(2) f0 by simp
    note sv = new_slab_serves [OF i fr(1) this]
    show ?thesis
    proof (intro exI [of _ 1] allI impI)
      fix n :: nat assume "1 \<le> n"
      then obtain m where "n = Suc m" by (cases n) auto
      then show "\<exists>s' q. slab_alloc n pha s t = Inr (s', q)" using run f new sv [of m] by auto
    qed
  next
    case (Cons p v)
    then have f: "st_first (sh_type s0 t) = p" "p \<noteq> 0"
      using slab_inv_D(5) [OF i0, of t] clist_distinct [OF slab_inv_D(5) [OF i0, of t]] by (auto simp: clist_def)
    show ?thesis
    proof (intro exI [of _ "length v + 2"] allI impI)
      fix n assume "length v + 2 \<le> n"
      then obtain m where m: "n = length v + 2 + m" using le_Suc_ex by blast
      have "\<exists>s' q. slab_alloc_loop n pha s0 t p = Inr (s', Some q)" unfolding m
        by (rule alloc_loop_returns [where L = L and T = T and u = "[]"]) (use i0 ok f0 assms(2,3) tnz Cons in auto)
      then show "\<exists>s' q. slab_alloc n pha s t = Inr (s', q)" using run [of s0 p n] f by auto
    qed
  qed
qed

text \<open>With no slot in a slab there is no result, whatever the fuel.\<close>

lemma alloc_loop_never:
  assumes "slab_inv hused s L T" "hok (sh_heap s)" "t \<noteq> 0" "slab_count (st_esize (sh_type s t)) = 0" "p \<in> set (L t)"
  shows "slab_alloc_loop n pha s t p \<noteq> Inr r"
  using assms
proof (induction n arbitrary: s L T p)
  case (Suc n)
  note sp = slab_inv_D(7) [OF Suc.prems(1,5)]
  note T = slab_inv_in_T [OF Suc.prems(1,5)]
  have nz: "p \<noteq> 0" using slab_of_D(8) [OF sp] .
  have es: "esize_ok (st_esize (sh_type s t))" using slab_inv_D(3) [OF Suc.prems(1) T] .
  have "st_count (sh_type s t) = 0" using slab_inv_D(4) [OF Suc.prems(1) T] Suc.prems(4) by simp
  then have full: "slab_take s p = Inr None" using slab_take_ok [OF sp] by simp
  obtain u v where uv: "L t = u @ p # v" using Suc.prems(5) by (meson split_list)
  have nx: "LIST_NEXT (sh_links s) (st_first (sh_type s t)) p = (case v of [] \<Rightarrow> 0 | y # _ \<Rightarrow> y)"
    using LIST_NEXT_clist [of "sh_links s" "st_first (sh_type s t)" u p v] slab_inv_D(5) [OF Suc.prems(1), of t] uv by simp
  show ?case
  proof (cases v)
    case (Cons y w)
    have y: "y \<in> set (L t)" using uv Cons by simp
    then have "y \<noteq> 0" using slab_of_D(8) [OF slab_inv_D(7) [OF Suc.prems(1)]] by blast
    then show ?thesis using Suc.IH [OF Suc.prems(1-4) y] full nz nx Cons by (simp add: Let_def)
  next
    case Nil
    show ?thesis
    proof
      assume a: "slab_alloc_loop (Suc n) pha s t p = Inr r"
      then obtain s1 q where new: "slab_new pha s t = Inr (s1, q)" "slab_alloc_loop n pha s1 t q = Inr r"
        using full nz nx Nil by (auto simp: Let_def bindE_Inr_iff)
      from slab_new_ok [OF new(1) Suc.prems(1-3) es] obtain L1 T1 where
        i: "slab_inv hused s1 L1 T1" "q \<in> set (L1 t)" "hok (sh_heap s1)" "st_esize (sh_type s1 t) = st_esize (sh_type s t)" by blast
      have "slab_count (st_esize (sh_type s1 t)) = 0" using i(4) Suc.prems(4) by simp
      from Suc.IH [OF i(1,3) Suc.prems(3) this i(2)] new(2) show False by blast
    qed
  qed
qed simp

lemma slab_alloc_never:
  assumes "slab_ok hok hused t s" "slab_count (st_esize (sh_type s t)) = 0"
  shows "slab_alloc n pha s t \<noteq> Inr r"
proof
  assume a: "slab_alloc n pha s t = Inr r"
  obtain L T where ok: "hok (sh_heap s)" "\<not> sh_spin s" "esize_ok (st_esize (sh_type s t))" "slab_inv hused s L T" and tnz: "t \<noteq> 0"
    using assms(1) by (auto simp: slab_ok_def)
  define s0 where "s0 = s\<lparr>sh_spin := True\<rparr>"
  have "s0 = s\<lparr>sh_heap := sh_heap s, sh_spin := True\<rparr>" by (simp add: s0_def)
  then have i0: "slab_inv hused s0 L T" using slab_inv_heap [OF ok(4), of "sh_heap s" True] by auto
  have f0: "sh_heap s0 = sh_heap s" "sh_type s0 = sh_type s" by (simp_all add: s0_def)
  have pre: "hok (sh_heap s0)" "esize_ok (st_esize (sh_type s0 t))" "slab_count (st_esize (sh_type s0 t)) = 0" using ok assms(2) f0 by auto
  obtain s1 p r' where r: "(if st_first (sh_type s0 t) \<noteq> 0 then Inr (s0, st_first (sh_type s0 t)) else slab_new pha s0 t) = Inr (s1, p)"
    "slab_alloc_loop n pha s1 t p = Inr r'"
    using a ok(2) unfolding slab_alloc_def slab_lock_def s0_def [symmetric] by (auto simp: bindE_Inr_iff simp del: if_split)
  show False
  proof (cases "st_first (sh_type s0 t) = 0")
    case True
    then have new: "slab_new pha s0 t = Inr (s1, p)" using r(1) by simp
    from slab_new_ok [OF new i0 pre(1) tnz pre(2)] obtain L1 T1 where
      i: "slab_inv hused s1 L1 T1" "p \<in> set (L1 t)" "hok (sh_heap s1)" "st_esize (sh_type s1 t) = st_esize (sh_type s0 t)" by blast
    have "slab_count (st_esize (sh_type s1 t)) = 0" using i(4) pre(3) by simp
    from alloc_loop_never [OF i(1,3) tnz this i(2)] r(2) show False by blast
  next
    case False
    then have s1: "s1 = s0" "p = st_first (sh_type s0 t)" using r(1) by auto
    have "p \<in> set (L t)" using slab_inv_D(5) [OF i0, of t] False s1(2) by (auto simp: clist_def split: if_splits)
    from alloc_loop_never [OF i0 pre(1) tnz pre(3) this] r(2) s1(1) show False by simp
  qed
qed

end

text \<open>A client of one type: the heap pointers include every address of a page in use.\<close>

locale slab_client = page_source +
  fixes is_heap :: "'a \<Rightarrow> addr \<Rightarrow> bool"
    and n :: nat
    and t :: addr
  assumes heap_pointer: "hok h \<Longrightarrow> p \<in> hused h \<Longrightarrow> 4096 dvd unat p \<Longrightarrow> page_align a = p \<Longrightarrow> is_heap h a"
begin

lemma slab_give:
  assumes "slab_ok hok hused t s" "q \<in> used_objs s"
  shows "\<exists>s'. slab_free is_heap s q = Inr s' \<and> slab_ok hok hused t s' \<and> used_objs s' = used_objs s - {q}"
proof -
  obtain L T where ok: "hok (sh_heap s)" "\<not> sh_spin s" "esize_ok (st_esize (sh_type s t))" "slab_inv hused s L T" and tnz: "t \<noteq> 0"
    using assms(1) by (auto simp: slab_ok_def)
  obtain p j where q: "q = obj s p j" "(p, j) \<in> used_slots s" using assms(2) by (auto simp: used_objs_def)
  have a: "sl_type (sh_slab s p) \<noteq> 0" "j < slots s p" using q(2) by (auto simp: used_slots_def)
  have p: "p \<in> set (L (sl_type (sh_slab s p)))" using slab_inv_D(8) [OF ok(4) a(1)] .
  note T = slab_inv_in_T [OF ok(4) p]
  note sp = slab_inv_D(7) [OF ok(4) p]
  have "page_align q = p"
    unfolding q(1) by (rule obj_at(2) [OF sp slab_inv_D(4,3) [OF ok(4) T]]) (use a(2) in \<open>simp add: slots_def\<close>)
  then have "is_heap (sh_heap s) (obj s p j)"
    using heap_pointer [OF ok(1) slab_inv_D(10) [OF ok(4) p] slab_of_D(7) [OF sp]] q(1) by simp
  from slab_free_ok [where is_heap = is_heap, OF ok(4) q(2) this ok(2)] show ?thesis
    using ok(1,3) tnz q(1) slab_okI by metis
qed

end

sublocale slab_client \<subseteq> slabs: allocator "slab_ok hok hused t" used_objs "slab_get_one n pha t" "slab_free is_heap"
proof
  show "slab_ok hok hused t s' \<and> (case r of None \<Rightarrow> used_objs s' = used_objs s
      | Some p \<Rightarrow> p \<notin> used_objs s \<and> used_objs s' = insert p (used_objs s))"
    if "slab_ok hok hused t s" "slab_get_one n pha t s = Inr (s', r)" for s s' r
    using slab_alloc_ok [of n s t s'] that by (auto simp: slab_get_one_def bindE_Inr_iff)
  show "\<exists>s'. slab_free is_heap s p = Inr s' \<and> slab_ok hok hused t s' \<and> used_objs s' = used_objs s - {p}"
    if "slab_ok hok hused t s" "p \<in> used_objs s" for s p
    using slab_give that by blast
qed

end
