(* ===== verification/Vmap.thy ===== *)
theory Vmap
  imports Page_Heap
begin

text \<open>
  The page tables of \<^verbatim>\<open>arch/i386/vmap.c\<close>. \<open>vm_phys\<close> is the contents of the physical pages that hold
  page tables and directories, as 1024 entries each; \<open>vm_cr3\<close> is the page of the current directory.
  The code reaches the tables of the eight address spaces through the array \<^verbatim>\<open>pgtbls\<close> at the top of the
  address space, so an access to its element \<open>k\<close> is translated by the processor's two-level walk from
  the current directory; an access to an element that is not mapped is a page fault (\<open>BadAccess\<close>).
  \<^verbatim>\<open>pgtbls+k\<close> is a pointer to four bytes, and its own page is number \<open>0xfe000 + k div 1024\<close>.
\<close>

record vmap_t =
  vm_phys :: "u32 \<Rightarrow> nat \<Rightarrow> u32"
  vm_cr3 :: u32
  vm_asids :: "(addr \<times> int) list"
  vm_seq :: int

definition ASID_COUNT :: nat where "ASID_COUNT = 8"
definition ARCH_PAGE_TABLE_SIZE :: nat where "ARCH_PAGE_TABLE_SIZE = 2 ^ 20"

text \<open>The page that holds element \<open>k\<close> of \<^verbatim>\<open>pgtbls\<close>, found by the walk.\<close>

definition pt_page :: "vmap_t \<Rightarrow> nat \<Rightarrow> u32 res" where
  "pt_page v k =
     (let vpage = 0xfe000 + k div 1024;
          pde = vm_phys v (vm_cr3 v) (vpage div 1024);
          pte = vm_phys v (drop_bit 12 pde) (vpage mod 1024)
      in if 2 ^ 20 \<le> vpage \<or> pde AND 1 = 0 \<or> pte AND 1 = 0 then Inl BadAccess else Inr (drop_bit 12 pte))"

definition pt_read :: "vmap_t \<Rightarrow> nat \<Rightarrow> u32 res" where
  "pt_read v k = bindE (pt_page v k) (\<lambda>p. Inr (vm_phys v p (k mod 1024)))"

definition pt_write :: "vmap_t \<Rightarrow> nat \<Rightarrow> u32 \<Rightarrow> vmap_t res" where
  "pt_write v k pte = bindE (pt_page v k) (\<lambda>p.
     Inr (v\<lparr>vm_phys := (vm_phys v)(p := (vm_phys v p)(k mod 1024 := pte))\<rparr>))"

fun find_vid :: "addr \<Rightarrow> (addr \<times> int) list \<Rightarrow> nat \<Rightarrow> nat option" where
  "find_vid vid [] i = None"
| "find_vid vid (a # as) i = (if vid = fst a then Some i else find_vid vid as (i + 1))"

fun low_seq :: "(addr \<times> int) list \<Rightarrow> nat \<Rightarrow> int \<Rightarrow> nat option \<Rightarrow> nat option" where
  "low_seq [] i lowseq lowi = lowi"
| "low_seq (a # as) i lowseq lowi =
     (if lowseq > snd a then low_seq as (i + 1) (snd a) (Some i) else low_seq as (i + 1) lowseq lowi)"

text \<open>The result is the index of the address space's first element of \<^verbatim>\<open>pgtbls\<close>.\<close>

definition vmap_get_pgtable :: "vmap_t \<Rightarrow> addr \<Rightarrow> (vmap_t \<times> nat) res" where
  "vmap_get_pgtable v vid =
     (if vid = 0 then Inr (v, 0)
      else
        case find_vid vid (vm_asids v) 0 of
          Some i \<Rightarrow> Inr (v\<lparr>vm_asids := (vm_asids v)[i := (vid, vm_seq v)]\<rparr>, ARCH_PAGE_TABLE_SIZE * i)
        | None \<Rightarrow>
            (case low_seq (vm_asids v) 0 (2 ^ 31 - 1) None of
               None \<Rightarrow> Inl BadAccess
             | Some lowi \<Rightarrow>
                 let s = vm_seq v + 1 in
                 Inr (v\<lparr>vm_asids := (vm_asids v)[lowi := (vid, s)], vm_seq := s\<rparr>, ARCH_PAGE_TABLE_SIZE * lowi)))"

definition vmap_get_pgdir :: "vmap_t \<Rightarrow> addr \<Rightarrow> (vmap_t \<times> nat) res" where
  "vmap_get_pgdir v vid =
     bindE (vmap_get_pgtable v vid) (\<lambda>(v, pgdir).
       if vid = 0 then Inr (v, pgdir + (ARCH_PAGE_TABLE_SIZE - ASID_COUNT))
       else let i = pgdir div 2 ^ 20 in Inr (v, pgdir + (ARCH_PAGE_TABLE_SIZE - ASID_COUNT + i)))"

definition vmap_set_asid :: "vmap_t \<Rightarrow> addr \<Rightarrow> vmap_t res" where
  "vmap_set_asid v vid =
     bindE (vmap_get_pgdir v vid) (\<lambda>(v, pgdir).
     bindE (pt_read v pgdir) (\<lambda>pde. Inr (v\<lparr>vm_cr3 := drop_bit 12 pde\<rparr>)))"

text \<open>\<open>vpage\<close> is the page of the virtual address that is looked up.\<close>

definition get_page_at :: "vmap_t \<Rightarrow> addr \<Rightarrow> nat \<Rightarrow> (vmap_t \<times> u32) res" where
  "get_page_at v vid vpage =
     bindE (vmap_get_pgtable v vid) (\<lambda>(v, pgtbl).
     bindE (pt_read v (pgtbl + vpage)) (\<lambda>pte. Inr (v, if pte AND 1 \<noteq> 0 then drop_bit 12 pte else 0)))"

definition vmap_get_page :: "vmap_t \<Rightarrow> addr \<Rightarrow> addr \<Rightarrow> (vmap_t \<times> u32) res" where
  "vmap_get_page v vid vaddress = get_page_at v vid (unat (drop_bit 12 vaddress))"

definition pgtbls_page :: "nat \<Rightarrow> nat" where
  "pgtbls_page k = 0xfe000 + k div 1024"

definition vmap_get_pte :: "vmap_t \<Rightarrow> addr \<Rightarrow> addr \<Rightarrow> (vmap_t \<times> u32) res" where
  "vmap_get_pte v vid vaddress =
     (let vpage = unat (drop_bit 12 vaddress) in
      bindE (vmap_get_pgtable v vid) (\<lambda>(v, pgtbl).
      bindE (get_page_at v vid (pgtbls_page vpage)) (\<lambda>(v, page).
        if page = 0 then Inr (v, 0)
        else bindE (pt_read v (pgtbl + vpage)) (\<lambda>pte. Inr (v, pte)))))"

definition make_pte :: "u32 \<Rightarrow> bool \<Rightarrow> bool \<Rightarrow> u32" where
  "make_pte page rw user =
     (let pte = push_bit 12 page OR 1;
          pte = (if rw then pte OR 2 else pte)
      in if user then pte OR 4 else pte)"

text \<open>
  Setting an entry first makes sure that its table exists: a new page is entered for all eight address
  spaces, by the same operation one level up. The depth of that recursion is the first argument.
\<close>

fun set_pte_at :: "nat \<Rightarrow> mmap \<times> vmap_t \<Rightarrow> addr \<Rightarrow> nat \<Rightarrow> u32 \<Rightarrow> (mmap \<times> vmap_t) res" where
  "set_pte_at 0 s vid vpage pte = Inl OutOfFuel"
| "set_pte_at (Suc n) s vid vpage pte =
     bindE (vmap_get_pgtable (snd s) vid) (\<lambda>(v, pgtbl).
     bindE (get_page_at v vid (pgtbls_page vpage)) (\<lambda>(v, tbl).
     bindE (if tbl = 0 then
              bindE (page_alloc (fst s)) (\<lambda>(mm, page).
                fold (\<lambda>i r. bindE r (\<lambda>s.
                    set_pte_at n s 0 (pgtbls_page (ARCH_PAGE_TABLE_SIZE * i + vpage)) (make_pte page True False)))
                  [0..<ASID_COUNT] (Inr (mm, v)))
            else Inr (fst s, v)) (\<lambda>(mm, v).
     bindE (pt_write v (pgtbl + vpage) pte) (\<lambda>v. Inr (mm, v)))))"

definition vmap_set_pte :: "nat \<Rightarrow> mmap \<times> vmap_t \<Rightarrow> addr \<Rightarrow> addr \<Rightarrow> u32 \<Rightarrow> (mmap \<times> vmap_t) res" where
  "vmap_set_pte n s vid vaddress pte = set_pte_at n s vid (unat (drop_bit 12 vaddress)) pte"

definition vmap_map :: "nat \<Rightarrow> mmap \<times> vmap_t \<Rightarrow> addr \<Rightarrow> addr \<Rightarrow> u32 \<Rightarrow> bool \<Rightarrow> bool \<Rightarrow> (mmap \<times> vmap_t) res" where
  "vmap_map n s vid vaddress page rw user = vmap_set_pte n s vid vaddress (make_pte page rw user)"

fun vmap_mapn_from :: "nat \<Rightarrow> nat \<Rightarrow> mmap \<times> vmap_t \<Rightarrow> addr \<Rightarrow> addr \<Rightarrow> u32 \<Rightarrow> bool \<Rightarrow> bool \<Rightarrow> (mmap \<times> vmap_t) res" where
  "vmap_mapn_from n 0 s vid vp page rw user = Inr s"
| "vmap_mapn_from n (Suc k) s vid vp page rw user =
     bindE (vmap_map n s vid vp page rw user) (\<lambda>s. vmap_mapn_from n k s vid (vp + 4096) (page + 1) rw user)"

definition vmap_mapn :: "nat \<Rightarrow> mmap \<times> vmap_t \<Rightarrow> addr \<Rightarrow> int \<Rightarrow> addr \<Rightarrow> u32 \<Rightarrow> bool \<Rightarrow> bool \<Rightarrow> (mmap \<times> vmap_t) res" where
  "vmap_mapn n s vid cnt vaddress page rw user = vmap_mapn_from n (nat cnt) s vid vaddress page rw user"

definition vmap_flag :: "u32 \<Rightarrow> vmap_t \<Rightarrow> addr \<Rightarrow> addr \<Rightarrow> (vmap_t \<times> bool) res" where
  "vmap_flag f v vid vaddress = bindE (vmap_get_pte v vid vaddress) (\<lambda>(v, pte). Inr (v, pte AND f \<noteq> 0))"

definition vmap_ismapped :: "vmap_t \<Rightarrow> addr \<Rightarrow> addr \<Rightarrow> (vmap_t \<times> bool) res" where
  "vmap_ismapped = vmap_flag 1"
definition vmap_iswriteable :: "vmap_t \<Rightarrow> addr \<Rightarrow> addr \<Rightarrow> (vmap_t \<times> bool) res" where
  "vmap_iswriteable = vmap_flag 2"
definition vmap_isuser :: "vmap_t \<Rightarrow> addr \<Rightarrow> addr \<Rightarrow> (vmap_t \<times> bool) res" where
  "vmap_isuser = vmap_flag 4"

definition vmap_unmap :: "nat \<Rightarrow> mmap \<times> vmap_t \<Rightarrow> addr \<Rightarrow> addr \<Rightarrow> (mmap \<times> vmap_t) res" where
  "vmap_unmap n s vid vaddress = vmap_set_pte n s vid vaddress 0"

subsection \<open>Entries\<close>

lemma bit_make_pte:
  "bit (make_pte page rw user) n \<longleftrightarrow>
     n < 32 \<and> (n = 0 \<or> n = 1 \<and> rw \<or> n = 2 \<and> user \<or> 12 \<le> n \<and> bit page (n - 12))"
proof -
  have e: "bit (2 :: u32) n \<longleftrightarrow> n = 1" "bit (4 :: u32) n \<longleftrightarrow> n = 2"
    using bit_exp_iff [of 1 n, where ?'a = u32] bit_exp_iff [of 2 n, where ?'a = u32] by auto
  have b: "bit (make_pte page rw user) n \<longleftrightarrow> (bit (push_bit 12 page) n \<or> n = 0) \<or> n = 1 \<and> rw \<or> n = 2 \<and> user"
    unfolding make_pte_def Let_def by (cases rw; cases user) (simp_all only: if_True if_False bit_or_iff e bit_1_iff simp_thms disj_assoc)
  show ?thesis unfolding b by (auto simp: bit_push_bit_iff)
qed

lemma and_pow_nz: "(w :: u32) AND 2 ^ n \<noteq> 0 \<longleftrightarrow> bit w n"
  using and_exp_eq_0_iff_not_bit [of w n] by simp

lemma make_pte_flags:
  "make_pte page rw user AND 1 \<noteq> 0" "make_pte page rw user AND 2 \<noteq> 0 \<longleftrightarrow> rw" "make_pte page rw user AND 4 \<noteq> 0 \<longleftrightarrow> user"
  using and_pow_nz [of "make_pte page rw user" 0] and_pow_nz [of "make_pte page rw user" 1] and_pow_nz [of "make_pte page rw user" 2]
  by (simp_all add: bit_make_pte)

lemma small_bit:
  assumes "unat (w :: u32) < 2 ^ 20" "bit w n"
  shows "n < 20"
proof (rule ccontr)
  assume "\<not> n < 20"
  then have "(2 :: nat) ^ 20 \<le> 2 ^ n" by (intro power_increasing) auto
  moreover have "2 ^ n \<le> unat w"
  proof -
    have "bit (unat w) n" using assms(2) by (simp add: bit_unsigned_iff)
    then have "odd (unat w div 2 ^ n)" by (simp add: bit_iff_odd)
    then show ?thesis by (metis div_less dvd_0_right not_less)
  qed
  ultimately show False using assms(1) by linarith
qed

lemma make_pte_page: "unat page < 2 ^ 20 \<Longrightarrow> drop_bit 12 (make_pte page rw user) = page"
proof (rule bit_eqI)
  fix n assume a: "unat page < 2 ^ 20"
  show "bit (drop_bit 12 (make_pte page rw user)) n \<longleftrightarrow> bit page n"
    using small_bit [OF a, of n] by (auto simp: bit_drop_bit_eq bit_make_pte)
qed

lemma radix_1024: "e < 1024 \<Longrightarrow> (1024 * a + e) div 1024 = a" "e < 1024 \<Longrightarrow> (1024 * a + e) mod 1024 = (e :: nat)"
  by simp_all

subsection \<open>Well-formed page tables\<close>

definition tbl :: "vmap_t \<Rightarrow> (nat \<Rightarrow> u32) \<Rightarrow> nat \<Rightarrow> u32" where
  "tbl v D e = drop_bit 12 (vm_phys v (D 0) e)"

definition has_tbl :: "vmap_t \<Rightarrow> (nat \<Rightarrow> u32) \<Rightarrow> nat \<Rightarrow> bool" where
  "has_tbl v D e \<longleftrightarrow> vm_phys v (D 0) e AND 1 \<noteq> 0"

definition vm_ok :: "mmap \<Rightarrow> vmap_t \<Rightarrow> (nat \<Rightarrow> u32) \<Rightarrow> bool" where
  "vm_ok mm v D \<longleftrightarrow>
     (\<forall>i<8. D i \<noteq> 0 \<and> unat (D i) < 2 ^ 20 \<and> D i \<notin> free_pages mm) \<and> (\<forall>i<8. \<forall>j<8. D i = D j \<longrightarrow> i = j) \<and>
     (\<exists>c<8. vm_cr3 v = D c) \<and>
     (\<forall>i<8. \<forall>j<8. vm_phys v (D i) (1016 + j) = make_pte (D j) True False) \<and>
     (\<forall>p\<in>free_pages mm. unat p < 2 ^ 20) \<and>
     (\<forall>e<1016. has_tbl v D e \<longrightarrow> tbl v D e \<noteq> 0 \<and> tbl v D e \<notin> D ` {..<8} \<and> tbl v D e \<notin> free_pages mm) \<and>
     (\<forall>e<1016. \<forall>f<1016. has_tbl v D e \<and> has_tbl v D f \<and> tbl v D e = tbl v D f \<longrightarrow> e = f)"

lemma vm_ok_D:
  assumes "vm_ok mm v D"
  shows "i < 8 \<Longrightarrow> D i \<noteq> 0" "i < 8 \<Longrightarrow> unat (D i) < 2 ^ 20" "i < 8 \<Longrightarrow> D i \<notin> free_pages mm"
    "i < 8 \<Longrightarrow> j < 8 \<Longrightarrow> D i = D j \<Longrightarrow> i = j"
    "\<exists>c<8. vm_cr3 v = D c" "i < 8 \<Longrightarrow> j < 8 \<Longrightarrow> vm_phys v (D i) (1016 + j) = make_pte (D j) True False"
    "p \<in> free_pages mm \<Longrightarrow> unat p < 2 ^ 20"
    "e < 1016 \<Longrightarrow> has_tbl v D e \<Longrightarrow> tbl v D e \<noteq> 0" "e < 1016 \<Longrightarrow> has_tbl v D e \<Longrightarrow> tbl v D e \<notin> D ` {..<8}"
    "e < 1016 \<Longrightarrow> has_tbl v D e \<Longrightarrow> tbl v D e \<notin> free_pages mm"
    "e < 1016 \<Longrightarrow> f < 1016 \<Longrightarrow> has_tbl v D e \<Longrightarrow> has_tbl v D f \<Longrightarrow> tbl v D e = tbl v D f \<Longrightarrow> e = f"
  using assms unfolding vm_ok_def by blast+

text \<open>The self-mapping: element \<open>2 ^ 20 * i + vp\<close> of \<^verbatim>\<open>pgtbls\<close> is entry \<open>vp mod 1024\<close> of the table of the directory \<open>i\<close>.\<close>

lemma pt_page_ok:
  assumes "vm_ok mm v D" "i < 8" "vp < 2 ^ 20"
  shows "pt_page v (2 ^ 20 * i + vp) =
    (let pte = vm_phys v (D i) (vp div 1024) in if pte AND 1 = 0 then Inl BadAccess else Inr (drop_bit 12 pte))"
proof -
  obtain c where c: "c < 8" "vm_cr3 v = D c" using vm_ok_D(5) [OF assms(1)] by blast
  define e where "e = vp div 1024"
  have e: "e < 1024" using assms(3) by (auto simp: e_def)
  have "(2 ^ 20 * i + vp) div 1024 = 1024 * i + e" by (simp add: e_def)
  then have k: "0xfe000 + (2 ^ 20 * i + vp) div 1024 = 1024 * (1016 + i) + e" by simp
  have k1: "(1024 * (1016 + i) + e) div 1024 = 1016 + i" "(1024 * (1016 + i) + e) mod 1024 = e" "1024 * (1016 + i) + e < 2 ^ 20"
    using radix_1024 [OF e] e assms(2) by (blast, blast, simp)
  have pde: "vm_phys v (D c) (1016 + i) = make_pte (D i) True False" using vm_ok_D(6) [OF assms(1) c(1) assms(2)] .
  show ?thesis unfolding pt_page_def k k1 Let_def c(2) pde make_pte_page [OF vm_ok_D(2) [OF assms(1,2)]] e_def [symmetric]
    using make_pte_flags(1) [of "D i" True False] k1(3) by simp
qed

lemma get_tbl:
  assumes "vm_ok mm v D" "vp < 2 ^ 20"
  shows "get_page_at v 0 (pgtbls_page vp) =
    Inr (v, if has_tbl v D (vp div 1024) then tbl v D (vp div 1024) else 0)"
proof -
  define e where "e = vp div 1024"
  have e: "e < 1024" using assms(2) by (auto simp: e_def)
  have k: "(0xfe000 + e) div 1024 = 1016" "(0xfe000 + e) mod 1024 = e" "0xfe000 + e < 2 ^ 20"
    using radix_1024 [OF e, of 1016] e by simp_all
  have "vm_phys v (D 0) (1016 + 0) = make_pte (D 0) True False" by (rule vm_ok_D(6) [OF assms(1)]) simp_all
  then have self: "vm_phys v (D 0) 1016 = make_pte (D 0) True False" by simp
  have u: "unat (D 0) < 2 ^ 20" by (rule vm_ok_D(2) [OF assms(1)]) simp
  have "pt_page v (2 ^ 20 * 0 + (0xfe000 + e)) = Inr (D 0)"
    unfolding pt_page_ok [OF assms(1) zero_less_numeral k(3)] k Let_def self make_pte_page [OF u] using make_pte_flags(1) [of "D 0" True False] by simp
  then have "pt_page v (0xfe000 + e) = Inr (D 0)" by simp
  then show ?thesis
    unfolding get_page_at_def vmap_get_pgtable_def pgtbls_page_def e_def [symmetric]
    by (simp add: pt_read_def k has_tbl_def tbl_def)
qed

lemma pt_write_dir:
  assumes "vm_ok mm v D" "i < 8" "vp < 2 ^ 20"
  shows "pt_write v (pgtbls_page (2 ^ 20 * i + vp)) pte =
    Inr (v\<lparr>vm_phys := (vm_phys v)(D i := (vm_phys v (D i))(vp div 1024 := pte))\<rparr>)"
proof -
  define e where "e = vp div 1024"
  have e: "e < 1024" using assms(3) by (auto simp: e_def)
  have "(2 ^ 20 * i + vp) div 1024 = 1024 * i + e" by (simp add: e_def)
  then have pg: "pgtbls_page (2 ^ 20 * i + vp) = 1024 * (1016 + i) + e" by (simp add: pgtbls_page_def)
  have k: "(1024 * (1016 + i) + e) div 1024 = 1016 + i" "(1024 * (1016 + i) + e) mod 1024 = e" "1024 * (1016 + i) + e < 2 ^ 20"
    using radix_1024 [OF e] e assms(2) by (blast, blast, simp)
  have self: "vm_phys v (D 0) (1016 + i) = make_pte (D i) True False" by (rule vm_ok_D(6) [OF assms(1)]) (use assms(2) in simp_all)
  have "pt_page v (2 ^ 20 * 0 + (1024 * (1016 + i) + e)) = Inr (D i)"
    unfolding pt_page_ok [OF assms(1) zero_less_numeral k(3)] k Let_def self make_pte_page [OF vm_ok_D(2) [OF assms(1,2)]]
    using make_pte_flags(1) [of "D i" True False] by simp
  then have "pt_page v (1024 * (1016 + i) + e) = Inr (D i)" by simp
  then show ?thesis unfolding pg pt_write_def k e_def [symmetric] by simp
qed

definition store :: "u32 \<Rightarrow> nat \<Rightarrow> u32 \<Rightarrow> vmap_t \<Rightarrow> vmap_t" where
  "store p e x v = v\<lparr>vm_phys := (vm_phys v)(p := (vm_phys v p)(e := x))\<rparr>"

lemma store_simps [simp]:
  "vm_phys (store p e x v) q f = (if q = p \<and> f = e then x else vm_phys v q f)"
  "vm_cr3 (store p e x v) = vm_cr3 v" "vm_asids (store p e x v) = vm_asids v"
  by (simp_all add: store_def)

text \<open>A page that no table, directory or free page is.\<close>

definition new_tbl :: "mmap \<Rightarrow> vmap_t \<Rightarrow> (nat \<Rightarrow> u32) \<Rightarrow> nat \<Rightarrow> u32 \<Rightarrow> bool" where
  "new_tbl mm v D e pg \<longleftrightarrow> pg \<noteq> 0 \<and> unat pg < 2 ^ 20 \<and> pg \<notin> D ` {..<8} \<and> pg \<notin> free_pages mm \<and>
     (\<forall>f<1016. f \<noteq> e \<and> has_tbl v D f \<longrightarrow> tbl v D f \<noteq> pg)"

lemma dir_update:
  assumes "vm_ok mm v D" "i < 8" "e < 1016" "new_tbl mm v D e pg" "v' = store (D i) e (make_pte pg True False) v"
  shows "vm_ok mm v' D" "new_tbl mm v' D e pg" "i = 0 \<Longrightarrow> has_tbl v' D e \<and> tbl v' D e = pg"
    "i \<noteq> 0 \<Longrightarrow> has_tbl v' D = has_tbl v D \<and> tbl v' D = tbl v D"
proof -
  have inj: "D j = D i \<longleftrightarrow> j = i" if "j < 8" for j using vm_ok_D(4) [OF assms(1)] assms(2) that by metis
  have pg: "pg \<noteq> 0" "unat pg < 2 ^ 20" "pg \<notin> D ` {..<8}" "pg \<notin> free_pages mm" "\<And>f. f < 1016 \<Longrightarrow> f \<noteq> e \<Longrightarrow> has_tbl v D f \<Longrightarrow> tbl v D f \<noteq> pg"
    using assms(4) by (auto simp: new_tbl_def)
  have ph: "vm_phys v' (D j) f = (if j = i \<and> f = e then make_pte pg True False else vm_phys v (D j) f)" if "j < 8" for j f
    using inj [OF that] by (simp add: assms(5))
  have t0: "has_tbl v' D f = (if i = 0 \<and> f = e then True else has_tbl v D f)" "tbl v' D f = (if i = 0 \<and> f = e then pg else tbl v D f)" for f
    using ph [of 0 f] make_pte_flags(1) [of pg True False] make_pte_page [OF pg(2)] by (auto simp: has_tbl_def tbl_def)
  then show "i = 0 \<Longrightarrow> has_tbl v' D e \<and> tbl v' D e = pg" "i \<noteq> 0 \<Longrightarrow> has_tbl v' D = has_tbl v D \<and> tbl v' D = tbl v D"
    by (auto simp: fun_eq_iff)
  show "new_tbl mm v' D e pg" using assms(4) unfolding new_tbl_def t0 by auto
  have self: "vm_phys v' (D j) (1016 + k) = make_pte (D k) True False" if "j < 8" "k < 8" for j k
    using ph [OF that(1), of "1016 + k"] vm_ok_D(6) [OF assms(1) that] assms(3) by simp
  have tb: "tbl v' D f \<noteq> 0 \<and> tbl v' D f \<notin> D ` {..<8} \<and> tbl v' D f \<notin> free_pages mm" if "f < 1016" "has_tbl v' D f" for f
  proof (cases "i = 0 \<and> f = e")
    case True
    then show ?thesis using pg by (simp add: t0)
  next
    case False
    then have "has_tbl v D f" "tbl v' D f = tbl v D f" using that(2) unfolding t0 by auto
    then show ?thesis using vm_ok_D(8-10) [OF assms(1) that(1)] by simp
  qed
  have tj: "f = g" if "f < 1016" "g < 1016" "has_tbl v' D f" "has_tbl v' D g" "tbl v' D f = tbl v' D g" for f g
  proof (rule ccontr)
    assume ne: "f \<noteq> g"
    show False
    proof (cases "i = 0 \<and> (f = e \<or> g = e)")
      case True
      then show False using that ne pg(5) [of f] pg(5) [of g] unfolding t0 by auto
    next
      case False
      then have "has_tbl v D f" "has_tbl v D g" "tbl v D f = tbl v D g" using that(3-5) unfolding t0 by (auto split: if_splits)
      then show False using vm_ok_D(11) [OF assms(1) that(1,2)] ne by blast
    qed
  qed
  have cr: "vm_cr3 v' = vm_cr3 v" by (simp add: assms(5))
  show "vm_ok mm v' D"
    unfolding vm_ok_def cr using vm_ok_D(1-5,7) [OF assms(1)] self tb tj by blast
qed

lemma set_dir_entry:
  assumes "vm_ok mm v D" "i < 8" "vp < 0xfe000"
  shows "set_pte_at (Suc n) (mm, v) 0 (pgtbls_page (ARCH_PAGE_TABLE_SIZE * i + vp)) pte = Inr (mm, store (D i) (vp div 1024) pte v)"
proof -
  define e where "e = vp div 1024"
  have e: "e < 1016" using assms(3) by (auto simp: e_def)
  have "(2 ^ 20 * i + vp) div 1024 = 1024 * i + e" by (simp add: e_def)
  then have pg: "pgtbls_page (2 ^ 20 * i + vp) = 1024 * (1016 + i) + e" by (simp add: pgtbls_page_def)
  have lt: "1024 * (1016 + i) + e < 2 ^ 20" using e assms(2) by simp
  have dv: "(1024 * (1016 + i) + e) div 1024 = 1016 + i" using radix_1024(1) [of e "1016 + i"] e by linarith
  have self: "vm_phys v (D 0) (1016 + i) = make_pte (D i) True False" by (rule vm_ok_D(6) [OF assms(1)]) (use assms(2) in simp_all)
  have "has_tbl v D (1016 + i)" "tbl v D (1016 + i) = D i" "D i \<noteq> 0"
    unfolding has_tbl_def tbl_def self make_pte_page [OF vm_ok_D(2) [OF assms(1,2)]]
    using make_pte_flags(1) vm_ok_D(1) [OF assms(1,2)] by auto
  then have g: "get_page_at v 0 (pgtbls_page (pgtbls_page (2 ^ 20 * i + vp))) = Inr (v, D i)" "D i \<noteq> 0"
    using get_tbl [OF assms(1) lt] unfolding pg dv by auto
  have "vp < 2 ^ 20" using assms(3) by simp
  from pt_write_dir [OF assms(1,2) this, of pte]
  have w: "pt_write v (0 + pgtbls_page (2 ^ 20 * i + vp)) pte = Inr (store (D i) e pte v)" by (simp add: store_def e_def)
  show ?thesis unfolding ARCH_PAGE_TABLE_SIZE_def e_def [symmetric] using g w by (simp add: vmap_get_pgtable_def)
qed

lemma set_all_dirs:
  assumes "vm_ok mm v D" "vp < 0xfe000" "new_tbl mm v D (vp div 1024) pg" "k \<le> 8"
  shows "\<exists>v'. fold (\<lambda>i r. bindE r (\<lambda>s. set_pte_at (Suc n) s 0 (pgtbls_page (ARCH_PAGE_TABLE_SIZE * i + vp)) (make_pte pg True False)))
      [0..<k] (Inr (mm, v)) = Inr (mm, v') \<and> vm_ok mm v' D \<and> new_tbl mm v' D (vp div 1024) pg \<and>
      (0 < k \<longrightarrow> has_tbl v' D (vp div 1024) \<and> tbl v' D (vp div 1024) = pg) \<and>
      (\<forall>p f. p \<notin> D ` {..<8} \<or> f \<noteq> vp div 1024 \<longrightarrow> vm_phys v' p f = vm_phys v p f)"
  using assms(4)
proof (induction k)
  case 0
  then show ?case using assms by simp
next
  case (Suc k)
  let ?e = "vp div 1024"
  have k: "k < 8" "?e < 1016" using Suc.prems assms(2) by auto
  from Suc obtain v1 where IH: "fold (\<lambda>i r. bindE r (\<lambda>s. set_pte_at (Suc n) s 0 (pgtbls_page (ARCH_PAGE_TABLE_SIZE * i + vp)) (make_pte pg True False)))
      [0..<k] (Inr (mm, v)) = Inr (mm, v1)" "vm_ok mm v1 D" "new_tbl mm v1 D ?e pg" "0 < k \<longrightarrow> has_tbl v1 D ?e \<and> tbl v1 D ?e = pg"
      "\<forall>p f. p \<notin> D ` {..<8} \<or> f \<noteq> ?e \<longrightarrow> vm_phys v1 p f = vm_phys v p f" by auto
  define v2 where "v2 = store (D k) ?e (make_pte pg True False) v1"
  note u = dir_update [OF IH(2) k(1,2) IH(3) v2_def]
  have "has_tbl v2 D ?e \<and> tbl v2 D ?e = pg" using u(3,4) IH(4) by (cases "k = 0") auto
  moreover have "\<forall>p f. p \<notin> D ` {..<8} \<or> f \<noteq> ?e \<longrightarrow> vm_phys v2 p f = vm_phys v p f" using IH(5) k(1) by (auto simp: v2_def)
  ultimately show ?case using IH(1) set_dir_entry [OF IH(2) k(1) assms(2), of n "make_pte pg True False"] u(1,2)
    by (simp add: v2_def)
qed

subsection \<open>Mapping and looking up\<close>

lemma write_entry:
  fixes pte :: u32
  assumes "vm_ok mm v D" "vp < 0xfe000" "has_tbl v D (vp div 1024)"
  defines "v' \<equiv> store (tbl v D (vp div 1024)) (vp mod 1024) pte v"
  shows "pt_write v (0 + vp) pte = Inr v'" "vm_ok mm v' D" "has_tbl v' D = has_tbl v D" "tbl v' D = tbl v D"
proof -
  let ?e = "vp div 1024"
  have e: "?e < 1016" "vp < 2 ^ 20" using assms(2) by auto
  have "pt_page v (2 ^ 20 * 0 + vp) = Inr (tbl v D ?e)"
    unfolding pt_page_ok [OF assms(1) zero_less_numeral e(2)] using assms(3) by (simp add: has_tbl_def tbl_def Let_def)
  then show "pt_write v (0 + vp) pte = Inr v'" by (simp add: pt_write_def v'_def store_def)
  have nd: "D i \<noteq> tbl v D ?e" if "i < 8" for i 
    using vm_ok_D(9) [OF assms(1) e(1) assms(3)] that by (metis imageI lessThan_iff)
  then have ph: "vm_phys v' (D i) f = vm_phys v (D i) f" if "i < 8" for i f using that by (simp add: v'_def)
  show h: "has_tbl v' D = has_tbl v D" "tbl v' D = tbl v D" using ph [of 0] by (simp_all add: fun_eq_iff has_tbl_def tbl_def)
  have cr: "vm_cr3 v' = vm_cr3 v" by (simp add: v'_def)
  show "vm_ok mm v' D" using assms(1) ph unfolding vm_ok_def cr h by simp
qed

lemma read_entry:
  assumes "vm_ok mm v D" "vp < 0xfe000"
  shows "pt_read v (0 + vp) = (if has_tbl v D (vp div 1024) then Inr (vm_phys v (tbl v D (vp div 1024)) (vp mod 1024)) else Inl BadAccess)"
proof -
  have e: "vp < 2 ^ 20" using assms(2) by auto
  have "pt_page v (2 ^ 20 * 0 + vp) = (if has_tbl v D (vp div 1024) then Inr (tbl v D (vp div 1024)) else Inl BadAccess)"
    unfolding pt_page_ok [OF assms(1) zero_less_numeral e] by (simp add: has_tbl_def tbl_def Let_def)
  then show ?thesis by (simp add: pt_read_def)
qed

lemma get_pte_ok:
  assumes "vm_ok mm v D" "unat (drop_bit 12 va) = vp" "vp < 0xfe000"
  shows "vmap_get_pte v 0 va =
    Inr (v, if has_tbl v D (vp div 1024) then vm_phys v (tbl v D (vp div 1024)) (vp mod 1024) else 0)"
proof -
  have e: "vp div 1024 < 1016" "vp < 2 ^ 20" using assms(3) by auto
  show ?thesis
    using get_tbl [OF assms(1) e(2)] read_entry [OF assms(1,3)] vm_ok_D(8) [OF assms(1) e(1)]
    by (simp add: vmap_get_pte_def assms(2) Let_def vmap_get_pgtable_def)
qed

lemma get_page_ok:
  assumes "vm_ok mm v D" "unat (drop_bit 12 va) = vp" "vp < 0xfe000" "has_tbl v D (vp div 1024)"
    "vm_phys v (tbl v D (vp div 1024)) (vp mod 1024) = make_pte page rw user" "unat page < 2 ^ 20"
  shows "vmap_get_page v 0 va = Inr (v, page)"
  using read_entry [OF assms(1,3)] assms(4,5) make_pte_flags(1) [of page rw user] make_pte_page [OF assms(6)]
  by (simp add: vmap_get_page_def assms(2) get_page_at_def vmap_get_pgtable_def)

lemma set_pte_ok:
  assumes "vm_ok mm v D" "mmap_ok mm" "vp < 0xfe000" "has_tbl v D (vp div 1024) \<or> free_pages mm \<noteq> {}"
  shows "\<exists>mm' v'. set_pte_at (Suc (Suc n)) (mm, v) 0 vp pte = Inr (mm', v') \<and> mmap_ok mm' \<and> vm_ok mm' v' D \<and>
    has_tbl v' D (vp div 1024) \<and> vm_phys v' (tbl v' D (vp div 1024)) (vp mod 1024) = pte \<and>
    (\<forall>vp'<0xfe000. vp' \<noteq> vp \<and> has_tbl v D (vp' div 1024) \<longrightarrow> has_tbl v' D (vp' div 1024) \<and>
       vm_phys v' (tbl v' D (vp' div 1024)) (vp' mod 1024) = vm_phys v (tbl v D (vp' div 1024)) (vp' mod 1024))"
proof -
  let ?e = "vp div 1024"
  have e: "?e < 1016" "vp < 2 ^ 20" using assms(3) by auto
  have "\<exists>mm' v1. mmap_ok mm' \<and> vm_ok mm' v1 D \<and> has_tbl v1 D ?e \<and>
      (\<forall>f<1016. has_tbl v D f \<longrightarrow> has_tbl v1 D f \<and> tbl v1 D f = tbl v D f \<and> (\<forall>g. vm_phys v1 (tbl v D f) g = vm_phys v (tbl v D f) g)) \<and>
      set_pte_at (Suc (Suc n)) (mm, v) 0 vp pte = bindE (pt_write v1 (0 + vp) pte) (\<lambda>v. Inr (mm', v))"
  proof (cases "has_tbl v D ?e")
    case True
    then show ?thesis using assms(1,2) get_tbl [OF assms(1) e(2)] vm_ok_D(8) [OF assms(1) e(1) True]
      by (intro exI [of _ mm] exI [of _ v]) (simp add: vmap_get_pgtable_def)
  next
    case False
    obtain mm' pg where pa: "page_alloc mm = Inr (mm', pg)" "mmap_ok mm'" "pg \<in> free_pages mm" "free_pages mm' = free_pages mm - {pg}"
      using page_alloc_ok [OF assms(2)] assms(4) False by auto
    have ok: "vm_ok mm' v D" using assms(1) unfolding vm_ok_def pa(4) by blast
    have "pg \<noteq> 0" using pa(3) free_pages_sub [OF assms(2)] all_pages_nz [OF assms(2)] by auto
    moreover have "pg \<notin> D ` {..<8}" using vm_ok_D(3) [OF assms(1)] pa(3) by auto
    moreover have "tbl v D f \<noteq> pg" if "f < 1016" "has_tbl v D f" for f using vm_ok_D(10) [OF assms(1) that] pa(3) by auto
    ultimately have nt: "new_tbl mm' v D ?e pg" using vm_ok_D(7) [OF assms(1) pa(3)] pa(4) by (auto simp: new_tbl_def)
    obtain v1 where v1: "fold (\<lambda>i r. bindE r (\<lambda>s. set_pte_at (Suc n) s 0 (pgtbls_page (ARCH_PAGE_TABLE_SIZE * i + vp)) (make_pte pg True False)))
        [0..<8] (Inr (mm', v)) = Inr (mm', v1)" "vm_ok mm' v1 D" "has_tbl v1 D ?e"
        "\<forall>p f. p \<notin> D ` {..<8} \<or> f \<noteq> ?e \<longrightarrow> vm_phys v1 p f = vm_phys v p f"
      using set_all_dirs [OF ok assms(3) nt, of 8 n] by auto
    have fr: "has_tbl v1 D f \<and> tbl v1 D f = tbl v D f \<and> (\<forall>g. vm_phys v1 (tbl v D f) g = vm_phys v (tbl v D f) g)"
      if "f < 1016" "has_tbl v D f" for f
    proof -
      have "f \<noteq> ?e" using False that(2) by auto
      then have "has_tbl v1 D f" "tbl v1 D f = tbl v D f" using v1(4) that(2) by (auto simp: has_tbl_def tbl_def)
      then show ?thesis using v1(4) vm_ok_D(9) [OF assms(1) that] by blast
    qed
    have run: "set_pte_at (Suc (Suc n)) (mm, v) 0 vp pte = bindE (pt_write v1 (0 + vp) pte) (\<lambda>v. Inr (mm', v))"
      using get_tbl [OF assms(1) e(2)] False pa(1) v1(1)
      by (subst set_pte_at.simps) (simp add: vmap_get_pgtable_def ASID_COUNT_def del: set_pte_at.simps upt_rec_numeral)
    then show ?thesis using pa(2) v1(2,3) fr by blast
  qed
  then obtain mm' v1 where s1: "mmap_ok mm'" "vm_ok mm' v1 D" "has_tbl v1 D ?e"
      "\<forall>f<1016. has_tbl v D f \<longrightarrow> has_tbl v1 D f \<and> tbl v1 D f = tbl v D f \<and> (\<forall>g. vm_phys v1 (tbl v D f) g = vm_phys v (tbl v D f) g)"
      "set_pte_at (Suc (Suc n)) (mm, v) 0 vp pte = bindE (pt_write v1 (0 + vp) pte) (\<lambda>v. Inr (mm', v))" by blast
  define v2 where "v2 = store (tbl v1 D ?e) (vp mod 1024) pte v1"
  note w = write_entry [OF s1(2) assms(3) s1(3), of pte, folded v2_def]
  have "vm_phys v2 (tbl v2 D ?e) (vp mod 1024) = pte" unfolding w(4) by (simp add: v2_def)
  moreover have "has_tbl v2 D (q div 1024) \<and> vm_phys v2 (tbl v2 D (q div 1024)) (q mod 1024) = vm_phys v (tbl v D (q div 1024)) (q mod 1024)"
    if q: "q < 0xfe000" "q \<noteq> vp" "has_tbl v D (q div 1024)" for q
  proof -
    have f: "q div 1024 < 1016" using q(1) by auto
    have h: "has_tbl v1 D (q div 1024)" "tbl v1 D (q div 1024) = tbl v D (q div 1024)"
      "\<forall>g. vm_phys v1 (tbl v D (q div 1024)) g = vm_phys v (tbl v D (q div 1024)) g" using s1(4) f q(3) by auto
    have "\<not> (tbl v1 D (q div 1024) = tbl v1 D ?e \<and> q mod 1024 = vp mod 1024)"
      using vm_ok_D(11) [OF s1(2) f e(1) h(1) s1(3)] q(2) by (metis div_mult_mod_eq)
    then show ?thesis using h unfolding w(3,4) by (auto simp: v2_def)
  qed
  ultimately show ?thesis using s1(1,3,5) w by auto
qed

text \<open>Whatever page allocation keeps, setting an entry keeps.\<close>

lemma set_pte_keeps:
  assumes step: "\<And>mm mm' p. Q mm \<Longrightarrow> page_alloc mm = Inr (mm', p) \<Longrightarrow> Q mm'"
  shows "set_pte_at n s vid vp pte = Inr s' \<Longrightarrow> Q (fst s) \<Longrightarrow> Q (fst s')"
proof (induction n arbitrary: s vid vp pte s')
  case (Suc n)
  let ?step = "\<lambda>pg i r. bindE r (\<lambda>s. set_pte_at n s 0 (pgtbls_page (ARCH_PAGE_TABLE_SIZE * i + vp)) (make_pte pg True False))"
  have st: "Q (fst s2)" if "fold (?step pg) is r = Inr s2" "\<forall>s1. r = Inr s1 \<longrightarrow> Q (fst s1)" for pg "is" r s2
    using that
  proof (induction "is" arbitrary: r)
    case (Cons i "is")
    have f: "fold (?step pg) is (?step pg i r) = Inr s2" using Cons.prems(1) by simp
    have "Q (fst s1)" if "?step pg i r = Inr s1" for s1
    proof -
      obtain s0 where "r = Inr s0" "set_pte_at n s0 0 (pgtbls_page (ARCH_PAGE_TABLE_SIZE * i + vp)) (make_pte pg True False) = Inr s1"
        using \<open>?step pg i r = Inr s1\<close> unfolding bindE_Inr_iff by blast
      then show ?thesis using Suc.IH Cons.prems(2) by blast
    qed
    then show ?case using Cons.IH [OF f] by blast
  qed simp
  obtain v t v1 tb mm2 v2 v3 where r: "vmap_get_pgtable (snd s) vid = Inr (v, t)" "get_page_at v vid (pgtbls_page vp) = Inr (v1, tb)"
    "(if tb = 0 then bindE (page_alloc (fst s)) (\<lambda>(mm, page). fold (?step page) [0..<ASID_COUNT] (Inr (mm, v1))) else Inr (fst s, v1)) = Inr (mm2, v2)"
    "s' = (mm2, v3)"
    using Suc.prems(1) by (auto simp: bindE_Inr_iff simp del: if_split)
  show ?case
  proof (cases "tb = 0")
    case True
    then obtain mm pg where pa: "page_alloc (fst s) = Inr (mm, pg)" "fold (?step pg) [0..<ASID_COUNT] (Inr (mm, v1)) = Inr (mm2, v2)"
      using r(3) by (auto simp: bindE_Inr_iff)
    have "Q mm" using step [OF Suc.prems(2) pa(1)] .
    then show ?thesis using st [OF pa(2)] r(4) by simp
  next
    case False
    then show ?thesis using r(3,4) Suc.prems(2) by simp
  qed
qed simp

lemma set_pte_mmap: "set_pte_at n s vid vp pte = Inr s' \<Longrightarrow> mmap_ok (fst s) \<Longrightarrow> mmap_ok (fst s')"
  by (rule set_pte_keeps [where Q = mmap_ok]) (use page_alloc_ok in fastforce)+

lemma set_pte_free:
  assumes "set_pte_at n s vid vp pte = Inr s'" "mmap_ok (fst s)"
  shows "free_pages (fst s') \<subseteq> free_pages (fst s)"
proof -
  let ?Q = "\<lambda>mm. mmap_ok mm \<and> free_pages mm \<subseteq> free_pages (fst s)"
  have "?Q mm'" if "?Q mm" "page_alloc mm = Inr (mm', p)" for mm mm' p
    using page_alloc_ok [of mm] that by (auto split: if_splits)
  then have "?Q (fst s')" by (rule set_pte_keeps [where Q = ?Q, OF _ assms(1)]) (use assms(2) in auto)
  then show ?thesis by blast
qed

definition kernel_mapper :: "nat \<Rightarrow> vmap_t mapper" where
  "kernel_mapper n = (\<lambda>s p page. vmap_map n s 0 p page True False)"

lemma kernel_mapper_ok: "mapper_ok (kernel_mapper n)"
  using set_pte_mmap by (fastforce simp: mapper_ok_def kernel_mapper_def vmap_map_def vmap_set_pte_def)

lemma vmap_map_returns:
  assumes "vm_ok mm v D" "mmap_ok mm" "unat (drop_bit 12 va) < 0xfe000" "1 < n"
    "has_tbl v D (unat (drop_bit 12 va) div 1024) \<or> free_pages mm \<noteq> {}"
  shows "\<exists>mm' v'. vmap_map n (mm, v) 0 va page rw user = Inr (mm', v')"
proof -
  have n: "n = Suc (Suc (n - 2))" using assms(4) by simp
  show ?thesis using set_pte_ok [OF assms(1-3,5), of "n - 2" "make_pte page rw user"] n
    by (metis vmap_map_def vmap_set_pte_def)
qed

subsection \<open>The properties\<close>

definition demo_mm :: mmap where
  "demo_mm = [\<lparr>mm_base = 0x100, mm_count = 40, mm_free = 2, mm_available = bset (bset [0, 0] 5) 6\<rparr>]"

definition demo_dir :: "nat \<Rightarrow> u32" where
  "demo_dir i = 16 + of_nat i"

definition demo_vm :: vmap_t where
  "demo_vm = \<lparr>vm_phys = \<lambda>p e. if 16 \<le> p \<and> p < 24 \<and> 1016 \<le> e then make_pte (demo_dir (e - 1016)) True False else 0,
     vm_cr3 = 16, vm_asids = replicate 8 (0, 0), vm_seq = 0\<rparr>"

lemma demo_mm_ok: "mmap_ok demo_mm" "free_pages demo_mm = {0x105, 0x106}"
proof -
  have f: "free_pages demo_mmap = {}"
    unfolding free_pages_def range_free_def demo_mmap_def by (auto simp: bfree_def nth_Cons')
  obtain mm where r: "page_free demo_mmap 0x105 = Inr mm" "mmap_ok mm" "all_pages mm = all_pages demo_mmap" "free_pages mm = {0x105}"
    using page_free_ok [OF demo_mmap_ok(1,2)] f by auto
  have "(0x106 :: u32) = 0x100 + of_nat 6" by simp
  then have "0x106 \<in> all_pages demo_mmap" unfolding all_pages_def range_pages_def demo_mmap_def page_at_def by fastforce
  then have "0x106 \<in> used_pages mm" using r(3,4) by (simp add: used_pages_def)
  moreover have "mm = [\<lparr>mm_base = 0x100, mm_count = 40, mm_free = 1, mm_available = bset [0, 0] 5\<rparr>]"
    using r(1) by (simp add: demo_mmap_def Let_def)
  moreover have "page_free [\<lparr>mm_base = 0x100, mm_count = 40, mm_free = 1, mm_available = bset [0, 0] 5\<rparr>] 0x106 = Inr demo_mm"
    by (simp add: demo_mm_def Let_def)
  ultimately show "mmap_ok demo_mm" "free_pages demo_mm = {0x105, 0x106}" using page_free_ok [OF r(2), of "0x106"] r(4) by auto
qed

lemma demo_dir_unat: "i < 8 \<Longrightarrow> unat (demo_dir i) = 16 + i"
proof -
  assume "i < 8"
  then have "unat (of_nat i :: u32) = i" by (simp add: unat_of_nat_addr)
  then show ?thesis using \<open>i < 8\<close> by (simp add: demo_dir_def unat_word_ariths)
qed

lemma demo_vm_ok: "vm_ok demo_mm demo_vm demo_dir" "\<not> has_tbl demo_vm demo_dir e \<or> 1016 \<le> e"
proof -
  have r: "16 \<le> demo_dir i \<and> demo_dir i < 24" if "i < 8" for i
    using demo_dir_unat [OF that] that by (simp add: word_le_nat_alt word_less_nat_alt)
  have D: "demo_dir i \<noteq> 0" "unat (demo_dir i) < 2 ^ 20" "demo_dir i \<noteq> 0x105" "demo_dir i \<noteq> 0x106" if "i < 8" for i
    using demo_dir_unat [OF that] that by auto
  have inj: "i = j" if "i < 8" "j < 8" "demo_dir i = demo_dir j" for i j
    using demo_dir_unat that by (metis add_left_cancel)
  show n: "\<not> has_tbl demo_vm demo_dir e \<or> 1016 \<le> e" for e by (auto simp: has_tbl_def demo_vm_def)
  have "vm_cr3 demo_vm = demo_dir 0" by (simp add: demo_vm_def demo_dir_def)
  then have "\<exists>c<8. vm_cr3 demo_vm = demo_dir c" by (intro exI [of _ 0]) simp
  moreover have "vm_phys demo_vm (demo_dir i) (1016 + j) = make_pte (demo_dir j) True False" if "i < 8" for i j
    using r [OF that] by (simp add: demo_vm_def)
  ultimately show "vm_ok demo_mm demo_vm demo_dir"
    unfolding vm_ok_def demo_mm_ok(2) using D inj n by (auto simp: not_le [symmetric])
qed



text \<open>
  In a fresh table of address spaces the kernel, address space 0, has the first of the eight tables, and so has the first other
  address space that asks for one: the map of the kernel's segments, when the kernel's own faults come first.
\<close>

theorem first_asid_is_kernels:
  assumes "vm_asids v = replicate 8 (0, 0)" "vid \<noteq> 0"
  shows "(\<exists>v'. vmap_get_pgtable v vid = Inr (v', 0)) \<and> vmap_get_pgtable v 0 = Inr (v, 0)"
proof -
  have l: "replicate 8 (0 :: addr, 0 :: int) = [(0, 0), (0, 0), (0, 0), (0, 0), (0, 0), (0, 0), (0, 0), (0, 0)]"
    by (simp add: numeral_eq_Suc)
  show ?thesis using assms(2) by (simp add: vmap_get_pgtable_def assms(1) l Let_def ARCH_PAGE_TABLE_SIZE_def)
qed

theorem first_asid_is_kernels_witness:
  "\<exists>v'. vmap_get_pgtable demo_vm 0x5000 = Inr (v', 0)"
  using first_asid_is_kernels [of demo_vm "0x5000"] by (simp add: demo_vm_def)

end
