(* ===== verification/Slab_Malloc.thy ===== *)
theory Slab_Malloc
  imports Slab_Alloc Vmap
begin

text \<open>
  The slabs over the kernel's page heap, whose pages are mapped by \<^verbatim>\<open>vmap_map\<close>, and the general
  allocator over the pools.
\<close>

lemma page_heap_source: "mapper_ok vm \<Longrightarrow> page_source (heap_ok start) (used_heap start) (page_heap_alloc vm)"
proof
  fix h h' p assume a: "mapper_ok vm" "heap_ok start h" "page_heap_alloc vm h = Inr (h', p)"
  note ok = page_heap_alloc_ok [OF a]
  have "p \<in> heap_pages start h'" using ok(3) by (auto simp: used_heap_def)
  then have "4096 dvd unat p" "p \<noteq> 0" using heap_pages_nz [OF ok(1)] by (auto simp: heap_pages_def)
  then show "heap_ok start h' \<and> p \<notin> used_heap start h \<and> used_heap start h' = insert p (used_heap start h) \<and> 4096 dvd unat p \<and> p \<noteq> 0"
    using ok by blast
qed

lemma heap_pointer_page:
  assumes "heap_ok start h" "p \<in> used_heap start h" "4096 dvd unat p" "page_align a = p"
  shows "arch_is_heap_pointer start h a"
proof -
  have p: "start \<le> p" "p < ph_next h" "4096 dvd unat (ph_next h)" using assms(1,2) by (auto simp: used_heap_def heap_pages_def heap_ok_def)
  have a: "unat p = unat a - unat a mod 4096" using unat_page_align [of a] assms(4) by simp
  have "unat p \<le> unat a" "unat a < unat p + 4096" using a by (auto simp: mod_less_divisor intro: less_le_trans [OF _ add_left_mono])
  moreover have "unat p + 4096 \<le> unat (ph_next h)"
    using p(2,3) assms(3) by (auto simp: word_less_nat_alt elim!: dvdE)
  ultimately show ?thesis using p(1) unfolding arch_is_heap_pointer_def word_le_nat_alt word_less_nat_alt by linarith
qed

interpretation kernel_slabs: slab_client "heap_ok start" "used_heap start" "page_heap_alloc (kernel_mapper m)"
  "arch_is_heap_pointer start" n t for start m n t
  by (intro slab_client.intro page_heap_source [OF kernel_mapper_ok] slab_client_axioms.intro) (rule heap_pointer_page)

subsection \<open>The pools\<close>

definition pools_ok :: "addr \<Rightarrow> 'h slab_heap \<Rightarrow> bool" where
  "pools_ok pools s \<longleftrightarrow> (\<forall>i < length pool_sizes. st_esize (sh_type s (pools + 32 * of_nat i)) = pool_sizes ! i)"

lemma malloc_from_skip:
  assumes "\<forall>i<k. st_esize (sh_type s (pool + 32 * of_nat i)) \<le> sz"
  shows "malloc_from n pha s (k + r) pool sz = malloc_from n pha s r (pool + 32 * of_nat k) sz"
  using assms
proof (induction k arbitrary: pool)
  case (Suc k)
  have "st_esize (sh_type s (pool + 32 * of_nat 0)) \<le> sz" using Suc.prems by blast
  then have "\<not> st_esize (sh_type s pool) > sz" by simp
  moreover have "\<forall>i<k. st_esize (sh_type s (pool + 32 + 32 * of_nat i)) \<le> sz"
  proof (intro allI impI)
    fix i assume "i < k"
    then have "st_esize (sh_type s (pool + 32 * of_nat (Suc i))) \<le> sz" using Suc.prems by blast
    then show "st_esize (sh_type s (pool + 32 + 32 * of_nat i)) \<le> sz" by (simp add: algebra_simps)
  qed
  ultimately show ?case using Suc.IH [of "pool + 32"] by (simp add: algebra_simps)
qed simp

text \<open>The pool for a size is the first whose slots are larger.\<close>

lemma malloc_pool:
  assumes "pools_ok pools s" "k < length pool_sizes" "\<forall>i<k. pool_sizes ! i \<le> sz" "sz < pool_sizes ! k"
  shows "malloc n pha pools s sz = slab_alloc n pha s (pools + 32 * of_nat k)"
proof -
  obtain r where r: "length pool_sizes = k + Suc r" using assms(2) less_imp_Suc_add by fastforce
  have "\<forall>i<k. st_esize (sh_type s (pools + 32 * of_nat i)) \<le> sz" using assms(1-3) by (simp add: pools_ok_def)
  moreover have "st_esize (sh_type s (pools + 32 * of_nat k)) > sz" using assms(1,2,4) by (simp add: pools_ok_def)
  ultimately show ?thesis unfolding malloc_def r using malloc_from_skip [of k s pools sz n pha "Suc r"] by simp
qed

lemma malloc_none:
  assumes "pools_ok pools s" "4088 \<le> sz"
  shows "malloc n pha pools s sz = Inl (Throw AllocationTooBigException)"
proof -
  have "pool_sizes ! i \<le> 4088" if "i < length pool_sizes" for i
  proof -
    have "list_all (\<lambda>x. x \<le> 4088) pool_sizes" by (simp add: pool_sizes_def)
    then show ?thesis using that by (simp add: list_all_length)
  qed
  then have "\<forall>i<length pool_sizes. st_esize (sh_type s (pools + 32 * of_nat i)) \<le> sz"
    using assms by (fastforce simp: pools_ok_def)
  from malloc_from_skip [OF this, of n pha 0] show ?thesis by (simp add: malloc_def)
qed

lemma pool_for:
  assumes "sz < 4088"
  shows "\<exists>k < length pool_sizes. (\<forall>i<k. pool_sizes ! i \<le> sz) \<and> sz < pool_sizes ! k"
proof -
  define k where "k = (LEAST i. i < length pool_sizes \<and> sz < pool_sizes ! i)"
  have "17 < length pool_sizes \<and> sz < pool_sizes ! 17" using assms by (simp add: pool_sizes_def)
  then have k: "k < length pool_sizes \<and> sz < pool_sizes ! k" unfolding k_def by (rule LeastI)
  moreover have "pool_sizes ! i \<le> sz" if "i < k" for i
    using not_less_Least [of i "\<lambda>i. i < length pool_sizes \<and> sz < pool_sizes ! i"] that k unfolding k_def by (auto simp: not_less)
  ultimately show ?thesis by blast
qed

lemma pool_counts: "length pool_sizes = 18" "k < 17 \<Longrightarrow> 0 < slab_count (pool_sizes ! k)" "slab_count (pool_sizes ! 17) = 0"
proof -
  show l: "length pool_sizes = 18" by (simp add: pool_sizes_def)
  have "list_all (\<lambda>e. 0 < slab_count e) (butlast pool_sizes)" by (simp add: pool_sizes_def slab_count_def unat_div)
  then have "\<forall>i<17. 0 < slab_count (butlast pool_sizes ! i)" using l by (simp add: list_all_length)
  moreover have "butlast pool_sizes ! k = pool_sizes ! k" if "k < 17" using nth_butlast [of k pool_sizes] l that by simp
  ultimately show "k < 17 \<Longrightarrow> 0 < slab_count (pool_sizes ! k)" by metis
  show "slab_count (pool_sizes ! 17) = 0" by (simp add: pool_sizes_def slab_count_def)
qed

subsection \<open>A heap that is about to be used\<close>

definition demo_heap :: "vmap_t page_heap" where
  "demo_heap = \<lparr>ph_mmap = demo_mm, ph_maps = demo_vm, ph_next = 0x400000, ph_cache = 0, ph_mem = \<lambda>_. 0\<rparr>"

definition demo_slabs :: "vmap_t page_heap slab_heap" where
  "demo_slabs = \<lparr>sh_type = \<lambda>t. \<lparr>st_magic = 0, st_esize = (let i = unat ((t - 0x2000) div 32) in if i < 18 then pool_sizes ! i else 16),
       st_count = 0, st_first = 0, st_mark = None, st_finalize = False\<rparr>,
     sh_slab = \<lambda>_. \<lparr>sl_magic = 0, sl_type = 0, sl_available = [], sl_finalize = [], sl_data = 0\<rparr>,
     sh_links = self_links, sh_tlinks = self_links, sh_types = 0, sh_spin = False, sh_heap = demo_heap, sh_final = []\<rparr>"

lemma demo_heap_ok: "heap_ok 0x400000 demo_heap"
  using demo_mm_ok(1) unfolding heap_ok_def demo_heap_def by (auto intro!: exI [of _ "[]"])

lemma demo_slabs_inv: "slab_inv hused demo_slabs (\<lambda>_. []) []" "used_objs demo_slabs = {}"
  by (simp_all add: slab_inv_def demo_slabs_def used_objs_def used_slots_def)

lemma pool_esize_ok: "k < 18 \<Longrightarrow> esize_ok (pool_sizes ! k)"
proof -
  have "list_all esize_ok pool_sizes" by (simp add: pool_sizes_def esize_ok_def unat_div)
  then show "k < 18 \<Longrightarrow> esize_ok (pool_sizes ! k)" using pool_counts(1) by (simp add: list_all_length)
qed

lemma demo_pool: 
  assumes "k < 18"
  shows "st_esize (sh_type demo_slabs (0x2000 + 32 * of_nat k)) = pool_sizes ! k" "(0x2000 + 32 * of_nat k :: addr) \<noteq> 0"
proof -
  have "unat (32 * of_nat k :: addr) = 32 * k" using assms by (simp add: unat_word_ariths unat_of_nat_addr)
  then have "unat ((32 * of_nat k :: addr) div 32) = k" by (simp add: unat_div)
  then show "st_esize (sh_type demo_slabs (0x2000 + 32 * of_nat k)) = pool_sizes ! k" using assms by (simp add: demo_slabs_def Let_def)
  have "unat (0x2000 + 32 * of_nat k :: addr) = 0x2000 + 32 * k"
    using \<open>unat (32 * of_nat k :: addr) = 32 * k\<close> assms by (simp add: unat_word_ariths)
  then show "(0x2000 + 32 * of_nat k :: addr) \<noteq> 0" by auto
qed

lemma demo_slabs_ok: "k < 18 \<Longrightarrow> slab_ok (heap_ok 0x400000) (used_heap 0x400000) (0x2000 + 32 * of_nat k) demo_slabs"
  using demo_pool [of k] pool_esize_ok [of k] demo_heap_ok demo_slabs_inv(1)
  by (intro slab_okI) (simp_all add: demo_slabs_def)

lemma demo_page: "\<exists>h' p. page_heap_alloc (kernel_mapper 2) demo_heap = Inr (h', p)"
proof -
  have "free_pages demo_mm \<noteq> {}" by (simp add: demo_mm_ok(2))
  then obtain mm pg where pa: "page_alloc demo_mm = Inr (mm, pg)" "mmap_ok mm" "pg \<in> free_pages demo_mm" "free_pages mm = free_pages demo_mm - {pg}"
    using page_alloc_ok [OF demo_mm_ok(1)] by (simp only: if_False) blast
  have fne: "free_pages mm \<noteq> {}" using pa(3,4) unfolding demo_mm_ok(2) by auto
  have ok: "vm_ok mm demo_vm demo_dir" using demo_vm_ok(1) unfolding vm_ok_def pa(4) by blast
  have "unat (drop_bit 12 (0x400000 :: addr)) < 0xfe000" by (simp add: unsigned_drop_bit_eq drop_bit_eq_div)
  from vmap_map_returns [OF ok pa(2) this _ disjI2 [OF fne], of 2 pg True False]
  obtain mm' v' where m: "vmap_map 2 (mm, demo_vm) 0 0x400000 pg True False = Inr (mm', v')" by auto
  show ?thesis using pa(1) m by (simp add: page_heap_alloc_def demo_heap_def arch_heap_page_def bump_def kernel_mapper_def)
qed

lemma demo_alloc:
  assumes "k < 17"
  shows "\<exists>n s' p. slab_alloc n (page_heap_alloc (kernel_mapper 2)) demo_slabs (0x2000 + 32 * of_nat k) = Inr (s', p)"
proof -
  have "\<exists>h' p. page_heap_alloc (kernel_mapper 2) (sh_heap demo_slabs) = Inr (h', p)" using demo_page by (simp add: demo_slabs_def)
  moreover have "0 < slab_count (st_esize (sh_type demo_slabs (0x2000 + 32 * of_nat k)))" using demo_pool(1) [of k] pool_counts(2) [of k] assms by simp
  ultimately show ?thesis using kernel_slabs.slab_alloc_returns [OF demo_slabs_ok [of k]] assms by fastforce
qed

subsection \<open>The properties\<close>



text \<open>
  The layout of a slab. Every object in use lies in the page of its slab, behind the header and the
  two bitmaps, and two different objects in use do not overlap.
\<close>

theorem slab_layout:
  assumes "slab_inv hused s L T" "(p, i) \<in> used_slots s" "(q, j) \<in> used_slots s"
  defines "e \<equiv> unat (st_esize (sh_type s (sl_type (sh_slab s p))))" and "c \<equiv> slots s p"
  shows "unat p + 28 + 8 * ((c + 32) div 32) \<le> unat (obj s p i) \<and> unat (obj s p i) + e \<le> unat p + 4096 \<and>
    ((p, i) \<noteq> (q, j) \<longrightarrow> unat (obj s p i) + e \<le> unat (obj s q j) \<or>
       unat (obj s q j) + unat (st_esize (sh_type s (sl_type (sh_slab s q)))) \<le> unat (obj s p i))"
proof -
  have sl: "\<exists>off c e. unat (obj s r k) = unat r + off + e * k \<and> off = data_offset c \<and> c = slots s r \<and> k < c \<and> c = slab_count (st_esize (sh_type s (sl_type (sh_slab s r)))) \<and>
      e = unat (st_esize (sh_type s (sl_type (sh_slab s r)))) \<and> off + e * k + e \<le> 4096 \<and> 4096 dvd unat r"
    if "(r, k) \<in> used_slots s" for r k
  proof -
    have a: "sl_type (sh_slab s r) \<noteq> 0" "k < slots s r" using that by (auto simp: used_slots_def)
    have r: "r \<in> set (L (sl_type (sh_slab s r)))" using slab_inv_D(8) [OF assms(1) a(1)] .
    note T = slab_inv_in_T [OF assms(1) r]
    note sp = slab_inv_D(7) [OF assms(1) r] and ct = slab_inv_D(4) [OF assms(1) T] and es = slab_inv_D(3) [OF assms(1) T]
    have k: "k < st_count (sh_type s (sl_type (sh_slab s r)))" using a(2) by (simp add: slots_def)
    show ?thesis using obj_at(1) [OF sp ct es k] slot_fits [OF ct k] k ct slab_of_D(7) [OF sp] unfolding slots_def by blast
  qed
  obtain o1 where p: "unat (obj s p i) = unat p + o1 + e * i" "o1 = data_offset c" "o1 + e * i + e \<le> 4096" "4096 dvd unat p" "i < c"
    using sl [OF assms(2)] unfolding e_def c_def by auto
  obtain o2 c2 e2 where q: "unat (obj s q j) = unat q + o2 + e2 * j" "o2 = data_offset c2" "c2 = slots s q" "o2 + e2 * j + e2 \<le> 4096" "4096 dvd unat q"
    "e2 = unat (st_esize (sh_type s (sl_type (sh_slab s q))))" using sl [OF assms(3)] by auto
  have disj: "unat (obj s p i) + e \<le> unat (obj s q j) \<or> unat (obj s q j) + e2 \<le> unat (obj s p i)" if ne: "(p, i) \<noteq> (q, j)"
  proof (cases "p = q")
    case True
    then have "i \<noteq> j" "o1 = o2" "e2 = e" using ne p(2) q(2,3,6) by (auto simp: c_def e_def)
    moreover have "e * i + e \<le> e * j" if "i < j" using that by (metis Suc_leI mult_Suc_right mult_le_mono2 add.commute)
    moreover have "e * j + e \<le> e * i" if "j < i" using that by (metis Suc_leI mult_Suc_right mult_le_mono2 add.commute)
    ultimately show ?thesis using p(1) q(1) True by (cases "i < j") auto
  next
    case False
    then have "unat p \<noteq> unat q" by (simp add: word_unat_eq_iff)
    then have "unat p + 4096 \<le> unat q \<or> unat q + 4096 \<le> unat p" using p(4) q(5) by (auto elim!: dvdE)
    then show ?thesis using p(1,3) q(1,4) by linarith
  qed
  have "unat p + 28 + 8 * ((c + 32) div 32) \<le> unat (obj s p i)" using p(1,2) by (simp add: data_offset_def bitmap_words_def)
  moreover have "unat (obj s p i) + e \<le> unat p + 4096" using p(1,3) by linarith
  ultimately show ?thesis using disj q(6) by blast
qed

theorem slab_layout_witness:
  "\<exists>s p i. (p, i) \<in> used_slots s \<and> unat (obj s p i) + unat (st_esize (sh_type s (sl_type (sh_slab s p)))) \<le> unat p + 4096
     \<and> used_objs (s :: vmap_t page_heap slab_heap) = {obj s p i}"
proof -
  let ?t = "0x2000 + 32 * of_nat 2 :: addr"
  obtain n s q where a: "slab_alloc n (page_heap_alloc (kernel_mapper 2)) demo_slabs ?t = Inr (s, q)"
    using demo_alloc [of 2] by fastforce
  have s: "slab_ok (heap_ok 0x400000) (used_heap 0x400000) ?t s \<and> used_objs s = {q}"
    using kernel_slabs.slab_alloc_ok [OF a demo_slabs_ok] demo_slabs_inv(2) by auto
  then obtain L T where i: "slab_inv (used_heap 0x400000) s L T" by (auto simp: slab_ok_def)
  have "q \<in> used_objs s" using s by simp
  then obtain p i where pi: "(p, i) \<in> used_slots s" "q = obj s p i" by (auto simp: used_objs_def)
  have "unat (obj s p i) + unat (st_esize (sh_type s (sl_type (sh_slab s p)))) \<le> unat p + 4096"
    using slab_layout [OF i pi(1) pi(1)] by blast
  then show ?thesis using pi s by blast
qed

text \<open>
  C15. What malloc does. With every pool well formed, a request of 4088 bytes or more throws whatever
  happens; one of 2044 bytes or more, but less, never returns (the pool it comes to has slabs with no
  slot); every smaller one returns when there is a page to be had, with an object that was not in use.
\<close>

theorem malloc_outcomes:
  assumes "pools_ok pools s" "\<forall>k<18. slab_ok (heap_ok start) (used_heap start) (pools + 32 * of_nat k) s"
    "\<exists>h p. page_heap_alloc (kernel_mapper m) (sh_heap s) = Inr (h, p)"
  shows "(4088 \<le> sz \<longrightarrow> (\<forall>n. malloc n (page_heap_alloc (kernel_mapper m)) pools s sz = Inl (Throw AllocationTooBigException))) \<and>
    (2044 \<le> sz \<and> sz < 4088 \<longrightarrow> (\<forall>n r. malloc n (page_heap_alloc (kernel_mapper m)) pools s sz \<noteq> Inr r)) \<and>
    (sz < 2044 \<longrightarrow> (\<exists>N. \<forall>n\<ge>N. \<exists>s' p. malloc n (page_heap_alloc (kernel_mapper m)) pools s sz = Inr (s', p) \<and>
        p \<notin> used_objs s \<and> used_objs s' = insert p (used_objs s)))"
proof (intro conjI impI allI)
  fix n assume "4088 \<le> sz" then show "malloc n (page_heap_alloc (kernel_mapper m)) pools s sz = Inl (Throw AllocationTooBigException)"
    using malloc_none [OF assms(1)] by blast
next
  fix n r assume sz: "2044 \<le> sz \<and> sz < 4088"
  have "list_all (\<lambda>x. x \<le> 2044) (butlast pool_sizes)" by (simp add: pool_sizes_def)
  then have "\<forall>i<17. pool_sizes ! i \<le> 2044" using pool_counts(1) by (simp add: list_all_length nth_butlast)
  then have "\<forall>i<17. pool_sizes ! i \<le> sz" using sz order_trans by blast
  moreover have "sz < pool_sizes ! 17" using sz by (simp add: pool_sizes_def)
  ultimately have m: "malloc n (page_heap_alloc (kernel_mapper m)) pools s sz = slab_alloc n (page_heap_alloc (kernel_mapper m)) s (pools + 32 * of_nat 17)"
    by (intro malloc_pool [OF assms(1)]) (simp_all add: pool_counts(1))
  have "slab_count (st_esize (sh_type s (pools + 32 * of_nat 17))) = 0"
    using assms(1) [unfolded pools_ok_def pool_counts(1), rule_format, of 17] pool_counts(3) by simp
  then show "malloc n (page_heap_alloc (kernel_mapper m)) pools s sz \<noteq> Inr r"
    unfolding m using assms(2) [rule_format, of 17] by (intro kernel_slabs.slab_alloc_never) simp_all
next
  assume sz: "sz < 2044"
  then have "sz < 4088" by (rule order_less_trans) simp
  then obtain k where k: "k < length pool_sizes" "\<forall>i<k. pool_sizes ! i \<le> sz" "sz < pool_sizes ! k" using pool_for by blast
  have "pool_sizes ! 16 = 2044" by (simp add: pool_sizes_def)
  then have "\<not> 16 < k" using k(2) sz by (metis not_less)
  then have k17: "k < 17" by simp
  have ok: "slab_ok (heap_ok start) (used_heap start) (pools + 32 * of_nat k) s" using assms(2) k17 by simp
  have "0 < slab_count (st_esize (sh_type s (pools + 32 * of_nat k)))" using assms(1) k(1) pool_counts(2) [OF k17] by (simp add: pools_ok_def)
  from kernel_slabs.slab_alloc_returns [OF ok this assms(3)] obtain N where
    N: "\<forall>n\<ge>N. \<exists>s' p. slab_alloc n (page_heap_alloc (kernel_mapper m)) s (pools + 32 * of_nat k) = Inr (s', p)" by blast
  show "\<exists>N. \<forall>n\<ge>N. \<exists>s' p. malloc n (page_heap_alloc (kernel_mapper m)) pools s sz = Inr (s', p) \<and>
        p \<notin> used_objs s \<and> used_objs s' = insert p (used_objs s)"
    unfolding malloc_pool [OF assms(1) k] using N kernel_slabs.slab_alloc_ok [OF _ ok] by meson
qed

theorem malloc_outcomes_witness:
  "\<exists>N. \<forall>n\<ge>N. \<exists>s' p. malloc n (page_heap_alloc (kernel_mapper 2)) 0x2000 demo_slabs 100 = Inr (s', p) \<and> used_objs s' = {p}"
proof -
  have p: "pools_ok 0x2000 demo_slabs" using demo_pool(1) by (simp add: pools_ok_def pool_counts(1))
  have pg: "\<exists>h p. page_heap_alloc (kernel_mapper 2) (sh_heap demo_slabs) = Inr (h, p)" using demo_page by (simp add: demo_slabs_def)
  have "\<forall>k<18. slab_ok (heap_ok 0x400000) (used_heap 0x400000) (0x2000 + 32 * of_nat k) demo_slabs" using demo_slabs_ok by blast
  from malloc_outcomes [OF p this pg, of 100] show ?thesis using demo_slabs_inv(2) by auto
qed

end
