(* ===== verification/Sync.thy ===== *)
theory Sync
  imports Thread Slab_Malloc
begin

text \<open>
  Mutexes and monitors (\<^verbatim>\<open>src/kernel/sync.c\<close>) with the blocking operations of \<^verbatim>\<open>src/kernel/thread.c\<close>.

  A function that calls the scheduler is cut there: what is left to do of it is a frame on the stack of
  frames of its thread, and it runs when the thread is switched to again. Nothing else interleaves: the
  kernel switches threads only in the scheduler. The lock table is a map from addresses to monitors, the
  map that its splay tree stands for; null is no entry. A monitor's mutex is its first field and has its
  address.
\<close>

record mutex_t =
  m_spin :: int
  m_count :: int
  m_owner :: addr
  m_waiting :: addr

datatype mop = MEnter | MLeave | MSignal | MBroadcast | MWait

datatype frame =
    FYield | FExit addr | FJoin0 addr
  | FLock addr | FUnlock addr | FRelock addr
  | FMonitor mop addr | FMonRelock addr int | FMonCount addr int
  | FThread mop addr | FGet mop addr
  | FJoin addr | FRet addr | FSchedule | FExited

record 'h sync =
  ks :: "'h kstate"
  mtx :: "addr \<Rightarrow> mutex_t"
  mon_waiting :: "addr \<Rightarrow> addr"
  locktable :: "addr \<Rightarrow> addr"
  locktablelock :: addr
  frames :: "addr \<Rightarrow> frame list"
  eax :: addr

definition upd_mtx :: "addr \<Rightarrow> (mutex_t \<Rightarrow> mutex_t) \<Rightarrow> 'h sync \<Rightarrow> 'h sync" where
  "upd_mtx m f s = s\<lparr>mtx := (mtx s)(m := f (mtx s m))\<rparr>"

definition sched :: "'h sync \<Rightarrow> ('h kstate \<Rightarrow> 'h kstate res) \<Rightarrow> 'h sync res" where
  "sched s f = bindE (f (ks s)) (\<lambda>k. Inr (s\<lparr>ks := k\<rparr>))"

definition cur :: "'h sync \<Rightarrow> addr" where
  "cur s = arch_get_thread (ks s)"

subsection \<open>Spin locks of mutexes\<close>

definition spin_lock :: "'h sync \<Rightarrow> addr \<Rightarrow> 'h sync res" where
  "spin_lock s m = bindE (arch_spin_lock (mach (ks s)) (m_spin (mtx s m))) (\<lambda>(mc, l).
     Inr (upd_mtx m (\<lambda>x. x\<lparr>m_spin := l\<rparr>) (s\<lparr>ks := (ks s)\<lparr>mach := mc\<rparr>\<rparr>)))"

definition spin_unlock :: "'h sync \<Rightarrow> addr \<Rightarrow> 'h sync" where
  "spin_unlock s m = (case arch_spin_unlock (mach (ks s)) (m_spin (mtx s m)) of (mc, l) \<Rightarrow>
     upd_mtx m (\<lambda>x. x\<lparr>m_spin := l\<rparr>) (s\<lparr>ks := (ks s)\<lparr>mach := mc\<rparr>\<rparr>))"

subsection \<open>Mutexes\<close>

definition thread_lock_signal :: "'h sync \<Rightarrow> addr \<Rightarrow> 'h sync res" where
  "thread_lock_signal s m = (let resume = m_waiting (mtx s m) in
     if resume \<noteq> 0 then bindE (LIST_DELETE (tlinks (ks s)) resume resume) (\<lambda>(lk, q).
       sched (upd_mtx m (\<lambda>x. x\<lparr>m_waiting := q\<rparr>) (s\<lparr>ks := (ks s)\<lparr>tlinks := lk\<rparr>\<rparr>)) (\<lambda>k. thread_resume k resume))
     else Inr s)"

text \<open>Up to the return of the scheduler; the spin lock is taken again in \<open>mutex_relock\<close>.\<close>

definition thread_lock_wait :: "'h sync \<Rightarrow> addr \<Rightarrow> 'h sync res" where
  "thread_lock_wait s m = (case thread_queue (ks s) (m_waiting (mtx s m)) 0 THREAD_SLEEPING of (k, q) \<Rightarrow>
     bindE (thread_lock_signal (upd_mtx m (\<lambda>x. x\<lparr>m_waiting := q\<rparr>) (s\<lparr>ks := k\<rparr>)) m) (\<lambda>s.
     sched (spin_unlock s m) thread_schedule))"

definition mutex_loop :: "'h sync \<Rightarrow> addr \<Rightarrow> ('h sync \<times> frame list) res" where
  "mutex_loop s m = (if m_owner (mtx s m) \<noteq> 0 then bindE (thread_lock_wait s m) (\<lambda>s. Inr (s, [FRelock m]))
     else Inr (spin_unlock (upd_mtx m (\<lambda>x. x\<lparr>m_count := m_count x + 1\<rparr>) s) m, []))"

definition mutex_relock :: "'h sync \<Rightarrow> addr \<Rightarrow> ('h sync \<times> frame list) res" where
  "mutex_relock s m = bindE (spin_lock s m) (\<lambda>s. mutex_loop s m)"

definition mutex_lock :: "'h sync \<Rightarrow> addr \<Rightarrow> ('h sync \<times> frame list) res" where
  "mutex_lock s m = bindE (spin_lock s m) (\<lambda>s.
     let thread = cur s in
     if m_owner (mtx s m) = 0 then
       Inr (spin_unlock (upd_mtx m (\<lambda>x. x\<lparr>m_count := m_count x + 1\<rparr>) (upd_mtx m (\<lambda>x. x\<lparr>m_owner := thread\<rparr>) s)) m, [])
     else if thread \<noteq> m_owner (mtx s m) then mutex_loop s m
     else Inr (spin_unlock (upd_mtx m (\<lambda>x. x\<lparr>m_count := m_count x + 1\<rparr>) s) m, []))"

definition mutex_unlock :: "'h sync \<Rightarrow> addr \<Rightarrow> 'h sync res" where
  "mutex_unlock s m = bindE (spin_lock s m) (\<lambda>s.
     let thread = cur s;
       s = (if thread = m_owner (mtx s m) then
         let s = upd_mtx m (\<lambda>x. x\<lparr>m_count := m_count x - 1\<rparr>) s in
         if m_count (mtx s m) = 0 then upd_mtx m (\<lambda>x. x\<lparr>m_owner := 0\<rparr>) s else s
       else s)
     in Inr (spin_unlock s m))"

subsection \<open>Monitors\<close>

definition monitor_enter :: "'h sync \<Rightarrow> addr \<Rightarrow> ('h sync \<times> frame list) res" where
  "monitor_enter s mon = mutex_lock s mon"

definition monitor_leave :: "'h sync \<Rightarrow> addr \<Rightarrow> 'h sync res" where
  "monitor_leave s mon = mutex_unlock s mon"

definition monitor_wait :: "'h sync \<Rightarrow> addr \<Rightarrow> ('h sync \<times> frame list) res" where
  "monitor_wait s mon = (case thread_queue (ks s) (mon_waiting s mon) 0 THREAD_SLEEPING of (k, q) \<Rightarrow>
     let s = s\<lparr>ks := k, mon_waiting := (mon_waiting s)(mon := q)\<rparr>; count = m_count (mtx s mon) in
     bindE (mutex_unlock s mon) (\<lambda>s. bindE (sched s thread_schedule) (\<lambda>s. Inr (s, [FMonRelock mon count]))))"

definition monitor_signal :: "'h sync \<Rightarrow> addr \<Rightarrow> 'h sync res" where
  "monitor_signal s mon = (let resume = mon_waiting s mon in
     bindE (LIST_DELETE (tlinks (ks s)) (mon_waiting s mon) resume) (\<lambda>(lk, q).
     sched (s\<lparr>ks := (ks s)\<lparr>tlinks := lk\<rparr>, mon_waiting := (mon_waiting s)(mon := q)\<rparr>) (\<lambda>k. thread_resume k resume)))"

fun monitor_broadcast :: "nat \<Rightarrow> 'h sync \<Rightarrow> addr \<Rightarrow> 'h sync res" where
  "monitor_broadcast 0 s mon = (if mon_waiting s mon \<noteq> 0 then Inl OutOfFuel else Inr s)"
| "monitor_broadcast (Suc n) s mon = (if mon_waiting s mon \<noteq> 0
     then bindE (monitor_signal s mon) (\<lambda>s. monitor_broadcast n s mon) else Inr s)"

fun monitor_op :: "nat \<Rightarrow> mop \<Rightarrow> 'h sync \<Rightarrow> addr \<Rightarrow> ('h sync \<times> frame list) res" where
  "monitor_op n MEnter s mon = monitor_enter s mon"
| "monitor_op n MLeave s mon = bindE (monitor_leave s mon) (\<lambda>s. Inr (s, []))"
| "monitor_op n MSignal s mon = bindE (monitor_signal s mon) (\<lambda>s. Inr (s, []))"
| "monitor_op n MBroadcast s mon = bindE (monitor_broadcast n s mon) (\<lambda>s. Inr (s, []))"
| "monitor_op n MWait s mon = monitor_wait s mon"

subsection \<open>The lock of an address\<close>

text \<open>
  \<^verbatim>\<open>thread_lock\<close>, \<^verbatim>\<open>thread_unlock\<close>, \<^verbatim>\<open>thread_signal\<close>, \<^verbatim>\<open>thread_broadcast\<close> and \<^verbatim>\<open>thread_wait\<close> find the monitor
  of an address under the lock of the table, making one when there is none, and call its operation.
  \<open>calloc_monitor\<close> is \<^verbatim>\<open>slab_calloc(monitors)\<close>.
\<close>

definition zero_mutex :: mutex_t where
  "zero_mutex = \<lparr>m_spin = 0, m_count = 0, m_owner = 0, m_waiting = 0\<rparr>"

type_synonym 'h callocer = "'h slab_heap \<Rightarrow> ('h slab_heap \<times> addr) res"

definition thread_monitor_get :: "'h callocer \<Rightarrow> 'h sync \<Rightarrow> addr \<Rightarrow> ('h sync \<times> addr) res" where
  "thread_monitor_get calloc_monitor s p =
    bindE (if locktable s p = 0 then
        bindE (calloc_monitor (slabs (ks s))) (\<lambda>(sl, mon).
        Inr (s\<lparr>ks := (ks s)\<lparr>slabs := sl\<rparr>, mtx := (mtx s)(mon := zero_mutex), mon_waiting := (mon_waiting s)(mon := 0),
               locktable := (locktable s)(p := mon)\<rparr>, mon))
      else Inr (s, locktable s p)) (\<lambda>(s, lock).
    bindE (mutex_unlock s (locktablelock s)) (\<lambda>s. Inr (s, lock)))"

definition thread_op :: "mop \<Rightarrow> 'h sync \<Rightarrow> addr \<Rightarrow> ('h sync \<times> frame list) res" where
  "thread_op op s p = bindE (mutex_lock s (locktablelock s)) (\<lambda>(s, fs). Inr (s, fs @ [FGet op p]))"

definition thread_got :: "'h callocer \<Rightarrow> mop \<Rightarrow> 'h sync \<Rightarrow> addr \<Rightarrow> ('h sync \<times> frame list) res" where
  "thread_got calloc_monitor op s p = bindE (thread_monitor_get calloc_monitor s p) (\<lambda>(s, lock). Inr (s, [FMonitor op lock]))"

subsection \<open>Exit and join\<close>

definition thread_exit :: "'h sync \<Rightarrow> addr \<Rightarrow> 'h sync \<times> frame list" where
  "thread_exit s v = (let this = cur s in
     (s\<lparr>ks := upd_thr this (\<lambda>x. x\<lparr>retval := v, tstate := THREAD_TERMINATED\<rparr>) (ks s)\<rparr>,
      [FThread MEnter this, FThread MBroadcast this, FThread MLeave this, FSchedule]))"

definition thread_join :: "'h sync \<Rightarrow> addr \<Rightarrow> 'h sync \<times> frame list" where
  "thread_join s thread = (s, [FThread MEnter thread, FJoin thread])"

definition join_loop :: "'h sync \<Rightarrow> addr \<Rightarrow> 'h sync \<times> frame list" where
  "join_loop s thread = (if tstate (thr (ks s) thread) \<noteq> THREAD_TERMINATED then (s, [FThread MWait thread, FJoin thread])
     else (s, [FThread MLeave thread, FRet (retval (thr (ks s) thread))]))"

subsection \<open>Steps\<close>

fun run_frame :: "nat \<Rightarrow> 'h callocer \<Rightarrow> frame \<Rightarrow> 'h sync \<Rightarrow> ('h sync \<times> frame list) res" where
  "run_frame n cm FYield s = bindE (sched s thread_yield) (\<lambda>s. Inr (s, []))"
| "run_frame n cm (FExit v) s = Inr (thread_exit s v)"
| "run_frame n cm (FJoin0 t) s = Inr (thread_join s t)"
| "run_frame n cm (FLock m) s = mutex_lock s m"
| "run_frame n cm (FUnlock m) s = bindE (mutex_unlock s m) (\<lambda>s. Inr (s, []))"
| "run_frame n cm (FRelock m) s = mutex_relock s m"
| "run_frame n cm (FMonitor op mon) s = monitor_op n op s mon"
| "run_frame n cm (FMonRelock mon c) s = bindE (mutex_lock s mon) (\<lambda>(s, fs). Inr (s, fs @ [FMonCount mon c]))"
| "run_frame n cm (FMonCount mon c) s = Inr (upd_mtx mon (\<lambda>x. x\<lparr>m_count := c\<rparr>) s, [])"
| "run_frame n cm (FThread op p) s = thread_op op s p"
| "run_frame n cm (FGet op p) s = thread_got cm op s p"
| "run_frame n cm (FJoin t) s = Inr (join_loop s t)"
| "run_frame n cm (FRet v) s = Inr (s\<lparr>eax := v\<rparr>, [])"
| "run_frame n cm FSchedule s = bindE (sched s thread_schedule) (\<lambda>s. Inr (s, [FExited]))"
| "run_frame n cm FExited s = Inl Panic"

fun callable :: "frame \<Rightarrow> bool" where
  "callable FYield = True" | "callable (FExit v) = True" | "callable (FJoin0 t) = True"
| "callable (FLock m) = True" | "callable (FUnlock m) = True" | "callable (FThread op p) = True"
| "callable _ = False"

text \<open>
  The running thread goes on with its first frame, or calls a function of the kernel when it has none.
\<close>

inductive step :: "nat \<Rightarrow> 'h callocer \<Rightarrow> 'h sync \<Rightarrow> 'h sync \<Rightarrow> bool" for n cm where
  step_call: "frames s (cur s) = [] \<Longrightarrow> callable f \<Longrightarrow> run_frame n cm f s = Inr (s', fs) \<Longrightarrow>
     step n cm s (s'\<lparr>frames := (frames s')(cur s := fs)\<rparr>)"
| step_frame: "frames s (cur s) = f # r \<Longrightarrow> run_frame n cm f s = Inr (s', fs) \<Longrightarrow>
     step n cm s (s'\<lparr>frames := (frames s')(cur s := fs @ r)\<rparr>)"


subsection \<open>The invariant\<close>

definition heads :: "'h sync \<Rightarrow> qid \<Rightarrow> addr" where
  "heads s q = (case q of Run i \<Rightarrow> if i < 3 then queue (ks s) ! i else 0 | Mtx m \<Rightarrow> m_waiting (mtx s m) | Mon m \<Rightarrow> mon_waiting s m)"

text \<open>
  Between steps the spin locks are free and no thread waits on a mutex: a thread that finds one taken
  queues itself, wakes the first in the queue and is that first.
\<close>

definition sync_inv :: "'h sync \<Rightarrow> (qid \<Rightarrow> addr list) \<Rightarrow> bool" where
  "sync_inv s L \<longleftrightarrow> qinv (ks s) (heads s) L \<and> queuelock (ks s) = 0 \<and> (\<forall>m. m_spin (mtx s m) = 0) \<and> (\<forall>m. L (Mtx m) = []) \<and>
     cur s \<notin> waiting L"

definition threads_of :: "'h sync \<Rightarrow> (qid \<Rightarrow> addr list) \<Rightarrow> addr set" where
  "threads_of s L = insert (cur s) (waiting L)"

lemma heads_eq:
  assumes "qinv (ks s) H L" "\<And>m. H (Mtx m) = m_waiting (mtx s m)" "\<And>m. H (Mon m) = mon_waiting s m"
  shows "H = heads s"
proof
  fix q show "H q = heads s q"
  proof (cases q)
    case (Run i)
    then show ?thesis using qinv_D(6) [OF assms(1), of i] qinv_D(1) [OF assms(1), of "Run i"] qinv_D(10) [OF assms(1), of i]
      by (cases "i < 3") (simp_all add: heads_def)
  qed (simp_all add: heads_def assms)
qed

lemma upd_mtx_fields [simp]:
  "ks (upd_mtx m f s) = ks s" "mtx (upd_mtx m f s) = (mtx s)(m := f (mtx s m))" "mon_waiting (upd_mtx m f s) = mon_waiting s"
  "frames (upd_mtx m f s) = frames s" "locktable (upd_mtx m f s) = locktable s" "locktablelock (upd_mtx m f s) = locktablelock s"
  "cur (upd_mtx m f s) = cur s"
  by (simp_all add: upd_mtx_def cur_def)

lemma cur_mach [simp]: "cur (s\<lparr>ks := (ks s)\<lparr>mach := mc\<rparr>\<rparr>) = cur s"
  by (simp add: cur_def arch_get_thread_def)

text \<open>What differs at most between two states with the same queues.\<close>

definition quiet :: "'h sync \<Rightarrow> 'h sync \<Rightarrow> bool" where
  "quiet s s' \<longleftrightarrow> (\<exists>mc. ks s' = (ks s)\<lparr>mach := mc\<rparr>) \<and> (\<forall>m. m_waiting (mtx s' m) = m_waiting (mtx s m)) \<and>
     mon_waiting s' = mon_waiting s \<and> frames s' = frames s \<and> locktable s' = locktable s \<and> locktablelock s' = locktablelock s"

lemma quiet_keeps:
  assumes "quiet s s'" 
  shows "heads s' = heads s" "cur s' = cur s" "qinv (ks s') H L \<longleftrightarrow> qinv (ks s) H L" "queuelock (ks s') = queuelock (ks s)" "slabs (ks s') = slabs (ks s)"
proof -
  obtain mc where k: "ks s' = (ks s)\<lparr>mach := mc\<rparr>" using assms by (auto simp: quiet_def)
  show "heads s' = heads s" using assms k by (auto simp: quiet_def heads_def fun_eq_iff split: qid.splits)
  show "cur s' = cur s" by (simp add: cur_def k arch_get_thread_def)
  show "qinv (ks s') H L \<longleftrightarrow> qinv (ks s) H L" using qinv_mach [where s = "ks s" and m = mc and l = "queuelock (ks s)"] by (simp add: k)
  show "queuelock (ks s') = queuelock (ks s)" "slabs (ks s') = slabs (ks s)" by (simp_all add: k)
qed

lemma quiet_trans: "quiet s s' \<Longrightarrow> quiet s' s'' \<Longrightarrow> quiet s s''"
  unfolding quiet_def by auto

lemma spin_lock_ok:
  assumes "spin_lock s m = Inr s'" "m_spin (mtx s m) = 0"
  shows "quiet s s'" "mtx s' = (mtx s)(m := (mtx s m)\<lparr>m_spin := 1\<rparr>)"
  using assms by (auto simp: spin_lock_def arch_spin_lock_def arch_spin_trylock_def Let_def quiet_def)

lemma spin_lock_free:
  assumes "m_spin (mtx s m) = 0"
  shows "\<exists>s'. spin_lock s m = Inr s'"
  using assms by (simp add: spin_lock_def arch_spin_lock_def arch_spin_trylock_def Let_def)

lemma spin_unlock_ok: "quiet s (spin_unlock s m)" "mtx (spin_unlock s m) = (mtx s)(m := (mtx s m)\<lparr>m_spin := 0\<rparr>)"
  by (auto simp: spin_unlock_def arch_spin_unlock_def Let_def quiet_def)

lemma quiet_mtx: "(\<And>x. m_waiting (f x) = m_waiting x) \<Longrightarrow> quiet s (upd_mtx m f s)"
  by (auto simp: quiet_def intro!: exI [of _ "mach (ks s)"])

text \<open>A mutex is locked and unlocked, when nobody else has it, without a change of the queues.\<close>

lemma mutex_unlock_ok:
  assumes "\<forall>m. m_spin (mtx s m) = 0"
  shows "\<exists>s'. mutex_unlock s m = Inr s' \<and> quiet s s' \<and>
    mtx s' = (mtx s)(m := (if cur s = m_owner (mtx s m) then
      (mtx s m)\<lparr>m_count := m_count (mtx s m) - 1, m_owner := (if m_count (mtx s m) = 1 then 0 else m_owner (mtx s m))\<rparr> else mtx s m))"
proof -
  have z: "m_spin (mtx s m) = 0" using assms by blast
  obtain s1 where s1: "spin_lock s m = Inr s1" using spin_lock_free [of s m, OF z] by blast
  note l = spin_lock_ok [OF s1 z]
  define s2 where "s2 = (if cur s1 = m_owner (mtx s1 m) then
         let s = upd_mtx m (\<lambda>x. x\<lparr>m_count := m_count x - 1\<rparr>) s1 in
         if m_count (mtx s m) = 0 then upd_mtx m (\<lambda>x. x\<lparr>m_owner := 0\<rparr>) s else s
       else s1)"
  have q2: "quiet s1 s2" unfolding s2_def Let_def by (auto intro: quiet_mtx quiet_trans) (auto simp: quiet_def intro!: exI [of _ "mach (ks s1)"])
  have m2: "mtx s2 = (mtx s1)(m := (if cur s1 = m_owner (mtx s1 m) then
      (mtx s1 m)\<lparr>m_count := m_count (mtx s1 m) - 1, m_owner := (if m_count (mtx s1 m) = 1 then 0 else m_owner (mtx s1 m))\<rparr> else mtx s1 m))"
    by (auto simp: s2_def Let_def)
  note u = spin_unlock_ok [of s2 m]
  have e: "mutex_unlock s m = Inr (spin_unlock s2 m)" by (simp add: mutex_unlock_def s1 s2_def Let_def)
  have "mtx (spin_unlock s2 m) = (mtx s)(m := (if cur s = m_owner (mtx s m) then
      (mtx s m)\<lparr>m_count := m_count (mtx s m) - 1, m_owner := (if m_count (mtx s m) = 1 then 0 else m_owner (mtx s m))\<rparr> else mtx s m))"
    using z by (auto simp: u(2) m2 l(2) quiet_keeps(2) [OF l(1)])
  then show ?thesis using e quiet_trans [OF quiet_trans [OF l(1) q2] u(1)] by blast
qed

lemma mutex_lock_free:
  assumes "\<forall>m. m_spin (mtx s m) = 0" "m_owner (mtx s m) = 0 \<or> m_owner (mtx s m) = cur s"
  shows "\<exists>s'. mutex_lock s m = Inr (s', []) \<and> quiet s s' \<and>
    mtx s' = (mtx s)(m := (mtx s m)\<lparr>m_owner := cur s, m_count := m_count (mtx s m) + 1\<rparr>)"
proof -
  have z: "m_spin (mtx s m) = 0" using assms by blast
  obtain s1 where s1: "spin_lock s m = Inr s1" using spin_lock_free [of s m, OF z] by blast
  note l = spin_lock_ok [OF s1 z]
  define s2 where "s2 = upd_mtx m (\<lambda>x. x\<lparr>m_owner := cur s, m_count := m_count x + 1\<rparr>) s1"
  have q2: "quiet s1 s2" unfolding s2_def by (rule quiet_mtx) simp
  note u = spin_unlock_ok [of s2 m]
  have a: "upd_mtx m (\<lambda>x. x\<lparr>m_count := m_count x + 1\<rparr>) (upd_mtx m (\<lambda>x. x\<lparr>m_owner := cur s\<rparr>) s1) = s2"
    by (simp add: s2_def upd_mtx_def)
  have b: "upd_mtx m (\<lambda>x. x\<lparr>m_count := m_count x + 1\<rparr>) s1 = s2" if "m_owner (mtx s1 m) = cur s"
  proof -
    have "(mtx s1 m)\<lparr>m_owner := cur s\<rparr> = mtx s1 m" using that by (cases "mtx s1 m") simp
    then show ?thesis by (simp add: s2_def upd_mtx_def)
  qed
  have e: "mutex_lock s m = Inr (spin_unlock s2 m, [])"
    using assms(2) a b by (auto simp: mutex_lock_def s1 Let_def l(2) quiet_keeps(2) [OF l(1)])
  have "mtx (spin_unlock s2 m) = (mtx s)(m := (mtx s m)\<lparr>m_owner := cur s, m_count := m_count (mtx s m) + 1\<rparr>)"
  proof -
    have "mtx s2 = (mtx s)(m := (mtx s m)\<lparr>m_spin := 1, m_owner := cur s, m_count := m_count (mtx s m) + 1\<rparr>)" by (simp add: s2_def l(2))
    then show ?thesis using z by (cases "mtx s m") (simp add: u(2))
  qed
  then show ?thesis using e quiet_trans [OF quiet_trans [OF l(1) q2] u(1)] by blast
qed


subsection \<open>Waiting and waking\<close>

lemma sched_Inr: "sched s f = Inr s' \<longleftrightarrow> (\<exists>k. f (ks s) = Inr k \<and> s' = s\<lparr>ks := k\<rparr>)"
  by (auto simp: sched_def bindE_Inr_iff)

text \<open>A switch from a state in which the running thread may be queued.\<close>

lemma schedule_sync:
  assumes "sched s thread_schedule = Inr s'" "qinv (ks s) (heads s) L" "queuelock (ks s) = 0"
  shows "\<exists>L'. qinv (ks s') (heads s') L' \<and> queuelock (ks s') = 0 \<and> cur s' \<notin> waiting L' \<and> insert (cur s') (waiting L') = waiting L \<and>
    (\<forall>q. (\<forall>i. q \<noteq> Run i) \<longrightarrow> L' q = L q)"
proof -
  obtain k where k: "thread_schedule (ks s) = Inr k" "s' = s\<lparr>ks := k\<rparr>" using assms(1) by (auto simp: sched_Inr)
  have "\<exists>j<3. L (Run j) \<noteq> []" using schedule_empty [OF assms(2)] k(1) by force
  then obtain i where i: "i < 3 \<and> L (Run i) \<noteq> []" "\<forall>j<i. \<not> (j < 3 \<and> L (Run j) \<noteq> [])"
    using exists_least_iff [of "\<lambda>j. j < 3 \<and> L (Run j) \<noteq> []"] by blast
  obtain t r where tr: "L (Run i) = t # r" using i(1) by (cases "L (Run i)") auto
  have lo: "\<forall>j<i. L (Run j) = []" using i by auto
  from schedule_ok [OF assms(2,3) _ tr lo] i(1) k(1) obtain h where
    q: "qinv k ((heads s)(Run i := h)) (L(Run i := r))" "arch_get_thread k = t" "queuelock k = 0" by auto
  have "(heads s)(Run i := h) = heads s'"
    using q(1) by (intro heads_eq [where L = "L(Run i := r)"]) (simp_all add: k(2) heads_def)
  then show ?thesis using q waiting_take [OF assms(2) tr] by (intro exI [of _ "L(Run i := r)"]) (simp add: k(2) cur_def)
qed

text \<open>The running thread queues itself.\<close>

lemma queue_self:
  assumes "thread_queue (ks s) (heads s q) 0 (state_of q) = (k, h)" "qinv (ks s) (heads s) L" "queuelock (ks s) = 0" "cur s \<notin> waiting L" "\<forall>i. q \<noteq> Run i"
  shows "qinv k ((heads s)(q := h)) (L(q := L q @ [cur s]))" "queuelock k = 0" "arch_get_thread k = cur s" "mach k = mach (ks s)" "slabs k = slabs (ks s)"
proof -
  obtain lk h' where ap: "LIST_APPEND (tlinks (ks s)) (heads s q) (cur s) = (lk, h')" by fastforce
  have k: "k = (upd_thr (cur s) (\<lambda>x. x\<lparr>tstate := state_of q\<rparr>) (ks s))\<lparr>tlinks := lk\<rparr>" "h = h'"
    using assms(1) ap by (simp_all add: thread_queue_def cur_def [symmetric] Let_def)
  note D = qinv_D [OF assms(2)]
  have "qinv ((upd_thr (cur s) (\<lambda>x. x\<lparr>tstate := state_of q\<rparr>) (ks s))\<lparr>tlinks := lk, queue := (case q of Run i \<Rightarrow> (queue (ks s))[i := h] | _ \<Rightarrow> queue (ks s))\<rparr>)
      ((heads s)(q := h)) (L(q := L q @ [cur s]))"
    by (rule qinv_append [OF assms(2,4) _ _ _ ap [folded k(2)]]) (use D(8,9) assms(5) in \<open>auto simp: cur_def\<close>)
  moreover have "(case q of Run i \<Rightarrow> (queue (ks s))[i := h] | _ \<Rightarrow> queue (ks s)) = queue (ks s)" using assms(5) by (cases q) simp_all
  moreover have "(upd_thr (cur s) f (ks s))\<lparr>tlinks := lk, queue := queue (ks s)\<rparr> = (upd_thr (cur s) f (ks s))\<lparr>tlinks := lk\<rparr>" for f by (simp add: upd_thr_def)
  ultimately show "qinv k ((heads s)(q := h)) (L(q := L q @ [cur s]))" using k(1) by (simp only:)
  show "queuelock k = 0" "arch_get_thread k = cur s" "mach k = mach (ks s)" "slabs k = slabs (ks s)" using assms(3) by (simp_all add: k(1) cur_def arch_get_thread_def)
qed

text \<open>The first thread of a wait queue is made runnable.\<close>

lemma wake_first:
  assumes "qinv k H L" "queuelock k = 0" "L q = t # r" "\<forall>i. q \<noteq> Run i" "LIST_DELETE (tlinks k) t t = Inr (lk, h)"
    "thread_resume (k\<lparr>tlinks := lk\<rparr>) t = Inr k'"
  shows "\<exists>p h'. qinv k' (H(q := h, Run p := h')) (L(q := r, Run p := L (Run p) @ [t])) \<and> queuelock k' = 0 \<and> arch_get_thread k' = arch_get_thread k"
proof -
  note D = qinv_D [OF assms(1)]
  have t: "t \<in> set (L q)" using assms(3) by simp
  have hq: "H q = t" using D(1) [of q] assms(3) by (simp add: clist_def)
  have nq: "(case q of Run i \<Rightarrow> (queue k)[i := h] | _ \<Rightarrow> queue k) = queue k" using assms(4) by (cases q) simp_all
  have q1: "qinv (k\<lparr>tlinks := lk\<rparr>) (H(q := h)) (L(q := r))"
    using qinv_delete [OF assms(1,3), of lk h] assms(5) hq nq by simp
  have f: "queuelock (k\<lparr>tlinks := lk\<rparr>) = 0" "t \<noteq> 0" "priority (thr (k\<lparr>tlinks := lk\<rparr>) t) < 3"
    "t \<noteq> arch_get_thread (k\<lparr>tlinks := lk\<rparr>) \<Longrightarrow> resumable (k\<lparr>tlinks := lk\<rparr>) t"
    using assms(2) D(4,5,11) [OF t] by (simp_all add: arch_get_thread_def resumable_def)
  define p where "p = priority (thr (k\<lparr>tlinks := lk\<rparr>) t)"
  have "Run p \<noteq> q" using assms(4) by metis
  then have Lp: "(L(q := r)) (Run p) = L (Run p)" by simp
  from resume_ok [OF q1 f(1) waiting_take(1) [OF assms(1,3)] f(2,3,4), folded p_def] assms(6)
  obtain h' where "qinv k' (H(q := h, Run p := h')) ((L(q := r))(Run p := (L(q := r)) (Run p) @ [t]))" "queuelock k' = 0"
    "arch_get_thread k' = arch_get_thread (k\<lparr>tlinks := lk\<rparr>)" by auto
  then show ?thesis unfolding Lp by (intro exI [of _ p] exI [of _ h']) (simp add: arch_get_thread_def)
qed


lemma wait_requeues:
  assumes "thread_lock_wait s m = Inr s'" "qinv (ks s) (heads s) L" "queuelock (ks s) = 0" "L (Mtx m) = []" "cur s \<notin> waiting L"
  shows "\<exists>L'. qinv (ks s') (heads s') L' \<and> queuelock (ks s') = 0 \<and> cur s' \<notin> waiting L' \<and> insert (cur s') (waiting L') = insert (cur s) (waiting L) \<and>
    (\<forall>q. (\<forall>i. q \<noteq> Run i) \<longrightarrow> L' q = L q)"
    "mtx s' = (mtx s)(m := (mtx s m)\<lparr>m_waiting := 0, m_spin := 0\<rparr>)" "mon_waiting s' = mon_waiting s" "frames s' = frames s"
    "locktable s' = locktable s" "locktablelock s' = locktablelock s"
proof -
  obtain k q where kq: "thread_queue (ks s) (m_waiting (mtx s m)) 0 THREAD_SLEEPING = (k, q)" by fastforce
  define s1 where "s1 = upd_mtx m (\<lambda>x. x\<lparr>m_waiting := q\<rparr>) (s\<lparr>ks := k\<rparr>)"
  obtain s2 where s2: "thread_lock_signal s1 m = Inr s2" "sched (spin_unlock s2 m) thread_schedule = Inr s'"
    using assms(1) kq by (auto simp: thread_lock_wait_def s1_def bindE_Inr_iff)
  have h: "heads s (Mtx m) = m_waiting (mtx s m)" by (simp add: heads_def)
  note qs = queue_self [where q = "Mtx m" and s = s, unfolded state_of.simps h, OF kq assms(2,3,5)]
  define L1 where "L1 = L(Mtx m := [cur s])"
  have q1: "qinv k ((heads s)(Mtx m := q)) L1" "queuelock k = 0" "arch_get_thread k = cur s" using qs assms(4) by (simp_all add: L1_def)
  have qc: "q = cur s" using qinv_D(1) [OF q1(1), of "Mtx m"] by (simp add: L1_def clist_def)
  have qnz: "q \<noteq> 0" using qinv_D(11) [OF q1(1), of "cur s" "Mtx m"] qc by (simp add: L1_def)
  obtain lk h' k' where d: "LIST_DELETE (tlinks k) q q = Inr (lk, h')" "thread_resume (k\<lparr>tlinks := lk\<rparr>) q = Inr k'"
      "s2 = (upd_mtx m (\<lambda>x. x\<lparr>m_waiting := h'\<rparr>) (s1\<lparr>ks := k\<lparr>tlinks := lk\<rparr>\<rparr>))\<lparr>ks := k'\<rparr>"
    using s2(1) qnz by (auto simp: thread_lock_signal_def Let_def s1_def bindE_Inr_iff sched_Inr)
  have L1: "L1 (Mtx m) = cur s # []" by (simp add: L1_def)
  from wake_first [OF q1(1,2) L1, of lk h' k'] d(1,2) qc obtain p h'' where
    w: "qinv k' ((heads s)(Mtx m := q, Mtx m := h', Run p := h'')) (L1(Mtx m := [], Run p := L1 (Run p) @ [cur s]))" "queuelock k' = 0" "arch_get_thread k' = cur s"
    using q1(3) by auto
  define L2 where "L2 = L(Run p := L (Run p) @ [cur s])"
  have L2: "L1(Mtx m := [], Run p := L1 (Run p) @ [cur s]) = L2" using assms(4) by (auto simp: L1_def L2_def fun_eq_iff)
  have w1: "qinv k' ((heads s)(Mtx m := h', Run p := h'')) L2" using w(1) L2 by simp
  have h0: "h' = 0" using qinv_D(1) [OF w1, of "Mtx m"] assms(4) by (simp add: L2_def)
  define s3 where "s3 = spin_unlock s2 m"
  note u = spin_unlock_ok [of s2 m, folded s3_def]
  have "heads s2 = (heads s)(Mtx m := h', Run p := h'')"
    using w1 by (intro heads_eq [where L = L2, symmetric]) (simp_all add: d(3) heads_def s1_def)
  then have q3: "qinv (ks s3) (heads s3) L2" "queuelock (ks s3) = 0" using w1 w(2) quiet_keeps [OF u(1)] by (simp_all add: d(3))
  have L2w: "waiting L2 = insert (cur s) (waiting L)" unfolding L2_def by (rule waiting_append)
  show "\<exists>L'. qinv (ks s') (heads s') L' \<and> queuelock (ks s') = 0 \<and> cur s' \<notin> waiting L' \<and> insert (cur s') (waiting L') = insert (cur s) (waiting L) \<and>
    (\<forall>q. (\<forall>i. q \<noteq> Run i) \<longrightarrow> L' q = L q)"
    using schedule_sync [OF s2(2) [folded s3_def] q3] unfolding L2w by (auto simp: L2_def)
  obtain k3 where s': "s' = s3\<lparr>ks := k3\<rparr>" using s2(2) by (auto simp: sched_Inr s3_def)
  show "mtx s' = (mtx s)(m := (mtx s m)\<lparr>m_waiting := 0, m_spin := 0\<rparr>)" by (simp add: s' u(2) d(3) s1_def h0)
  show "mon_waiting s' = mon_waiting s" "frames s' = frames s" "locktable s' = locktable s" "locktablelock s' = locktablelock s"
    using u(1) by (simp_all add: s' quiet_def d(3) s1_def)
qed


subsection \<open>Every operation keeps the invariant\<close>

lemma switch_slabs [simp]: "slabs (arch_thread_switch k t) = slabs k"
  by (simp add: arch_thread_switch_def Let_def setjmp_def longjmp_def)

lemma unlock_slabs [simp]: "slabs (scheduler_unlock k) = slabs k" "slabs (set_queue sq i) = slabs (fst sq)"
  by (simp_all add: scheduler_unlock_def set_queue_def split: prod.splits)

lemma schedule_from_slabs: "schedule_from n k i = Inr k' \<Longrightarrow> slabs k' = slabs k"
  by (induction n k i rule: schedule_from.induct) (auto simp: Let_def bindE_Inr_iff split: if_splits)

lemma lock_slabs: "scheduler_lock k = Inr k' \<Longrightarrow> slabs k' = slabs k"
  by (auto simp: scheduler_lock_def split: prod.splits if_splits)

lemma schedule_slabs: "thread_schedule k = Inr k' \<Longrightarrow> slabs k' = slabs k"
  by (auto simp: thread_schedule_def bindE_Inr_iff dest!: schedule_from_slabs lock_slabs)

lemma queue_slabs: "slabs (fst (thread_queue k q t st)) = slabs k"
  by (simp add: thread_queue_def Let_def split: prod.splits)

lemma resume_slabs: "thread_resume k t = Inr k' \<Longrightarrow> slabs k' = slabs k"
  by (auto simp: thread_resume_def Let_def bindE_Inr_iff queue_slabs split: if_splits dest!: lock_slabs)

lemma signal_slabs: "thread_lock_signal s m = Inr s' \<Longrightarrow> slabs (ks s') = slabs (ks s)"
  by (auto simp: thread_lock_signal_def Let_def bindE_Inr_iff sched_Inr split: if_splits dest!: resume_slabs)

lemma quiet_slabs: "quiet s s' \<Longrightarrow> slabs (ks s') = slabs (ks s)"
  by (auto simp: quiet_def)

lemma wait_slabs:
  assumes "thread_lock_wait s m = Inr s'"
  shows "slabs (ks s') = slabs (ks s)"
proof -
  obtain k q where kq: "thread_queue (ks s) (m_waiting (mtx s m)) 0 THREAD_SLEEPING = (k, q)" by fastforce
  then obtain s2 where s2: "thread_lock_signal (upd_mtx m (\<lambda>x. x\<lparr>m_waiting := q\<rparr>) (s\<lparr>ks := k\<rparr>)) m = Inr s2" "sched (spin_unlock s2 m) thread_schedule = Inr s'"
    using assms by (auto simp: thread_lock_wait_def bindE_Inr_iff)
  have "slabs (ks s') = slabs (ks (spin_unlock s2 m))" using s2(2) schedule_slabs by (fastforce simp: sched_Inr)
  then show ?thesis using signal_slabs [OF s2(1)] queue_slabs [of "ks s" "m_waiting (mtx s m)" 0 THREAD_SLEEPING] kq quiet_slabs [OF spin_unlock_ok(1) [of s2 m]] by simp
qed

text \<open>The effect of an operation, but for the monitors' queues.\<close>

definition kept :: "'h sync \<Rightarrow> (qid \<Rightarrow> addr list) \<Rightarrow> 'h sync \<Rightarrow> bool" where
  "kept s L s' \<longleftrightarrow> (\<exists>L'. sync_inv s' L' \<and> threads_of s' L' = threads_of s L) \<and> frames s' = frames s \<and> slabs (ks s') = slabs (ks s) \<and>
     locktable s' = locktable s \<and> locktablelock s' = locktablelock s"

lemma kept_quiet:
  assumes "sync_inv s L" "quiet s s'" "\<forall>m. m_spin (mtx s' m) = 0"
  shows "sync_inv s' L" "kept s L s'" "mon_waiting s' = mon_waiting s"
proof -
  note q = quiet_keeps [OF assms(2)]
  show i: "sync_inv s' L" using assms q unfolding sync_inv_def by simp
  then show "kept s L s'" "mon_waiting s' = mon_waiting s" using assms(2) q unfolding kept_def threads_of_def by (auto simp: quiet_def)
qed

lemma mutex_unlock_kept:
  assumes "mutex_unlock s m = Inr s'" "sync_inv s L"
  shows "sync_inv s' L" "kept s L s'" "mon_waiting s' = mon_waiting s"
proof -
  have z: "\<forall>m. m_spin (mtx s m) = 0" using assms(2) by (simp add: sync_inv_def)
  have q: "quiet s s'" "\<forall>m. m_spin (mtx s' m) = 0" using mutex_unlock_ok [OF z, of m] assms(1) z by auto
  show "sync_inv s' L" "kept s L s'" "mon_waiting s' = mon_waiting s" by (rule kept_quiet [OF assms(2) q])+
qed

lemma mutex_loop_kept:
  assumes "spin_lock s m = Inr s1" "mutex_loop s1 m = Inr (s', fs)" "sync_inv s L"
  shows "kept s L s'" "mon_waiting s' = mon_waiting s" "fs = [] \<or> fs = [FRelock m]"
proof -
  have z: "\<forall>m. m_spin (mtx s m) = 0" using assms(3) by (simp add: sync_inv_def)
  note l = spin_lock_ok [OF assms(1) z [rule_format]]
  note k = quiet_keeps [OF l(1)]
  have all: "kept s L s' \<and> mon_waiting s' = mon_waiting s \<and> (fs = [] \<or> fs = [FRelock m])"
  proof (cases "m_owner (mtx s1 m) = 0")
    case True
    define s2 where "s2 = upd_mtx m (\<lambda>x. x\<lparr>m_count := m_count x + 1\<rparr>) s1"
    have q2: "quiet s1 s2" unfolding s2_def by (rule quiet_mtx) simp
    have s': "s' = spin_unlock s2 m" "fs = []" using assms(2) True by (simp_all add: mutex_loop_def s2_def)
    have "quiet s s'" using quiet_trans [OF quiet_trans [OF l(1) q2] spin_unlock_ok(1)] s'(1) by simp
    moreover have "\<forall>m. m_spin (mtx s' m) = 0" using z by (simp add: s'(1) spin_unlock_ok(2)) (simp add: s2_def l(2))
    ultimately show ?thesis using kept_quiet [OF assms(3)] s'(2) by blast
  next
    case False
    then have w: "thread_lock_wait s1 m = Inr s'" "fs = [FRelock m]" using assms(2) by (auto simp: mutex_loop_def bindE_Inr_iff)
    have i: "qinv (ks s1) (heads s1) L" "queuelock (ks s1) = 0" "L (Mtx m) = []" "cur s1 \<notin> waiting L" "\<And>m. L (Mtx m) = []"
      using assms(3) k by (simp_all add: sync_inv_def)
    note r = wait_requeues [OF w(1) i(1-4)]
    obtain L' where L': "qinv (ks s') (heads s') L'" "queuelock (ks s') = 0" "cur s' \<notin> waiting L'" "insert (cur s') (waiting L') = insert (cur s1) (waiting L)"
      "\<forall>q. (\<forall>i. q \<noteq> Run i) \<longrightarrow> L' q = L q" using r(1) by blast
    have "\<forall>m. m_spin (mtx s' m) = 0" using z by (simp add: r(2) l(2))
    then have "sync_inv s' L'" using L' i(5) by (simp add: sync_inv_def)
    moreover have "threads_of s' L' = threads_of s L" using L'(4) k(2) by (simp add: threads_of_def)
    moreover have "slabs (ks s') = slabs (ks s)" using wait_slabs [OF w(1)] k(5) by simp
    ultimately have "kept s L s'" using r(4-6) l(1) unfolding kept_def by (auto simp: quiet_def)
    then show ?thesis using r(3) l(1) w(2) by (simp add: quiet_def)
  qed
  then show "kept s L s'" "mon_waiting s' = mon_waiting s" "fs = [] \<or> fs = [FRelock m]" by auto
qed

lemma mutex_lock_kept:
  assumes "mutex_lock s m = Inr (s', fs)" "sync_inv s L"
  shows "kept s L s'" "mon_waiting s' = mon_waiting s" "fs = [] \<or> fs = [FRelock m]"
proof -
  have z: "\<forall>m. m_spin (mtx s m) = 0" using assms(2) by (simp add: sync_inv_def)
  have all: "kept s L s' \<and> mon_waiting s' = mon_waiting s \<and> (fs = [] \<or> fs = [FRelock m])"
  proof (cases "m_owner (mtx s m) = 0 \<or> m_owner (mtx s m) = cur s")
    case True
    from mutex_lock_free [OF z True] assms(1) have "quiet s s'" "\<forall>m. m_spin (mtx s' m) = 0" "fs = []" using z by auto
    then show ?thesis using kept_quiet [OF assms(2)] by blast
  next
    case False
    obtain s1 where s1: "spin_lock s m = Inr s1" using assms(1) by (auto simp: mutex_lock_def bindE_Inr_iff)
    note l = spin_lock_ok [OF s1 z [rule_format]]
    have "mutex_loop s1 m = Inr (s', fs)" using assms(1) False s1 by (auto simp: mutex_lock_def Let_def l(2) quiet_keeps(2) [OF l(1)])
    then show ?thesis using mutex_loop_kept [OF s1 _ assms(2)] by blast
  qed
  then show "kept s L s'" "mon_waiting s' = mon_waiting s" "fs = [] \<or> fs = [FRelock m]" by auto
qed

lemma mutex_relock_kept:
  assumes "mutex_relock s m = Inr (s', fs)" "sync_inv s L"
  shows "kept s L s'" "mon_waiting s' = mon_waiting s" "fs = [] \<or> fs = [FRelock m]"
proof -
  obtain s1 where s1: "spin_lock s m = Inr s1" "mutex_loop s1 m = Inr (s', fs)" using assms(1) by (auto simp: mutex_relock_def bindE_Inr_iff)
  show "kept s L s'" "mon_waiting s' = mon_waiting s" "fs = [] \<or> fs = [FRelock m]" by (rule mutex_loop_kept [OF s1 assms(2)])+
qed


lemma kept_refl: "sync_inv s L \<Longrightarrow> kept s L s"
  by (auto simp: kept_def)

lemma kept_trans:
  assumes "kept s L s1" "\<And>L1. sync_inv s1 L1 \<Longrightarrow> kept s1 L1 s2"
  shows "kept s L s2"
proof -
  obtain L1 where L1: "sync_inv s1 L1" "threads_of s1 L1 = threads_of s L" using assms(1) by (auto simp: kept_def)
  from assms(2) [OF L1(1)] obtain L2 where "sync_inv s2 L2" "threads_of s2 L2 = threads_of s1 L1" by (auto simp: kept_def)
  then show ?thesis using assms(1) assms(2) [OF L1(1)] L1(2) unfolding kept_def by metis
qed

lemma signal_kept:
  assumes "monitor_signal s mon = Inr s'" "sync_inv s L"
  shows "kept s L s'" "mon_waiting s mon \<noteq> 0" "m \<noteq> mon \<Longrightarrow> mon_waiting s' m = mon_waiting s m"
proof -
  let ?t = "mon_waiting s mon"
  obtain lk q k where r: "LIST_DELETE (tlinks (ks s)) ?t ?t = Inr (lk, q)" "thread_resume ((ks s)\<lparr>tlinks := lk\<rparr>) ?t = Inr k"
    "s' = s\<lparr>ks := k, mon_waiting := (mon_waiting s)(mon := q)\<rparr>"
    using assms(1) by (auto simp: monitor_signal_def Let_def bindE_Inr_iff sched_Inr)
  show nz: "?t \<noteq> 0" using r(1) by (auto simp: LIST_DELETE_def)
  have i: "qinv (ks s) (heads s) L" "queuelock (ks s) = 0" "\<forall>m. m_spin (mtx s m) = 0" "\<forall>m. L (Mtx m) = []" "cur s \<notin> waiting L"
    using assms(2) by (auto simp: sync_inv_def)
  have c: "clist (tlinks (ks s)) ?t (L (Mon mon))" using qinv_D(1) [OF i(1), of "Mon mon"] by (simp add: heads_def)
  obtain rs where L: "L (Mon mon) = ?t # rs" using c nz by (cases "L (Mon mon)") (auto simp: clist_def)
  from wake_first [OF i(1,2) L _ r(1,2)] obtain p h where
    w: "qinv k ((heads s)(Mon mon := q, Run p := h)) (L(Mon mon := rs, Run p := L (Run p) @ [?t]))" "queuelock k = 0" "arch_get_thread k = cur s"
    by (auto simp: cur_def)
  define L1 where "L1 = L(Mon mon := rs)"
  have L1: "L(Mon mon := rs, Run p := L (Run p) @ [?t]) = L1(Run p := L1 (Run p) @ [?t])" by (simp add: L1_def)
  have wt: "waiting (L1(Run p := L1 (Run p) @ [?t])) = waiting L"
    unfolding waiting_append L1_def using waiting_take(2) [OF i(1) L] by simp
  have "(heads s)(Mon mon := q, Run p := h) = heads s'"
    using w(1) by (intro heads_eq [where L = "L(Mon mon := rs, Run p := L (Run p) @ [?t])"]) (simp_all add: r(3) heads_def)
  then have "sync_inv s' (L1(Run p := L1 (Run p) @ [?t]))"
    using w i wt unfolding L1 sync_inv_def by (simp add: r(3) cur_def L1_def)
  moreover have "threads_of s' (L1(Run p := L1 (Run p) @ [?t])) = threads_of s L" unfolding threads_of_def wt using w(3) by (simp add: r(3) cur_def)
  ultimately show "kept s L s'" using resume_slabs [OF r(2)] unfolding kept_def by (auto simp: r(3))
  show "m \<noteq> mon \<Longrightarrow> mon_waiting s' m = mon_waiting s m" by (simp add: r(3))
qed

lemma broadcast_kept:
  assumes "monitor_broadcast n s mon = Inr s'" "sync_inv s L"
  shows "kept s L s'" "mon_waiting s' m \<noteq> 0 \<Longrightarrow> mon_waiting s m \<noteq> 0" "mon_waiting s' mon = 0"
proof -
  have "kept s L s' \<and> (mon_waiting s' m \<noteq> 0 \<longrightarrow> mon_waiting s m \<noteq> 0) \<and> mon_waiting s' mon = 0"
    using assms
  proof (induction n arbitrary: s L)
    case (Suc n)
    show ?case
    proof (cases "mon_waiting s mon = 0")
      case False
      then obtain s1 where s1: "monitor_signal s mon = Inr s1" "monitor_broadcast n s1 mon = Inr s'" using Suc.prems(1) by (auto simp: bindE_Inr_iff)
      note sg = signal_kept [OF s1(1) Suc.prems(2)]
      obtain L1 where "sync_inv s1 L1" using sg(1) by (auto simp: kept_def)
      note IH = Suc.IH [OF s1(2) this]
      have "kept s L s'" by (rule kept_trans [OF sg(1)]) (use Suc.IH [OF s1(2)] in blast)
      then show ?thesis using IH sg(2,3) by (cases "m = mon") auto
    qed (use Suc.prems kept_refl in auto)
  qed (auto split: if_splits intro: kept_refl)
  then show "kept s L s'" "mon_waiting s' m \<noteq> 0 \<Longrightarrow> mon_waiting s m \<noteq> 0" "mon_waiting s' mon = 0" by auto
qed

lemma wait_kept:
  assumes "monitor_wait s mon = Inr (s', fs)" "sync_inv s L"
  shows "kept s L s'" "m \<noteq> mon \<Longrightarrow> mon_waiting s' m = mon_waiting s m" "\<exists>c. fs = [FMonRelock mon c]"
proof -
  have i: "qinv (ks s) (heads s) L" "queuelock (ks s) = 0" "\<forall>m. m_spin (mtx s m) = 0" "\<forall>m. L (Mtx m) = []" "cur s \<notin> waiting L"
    using assms(2) by (auto simp: sync_inv_def)
  obtain k q where kq: "thread_queue (ks s) (mon_waiting s mon) 0 THREAD_SLEEPING = (k, q)" by fastforce
  define s1 where "s1 = s\<lparr>ks := k, mon_waiting := (mon_waiting s)(mon := q)\<rparr>"
  obtain s2 where r: "mutex_unlock s1 mon = Inr s2" "sched s2 thread_schedule = Inr s'" "fs = [FMonRelock mon (m_count (mtx s mon))]"
    using assms(1) kq by (auto simp: monitor_wait_def s1_def Let_def bindE_Inr_iff)
  have h: "heads s (Mon mon) = mon_waiting s mon" by (simp add: heads_def)
  note qs = queue_self [where q = "Mon mon" and s = s, unfolded state_of.simps h, OF kq i(1,2,5)]
  define L1 where "L1 = L(Mon mon := L (Mon mon) @ [cur s])"
  have k: "qinv k ((heads s)(Mon mon := q)) L1" "queuelock k = 0" using qs by (simp_all add: L1_def)
  have "(heads s)(Mon mon := q) = heads s1" using k(1) by (intro heads_eq [where L = L1]) (simp_all add: s1_def heads_def)
  then have k1: "qinv (ks s1) (heads s1) L1" "queuelock (ks s1) = 0" using k by (simp_all add: s1_def)
  have z: "\<forall>m. m_spin (mtx s1 m) = 0" using i(3) by (simp add: s1_def)
  have u: "quiet s1 s2" "\<forall>m. m_spin (mtx s2 m) = 0" using mutex_unlock_ok [OF z, of mon] r(1) z by auto
  have k2: "qinv (ks s2) (heads s2) L1" "queuelock (ks s2) = 0" using k1 quiet_keeps [OF u(1)] by simp_all
  from schedule_sync [OF r(2) k2] obtain L' where L': "qinv (ks s') (heads s') L'" "queuelock (ks s') = 0" "cur s' \<notin> waiting L'"
    "insert (cur s') (waiting L') = waiting L1" "\<forall>q. (\<forall>i. q \<noteq> Run i) \<longrightarrow> L' q = L1 q" by blast
  obtain k3 where s': "s' = s2\<lparr>ks := k3\<rparr>" "thread_schedule (ks s2) = Inr k3" using r(2) by (auto simp: sched_Inr)
  have "sync_inv s' L'" using L' u(2) i(4) by (simp add: sync_inv_def s'(1) L1_def)
  moreover have "threads_of s' L' = threads_of s L" using L'(4) unfolding threads_of_def L1_def waiting_append .
  moreover have "slabs (ks s') = slabs (ks s)"
    using schedule_slabs [OF s'(2)] quiet_keeps(5) [OF u(1)] qs(5) by (simp add: s'(1) s1_def)
  ultimately show "kept s L s'" using u(1) unfolding kept_def by (auto simp: s'(1) quiet_def s1_def)
  show "m \<noteq> mon \<Longrightarrow> mon_waiting s' m = mon_waiting s m" using u(1) by (simp add: s'(1) quiet_def s1_def)
  show "\<exists>c. fs = [FMonRelock mon c]" using r(3) by blast
qed

lemma yield_kept:
  assumes "sched s thread_yield = Inr s'" "sync_inv s L"
  shows "kept s L s'" "mon_waiting s' = mon_waiting s"
proof -
  have i: "qinv (ks s) (heads s) L" "queuelock (ks s) = 0" "\<forall>m. m_spin (mtx s m) = 0" "\<forall>m. L (Mtx m) = []" "cur s \<notin> waiting L"
    using assms(2) by (auto simp: sync_inv_def)
  note D = qinv_D [OF i(1)]
  obtain k where k: "thread_yield (ks s) = Inr k" "s' = s\<lparr>ks := k\<rparr>" using assms(1) by (auto simp: sched_Inr)
  define p where "p = priority (thr (ks s) (arch_get_thread (ks s)))"
  from resume_ok [OF i(1,2) i(5) [unfolded cur_def] D(8,9), folded p_def] obtain k1 h where
    k1: "thread_resume (ks s) (arch_get_thread (ks s)) = Inr k1" "qinv k1 ((heads s)(Run p := h)) (L(Run p := L (Run p) @ [cur s]))" "queuelock k1 = 0"
    by (auto simp: cur_def)
  define s1 where "s1 = s\<lparr>ks := k1\<rparr>"
  have sk: "thread_schedule k1 = Inr k" using yield_resume [OF D(8)] k(1) k1(1) by simp
  then have sc: "sched s1 thread_schedule = Inr s'" by (simp add: sched_def s1_def k(2))
  have "(heads s)(Run p := h) = heads s1" using k1(2) by (intro heads_eq [where L = "L(Run p := L (Run p) @ [cur s])"]) (simp_all add: s1_def heads_def)
  then have "qinv (ks s1) (heads s1) (L(Run p := L (Run p) @ [cur s]))" "queuelock (ks s1) = 0" using k1 by (simp_all add: s1_def)
  from schedule_sync [OF sc this] obtain L' where L': "qinv (ks s') (heads s') L'" "queuelock (ks s') = 0" "cur s' \<notin> waiting L'"
    "insert (cur s') (waiting L') = insert (cur s) (waiting L)" "\<forall>q. (\<forall>i. q \<noteq> Run i) \<longrightarrow> L' q = L q" unfolding waiting_append by auto
  have "sync_inv s' L'" using L' i(3,4) by (simp add: sync_inv_def k(2))
  moreover have "slabs (ks s') = slabs (ks s)" using schedule_slabs [OF sk] resume_slabs [OF k1(1)] by (simp add: k(2))
  ultimately show "kept s L s'" using L'(4) unfolding kept_def threads_of_def by (auto simp: k(2))
  show "mon_waiting s' = mon_waiting s" by (simp add: k(2))
qed


subsection \<open>The lock table's monitors\<close>

text \<open>
  What the kernel needs of the memory that monitors come from: a new monitor is not one in use. It then
  has no thread waiting.
\<close>

definition lock_inv :: "('h slab_heap \<Rightarrow> bool) \<Rightarrow> ('h slab_heap \<Rightarrow> addr set) \<Rightarrow> 'h sync \<Rightarrow> bool" where
  "lock_inv sok used s \<longleftrightarrow> sok (slabs (ks s)) \<and> (\<forall>m. mon_waiting s m \<noteq> 0 \<longrightarrow> m \<in> used (slabs (ks s))) \<and>
     (\<forall>p. locktable s p \<noteq> 0 \<longrightarrow> locktable s p \<in> used (slabs (ks s))) \<and>
     (\<forall>t op m. FMonitor op m \<in> set (frames s t) \<longrightarrow> m \<in> used (slabs (ks s)))"

lemma lock_inv_kept:
  assumes "lock_inv sok used s" "kept s L s'" "\<And>m. mon_waiting s' m \<noteq> 0 \<Longrightarrow> mon_waiting s m \<noteq> 0 \<or> m \<in> used (slabs (ks s))"
  shows "lock_inv sok used s'"
  using assms unfolding lock_inv_def kept_def by metis

lemma qinv_slabs: "qinv (k\<lparr>slabs := sl\<rparr>) H L \<longleftrightarrow> qinv k H L"
  by (simp add: qinv_def arch_get_thread_def resumable_def)

locale monitor_source =
  fixes sok :: "'h slab_heap \<Rightarrow> bool"
    and used :: "'h slab_heap \<Rightarrow> addr set"
    and cm :: "'h callocer"
  assumes new_monitor: "sok sl \<Longrightarrow> cm sl = Inr (sl', p) \<Longrightarrow> sok sl' \<and> p \<notin> used sl \<and> used sl' = insert p (used sl)"
begin

lemma new_entry:
  fixes p :: addr
  assumes "sync_inv s L" "lock_inv sok used s" "cm (slabs (ks s)) = Inr (sl, mon)"
  defines "s1 \<equiv> s\<lparr>ks := (ks s)\<lparr>slabs := sl\<rparr>, mtx := (mtx s)(mon := zero_mutex), mon_waiting := (mon_waiting s)(mon := 0),
               locktable := (locktable s)(p := mon)\<rparr>"
  shows "sync_inv s1 L" "lock_inv sok used s1" "threads_of s1 L = threads_of s L" "frames s1 = frames s" "mon \<in> used (slabs (ks s1))"
    "used (slabs (ks s)) \<subseteq> used (slabs (ks s1))"
proof -
  have i: "qinv (ks s) (heads s) L" "queuelock (ks s) = 0" "\<forall>m. m_spin (mtx s m) = 0" "\<forall>m. L (Mtx m) = []" "cur s \<notin> waiting L"
    using assms(1) by (auto simp: sync_inv_def)
  have n: "sok sl" "mon \<notin> used (slabs (ks s))" "used sl = insert mon (used (slabs (ks s)))"
    using new_monitor [OF _ assms(3)] assms(2) by (auto simp: lock_inv_def)
  have "m_waiting (mtx s mon) = 0" using qinv_D(1) [OF i(1), of "Mtx mon"] i(4) by (simp add: heads_def)
  moreover have "mon_waiting s mon = 0" using assms(2) n(2) by (auto simp: lock_inv_def)
  ultimately have h: "heads s1 = heads s" by (auto simp: heads_def s1_def fun_eq_iff zero_mutex_def split: qid.splits)
  have c: "cur s1 = cur s" by (simp add: cur_def s1_def arch_get_thread_def)
  have "qinv (ks s1) (heads s) L" using i(1) by (simp add: s1_def qinv_slabs)
  then show "sync_inv s1 L" unfolding sync_inv_def h c using i by (simp add: s1_def zero_mutex_def)
  show "threads_of s1 L = threads_of s L" by (simp add: threads_of_def c)
  show "frames s1 = frames s" "mon \<in> used (slabs (ks s1))" "used (slabs (ks s)) \<subseteq> used (slabs (ks s1))" using n(3) by (auto simp: s1_def)
  show "lock_inv sok used s1" using assms(2) n unfolding lock_inv_def s1_def by (auto split: if_splits)
qed

lemma got_ok:
  assumes "thread_got cm op s p = Inr (s', fs)" "sync_inv s L" "lock_inv sok used s"
  shows "\<exists>L'. sync_inv s' L' \<and> threads_of s' L' = threads_of s L" "frames s' = frames s" "lock_inv sok used s'"
    "\<exists>m \<in> used (slabs (ks s')). fs = [FMonitor op m]"
proof -
  obtain s1 m where s1: "thread_monitor_get cm s p = Inr (s', m)" "fs = [FMonitor op m]" "mutex_unlock s1 (locktablelock s1) = Inr s'"
    "(if locktable s p = 0 then
        bindE (cm (slabs (ks s))) (\<lambda>(sl, mon).
        Inr (s\<lparr>ks := (ks s)\<lparr>slabs := sl\<rparr>, mtx := (mtx s)(mon := zero_mutex), mon_waiting := (mon_waiting s)(mon := 0),
               locktable := (locktable s)(p := mon)\<rparr>, mon))
      else Inr (s, locktable s p)) = Inr (s1, m)"
    using assms(1) by (auto simp: thread_got_def thread_monitor_get_def bindE_Inr_iff)
  have g: "sync_inv s1 L \<and> lock_inv sok used s1 \<and> threads_of s1 L = threads_of s L \<and> frames s1 = frames s \<and> m \<in> used (slabs (ks s1))"
  proof (cases "locktable s p = 0")
    case True
    then obtain sl where sl: "cm (slabs (ks s)) = Inr (sl, m)" "s1 = s\<lparr>ks := (ks s)\<lparr>slabs := sl\<rparr>, mtx := (mtx s)(m := zero_mutex),
        mon_waiting := (mon_waiting s)(m := 0), locktable := (locktable s)(p := m)\<rparr>"
      using s1(4) by (auto simp: bindE_Inr_iff)
    from new_entry [OF assms(2,3) sl(1), of p] show ?thesis unfolding sl(2) by blast
  next
    case False
    then have "s1 = s" "m = locktable s p" using s1(4) by auto
    then show ?thesis using assms(2,3) False by (auto simp: lock_inv_def)
  qed
  note u = mutex_unlock_kept [OF s1(3) conjunct1 [OF g]]
  show "lock_inv sok used s'" using lock_inv_kept [OF _ u(2)] g u(3) by auto
  show "\<exists>L'. sync_inv s' L' \<and> threads_of s' L' = threads_of s L" "frames s' = frames s"
    using u(2) g unfolding kept_def by metis+
  show "\<exists>m \<in> used (slabs (ks s')). fs = [FMonitor op m]" using s1(2) g u(2) unfolding kept_def by auto
qed

text \<open>One frame.\<close>

definition frame_ok :: "'h sync \<Rightarrow> (qid \<Rightarrow> addr list) \<Rightarrow> frame \<Rightarrow> 'h sync \<Rightarrow> frame list \<Rightarrow> bool" where
  "frame_ok s L f s' fs \<longleftrightarrow> (\<exists>L'. sync_inv s' L' \<and> threads_of s' L' = (if f = FSchedule then threads_of s L - {cur s} else threads_of s L)) \<and>
     frames s' = frames s \<and> lock_inv sok used s' \<and> (\<forall>op m. FMonitor op m \<in> set fs \<longrightarrow> m \<in> used (slabs (ks s'))) \<and> (f = FSchedule \<longrightarrow> fs = [FExited])"

lemma frame_kept:
  assumes "kept s L s'" "lock_inv sok used s" "\<And>m. mon_waiting s' m \<noteq> 0 \<Longrightarrow> mon_waiting s m \<noteq> 0 \<or> m \<in> used (slabs (ks s))" "f \<noteq> FSchedule"
    "\<forall>op m. FMonitor op m \<notin> set fs"
  shows "frame_ok s L f s' fs"
  using lock_inv_kept [OF assms(2,1,3)] assms(1,4,5) unfolding frame_ok_def kept_def by auto

lemma schedule_frame:
  assumes "sched s thread_schedule = Inr s'" "sync_inv s L" "lock_inv sok used s"
  shows "frame_ok s L FSchedule s' [FExited]"
proof -
  have i: "qinv (ks s) (heads s) L" "queuelock (ks s) = 0" "\<forall>m. m_spin (mtx s m) = 0" "\<forall>m. L (Mtx m) = []" "cur s \<notin> waiting L"
    using assms(2) by (auto simp: sync_inv_def)
  from schedule_sync [OF assms(1) i(1,2)] obtain L' where L': "qinv (ks s') (heads s') L'" "queuelock (ks s') = 0" "cur s' \<notin> waiting L'"
    "insert (cur s') (waiting L') = waiting L" "\<forall>q. (\<forall>i. q \<noteq> Run i) \<longrightarrow> L' q = L q" by blast
  obtain k where k: "thread_schedule (ks s) = Inr k" "s' = s\<lparr>ks := k\<rparr>" using assms(1) by (auto simp: sched_Inr)
  have "sync_inv s' L'" using L' i(3,4) by (simp add: sync_inv_def k(2))
  moreover have "threads_of s' L' = threads_of s L - {cur s}" using L'(4) i(5) by (simp add: threads_of_def)
  moreover have "lock_inv sok used s'" using assms(3) schedule_slabs [OF k(1)] by (simp add: lock_inv_def k(2))
  ultimately show ?thesis unfolding frame_ok_def by (auto simp: k(2))
qed

lemma monitor_frame:
  assumes "monitor_op n op s mon = Inr (s', fs)" "sync_inv s L" "lock_inv sok used s" "mon \<in> used (slabs (ks s))"
  shows "frame_ok s L (FMonitor op mon) s' fs"
proof (cases op)
  case MEnter
  then have "mutex_lock s mon = Inr (s', fs)" using assms(1) by (simp add: monitor_enter_def)
  from mutex_lock_kept [OF this assms(2)] show ?thesis by (intro frame_kept [OF _ assms(3)]) auto
next
  case MLeave
  then have "mutex_unlock s mon = Inr s'" "fs = []" using assms(1) by (auto simp: monitor_leave_def bindE_Inr_iff)
  from mutex_unlock_kept [OF this(1) assms(2)] this(2) show ?thesis by (intro frame_kept [OF _ assms(3)]) auto
next
  case MSignal
  then have r: "monitor_signal s mon = Inr s'" "fs = []" using assms(1) by (auto simp: bindE_Inr_iff)
  note k = signal_kept [OF r(1) assms(2)]
  have "mon_waiting s m \<noteq> 0 \<or> m \<in> used (slabs (ks s))" if "mon_waiting s' m \<noteq> 0" for m
    using k(3) [of m] assms(4) that by (cases "m = mon") auto
  then show ?thesis using k(1) r(2) by (intro frame_kept [OF _ assms(3)]) auto
next
  case MBroadcast
  then have r: "monitor_broadcast n s mon = Inr s'" "fs = []" using assms(1) by (auto simp: bindE_Inr_iff)
  from broadcast_kept [OF r(1) assms(2)] show ?thesis using r(2) by (intro frame_kept [OF _ assms(3)]) auto
next
  case MWait
  then have r: "monitor_wait s mon = Inr (s', fs)" using assms(1) by simp
  note k = wait_kept [OF r assms(2)]
  have "mon_waiting s m \<noteq> 0 \<or> m \<in> used (slabs (ks s))" if "mon_waiting s' m \<noteq> 0" for m
    using k(2) [of m] assms(4) that by (cases "m = mon") auto
  then show ?thesis using k(1,3) by (intro frame_kept [OF _ assms(3)]) auto
qed

lemma run_ok:
  assumes "run_frame n cm f s = Inr (s', fs)" "sync_inv s L" "lock_inv sok used s" "\<And>op m. f = FMonitor op m \<Longrightarrow> m \<in> used (slabs (ks s))"
  shows "frame_ok s L f s' fs"
proof (cases f)
  case FYield
  then have "sched s thread_yield = Inr s'" "fs = []" using assms(1) by (auto simp: bindE_Inr_iff)
  from yield_kept [OF this(1) assms(2)] this(2) FYield show ?thesis by (intro frame_kept [OF _ assms(3)]) auto
next
  case (FExit v)
  define g where "g = (\<lambda>x :: thread_t. x\<lparr>retval := v, tstate := THREAD_TERMINATED\<rparr>)"
  have r: "s' = s\<lparr>ks := upd_thr (cur s) g (ks s)\<rparr>" "fs = [FThread MEnter (cur s), FThread MBroadcast (cur s), FThread MLeave (cur s), FSchedule]"
    using assms(1) FExit by (simp_all add: thread_exit_def Let_def g_def)
  have i: "qinv (ks s) (heads s) L" "cur s \<notin> waiting L" using assms(2) by (auto simp: sync_inv_def)
  note D = qinv_D [OF i(1)]
  have c: "cur s \<notin> set (L q)" for q using i(2) by (auto simp: waiting_def)
  have "qinv (upd_thr (cur s) g (ks s)) (heads s) L"
  proof -
    have "tstate (thr (upd_thr (cur s) g (ks s)) u) = state_of q \<and> priority (thr (upd_thr (cur s) g (ks s)) u) < 3 \<and>
        (u \<noteq> arch_get_thread (ks s) \<longrightarrow> resumable (upd_thr (cur s) g (ks s)) u)" if "u \<in> set (L q)" for u q
      using D(3-5) [OF that] c [of q] that by (auto simp: resumable_def)
    then show ?thesis unfolding qinv_def using D(1,2,6-10) by (auto simp: g_def)
  qed
  moreover have "heads s' = heads s" "cur s' = cur s" by (auto simp: r heads_def cur_def fun_eq_iff split: qid.splits)
  ultimately have "sync_inv s' L" "threads_of s' L = threads_of s L" using assms(2) by (auto simp: sync_inv_def r threads_of_def)
  then have "kept s L s'" unfolding kept_def by (auto simp: r)
  then show ?thesis using FExit by (intro frame_kept [OF _ assms(3)]) (auto simp: r)
next
  case (FJoin0 t)
  then have "s' = s" "fs = [FThread MEnter t, FJoin t]" using assms(1) by (auto simp: thread_join_def)
  then show ?thesis using FJoin0 kept_refl [OF assms(2)] by (intro frame_kept [OF _ assms(3)]) auto
next
  case (FLock m)
  then have "mutex_lock s m = Inr (s', fs)" using assms(1) by simp
  from mutex_lock_kept [OF this assms(2)] FLock show ?thesis by (intro frame_kept [OF _ assms(3)]) auto
next
  case (FUnlock m)
  then have "mutex_unlock s m = Inr s'" "fs = []" using assms(1) by (auto simp: bindE_Inr_iff)
  from mutex_unlock_kept [OF this(1) assms(2)] this(2) FUnlock show ?thesis by (intro frame_kept [OF _ assms(3)]) auto
next
  case (FRelock m)
  then have "mutex_relock s m = Inr (s', fs)" using assms(1) by simp
  from mutex_relock_kept [OF this assms(2)] FRelock show ?thesis by (intro frame_kept [OF _ assms(3)]) auto
next
  case (FMonitor op m)
  then show ?thesis using monitor_frame [OF _ assms(2,3)] assms(1,4) by simp
next
  case (FMonRelock m c)
  then obtain gs where "mutex_lock s m = Inr (s', gs)" "fs = gs @ [FMonCount m c]" using assms(1) by (auto simp: bindE_Inr_iff)
  from mutex_lock_kept [OF this(1) assms(2)] this(2) FMonRelock show ?thesis by (intro frame_kept [OF _ assms(3)]) auto
next
  case (FMonCount m c)
  then have r: "s' = upd_mtx m (\<lambda>x. x\<lparr>m_count := c\<rparr>) s" "fs = []" using assms(1) by auto
  have "quiet s s'" unfolding r(1) by (rule quiet_mtx) simp
  moreover have "\<forall>m. m_spin (mtx s' m) = 0" using assms(2) by (simp add: r sync_inv_def)
  ultimately show ?thesis using kept_quiet [OF assms(2)] r(2) FMonCount by (intro frame_kept [OF _ assms(3)]) auto
next
  case (FThread op p)
  then obtain gs where "mutex_lock s (locktablelock s) = Inr (s', gs)" "fs = gs @ [FGet op p]" using assms(1) by (auto simp: thread_op_def bindE_Inr_iff)
  from mutex_lock_kept [OF this(1) assms(2)] this(2) FThread show ?thesis by (intro frame_kept [OF _ assms(3)]) auto
next
  case (FGet op p)
  then have "thread_got cm op s p = Inr (s', fs)" using assms(1) by simp
  from got_ok [OF this assms(2,3)] FGet show ?thesis unfolding frame_ok_def by auto
next
  case (FJoin t)
  then have "s' = s" "\<forall>op m. FMonitor op m \<notin> set fs" using assms(1) by (auto simp: join_loop_def split: if_splits)
  then show ?thesis using FJoin kept_refl [OF assms(2)] by (intro frame_kept [OF _ assms(3)]) auto
next
  case (FRet v)
  then have r: "s' = s\<lparr>eax := v\<rparr>" "fs = []" using assms(1) by auto
  have "quiet s s'" by (auto simp: r quiet_def intro!: exI [of _ "mach (ks s)"])
  moreover have "\<forall>m. m_spin (mtx s' m) = 0" using assms(2) by (simp add: r sync_inv_def)
  ultimately show ?thesis using kept_quiet [OF assms(2)] r(2) FRet by (intro frame_kept [OF _ assms(3)]) auto
next
  case FSchedule
  then have "sched s thread_schedule = Inr s'" "fs = [FExited]" using assms(1) by (auto simp: bindE_Inr_iff)
  then show ?thesis using schedule_frame assms(2,3) FSchedule by blast
next
  case FExited
  then show ?thesis using assms(1) by simp
qed

definition accounted :: "addr set \<Rightarrow> 'h sync \<Rightarrow> bool" where
  "accounted T s \<longleftrightarrow> (\<exists>L. sync_inv s L \<and> threads_of s L \<subseteq> T \<and> (\<forall>t \<in> T. t \<in> threads_of s L \<or> (\<exists>r. frames s t = FExited # r))) \<and> lock_inv sok used s"

lemma frames_irrelevant:
  "sync_inv (s\<lparr>frames := g\<rparr>) L \<longleftrightarrow> sync_inv s L" "threads_of (s\<lparr>frames := g\<rparr>) L = threads_of s L"
proof -
  have "heads (s\<lparr>frames := g\<rparr>) = heads s" "cur (s\<lparr>frames := g\<rparr>) = cur s" by (simp_all add: heads_def cur_def fun_eq_iff split: qid.splits)
  then show "sync_inv (s\<lparr>frames := g\<rparr>) L \<longleftrightarrow> sync_inv s L" "threads_of (s\<lparr>frames := g\<rparr>) L = threads_of s L"
    by (simp_all add: sync_inv_def threads_of_def)
qed

lemma accounted_frame:
  assumes "accounted T s" "run_frame n cm f s = Inr (s', fs)" "frames s (cur s) = [] \<and> callable f \<and> r = [] \<or> frames s (cur s) = f # r"
  shows "accounted T (s'\<lparr>frames := (frames s')(cur s := fs @ r)\<rparr>)"
proof -
  obtain L where L: "sync_inv s L" "threads_of s L \<subseteq> T" "\<forall>t \<in> T. t \<in> threads_of s L \<or> (\<exists>r. frames s t = FExited # r)" and li: "lock_inv sok used s"
    using assms(1) by (auto simp: accounted_def)
  have m: "m \<in> used (slabs (ks s))" if "f = FMonitor op m" for op m
  proof -
    have "FMonitor op m \<in> set (frames s (cur s))" using that assms(3) by auto
    then show ?thesis using li unfolding lock_inv_def by blast
  qed
  have ok: "frame_ok s L f s' fs" by (rule run_ok [OF assms(2) L(1) li]) (rule m)
  then obtain L' where L': "sync_inv s' L'" "threads_of s' L' = (if f = FSchedule then threads_of s L - {cur s} else threads_of s L)"
    and f: "frames s' = frames s" "lock_inv sok used s'" "\<forall>op m. FMonitor op m \<in> set fs \<longrightarrow> m \<in> used (slabs (ks s'))" "f = FSchedule \<Longrightarrow> fs = [FExited]"
    unfolding frame_ok_def by blast
  define s'' where "s'' = s'\<lparr>frames := (frames s')(cur s := fs @ r)\<rparr>"
  have rs: "set r \<subseteq> set (frames s (cur s))" using assms(3) by auto
  have "lock_inv sok used s''"
    using f(2,3) rs unfolding lock_inv_def s''_def f(1) by (auto split: if_splits)
  moreover have "t \<in> threads_of s'' L' \<or> (\<exists>r. frames s'' t = FExited # r)" if t: "t \<in> T" for t
  proof (cases "t = cur s")
    case True
    moreover have "cur s \<in> threads_of s L" by (simp add: threads_of_def)
    ultimately show ?thesis using L'(2) f(4) by (cases "f = FSchedule") (simp_all add: s''_def frames_irrelevant)
  next
    case False
    then show ?thesis using L(3) t L'(2) f(1) by (auto simp: s''_def frames_irrelevant split: if_splits)
  qed
  moreover have "sync_inv s'' L'" "threads_of s'' L' \<subseteq> T" using L' L(2) by (auto simp: s''_def frames_irrelevant split: if_splits)
  ultimately show ?thesis unfolding accounted_def s''_def [symmetric] by blast
qed

lemma accounted_step: "step n cm s s' \<Longrightarrow> accounted T s \<Longrightarrow> accounted T s'"
proof (induction rule: step.induct)
  case (step_call s f s' fs)
  then show ?case using accounted_frame [OF step_call.prems step_call.hyps(3), of "[]"] by simp
next
  case (step_frame s f r s' fs)
  then show ?case using accounted_frame [OF step_frame.prems step_frame.hyps(2), of r] by simp
qed

lemma accounted_steps: "(step n cm)\<^sup>*\<^sup>* s s' \<Longrightarrow> accounted T s \<Longrightarrow> accounted T s'"
  by (induction rule: rtranclp_induct) (auto intro: accounted_step)

end

subsection \<open>The kernel's threads\<close>

definition calloc_monitor :: "nat \<Rightarrow> nat \<Rightarrow> addr \<Rightarrow> vmap_t page_heap callocer" where
  "calloc_monitor n m monitors sl = slab_alloc n (page_heap_alloc (kernel_mapper m)) sl monitors"

interpretation kernel_monitors: monitor_source "slab_ok (heap_ok start) (used_heap start) t" used_objs "calloc_monitor n m t" for start t n m
proof
  fix sl sl' p assume "slab_ok (heap_ok start) (used_heap start) t sl" "calloc_monitor n m t sl = Inr (sl', p)"
  then show "slab_ok (heap_ok start) (used_heap start) t sl' \<and> p \<notin> used_objs sl \<and> used_objs sl' = insert p (used_objs sl)"
    using kernel_slabs.slab_alloc_ok unfolding calloc_monitor_def by blast
qed


text \<open>
  C22. No thread is lost or run twice. From any state in which the running thread waits nowhere and the
  queues are disjoint, after any steps of the kernel this still holds: each of the threads is the running
  one, or waits in exactly one of the run queues and the queues of monitors, in the state that belongs to
  the queue, with saved registers that lead back to it; or it has ended its exit and is in none. No other
  thread appears.
\<close>

theorem threads_conserved:
  assumes "sync_inv s L" "lock_inv (slab_ok (heap_ok start) (used_heap start) t) used_objs s" "(step n (calloc_monitor k m t))\<^sup>*\<^sup>* s s'"
  shows "\<exists>L'. sync_inv s' L' \<and> threads_of s' L' \<subseteq> threads_of s L \<and>
    (\<forall>u \<in> threads_of s L. u \<in> threads_of s' L' \<or> (\<exists>r. frames s' u = FExited # r))"
proof -
  have "kernel_monitors.accounted start t (threads_of s L) s" using assms(1,2) by (auto simp: kernel_monitors.accounted_def)
  from kernel_monitors.accounted_steps [OF assms(3) this] show ?thesis by (auto simp: kernel_monitors.accounted_def)
qed

definition demo_sync :: "vmap_t page_heap sync" where
  "demo_sync = \<lparr>ks = demo_threads demo_slabs, mtx = \<lambda>_. zero_mutex, mon_waiting = \<lambda>_. 0, locktable = \<lambda>_. 0, locktablelock = 8,
     frames = \<lambda>_. [], eax = 0\<rparr>"

lemma demo_sync_ok:
  "sync_inv demo_sync demo_L" "lock_inv (slab_ok (heap_ok 0x400000) (used_heap 0x400000) (0x2000 + 32 * of_nat 2)) used_objs demo_sync"
  "threads_of demo_sync demo_L = {16, 32, 48}"
proof -
  have h: "heads demo_sync = (\<lambda>_. 0)(Run 1 := 32)"
  proof
    fix q show "heads demo_sync q = ((\<lambda>_. 0)(Run 1 := 32)) q"
    proof (cases q)
      case (Run i)
      then show ?thesis by (cases "i < 3") (auto simp: heads_def demo_sync_def demo_threads_def numeral_3_eq_3 less_Suc_eq)
    qed (simp_all add: heads_def demo_sync_def zero_mutex_def)
  qed
  have c: "cur demo_sync = 16" using demo_threads_ok(1) by (simp add: cur_def demo_sync_def)
  show "sync_inv demo_sync demo_L" unfolding sync_inv_def h c
    using demo_threads_ok(2) [where sl = demo_slabs] demo_threads_ok(3) by (simp add: demo_sync_def demo_threads_def [of demo_slabs] zero_mutex_def demo_L_def) 
  show "lock_inv (slab_ok (heap_ok 0x400000) (used_heap 0x400000) (0x2000 + 32 * of_nat 2)) used_objs demo_sync"
    using demo_slabs_ok [of 2] by (simp add: lock_inv_def demo_sync_def demo_threads_def)
  show "threads_of demo_sync demo_L = {16, 32, 48}" using demo_threads_ok(3) c by (simp add: threads_of_def)
qed

theorem threads_conserved_witness:
  "\<exists>s' L'. (step 0 (calloc_monitor 0 2 (0x2000 + 32 * of_nat 2)))\<^sup>*\<^sup>* demo_sync s' \<and> cur s' = 32 \<and> sync_inv s' L' \<and> threads_of s' L' = {16, 32, 48}"
proof -
  have y: "\<exists>k. thread_yield (demo_threads demo_slabs) = Inr k \<and> arch_get_thread k = 32"
  proof -
    have "\<forall>j<1. demo_L (Run j) = []" "\<forall>t \<in> set (arch_get_thread (demo_threads demo_slabs) # demo_L (Run 1)). priority (thr (demo_threads demo_slabs) t) = 1"
      "queuelock (demo_threads demo_slabs) = 0" by (simp_all add: demo_L_def demo_threads_def)
    then show ?thesis using round_robin_step [of "demo_threads demo_slabs" "(\<lambda>_. 0)(Run 1 := 32)" demo_L 1] demo_threads_ok(1,2) [where sl = demo_slabs] demo_threads_ok(3)
      by (auto simp: demo_L_def)
  qed
  then obtain k where k: "thread_yield (demo_threads demo_slabs) = Inr k" "arch_get_thread k = 32" by blast
  define s' where "s' = (demo_sync\<lparr>ks := k\<rparr>)\<lparr>frames := (frames (demo_sync\<lparr>ks := k\<rparr>))(cur demo_sync := [])\<rparr>"
  have "run_frame 0 (calloc_monitor 0 2 (0x2000 + 32 * of_nat 2)) FYield demo_sync = Inr (demo_sync\<lparr>ks := k\<rparr>, [])"
    using k(1) by (simp add: sched_def demo_sync_def)
  then have st: "step 0 (calloc_monitor 0 2 (0x2000 + 32 * of_nat 2)) demo_sync s'"
    unfolding s'_def by (intro step_call [where f = FYield]) (simp_all add: demo_sync_def)
  have fr: "frames s' u = []" for u by (simp add: s'_def demo_sync_def)
  have rt: "(step 0 (calloc_monitor 0 2 (0x2000 + 32 * of_nat 2)))\<^sup>*\<^sup>* demo_sync s'" using st by (rule r_into_rtranclp)
  from threads_conserved [OF demo_sync_ok(1,2) rt] obtain L' where
    "sync_inv s' L'" "threads_of s' L' = {16, 32, 48}" using fr demo_sync_ok(3) by auto
  moreover have "cur s' = 32" using k(2) by (simp add: s'_def cur_def)
  ultimately show ?thesis using rt by blast
qed

subsection \<open>Who owns a mutex\<close>

fun lock_times :: "nat \<Rightarrow> 'h sync \<Rightarrow> addr \<Rightarrow> 'h sync res" where
  "lock_times 0 s m = Inr s"
| "lock_times (Suc n) s m = bindE (mutex_lock s m) (\<lambda>(s, fs). if fs = [] then lock_times n s m else Inl OutOfFuel)"

fun unlock_times :: "nat \<Rightarrow> 'h sync \<Rightarrow> addr \<Rightarrow> 'h sync res" where
  "unlock_times 0 s m = Inr s"
| "unlock_times (Suc n) s m = bindE (mutex_unlock s m) (\<lambda>s. unlock_times n s m)"

lemma lock_times_ok:
  assumes "\<forall>m. m_spin (mtx s m) = 0" "m_owner (mtx s m) = cur s"
  shows "\<exists>s'. lock_times n s m = Inr s' \<and> quiet s s' \<and> mtx s' = (mtx s)(m := (mtx s m)\<lparr>m_count := m_count (mtx s m) + int n\<rparr>)"
  using assms
proof (induction n arbitrary: s)
  case 0
  then show ?case by (auto simp: quiet_def intro!: exI [of _ "mach (ks s)"])
next
  case (Suc n)
  from mutex_lock_free [OF Suc.prems(1) disjI2 [OF Suc.prems(2)]] obtain s1 where
    s1: "mutex_lock s m = Inr (s1, [])" "quiet s s1" "mtx s1 = (mtx s)(m := (mtx s m)\<lparr>m_owner := cur s, m_count := m_count (mtx s m) + 1\<rparr>)" by blast
  have p: "\<forall>m. m_spin (mtx s1 m) = 0" "m_owner (mtx s1 m) = cur s1" using Suc.prems s1(3) quiet_keeps(2) [OF s1(2)] by auto
  from Suc.IH [OF p] obtain s2 where s2: "lock_times n s1 m = Inr s2" "quiet s1 s2" "mtx s2 = (mtx s1)(m := (mtx s1 m)\<lparr>m_count := m_count (mtx s1 m) + int n\<rparr>)" by blast
  have "mtx s2 = (mtx s)(m := (mtx s m)\<lparr>m_count := m_count (mtx s m) + int (Suc n)\<rparr>)"
    using Suc.prems(2) by (cases "mtx s m") (simp add: s2(3) s1(3) algebra_simps)
  then show ?case using s1(1) s2(1) quiet_trans [OF s1(2) s2(2)] by auto
qed

lemma unlock_times_ok:
  assumes "\<forall>m. m_spin (mtx s m) = 0" "m_owner (mtx s m) = cur s" "m_count (mtx s m) = int (Suc n)"
  shows "\<exists>s'. unlock_times (Suc n) s m = Inr s' \<and> mtx s' = (mtx s)(m := (mtx s m)\<lparr>m_count := 0, m_owner := 0\<rparr>)"
  using assms
proof (induction n arbitrary: s)
  case 0
  then show ?case using mutex_unlock_ok [OF 0(1), of m] by auto
next
  case (Suc n)
  from mutex_unlock_ok [OF Suc.prems(1), of m] obtain s1 where s1: "mutex_unlock s m = Inr s1" "quiet s s1"
    "mtx s1 = (mtx s)(m := (mtx s m)\<lparr>m_count := m_count (mtx s m) - 1, m_owner := m_owner (mtx s m)\<rparr>)" using Suc.prems by auto
  have p: "\<forall>m. m_spin (mtx s1 m) = 0" "m_owner (mtx s1 m) = cur s1" "m_count (mtx s1 m) = int (Suc n)"
    using Suc.prems s1(3) quiet_keeps(2) [OF s1(2)] by auto
  from Suc.IH [OF p] obtain s2 where "unlock_times (Suc n) s1 m = Inr s2" "mtx s2 = (mtx s1)(m := (mtx s1 m)\<lparr>m_count := 0, m_owner := 0\<rparr>)" by blast
  moreover have "(mtx s1 m)\<lparr>m_count := 0, m_owner := 0\<rparr> = (mtx s m)\<lparr>m_count := 0, m_owner := 0\<rparr>" by (cases "mtx s m") (simp add: s1(3))
  ultimately show ?case using s1(1,3) by auto
qed

text \<open>
  C23. Who owns a mutex. A thread that takes a free mutex, and takes it again any number of times, owns it
  with that count, and as many unlocks leave the mutex as it was. But a thread that had to wait, and goes
  on when the mutex is free, leaves without becoming the owner: the next thread takes the mutex while it
  is inside, and its own unlock does nothing, so the count is never taken back.
\<close>

theorem mutex_ownership:
  assumes "\<forall>m. m_spin (mtx s m) = 0" "m_owner (mtx s m) = 0" "cur s \<noteq> 0"
  shows "(m_count (mtx s m) = 0 \<longrightarrow> (\<exists>s1 s2. lock_times (Suc n) s m = Inr s1 \<and> m_owner (mtx s1 m) = cur s \<and> m_count (mtx s1 m) = int (Suc n) \<and>
      unlock_times (Suc n) s1 m = Inr s2 \<and> mtx s2 = mtx s)) \<and>
    (\<exists>s1. mutex_relock s m = Inr (s1, []) \<and> m_owner (mtx s1 m) = 0 \<and> m_count (mtx s1 m) = m_count (mtx s m) + 1 \<and>
      (\<forall>s2 :: 'a sync. mtx s2 = mtx s1 \<longrightarrow> (\<exists>s3. mutex_lock s2 m = Inr (s3, []) \<and> m_owner (mtx s3 m) = cur s2)) \<and>
      (\<forall>s2 :: 'a sync. mtx s2 = mtx s1 \<and> cur s2 \<noteq> 0 \<longrightarrow> (\<exists>s3. mutex_unlock s2 m = Inr s3 \<and> mtx s3 = mtx s1)))"
proof (intro conjI impI)
  assume c0: "m_count (mtx s m) = 0"
  from mutex_lock_free [OF assms(1) disjI1 [OF assms(2)]] obtain s0 where
    s0: "mutex_lock s m = Inr (s0, [])" "quiet s s0" "mtx s0 = (mtx s)(m := (mtx s m)\<lparr>m_owner := cur s, m_count := m_count (mtx s m) + 1\<rparr>)" by blast
  have p: "\<forall>m. m_spin (mtx s0 m) = 0" "m_owner (mtx s0 m) = cur s0" using assms(1) s0(3) quiet_keeps(2) [OF s0(2)] by auto
  from lock_times_ok [OF p, of n] obtain s1 where s1: "lock_times n s0 m = Inr s1" "quiet s0 s1" "mtx s1 = (mtx s0)(m := (mtx s0 m)\<lparr>m_count := m_count (mtx s0 m) + int n\<rparr>)" by blast
  have p1: "\<forall>m. m_spin (mtx s1 m) = 0" "m_owner (mtx s1 m) = cur s1" "m_count (mtx s1 m) = int (Suc n)"
    using p assms(1) s1(3) s0(3) c0 quiet_keeps(2) [OF s1(2)] by auto
  from unlock_times_ok [OF p1] obtain s2 where s2: "unlock_times (Suc n) s1 m = Inr s2" "mtx s2 = (mtx s1)(m := (mtx s1 m)\<lparr>m_count := 0, m_owner := 0\<rparr>)" by blast
  have "mtx s2 = mtx s" using assms(2) c0 by (cases "mtx s m") (auto simp: s2(2) s1(3) s0(3))
  moreover have "cur s1 = cur s" using quiet_keeps(2) [OF s1(2)] quiet_keeps(2) [OF s0(2)] by simp
  ultimately show "\<exists>s1 s2. lock_times (Suc n) s m = Inr s1 \<and> m_owner (mtx s1 m) = cur s \<and> m_count (mtx s1 m) = int (Suc n) \<and>
      unlock_times (Suc n) s1 m = Inr s2 \<and> mtx s2 = mtx s"
    using s0(1) s1(1) p1 s2(1) by (intro exI [of _ s1] exI [of _ s2]) simp
next
  have z: "m_spin (mtx s m) = 0" using assms(1) by blast
  obtain sl where sl: "spin_lock s m = Inr sl" using spin_lock_free [of s m, OF z] by blast
  note l = spin_lock_ok [OF sl z]
  define s1 where "s1 = spin_unlock (upd_mtx m (\<lambda>x. x\<lparr>m_count := m_count x + 1\<rparr>) sl) m"
  have e: "mutex_relock s m = Inr (s1, [])" using assms(2) by (simp add: mutex_relock_def sl mutex_loop_def l(2) s1_def)
  have m1: "mtx s1 = (mtx s)(m := (mtx s m)\<lparr>m_count := m_count (mtx s m) + 1\<rparr>)"
    using z by (cases "mtx s m") (simp add: s1_def spin_unlock_ok(2) l(2))
  have z1: "\<forall>k. m_spin (mtx s1 k) = 0" "m_owner (mtx s1 m) = 0" using assms(1,2) by (auto simp: m1)
  have "\<exists>s3. mutex_lock s2 m = Inr (s3, []) \<and> m_owner (mtx s3 m) = cur s2" if "mtx s2 = mtx s1" for s2 :: "'a sync"
    using mutex_lock_free [of s2 m] that z1 by fastforce
  moreover have "\<exists>s3. mutex_unlock s2 m = Inr s3 \<and> mtx s3 = mtx s1" if "mtx s2 = mtx s1 \<and> cur s2 \<noteq> 0" for s2 :: "'a sync"
    using mutex_unlock_ok [of s2 m] that z1 by fastforce
  ultimately show "\<exists>s1. mutex_relock s m = Inr (s1, []) \<and> m_owner (mtx s1 m) = 0 \<and> m_count (mtx s1 m) = m_count (mtx s m) + 1 \<and>
      (\<forall>s2 :: 'a sync. mtx s2 = mtx s1 \<longrightarrow> (\<exists>s3. mutex_lock s2 m = Inr (s3, []) \<and> m_owner (mtx s3 m) = cur s2)) \<and>
      (\<forall>s2 :: 'a sync. mtx s2 = mtx s1 \<and> cur s2 \<noteq> 0 \<longrightarrow> (\<exists>s3. mutex_unlock s2 m = Inr s3 \<and> mtx s3 = mtx s1))"
    using e assms(2) by (intro exI [of _ s1]) (simp add: m1)
qed

theorem mutex_ownership_witness:
  "\<exists>s1. mutex_relock demo_sync 64 = Inr (s1, []) \<and> m_owner (mtx s1 64) = 0 \<and> m_count (mtx s1 64) = 1"
proof -
  have "cur demo_sync \<noteq> 0" using demo_threads_ok(1) [where sl = demo_slabs] by (simp add: cur_def demo_sync_def)
  then show ?thesis using mutex_ownership [of demo_sync 64 0] by (auto simp: demo_sync_def zero_mutex_def)
qed

end
