(* ===== verification/Timer.thy ===== *)
theory Timer
  imports Cpu
begin

text \<open>
  Timers (\<^verbatim>\<open>src/kernel/timer.c\<close>): a singly linked queue of events, each with the time from the one before it.
  The operations of the device, \<^verbatim>\<open>timer_set\<close> and \<^verbatim>\<open>timer_clear\<close>, and the call of a callback are arguments,
  as they are function pointers in the code; the device that the kernel passes is the interval timer
  (\<^verbatim>\<open>pit_timer_set\<close>, \<^verbatim>\<open>pit_timer_clear\<close>), whose \<^verbatim>\<open>timer_clear\<close> returns the time that remains. Times are
  \<^verbatim>\<open>int64_t\<close> and stay far from its bounds: they are integers here.

  \<^verbatim>\<open>pprev\<close> is the address of the pointer to the next event: of \<^verbatim>\<open>timers->queue\<close> (\<open>None\<close>) or of an event's
  \<^verbatim>\<open>next\<close>.
\<close>

record timer_event_t =
  te_usec :: int
  te_cb :: addr
  te_p :: addr
  te_next :: addr

record timer_t =
  tm_queue :: addr
  tm_lock :: int
  tm_ev :: "addr \<Rightarrow> timer_event_t"
  tm_mach :: machine

record timer_ops_t =
  timer_set :: "machine \<Rightarrow> int \<Rightarrow> machine res"
  timer_clear :: "machine \<Rightarrow> (machine \<times> int) res"

definition upd_ev :: "addr \<Rightarrow> (timer_event_t \<Rightarrow> timer_event_t) \<Rightarrow> timer_t \<Rightarrow> timer_t" where
  "upd_ev a f t = t\<lparr>tm_ev := (tm_ev t)(a := f (tm_ev t a))\<rparr>"

definition deref :: "timer_t \<Rightarrow> addr option \<Rightarrow> addr" where
  "deref t pprev = (case pprev of None \<Rightarrow> tm_queue t | Some a \<Rightarrow> te_next (tm_ev t a))"

definition assign :: "timer_t \<Rightarrow> addr option \<Rightarrow> addr \<Rightarrow> timer_t" where
  "assign t pprev v = (case pprev of None \<Rightarrow> t\<lparr>tm_queue := v\<rparr> | Some a \<Rightarrow> upd_ev a (\<lambda>e. e\<lparr>te_next := v\<rparr>) t)"

definition timers_lock :: "timer_t \<Rightarrow> timer_t res" where
  "timers_lock t = bindE (arch_spin_lock (tm_mach t) (tm_lock t)) (\<lambda>(m, l). Inr (t\<lparr>tm_mach := m, tm_lock := l\<rparr>))"

definition timers_unlock :: "timer_t \<Rightarrow> timer_t" where
  "timers_unlock t = (case arch_spin_unlock (tm_mach t) (tm_lock t) of (m, l) \<Rightarrow> t\<lparr>tm_mach := m, tm_lock := l\<rparr>)"

text \<open>\<^verbatim>\<open>timer_init\<close> takes its memory from \<^verbatim>\<open>malloc\<close> and leaves the queue as it finds it.\<close>

definition timer_init :: "timer_t \<Rightarrow> timer_t" where
  "timer_init t = t\<lparr>tm_lock := 0\<rparr>"

definition timer_expire :: "timer_ops_t \<Rightarrow> (addr \<Rightarrow> addr \<Rightarrow> timer_t \<Rightarrow> timer_t res) \<Rightarrow> timer_t \<Rightarrow> timer_t res" where
  "timer_expire ops call t = bindE (timers_lock t) (\<lambda>t.
    let timer = tm_queue t in
    bindE (if timer \<noteq> 0 then
        (let t = t\<lparr>tm_queue := te_next (tm_ev t timer)\<rparr>;
           t = upd_ev timer (\<lambda>e. e\<lparr>te_next := 0\<rparr>) t;
           t = timers_unlock t in
         bindE (call (te_cb (tm_ev t timer)) (te_p (tm_ev t timer)) t) (\<lambda>t.
         bindE (timers_lock t) (\<lambda>t.
         if tm_queue t \<noteq> 0 then bindE (timer_set ops (tm_mach t) (te_usec (tm_ev t (tm_queue t)))) (\<lambda>m. Inr (t\<lparr>tm_mach := m\<rparr>))
         else Inr t)))
      else Inr t) (\<lambda>t. Inr (timers_unlock t)))"

fun add_loop :: "nat \<Rightarrow> timer_t \<Rightarrow> addr \<Rightarrow> addr option \<Rightarrow> addr \<Rightarrow> (timer_t \<times> addr option) res" where
  "add_loop n t timer pprev next = (if next = 0 then Inr (t, pprev)
     else case n of 0 \<Rightarrow> Inl OutOfFuel
     | Suc n \<Rightarrow>
       if te_usec (tm_ev t timer) < te_usec (tm_ev t next)
       then Inr (upd_ev next (\<lambda>e. e\<lparr>te_usec := te_usec e - te_usec (tm_ev t timer)\<rparr>) t, pprev)
       else let t = upd_ev timer (\<lambda>e. e\<lparr>te_usec := te_usec e - te_usec (tm_ev t next)\<rparr>) t in
         add_loop n t timer (Some next) (te_next (tm_ev t next)))"

declare add_loop.simps [simp del]

text \<open>The current outstanding timer is cancelled and its event reduced by what the device returns.\<close>

definition cancel_pending :: "timer_ops_t \<Rightarrow> timer_t \<Rightarrow> timer_t res" where
  "cancel_pending ops t = (if tm_queue t \<noteq> 0 then
     bindE (timer_clear ops (tm_mach t)) (\<lambda>(m, r). Inr (upd_ev (tm_queue t) (\<lambda>e. e\<lparr>te_usec := te_usec e - r\<rparr>) (t\<lparr>tm_mach := m\<rparr>)))
     else Inr t)"

definition set_first :: "timer_ops_t \<Rightarrow> timer_t \<Rightarrow> timer_t res" where
  "set_first ops t = bindE (timer_set ops (tm_mach t) (te_usec (tm_ev t (tm_queue t)))) (\<lambda>m. Inr (t\<lparr>tm_mach := m\<rparr>))"

text \<open>\<open>timer\<close> is the memory that \<^verbatim>\<open>malloc\<close> returns for the event.\<close>

definition timer_add :: "nat \<Rightarrow> timer_ops_t \<Rightarrow> timer_t \<Rightarrow> addr \<Rightarrow> int \<Rightarrow> addr \<Rightarrow> addr \<Rightarrow> timer_t res" where
  "timer_add n ops t timer usec cb p = bindE (timers_lock t) (\<lambda>t.
    let next = tm_queue t;
      t = upd_ev timer (\<lambda>e. \<lparr>te_usec = usec, te_cb = cb, te_p = p, te_next = 0\<rparr>) t in
    bindE (cancel_pending ops t) (\<lambda>t.
    bindE (add_loop n t timer None next) (\<lambda>(t, pprev).
    let t = upd_ev timer (\<lambda>e. e\<lparr>te_next := deref t pprev\<rparr>) t;
      t = assign t pprev timer in
    bindE (set_first ops t) (\<lambda>t. Inr (timers_unlock t)))))"

fun delete_loop :: "nat \<Rightarrow> timer_t \<Rightarrow> addr \<Rightarrow> addr \<Rightarrow> timer_t res" where
  "delete_loop n t timer next = (if next = 0 then Inr t
     else case n of 0 \<Rightarrow> Inl OutOfFuel
     | Suc n \<Rightarrow>
       if next = timer then
         (let t = (if te_next (tm_ev t timer) \<noteq> 0
              then upd_ev (te_next (tm_ev t timer)) (\<lambda>e. e\<lparr>te_usec := te_usec e + te_usec (tm_ev t timer)\<rparr>) t else t);
            t = assign t None (te_next (tm_ev t timer)) in
          Inr (upd_ev timer (\<lambda>e. e\<lparr>te_next := 0, te_cb := 0, te_p := 0\<rparr>) t))
       else delete_loop n t timer (te_next (tm_ev t next)))"

declare delete_loop.simps [simp del]

definition timer_delete :: "nat \<Rightarrow> timer_ops_t \<Rightarrow> timer_t \<Rightarrow> addr \<Rightarrow> timer_t res" where
  "timer_delete n ops t timer = bindE (timers_lock t) (\<lambda>t.
    let next = tm_queue t in
    bindE (cancel_pending ops t) (\<lambda>t.
    bindE (delete_loop n t timer next) (\<lambda>t.
    bindE (if tm_queue t \<noteq> 0 then set_first ops t else Inr t) (\<lambda>t. Inr (timers_unlock t)))))"

subsection \<open>The queue as a sequence of deadlines\<close>

fun evlist :: "(addr \<Rightarrow> timer_event_t) \<Rightarrow> addr \<Rightarrow> addr list \<Rightarrow> bool" where
  "evlist ev a [] \<longleftrightarrow> a = 0"
| "evlist ev a (x # xs) \<longleftrightarrow> a = x \<and> x \<noteq> 0 \<and> x \<notin> set xs \<and> evlist ev (te_next (ev x)) xs"

fun deadlines :: "int \<Rightarrow> (addr \<Rightarrow> timer_event_t) \<Rightarrow> addr list \<Rightarrow> int list" where
  "deadlines b ev [] = []"
| "deadlines b ev (x # xs) = (b + te_usec (ev x)) # deadlines (b + te_usec (ev x)) ev xs"

lemma evlist_cong: "(\<And>x. x \<in> set xs \<Longrightarrow> te_next (ev' x) = te_next (ev x)) \<Longrightarrow> evlist ev' a xs = evlist ev a xs"
  by (induction xs arbitrary: a) auto

lemma deadlines_cong: "(\<And>x. x \<in> set xs \<Longrightarrow> te_usec (ev' x) = te_usec (ev x)) \<Longrightarrow> deadlines b ev' xs = deadlines b ev xs"
  by (induction xs arbitrary: b) auto

lemma deadlines_append: "deadlines b ev (xs @ ys) = deadlines b ev xs @ deadlines (b + sum_list (map (te_usec \<circ> ev) xs)) ev ys"
  by (induction xs arbitrary: b) (simp_all add: algebra_simps)

lemma deadlines_shift: "deadlines (b + c) ev ys = map (\<lambda>d. d + c) (deadlines b ev ys)"
proof (induction ys arbitrary: b)
  case (Cons y ys)
  have "b + c + te_usec (ev y) = b + te_usec (ev y) + c" by simp
  then show ?case using Cons.IH [of "b + te_usec (ev y)"] by (simp only: deadlines.simps list.map)
qed simp

lemma deadlines_nth: "k < length ys \<Longrightarrow> deadlines b ev ys ! k = b + sum_list (map (te_usec \<circ> ev) (take (Suc k) ys))"
proof (induction ys arbitrary: b k)
  case (Cons y ys)
  then show ?case by (cases k) (simp_all add: add.assoc)
qed simp

lemma evlist_nz: "evlist ev a xs \<Longrightarrow> x \<in> set xs \<Longrightarrow> x \<noteq> 0"
  by (induction xs arbitrary: a) auto

lemma evlist_distinct: "evlist ev a xs \<Longrightarrow> distinct xs"
  by (induction xs arbitrary: a) auto

lemma evlist_append: "evlist ev a (xs @ y # ys) \<Longrightarrow> evlist ev y (y # ys)"
  by (induction xs arbitrary: a) auto

lemma upd_ev_fields [simp]:
  "tm_ev (upd_ev a f t) = (tm_ev t)(a := f (tm_ev t a))" "tm_queue (upd_ev a f t) = tm_queue t" "tm_lock (upd_ev a f t) = tm_lock t"
  "tm_mach (upd_ev a f t) = tm_mach t"
  by (simp_all add: upd_ev_def)


lemma te_self [simp]: "e\<lparr>te_usec := te_usec e\<rparr> = e"
  by (cases e) simp

subsection \<open>Adding a timer\<close>

lemma add_loop_ok:
  assumes "evlist (tm_ev t) nxt ys" "timer \<notin> set ys" "length ys \<le> n"
  shows "\<exists>ys1 ys2 t'. add_loop n t timer pprev nxt = Inr (t', if ys1 = [] then pprev else Some (last ys1)) \<and> ys = ys1 @ ys2 \<and>
    tm_queue t' = tm_queue t \<and> tm_mach t' = tm_mach t \<and> tm_lock t' = tm_lock t \<and>
    (let rest = te_usec (tm_ev t timer) - sum_list (map (te_usec \<circ> tm_ev t) ys1) in
     tm_ev t' = (case ys2 of [] \<Rightarrow> (tm_ev t)(timer := (tm_ev t timer)\<lparr>te_usec := rest\<rparr>)
       | y # _ \<Rightarrow> (tm_ev t)(timer := (tm_ev t timer)\<lparr>te_usec := rest\<rparr>, y := (tm_ev t y)\<lparr>te_usec := te_usec (tm_ev t y) - rest\<rparr>)) \<and>
     (\<forall>y zs. ys2 = y # zs \<longrightarrow> rest < te_usec (tm_ev t y))) \<and>
    (\<forall>d \<in> set (deadlines 0 (tm_ev t) ys1). d \<le> te_usec (tm_ev t timer))"
  using assms
proof (induction ys arbitrary: t nxt n pprev)
  case Nil
  then show ?case by (intro exI [of _ "[]"] exI [of _ t]) (simp add: add_loop.simps [of n] fun_eq_iff)
next
  case (Cons y zs)
  obtain k where n: "n = Suc k" "length zs \<le> k" using Cons.prems(3) by (cases n) auto
  have y: "nxt = y" "y \<noteq> 0" "y \<notin> set zs" "evlist (tm_ev t) (te_next (tm_ev t y)) zs" "timer \<noteq> y" "timer \<notin> set zs" using Cons.prems by auto
  define u where "u = te_usec (tm_ev t timer)"
  define d where "d = te_usec (tm_ev t y)"
  show ?case
  proof (cases "u < d")
    case True
    have e: "add_loop n t timer pprev nxt = Inr (upd_ev y (\<lambda>e. e\<lparr>te_usec := te_usec e - u\<rparr>) t, pprev)"
      unfolding n(1) using True y by (simp add: add_loop.simps [of "Suc k"] u_def d_def)
    show ?thesis
      by (rule exI [of _ "[]"], rule exI [of _ "y # zs"], rule exI [of _ "upd_ev y (\<lambda>e. e\<lparr>te_usec := te_usec e - u\<rparr>) t"])
        (use e True y(5) in \<open>simp add: Let_def u_def d_def fun_eq_iff\<close>)
  next
    case False
    define t1 where "t1 = upd_ev timer (\<lambda>e. e\<lparr>te_usec := u - d\<rparr>) t"
    have e: "add_loop n t timer pprev nxt = add_loop k t1 timer (Some y) (te_next (tm_ev t y))"
      unfolding n(1) using False y by (simp add: add_loop.simps [of "Suc k"] Let_def u_def d_def t1_def upd_ev_def)
    have ev1: "evlist (tm_ev t1) (te_next (tm_ev t y)) zs" using evlist_cong [of zs "tm_ev t1" "tm_ev t"] y(4) y(6) by (auto simp: t1_def)
    from Cons.IH [OF ev1 y(6) n(2), of "Some y"] obtain ys1 ys2 t' where
      IH: "add_loop k t1 timer (Some y) (te_next (tm_ev t y)) = Inr (t', if ys1 = [] then Some y else Some (last ys1))" "zs = ys1 @ ys2"
        "tm_queue t' = tm_queue t1" "tm_mach t' = tm_mach t1" "tm_lock t' = tm_lock t1"
      and L: "let rest = te_usec (tm_ev t1 timer) - sum_list (map (te_usec \<circ> tm_ev t1) ys1) in
        tm_ev t' = (case ys2 of [] \<Rightarrow> (tm_ev t1)(timer := (tm_ev t1 timer)\<lparr>te_usec := rest\<rparr>)
          | y # _ \<Rightarrow> (tm_ev t1)(timer := (tm_ev t1 timer)\<lparr>te_usec := rest\<rparr>, y := (tm_ev t1 y)\<lparr>te_usec := te_usec (tm_ev t1 y) - rest\<rparr>)) \<and>
        (\<forall>y zs. ys2 = y # zs \<longrightarrow> rest < te_usec (tm_ev t1 y))"
      and D: "\<forall>d \<in> set (deadlines 0 (tm_ev t1) ys1). d \<le> te_usec (tm_ev t1 timer)" by blast
    have o: "tm_ev t1 x = tm_ev t x" if "x \<noteq> timer" for x using that by (simp add: t1_def)
    have nt: "timer \<notin> set ys1" "timer \<notin> set ys2" using y(6) IH(2) by auto
    have te: "te_usec (tm_ev t1 x) = te_usec (tm_ev t x)" if "x \<in> set ys1" for x using o [of x] nt(1) that by metis
    then have m: "map (te_usec \<circ> tm_ev t1) ys1 = map (te_usec \<circ> tm_ev t) ys1" by simp
    have tu: "te_usec (tm_ev t1 timer) = u - d" "tm_ev t1 timer = (tm_ev t timer)\<lparr>te_usec := u - d\<rparr>" by (simp_all add: t1_def)
    define rest where "rest = u - sum_list (map (te_usec \<circ> tm_ev t) (y # ys1))"
    have r: "u - d - sum_list (map (te_usec \<circ> tm_ev t) ys1) = rest" by (simp add: rest_def d_def)
    have ev': "tm_ev t' = (case ys2 of [] \<Rightarrow> (tm_ev t)(timer := (tm_ev t timer)\<lparr>te_usec := rest\<rparr>)
       | y # _ \<Rightarrow> (tm_ev t)(timer := (tm_ev t timer)\<lparr>te_usec := rest\<rparr>, y := (tm_ev t y)\<lparr>te_usec := te_usec (tm_ev t y) - rest\<rparr>))"
      using L nt(2) unfolding m tu r Let_def by (cases ys2) (auto simp: t1_def o r)
    have lt: "\<forall>y zs. ys2 = y # zs \<longrightarrow> rest < te_usec (tm_ev t y)" using L nt(2) unfolding m tu r Let_def by (auto simp: o r)
    have dl: "\<forall>d' \<in> set (deadlines 0 (tm_ev t) (y # ys1)). d' \<le> u"
    proof -
      have "deadlines 0 (tm_ev t1) ys1 = deadlines 0 (tm_ev t) ys1" by (rule deadlines_cong) (rule te)
      moreover have "deadlines d (tm_ev t) ys1 = map (\<lambda>x. x + d) (deadlines 0 (tm_ev t) ys1)" using deadlines_shift [of 0 d] by simp
      ultimately show ?thesis using D False unfolding tu(1) by (auto simp: d_def [symmetric])
    qed
    have al: "add_loop n t timer pprev nxt = Inr (t', if y # ys1 = [] then pprev else Some (last (y # ys1)))" using e IH(1) by simp
    have fields: "y # zs = (y # ys1) @ ys2" "tm_queue t' = tm_queue t" "tm_mach t' = tm_mach t" "tm_lock t' = tm_lock t"
      using IH(2-5) by (simp_all add: t1_def)
    show ?thesis unfolding Let_def u_def [symmetric]
      by (rule exI [of _ "y # ys1"], rule exI [of _ ys2], rule exI [of _ t'])
        (use al fields ev' lt dl in \<open>simp only: rest_def [symmetric] simp_thms\<close>)
  qed
qed


lemma deadlines_nth_split:
  assumes "\<forall>d \<in> set (deadlines 0 ev ys1). d \<le> u" "\<forall>y zs. ys2 = y # zs \<longrightarrow> u - sum_list (map (te_usec \<circ> ev) ys1) < te_usec (ev y)"
  shows "takeWhile (\<lambda>d. d \<le> u) (deadlines 0 ev (ys1 @ ys2)) = deadlines 0 ev ys1"
    "dropWhile (\<lambda>d. d \<le> u) (deadlines 0 ev (ys1 @ ys2)) = deadlines (sum_list (map (te_usec \<circ> ev) ys1)) ev ys2"
proof -
  have "takeWhile (\<lambda>d. d \<le> u) (deadlines 0 ev ys1 @ deadlines (sum_list (map (te_usec \<circ> ev) ys1)) ev ys2) = deadlines 0 ev ys1 \<and>
    dropWhile (\<lambda>d. d \<le> u) (deadlines 0 ev ys1 @ deadlines (sum_list (map (te_usec \<circ> ev) ys1)) ev ys2) = deadlines (sum_list (map (te_usec \<circ> ev) ys1)) ev ys2"
    using assms by (cases ys2) (auto simp: takeWhile_append2 dropWhile_append2 takeWhile_eq_all_conv [THEN iffD2] dropWhile_eq_Nil_conv [THEN iffD2])
  then show "takeWhile (\<lambda>d. d \<le> u) (deadlines 0 ev (ys1 @ ys2)) = deadlines 0 ev ys1"
    "dropWhile (\<lambda>d. d \<le> u) (deadlines 0 ev (ys1 @ ys2)) = deadlines (sum_list (map (te_usec \<circ> ev) ys1)) ev ys2"
    by (simp_all add: deadlines_append)
qed

lemma evlist_insert:
  assumes "evlist ev a (ys1 @ ys2)" "x \<noteq> 0" "x \<notin> set (ys1 @ ys2)" "te_next (ev' x) = (if ys2 = [] then 0 else hd ys2)"
    "\<And>y. y \<in> set (ys1 @ ys2) \<Longrightarrow> te_next (ev' y) = (if ys1 \<noteq> [] \<and> y = last ys1 then x else te_next (ev y))"
  shows "evlist ev' (if ys1 = [] then x else a) (ys1 @ x # ys2)"
  using assms
proof (induction ys1 arbitrary: a)
  case Nil
  have "evlist ev' a ys2 = evlist ev a ys2" by (rule evlist_cong) (use Nil.prems(5) in simp)
  then have "evlist ev' a ys2" using Nil.prems(1) by simp
  moreover have "a = te_next (ev' x)" using Nil.prems(1,4) by (cases ys2) auto
  ultimately show ?case using Nil.prems(2,3) by simp
next
  case (Cons y ys1)
  have y: "a = y" "y \<noteq> 0" "y \<notin> set (ys1 @ ys2)" "evlist ev (te_next (ev y)) (ys1 @ ys2)" using Cons.prems(1) by auto
  have "evlist ev' (if ys1 = [] then x else te_next (ev y)) (ys1 @ x # ys2)"
  proof (rule Cons.IH [OF y(4) Cons.prems(2)])
    show "x \<notin> set (ys1 @ ys2)" using Cons.prems(3) by simp
    show "te_next (ev' x) = (if ys2 = [] then 0 else hd ys2)" by (rule Cons.prems(4))
    fix z assume "z \<in> set (ys1 @ ys2)"
    then show "te_next (ev' z) = (if ys1 \<noteq> [] \<and> z = last ys1 then x else te_next (ev z))" using Cons.prems(5) [of z] y(3) by auto
  qed
  moreover have "te_next (ev' y) = (if ys1 = [] then x else te_next (ev y))"
    using Cons.prems(5) [of y] y(3) by (auto dest: last_in_set)
  ultimately show ?case using y Cons.prems(3) by auto
qed

lemma cancel_ok:
  assumes "evlist (tm_ev t) (tm_queue t) ys" "\<And>m. \<exists>m'. timer_clear ops m = Inr (m', r)"
  shows "\<exists>m'. cancel_pending ops t = Inr (t\<lparr>tm_mach := m', tm_ev := (case ys of [] \<Rightarrow> tm_ev t | y # _ \<Rightarrow> (tm_ev t)(y := (tm_ev t y)\<lparr>te_usec := te_usec (tm_ev t y) - r\<rparr>))\<rparr>)"
proof (cases ys)
  case Nil
  then have "cancel_pending ops t = Inr t" using assms(1) by (simp add: cancel_pending_def)
  moreover have "t = t\<lparr>tm_mach := tm_mach t, tm_ev := tm_ev t\<rparr>" by simp
  ultimately show ?thesis using Nil by (intro exI [of _ "tm_mach t"]) simp
next
  case (Cons y zs)
  obtain m' where "timer_clear ops (tm_mach t) = Inr (m', r)" using assms(2) by blast
  then show ?thesis using Cons assms(1) by (intro exI [of _ m']) (simp add: cancel_pending_def upd_ev_def)
qed


text \<open>The queue after the pending timer was cancelled: every deadline is reduced.\<close>

lemma cancelled_deadlines:
  fixes ev :: "addr \<Rightarrow> timer_event_t" and r :: int
  assumes "distinct ys"
  defines "ev' \<equiv> (case ys of [] \<Rightarrow> ev | y # _ \<Rightarrow> ev(y := (ev y)\<lparr>te_usec := te_usec (ev y) - r\<rparr>))"
  shows "deadlines 0 ev' ys = map (\<lambda>d. d - r) (deadlines 0 ev ys)" "evlist ev' a ys = evlist ev a ys"
proof -
  have s: "deadlines (b - r) ev xs = map (\<lambda>d. d - r) (deadlines b ev xs)" for b xs using deadlines_shift [of b "- r"] by simp
  show "deadlines 0 ev' ys = map (\<lambda>d. d - r) (deadlines 0 ev ys)"
  proof (cases ys)
    case (Cons y zs)
    have "deadlines (te_usec (ev y) - r) ev' zs = deadlines (te_usec (ev y) - r) ev zs"
      by (rule deadlines_cong) (use assms(1) Cons in \<open>auto simp: ev'_def\<close>)
    then show ?thesis using s [of "te_usec (ev y)" zs] by (simp add: Cons ev'_def)
  qed simp
  show "evlist ev' a ys = evlist ev a ys" by (rule evlist_cong) (auto simp: ev'_def split: list.splits)
qed

lemma lock_timers: "tm_lock t = 0 \<Longrightarrow> timers_lock t = Inr (t\<lparr>tm_mach := cli (tm_mach t), tm_lock := 1\<rparr>)"
  "timers_unlock t = t\<lparr>tm_mach := sti (tm_mach t), tm_lock := 0\<rparr>"
  by (simp_all add: timers_lock_def timers_unlock_def arch_spin_lock_def arch_spin_trylock_def arch_spin_unlock_def Let_def)

text \<open>Linking the event into its place keeps a queue with the event's deadline among the others.\<close>

lemma link_ok:
  assumes "evlist ev q (ys1 @ ys2)" "a \<noteq> 0" "a \<notin> set (ys1 @ ys2)" "tm_queue t = q" "te_usec (ev a) = usec"
    "rest = usec - sum_list (map (te_usec \<circ> ev) ys1)"
    "tm_ev t = (case ys2 of [] \<Rightarrow> ev(a := (ev a)\<lparr>te_usec := rest\<rparr>)
       | y # _ \<Rightarrow> ev(a := (ev a)\<lparr>te_usec := rest\<rparr>, y := (ev y)\<lparr>te_usec := te_usec (ev y) - rest\<rparr>))"
  defines "pprev \<equiv> (if ys1 = [] then None else Some (last ys1))"
  defines "t' \<equiv> assign (upd_ev a (\<lambda>e. e\<lparr>te_next := deref t pprev\<rparr>) t) pprev a"
  shows "evlist (tm_ev t') (tm_queue t') (ys1 @ a # ys2)"
    "deadlines 0 (tm_ev t') (ys1 @ a # ys2) = deadlines 0 ev ys1 @ usec # deadlines (sum_list (map (te_usec \<circ> ev) ys1)) ev ys2"
    "tm_lock t' = tm_lock t" "tm_mach t' = tm_mach t"
proof -
  have dist: "distinct (ys1 @ ys2)" using evlist_distinct [OF assms(1)] .
  have nx: "te_next (tm_ev t y) = te_next (ev y)" for y using assms(7) by (auto split: list.splits)
  have ld: "deref t pprev = (if ys2 = [] then 0 else hd ys2)"
  proof (cases "ys1 = []")
    case True
    then show ?thesis using assms(1,4) by (cases ys2) (auto simp: deref_def pprev_def)
  next
    case False
    then obtain w z where w: "ys1 = w @ [z]" by (metis append_butlast_last_id)
    have "evlist ev z (z # ys2)" using evlist_append [of ev q w z ys2] assms(1) w by simp
    then show ?thesis using w nx [of z] by (cases ys2) (auto simp: deref_def pprev_def)
  qed
  have an: "last ys1 \<noteq> a" if "ys1 \<noteq> []" using assms(3) last_in_set [OF that] by auto
  have q': "tm_queue t' = (if ys1 = [] then a else q)" using assms(4) by (simp add: t'_def assign_def pprev_def split: option.splits)
  have us: "te_usec (tm_ev t' y) = te_usec (tm_ev t y)" for y by (auto simp: t'_def assign_def pprev_def split: option.splits)
  show "evlist (tm_ev t') (tm_queue t') (ys1 @ a # ys2)" unfolding q'
  proof (rule evlist_insert [OF assms(1-3)])
    show "te_next (tm_ev t' a) = (if ys2 = [] then 0 else hd ys2)" using ld an by (auto simp: t'_def assign_def pprev_def split: option.splits)
    fix y assume "y \<in> set (ys1 @ ys2)"
    then have "y \<noteq> a" using assms(3) by auto
    then show "te_next (tm_ev t' y) = (if ys1 \<noteq> [] \<and> y = last ys1 then a else te_next (ev y))"
      using nx by (auto simp: t'_def assign_def pprev_def split: option.splits)
  qed
  have m1: "te_usec (tm_ev t y) = te_usec (ev y)" if "y \<in> set ys1" for y
    using that assms(3,7) dist by (auto split: list.splits)
  have d1: "deadlines 0 (tm_ev t') ys1 = deadlines 0 ev ys1" by (rule deadlines_cong) (simp add: us m1)
  have s1: "map (te_usec \<circ> tm_ev t') ys1 = map (te_usec \<circ> ev) ys1" using us m1 by auto
  have ua: "te_usec (tm_ev t' a) = rest" using assms(3,7) us by (auto split: list.splits)
  have d2: "deadlines usec (tm_ev t') ys2 = deadlines (usec - rest) ev ys2"
  proof (cases ys2)
    case (Cons y zs)
    have "te_usec (tm_ev t' y) = te_usec (ev y) - rest" using assms(7) us Cons by simp
    moreover have "deadlines b (tm_ev t') zs = deadlines b ev zs" for b
      by (rule deadlines_cong) (use assms(3,7) us dist Cons in auto)
    moreover have "usec + (te_usec (ev y) - rest) = usec - rest + te_usec (ev y)" by simp
    ultimately show ?thesis using Cons by (simp only: deadlines.simps)
  qed simp
  show "deadlines 0 (tm_ev t') (ys1 @ a # ys2) = deadlines 0 ev ys1 @ usec # deadlines (sum_list (map (te_usec \<circ> ev) ys1)) ev ys2"
    using d2 assms(6) by (simp add: deadlines_append d1 s1 ua)
  show "tm_lock t' = tm_lock t" "tm_mach t' = tm_mach t" by (simp_all add: t'_def assign_def split: option.splits)
qed


text \<open>Deleting: the search through the queue, and what it leaves.\<close>

lemma delete_loop_ok:
  assumes "evlist (tm_ev t) nxt (xs @ a # zs)" "length xs < n"
  shows "delete_loop n t a nxt = Inr (upd_ev a (\<lambda>e. e\<lparr>te_next := 0, te_cb := 0, te_p := 0\<rparr>)
     ((case zs of [] \<Rightarrow> t | z # _ \<Rightarrow> upd_ev z (\<lambda>e. e\<lparr>te_usec := te_usec e + te_usec (tm_ev t a)\<rparr>) t)\<lparr>tm_queue := (case zs of [] \<Rightarrow> 0 | z # _ \<Rightarrow> z)\<rparr>))"
  using assms
proof (induction xs arbitrary: nxt n)
  case Nil
  obtain k where n: "n = Suc k" using Nil.prems(2) by (cases n) auto
  have a: "nxt = a" "a \<noteq> 0" "a \<notin> set zs" "evlist (tm_ev t) (te_next (tm_ev t a)) zs" using Nil.prems(1) by auto
  then show ?case unfolding n by (cases zs) (auto simp: delete_loop.simps [of "Suc k"] assign_def Let_def)
next
  case (Cons x xs)
  obtain k where n: "n = Suc k" "length xs < k" using Cons.prems(2) by (cases n) auto
  have x: "nxt = x" "x \<noteq> 0" "x \<noteq> a" "evlist (tm_ev t) (te_next (tm_ev t x)) (xs @ a # zs)" using Cons.prems(1) by auto
  from Cons.IH [OF x(4) n(2)] show ?case unfolding n(1) using x(1-3) by (simp add: delete_loop.simps [of "Suc k"])
qed

lemma evlist_tail:
  assumes "evlist ev a (xs @ y # ys)"
  shows "evlist ev (case ys of [] \<Rightarrow> 0 | z # _ \<Rightarrow> z) ys"
proof -
  have "evlist ev (te_next (ev y)) ys" using evlist_append [OF assms] by simp
  then show ?thesis by (cases ys) auto
qed

lemma delete_tail:
  assumes "evlist ev q (xs @ a # zs)" "\<And>y. te_next (ev' y) = (if y = a then 0 else te_next (ev y))"
    "\<And>y. te_usec (ev' y) = (if zs \<noteq> [] \<and> y = hd zs then te_usec (ev y) + te_usec (ev a) else te_usec (ev y))"
  shows "evlist ev' (case zs of [] \<Rightarrow> 0 | z # _ \<Rightarrow> z) zs"
    "deadlines 0 ev' zs = map (\<lambda>d. d - sum_list (map (te_usec \<circ> ev) xs)) (drop (Suc (length xs)) (deadlines 0 ev (xs @ a # zs)))"
proof -
  have d: "distinct (xs @ a # zs)" by (rule evlist_distinct [OF assms(1)])
  have "evlist ev' (case zs of [] \<Rightarrow> 0 | z # _ \<Rightarrow> z) zs = evlist ev (case zs of [] \<Rightarrow> 0 | z # _ \<Rightarrow> z) zs"
    by (rule evlist_cong) (use assms(2) d in auto)
  then show "evlist ev' (case zs of [] \<Rightarrow> 0 | z # _ \<Rightarrow> z) zs" using evlist_tail [OF assms(1)] by simp
  define S where "S = sum_list (map (te_usec \<circ> ev) xs)"
  have len: "length (deadlines b ev ys) = length ys" for b ys by (induction ys arbitrary: b) auto
  have "drop (Suc (length xs)) (deadlines 0 ev (xs @ a # zs)) = deadlines (S + te_usec (ev a)) ev zs"
    by (simp add: deadlines_append S_def len)
  moreover have "deadlines 0 ev' zs = deadlines (te_usec (ev a)) ev zs"
  proof (cases zs)
    case (Cons z zs')
    have "deadlines b ev' zs' = deadlines b ev zs'" for b by (rule deadlines_cong) (use assms(3) d Cons in auto)
    then show ?thesis using Cons assms(3) by (simp add: add.commute)
  qed simp
  moreover have "deadlines (S + te_usec (ev a)) ev zs = map (\<lambda>d. d + S) (deadlines (te_usec (ev a)) ev zs)"
    using deadlines_shift [of "te_usec (ev a)" S ev zs] by (simp add: add.commute)
  ultimately show "deadlines 0 ev' zs = map (\<lambda>d. d - sum_list (map (te_usec \<circ> ev) xs)) (drop (Suc (length xs)) (deadlines 0 ev (xs @ a # zs)))"
    unfolding S_def [symmetric] by (simp add: comp_def)
qed

lemma timer_add_deadlines:
  fixes ys :: "addr list"
  assumes "evlist (tm_ev t) (tm_queue t) ys" "tm_lock t = 0" "length ys \<le> n"
    "\<And>m. \<exists>m'. timer_clear ops m = Inr (m', r)" "\<And>m u. \<exists>m'. timer_set ops m u = Inr m'"
    and a: "a \<noteq> 0 \<and> a \<notin> set ys"
  defines "ds \<equiv> map (\<lambda>d. d - r) (deadlines 0 (tm_ev t) ys)"
  shows "\<exists>t' k. timer_add n ops t a usec cb p = Inr t' \<and>
      evlist (tm_ev t') (tm_queue t') (take k ys @ a # drop k ys) \<and> tm_lock t' = 0 \<and>
      deadlines 0 (tm_ev t') (take k ys @ a # drop k ys) = takeWhile (\<lambda>d. d \<le> usec) ds @ usec # dropWhile (\<lambda>d. d \<le> usec) ds"
proof -
  have dy: "distinct ys" by (rule evlist_distinct [OF assms(1)])
  define e where "e = \<lparr>te_usec = usec, te_cb = cb, te_p = p, te_next = 0\<rparr>"
  define t1 where "t1 = upd_ev a (\<lambda>_. e) (t\<lparr>tm_mach := cli (tm_mach t), tm_lock := 1\<rparr>)"
  have "te_next (tm_ev t1 x) = te_next (tm_ev t x)" if "x \<in> set ys" for x using that a by (auto simp: t1_def)
  then have "evlist (tm_ev t1) (tm_queue t) ys" using evlist_cong [of ys "tm_ev t1" "tm_ev t"] assms(1) by blast
  then have e1: "evlist (tm_ev t1) (tm_queue t1) ys" by (simp add: t1_def)
  have d1: "deadlines 0 (tm_ev t1) ys = deadlines 0 (tm_ev t) ys" by (rule deadlines_cong) (use a in \<open>auto simp: t1_def\<close>)
  define ev where "ev = (case ys of [] \<Rightarrow> tm_ev t1 | y # _ \<Rightarrow> (tm_ev t1)(y := (tm_ev t1 y)\<lparr>te_usec := te_usec (tm_ev t1 y) - r\<rparr>))"
  from cancel_ok [OF e1 assms(4)] obtain m2 where c: "cancel_pending ops t1 = Inr (t1\<lparr>tm_mach := m2, tm_ev := ev\<rparr>)" unfolding ev_def by blast
  define t2 where "t2 = t1\<lparr>tm_mach := m2, tm_ev := ev\<rparr>"
  have cd: "deadlines 0 ev ys = ds" "evlist ev (tm_queue t) ys"
    using cancelled_deadlines [OF dy, where r = r and ev = "tm_ev t1", folded ev_def] d1 e1 by (simp_all add: ds_def t1_def)
  have ea: "te_usec (ev a) = usec" using a by (auto simp: ev_def t1_def e_def split: list.splits)
  have e2: "evlist (tm_ev t2) (tm_queue t) ys" using cd(2) by (simp add: t2_def)
  have tv: "tm_ev t2 = ev" by (simp add: t2_def)
  from add_loop_ok [OF e2 conjunct2 [OF a] assms(3), of None, unfolded tv ea Let_def] obtain ys1 ys2 t3 where
    l: "add_loop n t2 a None (tm_queue t) = Inr (t3, if ys1 = [] then None else Some (last ys1))" "ys = ys1 @ ys2" "tm_queue t3 = tm_queue t2"
      "tm_mach t3 = tm_mach t2" "tm_lock t3 = tm_lock t2"
      "tm_ev t3 = (case ys2 of [] \<Rightarrow> ev(a := (ev a)\<lparr>te_usec := usec - sum_list (map (te_usec \<circ> ev) ys1)\<rparr>)
       | y # _ \<Rightarrow> ev(a := (ev a)\<lparr>te_usec := usec - sum_list (map (te_usec \<circ> ev) ys1)\<rparr>,
           y := (ev y)\<lparr>te_usec := te_usec (ev y) - (usec - sum_list (map (te_usec \<circ> ev) ys1))\<rparr>))"
      "\<forall>y zs. ys2 = y # zs \<longrightarrow> usec - sum_list (map (te_usec \<circ> ev) ys1) < te_usec (ev y)" "\<forall>d \<in> set (deadlines 0 ev ys1). d \<le> usec"
    by blast
  define pp where "pp = (if ys1 = [] then None else Some (last ys1))"
  define t4 where "t4 = assign (upd_ev a (\<lambda>e. e\<lparr>te_next := deref t3 pp\<rparr>) t3) pp a"
  have q3: "tm_queue t3 = tm_queue t" by (simp add: l(3) t2_def t1_def)
  have ey: "evlist ev (tm_queue t) (ys1 @ ys2)" "a \<notin> set (ys1 @ ys2)" using cd(2) a l(2) by simp_all
  note lk = link_ok [OF ey(1) conjunct1 [OF a] ey(2) q3 ea refl l(6), folded pp_def, folded t4_def]
  obtain m5 where m5: "timer_set ops (tm_mach t4) (te_usec (tm_ev t4 (tm_queue t4))) = Inr m5" using assms(5) by blast
  have add: "timer_add n ops t a usec cb p = Inr (timers_unlock (t4\<lparr>tm_mach := m5\<rparr>))"
    using c l(1) m5 unfolding timer_add_def lock_timers(1) [OF assms(2)]
    by (simp add: Let_def t1_def [symmetric] e_def [symmetric] t2_def [symmetric] t4_def [symmetric] pp_def [symmetric] set_first_def)
  note sp = deadlines_nth_split [OF l(8,7), folded l(2), unfolded cd(1)]
  have tk: "take (length ys1) ys = ys1" "drop (length ys1) ys = ys2" by (simp_all add: l(2))
  show ?thesis
    using add lk(1,2) by (intro exI [of _ "timers_unlock (t4\<lparr>tm_mach := m5\<rparr>)"] exI [of _ "length ys1"]) (simp add: tk sp lock_timers(2))
qed

lemma timer_delete_deadlines:
  fixes ys :: "addr list"
  assumes "evlist (tm_ev t) (tm_queue t) ys" "tm_lock t = 0" "length ys \<le> n"
    "\<And>m. \<exists>m'. timer_clear ops m = Inr (m', r)" "\<And>m u. \<exists>m'. timer_set ops m u = Inr m'"
    and k: "k < length ys"
  defines "ds \<equiv> map (\<lambda>d. d - r) (deadlines 0 (tm_ev t) ys)"
  shows "\<exists>t'. timer_delete n ops t (ys ! k) = Inr t' \<and> evlist (tm_ev t') (tm_queue t') (drop (Suc k) ys) \<and> tm_lock t' = 0 \<and>
      deadlines 0 (tm_ev t') (drop (Suc k) ys) = map (\<lambda>d. d - (if k = 0 then 0 else ds ! (k - 1))) (drop (Suc k) ds)"
proof -
  have dy: "distinct ys" by (rule evlist_distinct [OF assms(1)])
  define xs zs where "xs = take k ys" and "zs = drop (Suc k) ys"
  have ys: "ys = xs @ ys ! k # zs" "length xs = k" using id_take_nth_drop [OF k] k by (simp_all add: xs_def zs_def)
  define t1 where "t1 = t\<lparr>tm_mach := cli (tm_mach t), tm_lock := 1\<rparr>"
  define ev where "ev = (case ys of [] \<Rightarrow> tm_ev t | y # _ \<Rightarrow> (tm_ev t)(y := (tm_ev t y)\<lparr>te_usec := te_usec (tm_ev t y) - r\<rparr>))"
  have e1: "evlist (tm_ev t1) (tm_queue t1) ys" using assms(1) by (simp add: t1_def)
  have tv: "tm_ev t1 = tm_ev t" by (simp add: t1_def)
  from cancel_ok [OF e1 assms(4), unfolded tv, folded ev_def] obtain m2 where c: "cancel_pending ops t1 = Inr (t1\<lparr>tm_mach := m2, tm_ev := ev\<rparr>)" by blast
  define t2 where "t2 = t1\<lparr>tm_mach := m2, tm_ev := ev\<rparr>"
  have cd: "deadlines 0 ev ys = ds" "evlist ev (tm_queue t) ys"
    using cancelled_deadlines [OF dy, where r = r and ev = "tm_ev t", folded ev_def] assms(1) by (simp_all add: ds_def)
  have ey: "evlist (tm_ev t2) (tm_queue t) (xs @ ys ! k # zs)" using cd(2) ys(1) by (simp add: t2_def)
  define t3 where "t3 = upd_ev (ys ! k) (\<lambda>e. e\<lparr>te_next := 0, te_cb := 0, te_p := 0\<rparr>)
     ((case zs of [] \<Rightarrow> t2 | z # _ \<Rightarrow> upd_ev z (\<lambda>e. e\<lparr>te_usec := te_usec e + te_usec (tm_ev t2 (ys ! k))\<rparr>) t2)\<lparr>tm_queue := (case zs of [] \<Rightarrow> 0 | z # _ \<Rightarrow> z)\<rparr>)"
  have dl: "delete_loop n t2 (ys ! k) (tm_queue t) = Inr t3" unfolding t3_def by (rule delete_loop_ok [OF ey]) (use ys(2) k assms(3) in simp)
  have kz: "ys ! k \<notin> set zs" using dy ys(1) by (metis distinct.simps(2) distinct_append)
  have ev3: "te_next (tm_ev t3 y) = (if y = ys ! k then 0 else te_next (ev y))"
    "te_usec (tm_ev t3 y) = (if zs \<noteq> [] \<and> y = hd zs then te_usec (ev y) + te_usec (ev (ys ! k)) else te_usec (ev y))" for y
    using kz by (auto simp: t3_def t2_def split: list.splits)
  have q3: "tm_queue t3 = (case zs of [] \<Rightarrow> 0 | z # _ \<Rightarrow> z)" by (simp add: t3_def)
  have "evlist ev (tm_queue t) (xs @ ys ! k # zs)" using ey by (simp add: t2_def)
  note dt = delete_tail [OF this ev3, folded ys(1)]
  obtain t4 where t4: "(if tm_queue t3 \<noteq> 0 then set_first ops t3 else Inr t3) = Inr t4" "tm_ev t4 = tm_ev t3" "tm_queue t4 = tm_queue t3"
  proof (cases "tm_queue t3 = 0")
    case False
    obtain m4 where "timer_set ops (tm_mach t3) (te_usec (tm_ev t3 (tm_queue t3))) = Inr m4" using assms(5) by blast
    then show ?thesis using False that [of "t3\<lparr>tm_mach := m4\<rparr>"] by (simp add: set_first_def)
  qed (use that in simp)
  have del: "timer_delete n ops t (ys ! k) = Inr (timers_unlock t4)"
    using c dl t4(1) unfolding timer_delete_def lock_timers(1) [OF assms(2)] t1_def [symmetric] by (simp add: t2_def [symmetric]) (simp add: t1_def)
  have S: "sum_list (map (te_usec \<circ> ev) xs) = (if k = 0 then 0 else ds ! (k - 1))"
  proof (cases k)
    case (Suc i)
    then have "ds ! i = sum_list (map (te_usec \<circ> ev) xs)" using deadlines_nth [of i ys 0 ev] k cd(1) by (simp add: xs_def)
    then show ?thesis using Suc by simp
  qed (simp add: xs_def)
  show ?thesis
    using del dt unfolding S cd(1) ys(2) by (intro exI [of _ "timers_unlock t4"]) (simp add: zs_def [symmetric] t4(2,3) q3 lock_timers(2))
qed


text \<open>A device that was set long ago and has half a second left, and two timers.\<close>

definition demo_ops :: timer_ops_t where
  "demo_ops = \<lparr>timer_set = \<lambda>m _. Inr m, timer_clear = \<lambda>m. Inr (m, 500)\<rparr>"

definition demo_timers :: timer_t where
  "demo_timers = \<lparr>tm_queue = 16, tm_lock = 0, tm_ev = (\<lambda>_. \<lparr>te_usec = 2000, te_cb = 0, te_p = 0, te_next = 0\<rparr>)(16 := \<lparr>te_usec = 2000, te_cb = 4, te_p = 0, te_next = 32\<rparr>),
     tm_mach = cold\<rparr>"


end
