(* ===== verification/Slab_GC.thy ===== *)
theory Slab_GC
  imports Thread Slab_Malloc
begin

unbundle bit_operations_syntax

text \<open>
  The garbage collector (\<^verbatim>\<open>src/libk/slab.c\<close>, \<^verbatim>\<open>src/kernel/thread.c\<close>): every slot is marked available, the slots that
  the roots lead to are taken back, and the slots that were in use and are available now are finalized.

  \<open>wm\<close> is the memory, by words, that the conservative mark reads. The recursion of \<^verbatim>\<open>slab_gc_mark\<close> and the
  loops through the lists have fuel.
\<close>

subsection \<open>Loops through a list\<close>

fun each :: "nat \<Rightarrow> ('s \<Rightarrow> links) \<Rightarrow> ('s \<Rightarrow> addr) \<Rightarrow> (addr \<Rightarrow> 's \<Rightarrow> 's res) \<Rightarrow> addr \<Rightarrow> 's \<Rightarrow> 's res" where
  "each n lk list f p s = (if p = 0 then Inr s
     else case n of 0 \<Rightarrow> Inl OutOfFuel
     | Suc n \<Rightarrow> bindE (f p s) (\<lambda>s. each n lk list f (LIST_NEXT (lk s) (list s) p) s))"

declare each.simps [simp del]

fun foldE :: "('a \<Rightarrow> 's \<Rightarrow> 's res) \<Rightarrow> 'a list \<Rightarrow> 's \<Rightarrow> 's res" where
  "foldE f [] s = Inr s"
| "foldE f (x # xs) s = bindE (f x s) (foldE f xs)"

subsection \<open>The phases\<close>

function mark_loop :: "nat \<Rightarrow> nat \<Rightarrow> u32 list \<Rightarrow> u32 list \<Rightarrow> u32 list \<times> u32 list" where
  "mark_loop cnt i av fin = (if i < cnt
     then mark_loop cnt (i + 32) (av[i div 32 := slot_mask cnt i]) (fin[i div 32 := av ! (i div 32)]) else (av, fin))"
  by pat_completeness auto
termination by (relation "measure (\<lambda>(cnt, i, av, fin). cnt - i)") auto

declare mark_loop.simps [simp del]

definition slab_mark_available_all :: "addr \<Rightarrow> 'h slab_heap \<Rightarrow> 'h slab_heap" where
  "slab_mark_available_all p s = (case mark_loop (slots s p) 0 (sl_available (sh_slab s p)) (sl_finalize (sh_slab s p)) of (av, fin) \<Rightarrow>
     upd_slab p (\<lambda>sl. sl\<lparr>sl_available := av, sl_finalize := fin\<rparr>) s)"

definition slab_gc_begin :: "nat \<Rightarrow> 'h slab_heap \<Rightarrow> 'h slab_heap res" where
  "slab_gc_begin n s = bindE (slab_lock s) (\<lambda>s.
     each n sh_tlinks sh_types (\<lambda>t s.
       each n sh_links (\<lambda>s. st_first (sh_type s t)) (\<lambda>p s. Inr (slab_mark_available_all p s)) (st_first (sh_type s t)) s)
     (sh_types s) s)"

text \<open>The pointers that are marked from an object: those its type's function marks, or each of its words.\<close>

definition children :: "(addr \<Rightarrow> u32) \<Rightarrow> 'h slab_heap \<Rightarrow> addr \<Rightarrow> addr \<Rightarrow> addr list" where
  "children wm s slab root = (let ty = sh_type s (sl_type (sh_slab s slab)) in
     case st_mark ty of Some f \<Rightarrow> f root | None \<Rightarrow> map (\<lambda>k. wm (root + 4 * of_nat k)) [0..<unat (st_esize ty) div 4])"

fun slab_gc_mark :: "nat \<Rightarrow> ('h \<Rightarrow> addr \<Rightarrow> bool) \<Rightarrow> (addr \<Rightarrow> u32) \<Rightarrow> addr \<Rightarrow> 'h slab_heap \<Rightarrow> 'h slab_heap res" where
  "slab_gc_mark 0 is_heap wm root s = Inl OutOfFuel"
| "slab_gc_mark (Suc n) is_heap wm root s =
    (let slab = slab_get is_heap s root in
     if slab \<noteq> 0 then
       let i = slot_of s slab root; av = sl_available (sh_slab s slab) in
       if length av \<le> i div 32 then Inl BadAccess
       else if av ! (i div 32) AND bmask i \<noteq> 0 then
         foldE (slab_gc_mark n is_heap wm) (children wm s slab root)
           (upd_slab slab (\<lambda>sl. sl\<lparr>sl_available := bclear av (i div 32) (bmask i)\<rparr>) s)
       else Inr s
     else Inr s)"

definition slab_gc_mark_block :: "nat \<Rightarrow> ('h \<Rightarrow> addr \<Rightarrow> bool) \<Rightarrow> (addr \<Rightarrow> u32) \<Rightarrow> addr \<Rightarrow> nat \<Rightarrow> 'h slab_heap \<Rightarrow> 'h slab_heap res" where
  "slab_gc_mark_block n is_heap wm block sz = foldE (slab_gc_mark n is_heap wm) (map (\<lambda>k. wm (block + 4 * of_nat k)) [0..<sz div 4])"

function range_words :: "(addr \<Rightarrow> u32) \<Rightarrow> addr \<Rightarrow> addr \<Rightarrow> addr list" where
  "range_words wm p to = (if p < to then wm p # (if to - p \<le> 4 then [] else range_words wm (p + 4) to) else [])"
  by pat_completeness auto
termination
proof (relation "measure (\<lambda>(wm, p, to). unat (to - p))")
  fix wm :: "addr \<Rightarrow> u32" and p to :: addr
  assume a: "p < to" "\<not> to - p \<le> 4"
  have "unat ((to - p) - 4) < unat (to - p)" using a(2) by (simp add: unat_sub_if' word_le_nat_alt)
  then show "((wm, p + 4, to), wm, p, to) \<in> measure (\<lambda>(wm, p, to). unat (to - p))" by (simp only: diff_diff_eq in_measure prod.case)
qed simp

definition slab_gc_mark_range :: "nat \<Rightarrow> ('h \<Rightarrow> addr \<Rightarrow> bool) \<Rightarrow> (addr \<Rightarrow> u32) \<Rightarrow> addr \<Rightarrow> addr \<Rightarrow> 'h slab_heap \<Rightarrow> 'h slab_heap res" where
  "slab_gc_mark_range n is_heap wm p to = foldE (slab_gc_mark n is_heap wm) (range_words wm p to)"

function xor_loop :: "nat \<Rightarrow> nat \<Rightarrow> u32 list \<Rightarrow> u32 list \<Rightarrow> u32 list" where
  "xor_loop cnt i av fin = (if i < cnt then xor_loop cnt (i + 32) av (fin[i div 32 := (fin ! (i div 32)) XOR (av ! (i div 32))]) else fin)"
  by pat_completeness auto
termination by (relation "measure (\<lambda>(cnt, i, av, fin). cnt - i)") auto

declare xor_loop.simps [simp del]

text \<open>The slots of one word whose bit is set, and the slot the loop stops at.\<close>

function word_slots :: "nat \<Rightarrow> u32 \<Rightarrow> nat \<Rightarrow> u32 \<Rightarrow> nat list \<times> nat" where
  "word_slots cnt w i msk = (if i < cnt \<and> msk \<noteq> 0
     then (case word_slots cnt w (i + 1) (drop_bit 1 msk) of (js, k) \<Rightarrow> (if w AND msk \<noteq> 0 then i # js else js, k)) else ([], i))"
  by pat_completeness auto
termination by (relation "measure (\<lambda>(cnt, w, i, msk). cnt - i)") auto

declare word_slots.simps [simp del]

lemma word_slots_ge: "i \<le> snd (word_slots cnt w i msk)" "i < cnt \<Longrightarrow> msk \<noteq> 0 \<Longrightarrow> i < snd (word_slots cnt w i msk)"
proof -
  show g: "i \<le> snd (word_slots cnt w i msk)" for i msk
  proof (induction cnt w i msk rule: word_slots.induct)
    case (1 cnt w i msk)
    then show ?case by (subst word_slots.simps) (auto split: prod.splits)
  qed
  show "i < cnt \<Longrightarrow> msk \<noteq> 0 \<Longrightarrow> i < snd (word_slots cnt w i msk)"
    using g [of "i + 1" "drop_bit 1 msk"] by (subst word_slots.simps) (auto split: prod.splits)
qed

function final_slots :: "nat \<Rightarrow> u32 list \<Rightarrow> nat \<Rightarrow> nat list" where
  "final_slots cnt fin i = (if i < cnt then
     (if fin ! (i div 32) \<noteq> 0 then (case word_slots cnt (fin ! (i div 32)) i 0x80000000 of (js, k) \<Rightarrow> js @ final_slots cnt fin k)
      else final_slots cnt fin (i + 32)) else [])"
  by pat_completeness auto
termination
proof (relation "measure (\<lambda>(cnt, fin, i). cnt - i)")
  fix cnt i js k and fin :: "u32 list"
  assume "i < cnt" "(js, k) = word_slots cnt (fin ! (i div 32)) i 0x80000000"
  then show "((cnt, fin, k), cnt, fin, i) \<in> measure (\<lambda>(cnt, fin, i). cnt - i)"
    using word_slots_ge(2) [of i cnt "0x80000000" "fin ! (i div 32)"] by (auto simp: prod_eq_iff)
qed auto

declare final_slots.simps [simp del]

definition slab_finalize :: "addr \<Rightarrow> 'h slab_heap \<Rightarrow> 'h slab_heap" where
  "slab_finalize p s = (let fin = xor_loop (slots s p) 0 (sl_available (sh_slab s p)) (sl_finalize (sh_slab s p));
       s = upd_slab p (\<lambda>sl. sl\<lparr>sl_finalize := fin\<rparr>) s in
     s\<lparr>sh_final := sh_final s @ map (obj s p) (final_slots (slots s p) fin 0)\<rparr>)"

definition slab_gc_end :: "nat \<Rightarrow> 'h slab_heap \<Rightarrow> 'h slab_heap res" where
  "slab_gc_end n s = bindE (each n sh_tlinks sh_types (\<lambda>t s.
       if st_finalize (sh_type s t) then
         each n sh_links (\<lambda>s. st_first (sh_type s t)) (\<lambda>p s. Inr (slab_finalize p s)) (st_first (sh_type s t)) s
       else Inr s) (sh_types s) s) (\<lambda>s. Inr (slab_unlock s))"

subsection \<open>The roots\<close>

text \<open>
  What \<^verbatim>\<open>thread_mark\<close> marks: thread-local storage, the next thread of the queue, the return value, and the
  words of the stack and the saved registers when the stack pointer is in the heap. \<open>cs\<close> are the saved
  registers, which are saved anew for the running thread.
\<close>

definition arch_thread_mark :: "(addr \<Rightarrow> bool) \<Rightarrow> 'h kstate \<Rightarrow> addr \<Rightarrow> addr list" where
  "arch_thread_mark is_heap k t = (let k = (if arch_get_thread k = t then setjmp k t else k);
       cs = ctx_state (thr k t); esp = cs ! 1; stacktop = ctx_stack (thr k t) + 4096 in
     if \<not> is_heap esp then [] else range_words (smem k) esp stacktop @ cs)"

definition thread_mark :: "(addr \<Rightarrow> bool) \<Rightarrow> 'h kstate \<Rightarrow> addr \<Rightarrow> addr list" where
  "thread_mark is_heap k t = tls (thr k t) @ [nx (tlinks k) t, retval (thr k t)] @ arch_thread_mark is_heap k t"

text \<open>\<^verbatim>\<open>thread_cleanlocks\<close> is empty.\<close>

definition thread_gc :: "nat \<Rightarrow> ('h \<Rightarrow> addr \<Rightarrow> bool) \<Rightarrow> (addr \<Rightarrow> u32) \<Rightarrow> addr \<Rightarrow> 'h kstate \<Rightarrow> 'h kstate res" where
  "thread_gc n is_heap wm roots k =
    bindE (slab_gc_begin n (slabs k)) (\<lambda>s.
    bindE (foldE (slab_gc_mark n is_heap wm) ([arch_get_thread k] @ queue k @ [roots]) s) (\<lambda>s.
    bindE (slab_gc_end n s) (\<lambda>s. Inr (k\<lparr>slabs := s\<rparr>))))"


subsection \<open>Loops through a list are folds\<close>

lemma each_suffix:
  assumes "\<And>s. I s \<Longrightarrow> lk s = l \<and> list s = h" "\<And>s s' p. I s \<Longrightarrow> p \<in> set xs \<Longrightarrow> f p s = Inr s' \<Longrightarrow> I s'" "clist l h xs" "xs = u @ v" "length v \<le> n" "I s"
  shows "each n lk list f (case v of [] \<Rightarrow> 0 | p # _ \<Rightarrow> p) s = foldE f v s"
  using assms(4-6)
proof (induction v arbitrary: u n s)
  case Nil
  then show ?case by (simp add: each.simps)
next
  case (Cons p v)
  obtain k where n: "n = Suc k" "length v \<le> k" using Cons.prems(2) by (cases n) auto
  have p: "p \<in> set xs" "p \<noteq> 0" using Cons.prems(1) clist_distinct [OF assms(3)] by auto
  have nx: "LIST_NEXT l h p = (case v of [] \<Rightarrow> 0 | y # _ \<Rightarrow> y)"
    using LIST_NEXT_clist [of l h u p v] assms(3) Cons.prems(1) by simp
  show ?case
  proof (cases "f p s")
    case (Inl e)
    then show ?thesis using p(2) n by (simp add: each.simps)
  next
    case (Inr s')
    have I': "I s'" using assms(2) [OF Cons.prems(3) p(1) Inr] .
    have "each k lk list f (case v of [] \<Rightarrow> 0 | p # _ \<Rightarrow> p) s' = foldE f v s'" using Cons.IH [of "u @ [p]" k s'] Cons.prems(1) n(2) I' by simp
    then show ?thesis using Inr p(2) n(1) assms(1) [OF I'] nx by (simp add: each.simps [of "Suc k"])
  qed
qed

lemma each_list:
  assumes "\<And>s. I s \<Longrightarrow> lk s = l \<and> list s = h" "\<And>s s' p. I s \<Longrightarrow> p \<in> set xs \<Longrightarrow> f p s = Inr s' \<Longrightarrow> I s'" "clist l h xs" "length xs \<le> n" "I s"
  shows "each n lk list f h s = foldE f xs s"
proof -
  have "h = (case xs of [] \<Rightarrow> 0 | p # _ \<Rightarrow> p)" using assms(3) by (cases xs) (auto simp: clist_def)
  then show ?thesis using each_suffix [where I = I and u = "[]" and v = xs and lk = lk and l = l and list = list and h = h, OF assms(1-3) _ assms(4,5)] by simp
qed

lemma foldE_pure: "foldE (\<lambda>x s. Inr (g x s)) xs s = Inr (fold g xs s)"
  by (induction xs arbitrary: s) simp_all

subsection \<open>Marking all slots available\<close>

lemma mark_loop_eq:
  assumes "32 dvd i"
  shows "fst (mark_loop cnt i av fin) = fill_masks cnt i av \<and> length (snd (mark_loop cnt i av fin)) = length fin \<and>
    (\<forall>w < length fin. w < length av \<longrightarrow> snd (mark_loop cnt i av fin) ! w = (if i \<le> 32 * w \<and> 32 * w < cnt then av ! w else fin ! w))"
  using assms
proof (induction cnt i av fin rule: mark_loop.induct)
  case (1 cnt i av fin)
  show ?case
  proof (cases "i < cnt")
    case False
    then have "mark_loop cnt i av fin = (av, fin)" "fill_masks cnt i av = av" by (simp_all add: mark_loop.simps [of cnt i] fill_masks.simps [of cnt i])
    then show ?thesis using False by auto
  next
    case True
    define av' fin' where "av' = av[i div 32 := slot_mask cnt i]" and "fin' = fin[i div 32 := av ! (i div 32)]"
    have st: "mark_loop cnt i av fin = mark_loop cnt (i + 32) av' fin'" "fill_masks cnt i av = fill_masks cnt (i + 32) av'"
      using True by (simp_all add: mark_loop.simps [of cnt i] fill_masks.simps [of cnt i] av'_def fin'_def)
    have "32 dvd i + 32" using 1(2) by simp
    note IH = 1(1) [OF True this, folded av'_def fin'_def]
    obtain q where q: "i = 32 * q" using 1(2) by (auto elim: dvdE)
    have "snd (mark_loop cnt (i + 32) av' fin') ! w = (if i \<le> 32 * w \<and> 32 * w < cnt then av ! w else fin ! w)" if w: "w < length fin" "w < length av" for w
    proof (cases "w = q")
      case True
      then show ?thesis using IH w q \<open>i < cnt\<close> by (simp add: fin'_def av'_def)
    next
      case False
      then have "av' ! w = av ! w" "fin' ! w = fin ! w" using q by (simp_all add: av'_def fin'_def)
      moreover have "i + 32 \<le> 32 * w \<longleftrightarrow> i \<le> 32 * w" using False q by auto
      ultimately show ?thesis using IH w by (simp add: fin'_def av'_def)
    qed
    then show ?thesis unfolding st using IH by (simp add: fin'_def)
  qed
qed


lemma mark_all_words:
  assumes "length av = bitmap_words cnt" "length fin = bitmap_words cnt" "\<forall>j < 32 * bitmap_words cnt. bfree av j \<longrightarrow> j < cnt"
  defines "m \<equiv> mark_loop cnt 0 av fin"
  shows "length (fst m) = bitmap_words cnt" "length (snd m) = bitmap_words cnt" "j < 32 * bitmap_words cnt \<Longrightarrow> bfree (fst m) j \<longleftrightarrow> j < cnt"
    "j < cnt \<Longrightarrow> bfree (snd m) j \<longleftrightarrow> bfree av j"
proof -
  note ml = mark_loop_eq [of 0 cnt av fin, folded m_def, simplified]
  have w: "(cnt + 31) div 32 \<le> length av" using assms(1) words_ge by simp
  note fb = fill_masks_bits [of 0 cnt av, OF _ w]
  show "length (fst m) = bitmap_words cnt" "length (snd m) = bitmap_words cnt" using ml fb assms(1,2) by simp_all
  show "bfree (fst m) j \<longleftrightarrow> j < cnt" if j: "j < 32 * bitmap_words cnt"
  proof -
    have "bfree (fst m) j \<longleftrightarrow> (if 32 * (j div 32) < cnt then j < cnt else bfree av j)" using ml fb [of j] by simp
    moreover have "j < cnt \<Longrightarrow> 32 * (j div 32) < cnt" by linarith
    ultimately show ?thesis using assms(3) j by auto
  qed
  show "bfree (snd m) j \<longleftrightarrow> bfree av j" if j: "j < cnt"
  proof -
    have k: "32 * (j div 32) < cnt" "j div 32 < (cnt + 31) div 32" using j by linarith+
    have "snd m ! (j div 32) = av ! (j div 32)" using ml k w assms(1,2) by simp
    then show ?thesis by (simp add: bfree_def)
  qed
qed

text \<open>A function that changes each slab on its own, folded over different slabs.\<close>

definition on_slab :: "(slab_t \<Rightarrow> nat \<Rightarrow> slab_t) \<Rightarrow> addr \<Rightarrow> 'h slab_heap \<Rightarrow> 'h slab_heap" where
  "on_slab g p s = upd_slab p (\<lambda>sl. g sl (slots s p)) s"

lemma fold_on_slab:
  assumes "distinct ps" "\<And>sl c. sl_type (g sl c) = sl_type sl"
  shows "fold (on_slab g) ps s = s\<lparr>sh_slab := (\<lambda>p. if p \<in> set ps then g (sh_slab s p) (slots s p) else sh_slab s p)\<rparr>"
  using assms(1)
proof (induction ps arbitrary: s)
  case (Cons p ps)
  define s1 where "s1 = on_slab g p s"
  have sl: "slots s1 q = slots s q" for q using assms(2) by (simp add: s1_def on_slab_def slots_def)
  have "fold (on_slab g) ps s1 = s1\<lparr>sh_slab := (\<lambda>q. if q \<in> set ps then g (sh_slab s1 q) (slots s1 q) else sh_slab s1 q)\<rparr>"
    using Cons.IH [of s1] Cons.prems by simp
  moreover have "(if q \<in> set ps then g (sh_slab s1 q) (slots s1 q) else sh_slab s1 q) = (if q \<in> set (p # ps) then g (sh_slab s q) (slots s q) else sh_slab s q)" for q
    unfolding sl using Cons.prems by (simp add: s1_def on_slab_def)
  ultimately show ?case by (simp add: s1_def [symmetric]) (simp add: s1_def on_slab_def upd_slab_def)
qed simp

definition mark_sl :: "slab_t \<Rightarrow> nat \<Rightarrow> slab_t" where
  "mark_sl sl c = sl\<lparr>sl_available := fst (mark_loop c 0 (sl_available sl) (sl_finalize sl)), sl_finalize := snd (mark_loop c 0 (sl_available sl) (sl_finalize sl))\<rparr>"

lemma mark_all_on_slab: "slab_mark_available_all = on_slab mark_sl"
  by (simp add: fun_eq_iff slab_mark_available_all_def on_slab_def mark_sl_def upd_slab_def split_def)

definition all_slabs :: "(addr \<Rightarrow> addr list) \<Rightarrow> addr list \<Rightarrow> addr list" where
  "all_slabs L T = concat (map L T)"

lemma all_slabs_distinct:
  assumes "slab_inv hused s L T"
  shows "distinct (all_slabs L T)" "p \<in> set (all_slabs L T) \<longleftrightarrow> sl_type (sh_slab s p) \<noteq> 0" "p \<in> set (L t) \<Longrightarrow> sl_type (sh_slab s p) = t"
proof -
  note D = slab_inv_D [OF assms]
  show ty: "sl_type (sh_slab s p) = t" if "p \<in> set (L t)" for p t using slab_of_D(1) [OF D(7) [OF that]] .
  have dT: "distinct T" "\<And>t. distinct (L t)" using clist_distinct D(1,5) by blast+
  have "distinct (concat (map L U))" if "distinct U" for U using that
  proof (induction U)
    case (Cons t U)
    have "p \<notin> set (L u)" if "p \<in> set (L t)" "u \<in> set U" for p u using ty [OF that(1)] ty [of p u] that(2) Cons.prems by auto
    then have "set (L t) \<inter> set (concat (map L U)) = {}" by auto
    then show ?case using Cons dT(2) by simp
  qed simp
  then show "distinct (all_slabs L T)" using dT(1) by (simp add: all_slabs_def)
  show "p \<in> set (all_slabs L T) \<longleftrightarrow> sl_type (sh_slab s p) \<noteq> 0"
  proof
    assume "p \<in> set (all_slabs L T)"
    then obtain t where t: "t \<in> set T" "p \<in> set (L t)" by (auto simp: all_slabs_def)
    then show "sl_type (sh_slab s p) \<noteq> 0" using ty slab_inv_T_nz [OF assms] by metis
  next
    assume "sl_type (sh_slab s p) \<noteq> 0"
    then have p: "p \<in> set (L (sl_type (sh_slab s p)))" by (rule D(8))
    then show "p \<in> set (all_slabs L T)" using slab_inv_in_T [OF assms p] by (auto simp: all_slabs_def)
  qed
qed


text \<open>What the collector leaves as it is: everything but the bitmaps.\<close>

definition same :: "'h slab_heap \<Rightarrow> 'h slab_heap \<Rightarrow> bool" where
  "same s s' \<longleftrightarrow> sh_type s' = sh_type s \<and> sh_links s' = sh_links s \<and> sh_tlinks s' = sh_tlinks s \<and> sh_types s' = sh_types s \<and> sh_heap s' = sh_heap s \<and>
     (\<forall>p. sl_type (sh_slab s' p) = sl_type (sh_slab s p) \<and> sl_magic (sh_slab s' p) = sl_magic (sh_slab s p) \<and> sl_data (sh_slab s' p) = sl_data (sh_slab s p))"

lemma same_refl [simp]: "same s s" and same_trans: "same s s1 \<Longrightarrow> same s1 s2 \<Longrightarrow> same s s2"
  by (auto simp: same_def)

lemma same_keeps:
  assumes "same s s'"
  shows "slab_get is_heap s' c = slab_get is_heap s c" "slot_of s' p c = slot_of s p c" "obj s' p j = obj s p j" "slots s' p = slots s p"
    "children wm s' p c = children wm s p c"
  using assms by (simp_all add: same_def slab_get_def slot_of_def obj_def slots_def children_def Let_def)

lemma same_inv:
  assumes "slab_inv hused s L T" "same s s'"
    "\<And>p t. p \<in> set (L t) \<Longrightarrow> length (sl_available (sh_slab s' p)) = bitmap_words (st_count (sh_type s t)) \<and>
       length (sl_finalize (sh_slab s' p)) = bitmap_words (st_count (sh_type s t)) \<and>
       (\<forall>j < 32 * bitmap_words (st_count (sh_type s t)). bfree (sl_available (sh_slab s' p)) j \<longrightarrow> j < st_count (sh_type s t))"
  shows "slab_inv hused s' L T"
proof -
  have "slab_of s' t p" if "p \<in> set (L t)" for t p
    using slab_of_D [OF slab_inv_D(7) [OF assms(1) that]] assms(2) assms(3) [OF that] unfolding slab_of_def Let_def same_def by simp
  then show ?thesis using assms(1,2) unfolding slab_inv_def same_def by simp
qed

text \<open>The loop through the slabs of the types with some property, when the body keeps the lists.\<close>

lemma each_slabs:
  fixes s :: "'h slab_heap" and g :: "addr \<Rightarrow> 'h slab_heap \<Rightarrow> 'h slab_heap"
  assumes "slab_inv hused s L T" "length T \<le> n" "\<And>t. length (L t) \<le> n"
    "\<And>p x. sh_links (g p x) = sh_links x \<and> sh_tlinks (g p x) = sh_tlinks x \<and> sh_types (g p x) = sh_types x \<and> sh_type (g p x) = sh_type x"
  shows "each n sh_tlinks sh_types (\<lambda>t s. if c (sh_type s t) then
       each n sh_links (\<lambda>s. st_first (sh_type s t)) (\<lambda>p s. Inr (g p s)) (st_first (sh_type s t)) s else Inr s) (sh_types s) s =
    Inr (fold g (concat (map L (filter (\<lambda>t. c (sh_type s t)) T))) s)"
proof -
  note D = slab_inv_D [OF assms(1)]
  define I where "I = (\<lambda>x :: 'h slab_heap. sh_links x = sh_links s \<and> sh_tlinks x = sh_tlinks s \<and> sh_types x = sh_types s \<and> sh_type x = sh_type s)"
  have If: "I (fold g ps x)" if "I x" for ps x using that assms(4) by (induction ps arbitrary: x) (simp_all add: I_def)
  have inner: "each n sh_links (\<lambda>s. st_first (sh_type s t)) (\<lambda>p s. Inr (g p s)) (st_first (sh_type x t)) x = Inr (fold g (L t) x)" if "I x" for t x
  proof -
    have "clist (sh_links s) (st_first (sh_type x t)) (L t)" using D(5) [of t] that by (simp add: I_def)
    then have "each n sh_links (\<lambda>s. st_first (sh_type s t)) (\<lambda>p s. Inr (g p s)) (st_first (sh_type x t)) x = foldE (\<lambda>p s. Inr (g p s)) (L t) x"
      by (intro each_list [where I = I and l = "sh_links s"]) (use that assms(3,4) in \<open>auto simp: I_def\<close>)
    then show ?thesis by (simp only: foldE_pure)
  qed
  define body where "body = (\<lambda>t (s :: 'h slab_heap). if c (sh_type s t) then
    each n sh_links (\<lambda>s. st_first (sh_type s t)) (\<lambda>p s. Inr (g p s)) (st_first (sh_type s t)) s else Inr s)"
  have I0: "I s" by (simp add: I_def)
  have keep: "I x'" if "I x" "body t x = Inr x'" for x x' t
    using that inner [OF that(1), of t] If [OF that(1), of "L t"] by (auto simp: body_def split: if_splits)
  have outer: "each n sh_tlinks sh_types body (sh_types s) s = foldE body T s"
  proof (rule each_list [where I = I and l = "sh_tlinks s"])
    show "sh_tlinks x = sh_tlinks s \<and> sh_types x = sh_types s" if "I x" for x using that by (simp add: I_def)
    show "I x'" if "I x" "body t x = Inr x'" for x x' t using keep that by blast
  qed (use D(1) assms(2) I0 in blast)+
  have "foldE body U x = Inr (fold g (concat (map L (filter (\<lambda>t. c (sh_type s t)) U))) x)" if "I x" for U x
    using that
  proof (induction U arbitrary: x)
    case (Cons t U)
    have ty: "sh_type x = sh_type s" using Cons.prems by (simp add: I_def)
    show ?case
    proof (cases "c (sh_type s t)")
      case True
      then have "foldE body (t # U) x = foldE body U (fold g (L t) x)" using inner [OF Cons.prems, of t] by (simp add: body_def ty)
      then show ?thesis using Cons.IH [OF If [OF Cons.prems]] True by simp
    next
      case False
      then show ?thesis using Cons.IH [OF Cons.prems] by (simp add: body_def ty)
    qed
  qed simp
  then show ?thesis using outer I0 unfolding body_def by simp
qed

lemma slab_inv_spin: "slab_inv hused s L T \<Longrightarrow> slab_inv hused (s\<lparr>sh_spin := b\<rparr>) L T" "used_objs (s\<lparr>sh_spin := b\<rparr>) = used_objs s"
  using slab_inv_heap [of hused s L T "sh_heap s" b] by simp (simp add: used_objs_def used_slots_def slots_def obj_def)

lemma begin_ok:
  fixes s :: "'h slab_heap"
  assumes "slab_inv hused s L T" "\<not> sh_spin s" "length T \<le> n" "\<And>t. length (L t) \<le> n"
  shows "\<exists>s'. slab_gc_begin n s = Inr s' \<and> same s s' \<and> slab_inv hused s' L T \<and> used_slots s' = {} \<and> sh_spin s' \<and> sh_final s' = sh_final s \<and>
    (\<forall>p j. sl_type (sh_slab s p) \<noteq> 0 \<and> j < slots s p \<longrightarrow> (bfree (sl_finalize (sh_slab s' p)) j \<longleftrightarrow> bfree (sl_available (sh_slab s p)) j))"
proof -
  note D = slab_inv_D [OF assms(1)]
  define s0 where "s0 = s\<lparr>sh_spin := True\<rparr>"
  have i0: "slab_inv hused s0 L T" unfolding s0_def by (rule slab_inv_spin(1) [OF assms(1)])
  have lk: "slab_lock s = Inr s0" using assms(2) by (simp add: slab_lock_def s0_def)
  have "slab_gc_begin n s = Inr (fold slab_mark_available_all (all_slabs L T) s0)"
    using each_slabs [where c = "\<lambda>_. True" and g = slab_mark_available_all and n = n, OF i0 assms(3,4)]
    unfolding slab_gc_begin_def lk all_slabs_def by (simp add: mark_all_on_slab on_slab_def)
  then have run: "slab_gc_begin n s = Inr (fold (on_slab mark_sl) (all_slabs L T) s0)" by (simp only: mark_all_on_slab)
  note ad = all_slabs_distinct [OF assms(1)]
  define s' where "s' = s0\<lparr>sh_slab := (\<lambda>p. if p \<in> set (all_slabs L T) then mark_sl (sh_slab s0 p) (slots s0 p) else sh_slab s0 p)\<rparr>"
  have fs: "fold (on_slab mark_sl) (all_slabs L T) s0 = s'" unfolding s'_def by (rule fold_on_slab [OF ad(1)]) (simp add: mark_sl_def)
  have sm: "same s s'" by (auto simp: same_def s'_def s0_def mark_sl_def)
  have sl: "sh_slab s' p = mark_sl (sh_slab s p) (slots s p)" if "sl_type (sh_slab s p) \<noteq> 0" for p
    using that ad(2) by (simp add: s'_def s0_def slots_def)
  have w: "length (sl_available (sh_slab s p)) = bitmap_words (slots s p)" "length (sl_finalize (sh_slab s p)) = bitmap_words (slots s p)"
    "\<forall>j < 32 * bitmap_words (slots s p). bfree (sl_available (sh_slab s p)) j \<longrightarrow> j < slots s p" if "sl_type (sh_slab s p) \<noteq> 0" for p
    using slab_of_D [OF D(7) [OF D(8) [OF that]]] by (simp_all add: slots_def)
  have bits: "length (sl_available (sh_slab s' p)) = bitmap_words (slots s p)" "length (sl_finalize (sh_slab s' p)) = bitmap_words (slots s p)"
    "j < 32 * bitmap_words (slots s p) \<Longrightarrow> bfree (sl_available (sh_slab s' p)) j \<longleftrightarrow> j < slots s p"
    "j < slots s p \<Longrightarrow> bfree (sl_finalize (sh_slab s' p)) j \<longleftrightarrow> bfree (sl_available (sh_slab s p)) j" if "sl_type (sh_slab s p) \<noteq> 0" for p j
    using mark_all_words [OF w [OF that]] by (simp_all add: sl [OF that] mark_sl_def)
  have inv: "slab_inv hused s' L T"
  proof (rule same_inv [OF assms(1) sm])
    fix p t assume p: "p \<in> set (L t)"
    have t: "sl_type (sh_slab s p) = t" "t \<noteq> 0" using ad(3) [OF p] slab_inv_T_nz [OF assms(1)] slab_inv_in_T [OF assms(1) p] by metis+
    then have nz: "sl_type (sh_slab s p) \<noteq> 0" and sc: "slots s p = st_count (sh_type s t)" by (simp_all add: slots_def)
    show "length (sl_available (sh_slab s' p)) = bitmap_words (st_count (sh_type s t)) \<and>
       length (sl_finalize (sh_slab s' p)) = bitmap_words (st_count (sh_type s t)) \<and>
       (\<forall>j < 32 * bitmap_words (st_count (sh_type s t)). bfree (sl_available (sh_slab s' p)) j \<longrightarrow> j < st_count (sh_type s t))"
      using bits(1-3) [OF nz] unfolding sc by blast
  qed
  have us: "used_slots s' = {}"
  proof -
    have "bfree (sl_available (sh_slab s' p)) j" if "sl_type (sh_slab s p) \<noteq> 0" "j < slots s p" for p j
    proof -
      have "j < 32 * ((slots s p + 31) div 32)" using that(2) by linarith
      also have "\<dots> \<le> 32 * bitmap_words (slots s p)" using words_ge by simp
      finally show ?thesis using bits(3) [OF that(1)] that(2) by simp
    qed
    then show ?thesis using sm same_keeps(4) [OF sm] by (auto simp: used_slots_def same_def)
  qed
  show ?thesis using run fs sm inv us bits(4) by (intro exI [of _ s']) (simp add: s'_def s0_def)
qed

subsection \<open>Marking\<close>

text \<open>The pointers the mark meets that lead into a slab: the roots, and what the objects met lead to.\<close>

inductive gc_reach :: "('h \<Rightarrow> addr \<Rightarrow> bool) \<Rightarrow> (addr \<Rightarrow> u32) \<Rightarrow> 'h slab_heap \<Rightarrow> addr list \<Rightarrow> addr \<Rightarrow> bool"
  for is_heap wm s rs where
  gc_root: "r \<in> set rs \<Longrightarrow> slab_get is_heap s r \<noteq> 0 \<Longrightarrow> gc_reach is_heap wm s rs r"
| gc_step: "gc_reach is_heap wm s rs r \<Longrightarrow> c \<in> set (children wm s (page_align r) r) \<Longrightarrow> slab_get is_heap s c \<noteq> 0 \<Longrightarrow> gc_reach is_heap wm s rs c"

definition all_slots :: "'h slab_heap \<Rightarrow> (addr \<times> nat) set" where
  "all_slots s = {(p, j). sl_type (sh_slab s p) \<noteq> 0 \<and> j < slots s p}"

definition objs :: "'h slab_heap \<Rightarrow> addr set" where
  "objs s = (\<lambda>(p, j). obj s p j) ` all_slots s"

lemma finite_objs: "slab_inv hused s L T \<Longrightarrow> finite (objs s)"
proof -
  assume i: "slab_inv hused s L T"
  have "all_slots s \<subseteq> Sigma (set (all_slabs L T)) (\<lambda>p. {..<slots s p})" using all_slabs_distinct(2) [OF i] by (auto simp: all_slots_def)
  then have "finite (all_slots s)" by (rule finite_subset) auto
  then show ?thesis by (simp add: objs_def)
qed

lemma used_subset_objs: "used_objs s \<subseteq> objs s"
  by (auto simp: used_objs_def objs_def used_slots_def all_slots_def)

lemma same_objs: "same s s' \<Longrightarrow> objs s' = objs s"
  using same_keeps(3,4) [of s s'] by (auto simp: objs_def all_slots_def same_def image_iff)

lemma obj_slab:
  assumes "slab_inv hused s L T" "sl_type (sh_slab s p) \<noteq> 0" "j < slots s p"
  shows "slot_of s p (obj s p j) = j" "page_align (obj s p j) = p" "p \<in> set (L (sl_type (sh_slab s p)))"
    "j < st_count (sh_type s (sl_type (sh_slab s p)))" "j div 32 < length (sl_available (sh_slab s p))"
proof -
  show p: "p \<in> set (L (sl_type (sh_slab s p)))" using slab_inv_D(8) [OF assms(1,2)] .
  note T = slab_inv_in_T [OF assms(1) p] and sp = slab_inv_D(7) [OF assms(1) p]
  note c = slab_inv_D(4) [OF assms(1) T] and e = slab_inv_D(3) [OF assms(1) T]
  show j: "j < st_count (sh_type s (sl_type (sh_slab s p)))" using assms(3) by (simp add: slots_def)
  show "slot_of s p (obj s p j) = j" "page_align (obj s p j) = p" by (rule obj_slot(1) [OF sp c e j], rule obj_at(2) [OF sp c e j])
  have "j div 32 < (st_count (sh_type s (sl_type (sh_slab s p))) + 31) div 32" using j by linarith
  then show "j div 32 < length (sl_available (sh_slab s p))" using slab_of_D(3) [OF sp] words_ge [of "st_count (sh_type s (sl_type (sh_slab s p)))"] by linarith
qed

lemma slab_get_align: "slab_get is_heap s r \<noteq> 0 \<Longrightarrow> slab_get is_heap s r = page_align r"
  by (simp add: slab_get_def Let_def split: if_splits)

lemma used_obj_iff:
  assumes "slab_inv hused s L T" "sl_type (sh_slab s p) \<noteq> 0" "j < slots s p"
  shows "obj s p j \<in> used_objs s \<longleftrightarrow> \<not> bfree (sl_available (sh_slab s p)) j"
proof
  assume "obj s p j \<in> used_objs s"
  then obtain q i where q: "obj s p j = obj s q i" "sl_type (sh_slab s q) \<noteq> 0" "i < slots s q" "\<not> bfree (sl_available (sh_slab s q)) i"
    by (auto simp: used_objs_def used_slots_def)
  then have "p = q \<and> j = i" using obj_inj [OF assms(1,2) q(2) assms(3) q(3,1)] by blast
  then show "\<not> bfree (sl_available (sh_slab s p)) j" using q(4) by simp
next
  assume "\<not> bfree (sl_available (sh_slab s p)) j"
  then have "(p, j) \<in> used_slots s" using assms(2,3) by (simp add: used_slots_def)
  then show "obj s p j \<in> used_objs s" by (force simp: used_objs_def)
qed

text \<open>What the mark changes: nothing but the bits it clears.\<close>

definition marked :: "'h slab_heap \<Rightarrow> 'h slab_heap \<Rightarrow> bool" where
  "marked s s' \<longleftrightarrow> same s s' \<and> sh_spin s' = sh_spin s \<and> sh_final s' = sh_final s \<and> (\<forall>p. sl_finalize (sh_slab s' p) = sl_finalize (sh_slab s p)) \<and>
     used_objs s \<subseteq> used_objs s'"

lemma marked_refl [simp]: "marked s s" and marked_trans: "marked s s1 \<Longrightarrow> marked s1 s2 \<Longrightarrow> marked s s2"
  by (auto simp: marked_def intro: same_trans)

text \<open>Nothing that was marked on the way leads out of what is marked.\<close>

definition closed :: "('h \<Rightarrow> addr \<Rightarrow> bool) \<Rightarrow> (addr \<Rightarrow> u32) \<Rightarrow> 'h slab_heap \<Rightarrow> addr set \<Rightarrow> addr set \<Rightarrow> bool" where
  "closed is_heap wm s A B \<longleftrightarrow> (\<forall>x \<in> B - A. \<forall>c \<in> set (children wm s (page_align x) x). slab_get is_heap s c \<noteq> 0 \<longrightarrow> c \<in> B)"

lemma closed_trans: "closed is_heap wm s A B \<Longrightarrow> closed is_heap wm s B C \<Longrightarrow> B \<subseteq> C \<Longrightarrow> closed is_heap wm s A C"
  unfolding closed_def by blast

definition mark_post :: "('h \<Rightarrow> addr set) \<Rightarrow> ('h \<Rightarrow> addr \<Rightarrow> bool) \<Rightarrow> (addr \<Rightarrow> u32) \<Rightarrow> 'h slab_heap \<Rightarrow> addr set \<Rightarrow> (addr \<Rightarrow> addr list) \<Rightarrow> addr list \<Rightarrow>
    addr list \<Rightarrow> 'h slab_heap \<Rightarrow> 'h slab_heap \<Rightarrow> bool" where
  "mark_post hused is_heap wm s0 P L T cs s s' \<longleftrightarrow> marked s s' \<and> slab_inv hused s' L T \<and> used_objs s' \<subseteq> P \<and>
     (\<forall>c \<in> set cs. slab_get is_heap s0 c \<noteq> 0 \<longrightarrow> c \<in> used_objs s') \<and> closed is_heap wm s0 (used_objs s) (used_objs s')"

lemma mark_fold:
  assumes step: "\<And>s r. slab_inv hused s L T \<Longrightarrow> same s0 s \<Longrightarrow> used_objs s \<subseteq> P \<Longrightarrow> slab_get is_heap s0 r = 0 \<or> r \<in> P \<Longrightarrow> card (objs s0 - used_objs s) < n \<Longrightarrow>
      \<exists>s'. f r s = Inr s' \<and> mark_post hused is_heap wm s0 P L T [r] s s'"
    and "finite (objs s0)"
    and "slab_inv hused s L T" "same s0 s" "used_objs s \<subseteq> P" "\<forall>r \<in> set rs. slab_get is_heap s0 r = 0 \<or> r \<in> P" "card (objs s0 - used_objs s) < n"
  shows "\<exists>s'. foldE f rs s = Inr s' \<and> mark_post hused is_heap wm s0 P L T rs s s'"
  using assms(3-7)
proof (induction rs arbitrary: s)
  case Nil
  then show ?case by (simp add: mark_post_def closed_def)
next
  case (Cons r rs)
  obtain s1 where s1: "f r s = Inr s1" "mark_post hused is_heap wm s0 P L T [r] s s1" using step [OF Cons.prems(1-3)] Cons.prems(4,5) by auto
  then have m: "marked s s1" "slab_inv hused s1 L T" "used_objs s1 \<subseteq> P" "slab_get is_heap s0 r \<noteq> 0 \<Longrightarrow> r \<in> used_objs s1"
    "closed is_heap wm s0 (used_objs s) (used_objs s1)" by (auto simp: mark_post_def)
  have sm: "same s0 s1" using Cons.prems(2) m(1) same_trans by (auto simp: marked_def)
  have "card (objs s0 - used_objs s1) \<le> card (objs s0 - used_objs s)" by (rule card_mono) (use m(1) assms(2) in \<open>auto simp: marked_def\<close>)
  then have "card (objs s0 - used_objs s1) < n" using Cons.prems(5) by linarith
  then obtain s2 where s2: "foldE f rs s1 = Inr s2" "mark_post hused is_heap wm s0 P L T rs s1 s2"
    using Cons.IH [OF m(2) sm m(3)] Cons.prems(4) by auto
  have "marked s1 s2" "closed is_heap wm s0 (used_objs s1) (used_objs s2)" using s2(2) by (auto simp: mark_post_def)
  then have "marked s s2" "closed is_heap wm s0 (used_objs s) (used_objs s2)" "used_objs s1 \<subseteq> used_objs s2"
    using marked_trans [OF m(1)] closed_trans [OF m(5)] by (auto simp: marked_def)
  then show ?case using s1(1) s2 m(4) by (auto simp: mark_post_def)
qed

lemma mark_ok:
  assumes P: "\<And>x. x \<in> P \<Longrightarrow> x \<in> objs s0 \<and> slab_get is_heap s0 x \<noteq> 0"
    and step: "\<And>x c. x \<in> P \<Longrightarrow> c \<in> set (children wm s0 (page_align x) x) \<Longrightarrow> slab_get is_heap s0 c \<noteq> 0 \<Longrightarrow> c \<in> P"
    and fin: "finite (objs s0)"
    and "slab_inv hused s L T" "same s0 s" "used_objs s \<subseteq> P" "slab_get is_heap s0 r = 0 \<or> r \<in> P" "card (objs s0 - used_objs s) < n"
  shows "\<exists>s'. slab_gc_mark n is_heap wm r s = Inr s' \<and> mark_post hused is_heap wm s0 P L T [r] s s'"
  using assms(4-8)
proof (induction n arbitrary: s r)
  case (Suc n)
  note k = same_keeps [OF Suc.prems(2)]
  show ?case
  proof (cases "slab_get is_heap s0 r = 0")
    case True
    then show ?thesis using Suc.prems(1,3) by (simp add: k mark_post_def closed_def)
  next
    case False
    then have rP: "r \<in> P" using Suc.prems(4) by blast
    then have "r \<in> objs s" using P same_objs [OF Suc.prems(2)] by simp
    then obtain p j where pj: "r = obj s p j" "sl_type (sh_slab s p) \<noteq> 0" "j < slots s p" by (auto simp: objs_def all_slots_def)
    note ob = obj_slab [OF Suc.prems(1) pj(2,3), folded pj(1)]
    have g: "slab_get is_heap s r = p" "p \<noteq> 0" using slab_get_align [OF False] False ob(2) by (simp_all add: k)
    let ?av = "sl_available (sh_slab s p)"
    have b: "?av ! (j div 32) AND bmask j \<noteq> 0 \<longleftrightarrow> bfree ?av j" using and_drop_top [of "j mod 32"] by (simp add: bfree_def bmask_def)
    note ui = used_obj_iff [OF Suc.prems(1) pj(2,3), folded pj(1)]
    show ?thesis
    proof (cases "bfree ?av j")
      case fr: False
      then have "r \<in> used_objs s" using ui by simp
      moreover have "slab_gc_mark (Suc n) is_heap wm r s = Inr s" using g ob(1,5) b fr by (simp add: Let_def)
      ultimately show ?thesis using Suc.prems(1,3) by (simp add: mark_post_def closed_def)
    next
      case fr: True
      define s1 where "s1 = upd_slab p (\<lambda>sl. sl\<lparr>sl_available := bclear ?av (j div 32) (bmask j)\<rparr>) s"
      note t = take_slot [OF Suc.prems(1) ob(3,4) fr s1_def, folded pj(1)]
      have run: "slab_gc_mark (Suc n) is_heap wm r s = foldE (slab_gc_mark n is_heap wm) (children wm s p r) s1"
        using g ob(1,5) b fr by (simp add: Let_def s1_def)
      have sm: "same s s1" by (simp add: same_def s1_def)
      have mk: "marked s s1" using sm t(3) by (auto simp: marked_def s1_def)
      have u1: "used_objs s1 \<subseteq> P" using t(3) Suc.prems(3) rP by auto
      have ch: "\<forall>c \<in> set (children wm s0 p r). slab_get is_heap s0 c = 0 \<or> c \<in> P" using step [OF rP] ob(2) by auto
      have "objs s0 - used_objs s1 \<subset> objs s0 - used_objs s" using t(2,3) P [OF rP] by auto
      then have "card (objs s0 - used_objs s1) < card (objs s0 - used_objs s)" using fin by (intro psubset_card_mono) auto
      then have c: "card (objs s0 - used_objs s1) < n" using Suc.prems(5) by linarith
      from mark_fold [where f = "slab_gc_mark n is_heap wm", OF Suc.IH fin t(1) same_trans [OF Suc.prems(2) sm] u1 ch c]
      obtain s2 where s2: "foldE (slab_gc_mark n is_heap wm) (children wm s0 p r) s1 = Inr s2" "mark_post hused is_heap wm s0 P L T (children wm s0 p r) s1 s2" by blast
      then have m: "marked s1 s2" "slab_inv hused s2 L T" "used_objs s2 \<subseteq> P" "\<forall>c \<in> set (children wm s0 p r). slab_get is_heap s0 c \<noteq> 0 \<longrightarrow> c \<in> used_objs s2"
        "closed is_heap wm s0 (used_objs s1) (used_objs s2)" by (auto simp: mark_post_def)
      have "r \<in> used_objs s2" using m(1) t(3) by (auto simp: marked_def)
      moreover have "closed is_heap wm s0 (used_objs s) (used_objs s2)"
        unfolding closed_def
      proof (intro ballI)
        fix x c assume x: "x \<in> used_objs s2 - used_objs s" and "c \<in> set (children wm s0 (page_align x) x)"
        then show "slab_get is_heap s0 c \<noteq> 0 \<longrightarrow> c \<in> used_objs s2"
          using m(4,5) t(3) ob(2) unfolding closed_def by (cases "x = r") blast+
      qed
      ultimately show ?thesis using run s2(1) m(2,3) marked_trans [OF mk m(1)] by (simp add: k mark_post_def)
    qed
  qed
qed simp

subsection \<open>Finalizing\<close>

lemma xor_loop_bits:
  assumes "32 dvd i" "(cnt + 31) div 32 \<le> length fin"
  shows "length (xor_loop cnt i av fin) = length fin \<and>
    (\<forall>j < cnt. bfree (xor_loop cnt i av fin) j \<longleftrightarrow> (if i \<le> j then bfree fin j \<noteq> bfree av j else bfree fin j))"
  using assms
proof (induction cnt i av fin rule: xor_loop.induct)
  case (1 cnt i av fin)
  show ?case
  proof (cases "i < cnt")
    case False
    then show ?thesis by (simp add: xor_loop.simps [of cnt i])
  next
    case True
    define fin' where "fin' = fin[i div 32 := (fin ! (i div 32)) XOR (av ! (i div 32))]"
    have st: "xor_loop cnt i av fin = xor_loop cnt (i + 32) av fin'" using True by (simp add: xor_loop.simps [of cnt i] fin'_def)
    have "32 dvd i + 32" using 1(2) by simp
    note IH = 1(1) [OF True this, folded fin'_def]
    obtain q where q: "i = 32 * q" using 1(2) by (auto elim: dvdE)
    have ql: "q < length fin" using True 1(3) q by linarith
    have b: "bfree fin' j \<longleftrightarrow> (if j div 32 = q then bfree fin j \<noteq> bfree av j else bfree fin j)" for j
      using ql q by (auto simp: fin'_def bfree_def bit_xor_iff nth_list_update)
    have "bfree (xor_loop cnt (i + 32) av fin') j \<longleftrightarrow> (if i \<le> j then bfree fin j \<noteq> bfree av j else bfree fin j)" if j: "j < cnt" for j
    proof -
      have "j div 32 = q \<longleftrightarrow> i \<le> j \<and> \<not> i + 32 \<le> j" unfolding q by (auto simp: div_nat_eqI)
      then show ?thesis using IH j b [of j] 1(3) by (auto simp: fin'_def)
    qed
    then show ?thesis unfolding st using IH 1(3) by (simp add: fin'_def)
  qed
qed

lemma word_slots_eq:
  assumes "m \<le> 32" "i = 32 * q + m" "i \<le> cnt"
  shows "word_slots cnt w i (drop_bit m 0x80000000) = (filter (\<lambda>j. bit w (31 - j mod 32)) [i..<min cnt (32 * q + 32)], min cnt (32 * q + 32))"
  using assms
proof (induction "32 - m" arbitrary: i m)
  case 0
  then have "m = 32" by simp
  moreover have "drop_bit 32 (0x80000000 :: u32) = 0" by simp
  ultimately show ?case using 0 by (simp add: word_slots.simps [of cnt w "32 * q + 32"])
next
  case (Suc d)
  then have m: "m < 32" by simp
  have nz: "drop_bit m (0x80000000 :: u32) \<noteq> 0" using m by (simp add: drop_top)
  show ?case
  proof (cases "i < cnt")
    case False
    then have "i = cnt" "min cnt (32 * q + 32) = i" using Suc.prems by simp_all
    then show ?thesis by (simp add: word_slots.simps [of cnt w])
  next
    case True
    have IH: "word_slots cnt w (i + 1) (drop_bit (m + 1) 0x80000000) =
        (filter (\<lambda>j. bit w (31 - j mod 32)) [i + 1..<min cnt (32 * q + 32)], min cnt (32 * q + 32))"
      by (rule Suc.hyps(1)) (use Suc True in auto)
    have dd: "drop_bit 1 (drop_bit m (0x80000000 :: u32)) = drop_bit (m + 1) 0x80000000" by (simp only: drop_bit_drop_bit add.commute)
    have r: "[i..<min cnt (32 * q + 32)] = i # [i + 1..<min cnt (32 * q + 32)]" using True Suc.prems m by (simp add: upt_conv_Cons)
    have im: "i mod 32 = m" using Suc.prems(2) m by simp
    have "w AND drop_bit m 0x80000000 \<noteq> 0 \<longleftrightarrow> bit w (31 - i mod 32)" unfolding im by (rule and_drop_top [OF m])
    then show ?thesis using True nz IH unfolding r by (simp add: word_slots.simps [of cnt w i] dd [unfolded One_nat_def])
  qed
qed

lemma final_slots_eq:
  assumes "32 dvd i \<or> cnt \<le> i"
  shows "final_slots cnt fin i = filter (bfree fin) [i..<cnt]"
  using assms
proof (induction cnt fin i rule: final_slots.induct)
  case (1 cnt fin i)
  show ?case
  proof (cases "i < cnt")
    case False
    then show ?thesis by (simp add: final_slots.simps [of cnt fin i])
  next
    case True
    then obtain q where q: "i = 32 * q" using 1(3) by (auto elim: dvdE)
    let ?k = "min cnt (32 * q + 32)"
    have sp: "[i..<cnt] = [i..<?k] @ [?k..<cnt]" using q True upt_add_eq_append [of i ?k "cnt - ?k"] by simp
    have qd: "j div 32 = q" if "j \<in> set [i..<?k]" for j using that q by (auto intro!: div_nat_eqI)
    have f: "filter (bfree fin) [i..<?k] = filter (\<lambda>j. bit (fin ! (i div 32)) (31 - j mod 32)) [i..<?k]"
      by (rule filter_cong [OF refl]) (use qd q in \<open>simp add: bfree_def\<close>)
    show ?thesis
    proof (cases "fin ! (i div 32) = 0")
      case z: True
      have "filter (bfree fin) [i..<?k] = []" unfolding f z by simp
      moreover have "[?k..<cnt] = [i + 32..<cnt]" using q by (auto simp: min_def)
      moreover have "final_slots cnt fin (i + 32) = filter (bfree fin) [i + 32..<cnt]" by (rule 1(2)) (use True z 1(3) q in auto)
      ultimately show ?thesis unfolding sp using True z by (simp add: final_slots.simps [of cnt fin i])
    next
      case nz: False
      have ws: "word_slots cnt (fin ! (i div 32)) i 0x80000000 = (filter (\<lambda>j. bit (fin ! (i div 32)) (31 - j mod 32)) [i..<?k], ?k)"
        using word_slots_eq [of 0 i q cnt "fin ! (i div 32)"] True q by simp
      have "final_slots cnt fin ?k = filter (bfree fin) [?k..<cnt]" by (rule 1(1) [OF True nz ws [symmetric]]) (auto simp: min_def)
      then show ?thesis unfolding sp using True nz ws f by (simp add: final_slots.simps [of cnt fin i])
    qed
  qed
qed

text \<open>The slots of a slab whose bits in the two bitmaps differ.\<close>

definition changed :: "'h slab_heap \<Rightarrow> addr \<Rightarrow> nat list" where
  "changed s p = filter (\<lambda>j. bfree (sl_finalize (sh_slab s p)) j \<noteq> bfree (sl_available (sh_slab s p)) j) [0..<slots s p]"

definition finalized :: "(addr \<Rightarrow> addr list) \<Rightarrow> addr list \<Rightarrow> 'h slab_heap \<Rightarrow> addr list" where
  "finalized L T s = concat (map (\<lambda>p. map (obj s p) (changed s p)) (all_slabs L (filter (\<lambda>t. st_finalize (sh_type s t)) T)))"

definition final_sl :: "slab_t \<Rightarrow> nat \<Rightarrow> slab_t" where
  "final_sl sl c = sl\<lparr>sl_finalize := xor_loop c 0 (sl_available sl) (sl_finalize sl)\<rparr>"

lemma slab_finalize_eq:
  assumes "length (sl_finalize (sh_slab s p)) = bitmap_words (slots s p)"
  shows "slab_finalize p s = (on_slab final_sl p s)\<lparr>sh_final := sh_final s @ map (obj s p) (changed s p)\<rparr>"
proof -
  let ?fin = "xor_loop (slots s p) 0 (sl_available (sh_slab s p)) (sl_finalize (sh_slab s p))"
  have w: "(slots s p + 31) div 32 \<le> length (sl_finalize (sh_slab s p))" using assms words_ge by simp
  have "final_slots (slots s p) ?fin 0 = changed s p"
    unfolding changed_def final_slots_eq [of 0, simplified] by (rule filter_cong [OF refl]) (use xor_loop_bits [OF _ w, of 0] in simp)
  then show ?thesis by (simp add: slab_finalize_def Let_def on_slab_def final_sl_def upd_slab_def slots_def obj_def fun_eq_iff)
qed

lemma fold_finalize:
  assumes "distinct ps" "\<forall>p \<in> set ps. length (sl_finalize (sh_slab s p)) = bitmap_words (slots s p)"
  shows "fold slab_finalize ps s = (fold (on_slab final_sl) ps s)\<lparr>sh_final := sh_final s @ concat (map (\<lambda>p. map (obj s p) (changed s p)) ps)\<rparr>"
  using assms
proof (induction ps arbitrary: s)
  case (Cons p ps)
  define s1 where "s1 = slab_finalize p s"
  have e: "s1 = (on_slab final_sl p s)\<lparr>sh_final := sh_final s @ map (obj s p) (changed s p)\<rparr>" unfolding s1_def by (rule slab_finalize_eq) (use Cons.prems(2) in simp)
  have k: "slots s1 q = slots s q" "obj s1 q j = obj s q j" for q j by (simp_all add: e on_slab_def final_sl_def slots_def obj_def)
  have o: "sh_slab s1 q = sh_slab s q" if "q \<in> set ps" for q using that Cons.prems(1) by (auto simp: e on_slab_def)
  have c: "map (\<lambda>q. map (obj s1 q) (changed s1 q)) ps = map (\<lambda>q. map (obj s q) (changed s q)) ps"
    by (rule map_cong [OF refl]) (simp add: k o changed_def)
  have "fold slab_finalize ps s1 = (fold (on_slab final_sl) ps s1)\<lparr>sh_final := sh_final s1 @ concat (map (\<lambda>p. map (obj s1 p) (changed s1 p)) ps)\<rparr>"
    using Cons.prems o k by (intro Cons.IH) auto
  moreover have "(fold (on_slab final_sl) ps (x\<lparr>sh_final := f\<rparr>))\<lparr>sh_final := g\<rparr> = (fold (on_slab final_sl) ps x)\<lparr>sh_final := g\<rparr>" for x :: "'a slab_heap" and f g
    using Cons.prems(1) by (subst (1 2) fold_on_slab) (simp_all add: final_sl_def slots_def cong: if_cong)
  ultimately show ?case unfolding c by (simp add: s1_def [symmetric]) (simp add: e)
qed simp

lemma end_ok:
  fixes s :: "'h slab_heap"
  assumes "slab_inv hused s L T" "length T \<le> n" "\<And>t. length (L t) \<le> n"
  shows "\<exists>s'. slab_gc_end n s = Inr s' \<and> slab_inv hused s' L T \<and> used_objs s' = used_objs s \<and> \<not> sh_spin s' \<and> same s s' \<and>
    sh_final s' = sh_final s @ finalized L T s"
proof -
  note D = slab_inv_D [OF assms(1)] and ad = all_slabs_distinct [OF assms(1)]
  define ps where "ps = all_slabs L (filter (\<lambda>t. st_finalize (sh_type s t)) T)"
  have sub: "set ps \<subseteq> set (all_slabs L T)" by (auto simp: ps_def all_slabs_def)
  have dp: "distinct ps" using ad(1) unfolding ps_def all_slabs_def
  proof (induction T)
    case (Cons t T)
    then show ?case by auto
  qed simp
  have nz: "sl_type (sh_slab s p) \<noteq> 0" if "p \<in> set ps" for p using that sub ad(2) by blast
  have w: "length (sl_finalize (sh_slab s p)) = bitmap_words (slots s p)" if "sl_type (sh_slab s p) \<noteq> 0" for p
    using slab_of_D(4) [OF D(7) [OF D(8) [OF that]]] by (simp add: slots_def)
  have lp: "\<forall>p \<in> set ps. length (sl_finalize (sh_slab s p)) = bitmap_words (slots s p)" using w nz by blast
  have "sh_links (slab_finalize p x) = sh_links x \<and> sh_tlinks (slab_finalize p x) = sh_tlinks x \<and> sh_types (slab_finalize p x) = sh_types x \<and>
    sh_type (slab_finalize p x) = sh_type x" for p and x :: "'h slab_heap" by (simp add: slab_finalize_def Let_def)
  from each_slabs [where c = st_finalize and g = slab_finalize and n = n, OF assms this]
  have run: "slab_gc_end n s = Inr (slab_unlock (fold slab_finalize ps s))" unfolding slab_gc_end_def ps_def all_slabs_def by simp
  define s1 where "s1 = s\<lparr>sh_slab := (\<lambda>p. if p \<in> set ps then final_sl (sh_slab s p) (slots s p) else sh_slab s p)\<rparr>"
  have f1: "fold (on_slab final_sl) ps s = s1" unfolding s1_def by (rule fold_on_slab [OF dp]) (simp add: final_sl_def)
  define fl where "fl = concat (map (\<lambda>p. map (obj s p) (changed s p)) ps)"
  define s' where "s' = slab_unlock (s1\<lparr>sh_final := sh_final s @ fl\<rparr>)"
  have sl: "sh_slab s' p = (if p \<in> set ps then final_sl (sh_slab s p) (slots s p) else sh_slab s p)" for p by (simp add: s'_def s1_def slab_unlock_def)
  have sm: "same s s'" by (auto simp: same_def s'_def s1_def slab_unlock_def final_sl_def)
  have av: "sl_available (sh_slab s' p) = sl_available (sh_slab s p)" for p by (simp add: sl final_sl_def)
  have inv: "slab_inv hused s' L T"
  proof (rule same_inv [OF assms(1) sm], intro conjI)
    fix p t assume p: "p \<in> set (L t)"
    note d = slab_of_D [OF D(7) [OF p]]
    have sc: "slots s p = st_count (sh_type s t)" using d(1) by (simp add: slots_def)
    have "(slots s p + 31) div 32 \<le> length (sl_finalize (sh_slab s p))" using d(4) sc words_ge by simp
    from xor_loop_bits [OF _ this, of 0] show "length (sl_finalize (sh_slab s' p)) = bitmap_words (st_count (sh_type s t))" using d(4) by (simp add: sl final_sl_def)
    show "length (sl_available (sh_slab s' p)) = bitmap_words (st_count (sh_type s t))"
      "\<forall>j < 32 * bitmap_words (st_count (sh_type s t)). bfree (sl_available (sh_slab s' p)) j \<longrightarrow> j < st_count (sh_type s t)"
      unfolding av using d(3,6) by simp_all
  qed
  have "used_objs s' = used_objs s" 
    by (rule used_objs_cong) (use sm same_keeps [OF sm] av in \<open>auto simp: used_slots_def same_def\<close>)
  then show ?thesis using run inv sm fold_finalize [OF dp lp] f1 unfolding finalized_def ps_def [symmetric] fl_def [symmetric]
    by (intro exI [of _ s']) (simp add: s'_def slab_unlock_def)
qed

subsection \<open>A collection\<close>

definition has_finalizer :: "'h slab_heap \<Rightarrow> addr \<Rightarrow> bool" where
  "has_finalizer s x \<longleftrightarrow> st_finalize (sh_type s (sl_type (sh_slab s (page_align x))))"

lemma finalized_slots:
  assumes "slab_inv hused s L T"
  shows "distinct (finalized L T s)"
    "x \<in> set (finalized L T s) \<longleftrightarrow> (\<exists>p j. x = obj s p j \<and> sl_type (sh_slab s p) \<noteq> 0 \<and> has_finalizer s x \<and> j \<in> set (changed s p))"
proof -
  note ad = all_slabs_distinct [OF assms]
  let ?F = "\<lambda>p. map (obj s p) (changed s p)" and ?ps = "all_slabs L (filter (\<lambda>t. st_finalize (sh_type s t)) T)"
  have nz: "sl_type (sh_slab s p) \<noteq> 0" if "p \<in> set ?ps" for p using that ad(2) by (auto simp: all_slabs_def)
  have dp: "distinct ?ps" using ad(1) unfolding all_slabs_def by (induction T) auto
  have inj: "p = q \<and> i = j" if "p \<in> set ?ps" "q \<in> set ?ps" "i \<in> set (changed s p)" "j \<in> set (changed s q)" "obj s p i = obj s q j" for p q i j
    by (rule obj_inj [OF assms nz [OF that(1)] nz [OF that(2)] _ _ that(5)]) (use that(3,4) in \<open>auto simp: changed_def\<close>)
  have "distinct (concat (map ?F qs))" if "distinct qs" "set qs \<subseteq> set ?ps" for qs using that
  proof (induction qs)
    case (Cons p qs)
    have "distinct (?F p)" using inj [of p p] Cons.prems(2) by (auto simp: distinct_map inj_on_def changed_def)
    moreover have "set (?F p) \<inter> set (concat (map ?F qs)) = {}" using inj [of p] Cons.prems by auto
    ultimately show ?case using Cons by simp
  qed simp
  then show "distinct (finalized L T s)" using dp unfolding finalized_def by blast
  have mem: "p \<in> set ?ps \<longleftrightarrow> sl_type (sh_slab s p) \<noteq> 0 \<and> st_finalize (sh_type s (sl_type (sh_slab s p)))" for p
    using ad(2,3) unfolding all_slabs_def by auto
  have hf: "has_finalizer s (obj s p j) \<longleftrightarrow> st_finalize (sh_type s (sl_type (sh_slab s p)))" if "sl_type (sh_slab s p) \<noteq> 0" "j \<in> set (changed s p)" for p j
    using obj_slab(2) [OF assms that(1), of j] that(2) by (simp add: has_finalizer_def changed_def)
  have "x \<in> set (finalized L T s) \<longleftrightarrow> (\<exists>p j. x = obj s p j \<and> p \<in> set ?ps \<and> j \<in> set (changed s p))" unfolding finalized_def by auto
  then show "x \<in> set (finalized L T s) \<longleftrightarrow> (\<exists>p j. x = obj s p j \<and> sl_type (sh_slab s p) \<noteq> 0 \<and> has_finalizer s x \<and> j \<in> set (changed s p))"
    unfolding mem using hf by metis
qed

lemma closed_reach:
  assumes "closed is_heap wm s {} B" "\<forall>r \<in> set rs. slab_get is_heap s r \<noteq> 0 \<longrightarrow> r \<in> B" "gc_reach is_heap wm s rs x"
  shows "x \<in> B"
  using assms(3)
proof induction
  case (gc_root r)
  then show ?case using assms(2) by blast
next
  case (gc_step r c)
  then show ?case using assms(1) unfolding closed_def by blast
qed

lemma gc_reach_get: "gc_reach is_heap wm s rs x \<Longrightarrow> slab_get is_heap s x \<noteq> 0"
  by (induction rule: gc_reach.induct)

lemma gc_run:
  assumes "slab_inv hused s L T" "\<not> sh_spin s" "\<forall>x. gc_reach is_heap wm s rs x \<longrightarrow> x \<in> objs s"
    "length T \<le> n" "\<And>t. length (L t) \<le> n" "card (objs s) < n"
  shows "\<exists>s1 s2 s3 fl. slab_gc_begin n s = Inr s1 \<and> foldE (slab_gc_mark n is_heap wm) rs s1 = Inr s2 \<and> slab_gc_end n s2 = Inr s3 \<and>
    slab_inv hused s3 L T \<and> \<not> sh_spin s3 \<and> same s s3 \<and> used_objs s3 = {x. gc_reach is_heap wm s rs x} \<and> sh_final s3 = sh_final s @ fl \<and> distinct fl \<and>
    set fl = {x. has_finalizer s x \<and> (x \<in> used_objs s) \<noteq> gc_reach is_heap wm s rs x}"
proof -
  let ?P = "{x. gc_reach is_heap wm s rs x}"
  obtain s1 where s1: "slab_gc_begin n s = Inr s1" "same s s1" "slab_inv hused s1 L T" "used_slots s1 = {}" "sh_final s1 = sh_final s"
    "\<And>p j. sl_type (sh_slab s p) \<noteq> 0 \<Longrightarrow> j < slots s p \<Longrightarrow> bfree (sl_finalize (sh_slab s1 p)) j \<longleftrightarrow> bfree (sl_available (sh_slab s p)) j"
    using begin_ok [OF assms(1,2,4,5)] by blast
  have u1: "used_objs s1 = {}" using s1(4) by (simp add: used_objs_def)
  note fin = finite_objs [OF assms(1)]
  have step: "\<exists>s'. slab_gc_mark n is_heap wm r x = Inr s' \<and> mark_post hused is_heap wm s ?P L T [r] x s'"
    if "slab_inv hused x L T" "same s x" "used_objs x \<subseteq> ?P" "slab_get is_heap s r = 0 \<or> r \<in> ?P" "card (objs s - used_objs x) < n" for x r
    by (rule mark_ok [OF _ _ fin that]) (use assms(3) gc_reach_get gc_step in blast)+
  have rs: "\<forall>r \<in> set rs. slab_get is_heap s r = 0 \<or> r \<in> ?P" using gc_root by blast
  have c: "card (objs s - used_objs s1) < n" "used_objs s1 \<subseteq> ?P" using assms(6) u1 by simp_all
  from mark_fold [where f = "slab_gc_mark n is_heap wm", OF step fin s1(3,2) c(2) rs c(1)]
  obtain s2 where s2: "foldE (slab_gc_mark n is_heap wm) rs s1 = Inr s2" "mark_post hused is_heap wm s ?P L T rs s1 s2" by blast
  then have m: "marked s1 s2" "slab_inv hused s2 L T" "used_objs s2 \<subseteq> ?P" "\<forall>r \<in> set rs. slab_get is_heap s r \<noteq> 0 \<longrightarrow> r \<in> used_objs s2"
    "closed is_heap wm s {} (used_objs s2)" using u1 by (auto simp: mark_post_def)
  have u2: "used_objs s2 = ?P" using m(3) closed_reach [OF m(5,4)] by blast
  have sm: "same s s2" using same_trans [OF s1(2)] m(1) by (simp add: marked_def)
  note k = same_keeps [OF sm]
  have ty: "sh_type s2 = sh_type s" "sl_type (sh_slab s2 p) = sl_type (sh_slab s p)" for p using sm by (simp_all add: same_def)
  obtain s3 where s3: "slab_gc_end n s2 = Inr s3" "slab_inv hused s3 L T" "used_objs s3 = used_objs s2" "\<not> sh_spin s3" "same s2 s3"
    "sh_final s3 = sh_final s2 @ finalized L T s2"
    using end_ok [OF m(2) assms(4,5)] by blast
  define fl where "fl = finalized L T s2"
  note fs = finalized_slots [OF m(2), folded fl_def]
  have hf: "has_finalizer s2 x = has_finalizer s x" for x by (simp add: has_finalizer_def ty)
  have b: "(bfree (sl_finalize (sh_slab s2 p)) j \<noteq> bfree (sl_available (sh_slab s2 p)) j) \<longleftrightarrow> ((obj s p j \<in> used_objs s) \<noteq> gc_reach is_heap wm s rs (obj s p j))"
    if "sl_type (sh_slab s p) \<noteq> 0" "j < slots s p" for p j
  proof -
    have "bfree (sl_finalize (sh_slab s2 p)) j \<longleftrightarrow> obj s p j \<notin> used_objs s" using s1(6) [OF that] m(1) used_obj_iff [OF assms(1) that] by (simp add: marked_def)
    moreover have "bfree (sl_available (sh_slab s2 p)) j \<longleftrightarrow> \<not> gc_reach is_heap wm s rs (obj s p j)"
      using used_obj_iff [OF m(2), of p j] that u2 by (simp add: k ty)
    ultimately show ?thesis by blast
  qed
  have ch: "j \<in> set (changed s2 p) \<longleftrightarrow> j < slots s p \<and> ((obj s p j \<in> used_objs s) \<noteq> gc_reach is_heap wm s rs (obj s p j))" if "sl_type (sh_slab s p) \<noteq> 0" for p j
    using b [OF that, of j] by (auto simp: changed_def k)
  have "x \<in> set fl \<longleftrightarrow> has_finalizer s x \<and> (x \<in> used_objs s) \<noteq> gc_reach is_heap wm s rs x" for x
  proof
    assume "x \<in> set fl"
    then show "has_finalizer s x \<and> (x \<in> used_objs s) \<noteq> gc_reach is_heap wm s rs x" using fs(2) [of x] ch unfolding hf k ty by blast
  next
    assume a: "has_finalizer s x \<and> (x \<in> used_objs s) \<noteq> gc_reach is_heap wm s rs x"
    then have "x \<in> objs s" using used_subset_objs [of s] assms(3) by blast
    then obtain p j where "x = obj s p j" "sl_type (sh_slab s p) \<noteq> 0" "j < slots s p" by (auto simp: objs_def all_slots_def)
    then show "x \<in> set fl" using a ch [of p j] unfolding fs(2) hf k ty by blast
  qed
  then have "set fl = {x. has_finalizer s x \<and> (x \<in> used_objs s) \<noteq> gc_reach is_heap wm s rs x}" by blast
  moreover have "sh_final s3 = sh_final s @ fl" using s3(6) m(1) s1(5) by (simp add: fl_def marked_def)
  moreover have "same s s3" by (rule same_trans [OF sm s3(5)])
  ultimately show ?thesis using s1(1) s2(1) s3(1-4) u2 fs(1)
    by - (rule exI [of _ s1], rule exI [of _ s2], rule exI [of _ s3], rule exI [of _ fl], simp)
qed



end
