(* ===== verification/Vm.thy ===== *)
theory Vm
  imports Vmap Map_Spec
begin

unbundle bit_operations_syntax

text \<open>
  The virtual memory manager (\<^verbatim>\<open>src/kernel/vm.c\<close>) with the page cache (\<^verbatim>\<open>src/kernel/vfs.c\<close>) and the check of user
  pointers (\<^verbatim>\<open>src/kernel/check.c\<close>).

  An address space is the pointer to its map from addresses to segments; a map is the ordered list of
  entries it stands for (theories \<open>Tree_Refine\<close> and \<open>Vector\<close> show that the containers implement that). The same pointer is the
  number of the address space for the page tables. \<open>pas\<close> is the address space of the running thread's process, null when it
  has none. The members of the union in \<^verbatim>\<open>vmobject_t\<close> are fields of their own. The operation \<^verbatim>\<open>get_page\<close> of a file system is an argument, since it is a
  function pointer in the code and may come back to this component; so is the behaviour of \<^verbatim>\<open>realloc\<close> for a number of
  bytes: it fails, or gives a block, and when the block is new its contents are what they happen to be. The locks are held
  within an operation only.
\<close>

datatype object_type_e = OBJECT_DIRECT | OBJECT_ANON | OBJECT_VNODE

datatype vmobject_ops_t = anon_ops | direct_ops | vnode_ops

record vmobject_t =
  ob_ops :: vmobject_ops_t
  ob_type :: object_type_e
  ob_base :: u32
  ob_size :: u32
  ob_pages :: "u32 \<Rightarrow> u32"
  ob_clean :: addr
  ob_vnode :: addr

record segment_t =
  sg_base :: addr
  sg_size :: u32
  sg_perms :: u32
  sg_dirty :: addr
  sg_read_offset :: u64
  sg_clean :: addr

record vmpage_t =
  vp_flags :: u32
  vp_age :: int
  vp_maps :: "(addr \<times> addr) list"

record vmstate =
  vs_mm :: mmap
  vs_tables :: vmap_t
  vs_kas :: addr
  vs_spaces :: "addr \<Rightarrow> (addr \<times> addr) list"
  vs_segs :: "addr \<Rightarrow> segment_t"
  vs_objs :: "addr \<Rightarrow> vmobject_t"
  vs_pages :: "u32 \<Rightarrow> vmpage_t option"
  vs_kas_next :: addr
  vs_cache :: "addr \<times> u64 \<Rightarrow> u32"

type_synonym fs_get = "addr \<Rightarrow> u64 \<Rightarrow> vmstate \<Rightarrow> (vmstate \<times> u32) res"
type_synonym block = "nat \<Rightarrow> (u32 \<times> int) res"

definition SEGMENT_R :: u32 where "SEGMENT_R = 0x1"
definition SEGMENT_W :: u32 where "SEGMENT_W = 0x2"
definition SEGMENT_X :: u32 where "SEGMENT_X = 0x4"
definition SEGMENT_U :: u32 where "SEGMENT_U = 0x8"
definition SEGMENT_P :: u32 where "SEGMENT_P = 0x10"
definition VMPAGE_PINNED :: u32 where "VMPAGE_PINNED = 0x1"
definition VMPAGE_ACCESSED :: u32 where "VMPAGE_ACCESSED = 0x2"
definition VMPAGE_DIRTY :: u32 where "VMPAGE_DIRTY = 0x4"

definition upd_obj :: "addr \<Rightarrow> (vmobject_t \<Rightarrow> vmobject_t) \<Rightarrow> vmstate \<Rightarrow> vmstate" where
  "upd_obj a f s = s\<lparr>vs_objs := (vs_objs s)(a := f (vs_objs s a))\<rparr>"

definition upd_seg :: "addr \<Rightarrow> (segment_t \<Rightarrow> segment_t) \<Rightarrow> vmstate \<Rightarrow> vmstate" where
  "upd_seg a f s = s\<lparr>vs_segs := (vs_segs s)(a := f (vs_segs s a))\<rparr>"

subsection \<open>Resolving an address\<close>

definition vm_get_segment :: "vmstate \<Rightarrow> addr \<Rightarrow> addr \<Rightarrow> addr" where
  "vm_get_segment s as p = data_of (al_get map_keycmp p MAP_LE (vs_spaces s as))"

text \<open>The offset is a signed difference of pointers, widened to 64 bits.\<close>

definition vm_resolve_address :: "vmstate \<Rightarrow> addr \<Rightarrow> addr \<Rightarrow> (addr \<times> addr \<times> u64) option" where
  "vm_resolve_address s pas p =
     (let seg = vm_get_segment s (vs_kas s) p;
          (as, seg) = (if seg = 0 then (pas, if pas \<noteq> 0 then vm_get_segment s pas p else seg) else (vs_kas s, seg))
      in if seg \<noteq> 0 then Some (as, seg, scast (p - sg_base (vs_segs s seg))) else None)"

subsection \<open>The page cache\<close>

definition page_cache_key_comp :: "addr \<times> u64 \<Rightarrow> addr \<times> u64 \<Rightarrow> int" where
  "page_cache_key_comp k1 k2 =
     (if fst k1 = fst k2 then if snd k1 < snd k2 then -1 else if snd k1 > snd k2 then 1 else 0
      else if fst k1 < fst k2 then -1 else if fst k1 > fst k2 then 1 else 0)"

definition vnode_get_page :: "fs_get \<Rightarrow> addr \<Rightarrow> u64 \<Rightarrow> vmstate \<Rightarrow> (vmstate \<times> u32) res" where
  "vnode_get_page fsget vnode offset s =
     (let page = vs_cache s (vnode, offset) in
      if page = 0 then
        bindE (fsget vnode offset s) (\<lambda>(s, page). Inr (s\<lparr>vs_cache := (vs_cache s)((vnode, offset) := page)\<rparr>, page))
      else Inr (s, page))"

subsection \<open>Memory objects\<close>

definition page_key :: "u64 \<Rightarrow> u32" where
  "page_key offset = ucast (drop_bit 12 offset)"

definition put_obj_page :: "addr \<Rightarrow> u32 \<Rightarrow> u32 \<Rightarrow> vmstate \<Rightarrow> vmstate" where
  "put_obj_page anon k page = upd_obj anon (\<lambda>ob. ob\<lparr>ob_pages := (ob_pages ob)(k := page)\<rparr>)"

text \<open>\<open>get\<close> is \<^verbatim>\<open>get_page\<close> of the object underneath.\<close>

definition vm_anon_get_page :: "(addr \<Rightarrow> u64 \<Rightarrow> vmstate \<Rightarrow> (vmstate \<times> u32) res) \<Rightarrow> addr \<Rightarrow> u64 \<Rightarrow> vmstate \<Rightarrow> (vmstate \<times> u32) res" where
  "vm_anon_get_page get anon offset s =
     (let page = ob_pages (vs_objs s anon) (page_key offset) in
      bindE (if page = 0 \<and> ob_clean (vs_objs s anon) \<noteq> 0 then get (ob_clean (vs_objs s anon)) offset s else Inr (s, page)) (\<lambda>(s, page).
      if page = 0 then
        bindE (page_alloc (vs_mm s)) (\<lambda>(mm, page). Inr (put_obj_page anon (page_key offset) page (s\<lparr>vs_mm := mm\<rparr>), page))
      else Inr (s, page)))"

definition vm_anon_put_page :: "addr \<Rightarrow> u64 \<Rightarrow> u32 \<Rightarrow> vmstate \<Rightarrow> vmstate \<times> u32" where
  "vm_anon_put_page anon offset page s =
     (put_obj_page anon (page_key offset) page s, ob_pages (vs_objs s anon) (page_key offset))"

definition vm_direct_get_page :: "vmstate \<Rightarrow> addr \<Rightarrow> u64 \<Rightarrow> u32" where
  "vm_direct_get_page s direct offset =
     (if offset < ucast (ob_size (vs_objs s direct)) then ob_base (vs_objs s direct) + page_key offset else 0)"

definition vm_vnode_get_page :: "fs_get \<Rightarrow> addr \<Rightarrow> u64 \<Rightarrow> vmstate \<Rightarrow> (vmstate \<times> u32) res" where
  "vm_vnode_get_page fsget ob offset s = vnode_get_page fsget (ob_vnode (vs_objs s ob)) offset s"

text \<open>The call through the table of operations; only anonymous objects have \<^verbatim>\<open>put_page\<close>.\<close>

fun get_page :: "nat \<Rightarrow> fs_get \<Rightarrow> addr \<Rightarrow> u64 \<Rightarrow> vmstate \<Rightarrow> (vmstate \<times> u32) res" where
  "get_page 0 fsget ob offset s = Inl OutOfFuel"
| "get_page (Suc n) fsget ob offset s =
     (if ob = 0 then Inl NullDeref
      else case ob_ops (vs_objs s ob) of
        anon_ops \<Rightarrow> vm_anon_get_page (get_page n fsget) ob offset s
      | direct_ops \<Rightarrow> Inr (s, vm_direct_get_page s ob offset)
      | vnode_ops \<Rightarrow> vm_vnode_get_page fsget ob offset s)"

definition put_page :: "addr \<Rightarrow> u64 \<Rightarrow> u32 \<Rightarrow> vmstate \<Rightarrow> (vmstate \<times> u32) res" where
  "put_page ob offset page s =
     (if ob = 0 \<or> ob_ops (vs_objs s ob) \<noteq> anon_ops then Inl NullDeref else Inr (vm_anon_put_page ob offset page s))"

text \<open>The address \<^verbatim>\<open>slab_alloc\<close> returns is the argument \<open>fresh\<close>.\<close>

definition vm_object_anon :: "addr \<Rightarrow> addr \<Rightarrow> vmstate \<Rightarrow> vmstate" where
  "vm_object_anon fresh clean = upd_obj fresh (\<lambda>ob. ob\<lparr>ob_ops := anon_ops, ob_type := OBJECT_ANON, ob_pages := \<lambda>_. 0, ob_clean := clean\<rparr>)"

text \<open>Every entry of the old map is put into the new one. An object that is anonymous by its type only has no map there.\<close>

definition vm_object_anon_copy :: "addr \<Rightarrow> addr \<Rightarrow> vmstate \<Rightarrow> vmstate res" where
  "vm_object_anon_copy fresh from s =
     (if from = 0 then Inl NullDeref
      else if ob_type (vs_objs s from) \<noteq> OBJECT_ANON then Inl (Throw IntValueException)
      else if ob_ops (vs_objs s from) \<noteq> anon_ops then Inl BadAccess
      else let s = vm_object_anon fresh (ob_clean (vs_objs s from)) s in
        Inr (upd_obj fresh (\<lambda>ob. ob\<lparr>ob_pages := \<lambda>k. if ob_pages (vs_objs s from) k \<noteq> 0 then ob_pages (vs_objs s from) k else ob_pages ob k\<rparr>) s))"

definition vm_object_direct :: "addr \<Rightarrow> u32 \<Rightarrow> u32 \<Rightarrow> vmstate \<Rightarrow> vmstate" where
  "vm_object_direct fresh base sz = upd_obj fresh (\<lambda>ob. ob\<lparr>ob_ops := direct_ops, ob_type := OBJECT_ANON, ob_base := base, ob_size := sz\<rparr>)"

definition vm_object_vnode :: "addr \<Rightarrow> addr \<Rightarrow> vmstate \<Rightarrow> vmstate" where
  "vm_object_vnode fresh vnode = upd_obj fresh (\<lambda>ob. ob\<lparr>ob_ops := vnode_ops, ob_type := OBJECT_VNODE, ob_vnode := vnode\<rparr>)"

subsection \<open>Segments\<close>

definition vm_segment_base :: "addr \<Rightarrow> addr \<Rightarrow> u32 \<Rightarrow> u32 \<Rightarrow> addr \<Rightarrow> u64 \<Rightarrow> vmstate \<Rightarrow> vmstate" where
  "vm_segment_base fresh p sz perms clean offset = upd_seg fresh (\<lambda>_.
     \<lparr>sg_base = p, sg_size = sz, sg_perms = perms, sg_dirty = clean, sg_read_offset = offset, sg_clean = clean\<rparr>)"

definition vm_segment_vnode :: "addr \<Rightarrow> addr \<Rightarrow> addr \<Rightarrow> addr \<Rightarrow> u32 \<Rightarrow> u32 \<Rightarrow> addr \<Rightarrow> u64 \<Rightarrow> vmstate \<Rightarrow> vmstate" where
  "vm_segment_vnode fresh fo fa p sz perms vnode offset s =
     (let s = vm_object_vnode fo vnode s;
          s = vm_segment_base fresh p sz (perms OR SEGMENT_P) fo offset s
      in if perms AND SEGMENT_P \<noteq> 0 then upd_seg fresh (\<lambda>sg. sg\<lparr>sg_dirty := fa\<rparr>) (vm_object_anon fa fo s) else s)"

definition vm_segment_anonymous :: "addr \<Rightarrow> addr \<Rightarrow> addr \<Rightarrow> u32 \<Rightarrow> u32 \<Rightarrow> vmstate \<Rightarrow> vmstate" where
  "vm_segment_anonymous fresh fa p sz perms s =
     upd_seg fresh (\<lambda>sg. sg\<lparr>sg_dirty := fa\<rparr>) (vm_object_anon fa 0 (vm_segment_base fresh p sz (perms OR SEGMENT_P) 0 0 s))"

definition vm_segment_direct :: "addr \<Rightarrow> addr \<Rightarrow> addr \<Rightarrow> u32 \<Rightarrow> u32 \<Rightarrow> u32 \<Rightarrow> vmstate \<Rightarrow> vmstate" where
  "vm_segment_direct fresh fo p sz perms base s = vm_segment_base fresh p sz perms fo 0 (vm_object_direct fo base sz s)"

definition vm_segment_copy :: "addr \<Rightarrow> addr \<Rightarrow> addr \<Rightarrow> bool \<Rightarrow> vmstate \<Rightarrow> vmstate res" where
  "vm_segment_copy fresh fa from private s =
     (let f = vs_segs s from;
          s = vm_segment_base fresh (sg_base f) (sg_size f) (sg_perms f) (sg_clean f) (sg_read_offset f) s
      in if private then
           let s = upd_seg fresh (\<lambda>sg. sg\<lparr>sg_perms := sg_perms sg OR SEGMENT_P\<rparr>) s in
           bindE (if sg_clean f \<noteq> sg_dirty f then vm_object_anon_copy fa (sg_dirty f) s
                  else Inr (vm_object_anon fa (sg_clean f) s)) (\<lambda>s.
             Inr (upd_seg fresh (\<lambda>sg. sg\<lparr>sg_dirty := fa\<rparr>) s))
         else Inr s)"

subsection \<open>The reverse map of pages\<close>

definition vm_vmpage_map :: "block \<Rightarrow> u32 \<Rightarrow> addr \<Rightarrow> addr \<Rightarrow> vmstate \<Rightarrow> vmstate res" where
  "vm_vmpage_map ra page as p s =
     (case vs_pages s page of
        Some vp \<Rightarrow>
          if (as, p) \<in> set (vp_maps vp) then Inr s
          else bindE (ra (12 + 8 * (length (vp_maps vp) + 1))) (\<lambda>_.
            Inr (s\<lparr>vs_pages := (vs_pages s)(page \<mapsto> vp\<lparr>vp_maps := vp_maps vp @ [(as, p)]\<rparr>)\<rparr>))
      | None \<Rightarrow> bindE (ra 20) (\<lambda>(flags, age).
            Inr (s\<lparr>vs_pages := (vs_pages s)(page \<mapsto> \<lparr>vp_flags = flags, vp_age = age, vp_maps = [(as, p)]\<rparr>)\<rparr>)))"

fun maps_index :: "addr \<times> addr \<Rightarrow> (addr \<times> addr) list \<Rightarrow> nat \<Rightarrow> nat option" where
  "maps_index e [] i = None"
| "maps_index e (x # xs) i = (if x = e then Some i else maps_index e xs (i + 1))"

definition vm_vmpage_unmap :: "u32 \<Rightarrow> addr \<Rightarrow> addr \<Rightarrow> vmstate \<Rightarrow> vmstate" where
  "vm_vmpage_unmap page as p s =
     (case vs_pages s page of
        None \<Rightarrow> s
      | Some vp \<Rightarrow>
          (case maps_index (as, p) (vp_maps vp) 0 of
             None \<Rightarrow> s
           | Some i \<Rightarrow> s\<lparr>vs_pages := (vs_pages s)(page \<mapsto> vp\<lparr>vp_maps := butlast ((vp_maps vp)[i := last (vp_maps vp)])\<rparr>)\<rparr>))"

definition upd_vmpage :: "u32 \<Rightarrow> (vmpage_t \<Rightarrow> vmpage_t) \<Rightarrow> vmstate \<Rightarrow> vmstate" where
  "upd_vmpage page f s = s\<lparr>vs_pages := (vs_pages s)(page := map_option f (vs_pages s page))\<rparr>"

definition vm_vmpage_setflags :: "u32 \<Rightarrow> u32 \<Rightarrow> vmstate \<Rightarrow> vmstate" where
  "vm_vmpage_setflags page flags = upd_vmpage page (\<lambda>vp. vp\<lparr>vp_flags := vp_flags vp OR flags\<rparr>)"

definition vm_vmpage_resetflags :: "u32 \<Rightarrow> u32 \<Rightarrow> vmstate \<Rightarrow> vmstate" where
  "vm_vmpage_resetflags page flags = upd_vmpage page (\<lambda>vp. vp\<lparr>vp_flags := vp_flags vp AND NOT flags\<rparr>)"

fun trap_maps :: "nat \<Rightarrow> (addr \<times> addr) list \<Rightarrow> mmap \<times> vmap_t \<Rightarrow> (mmap \<times> vmap_t) res" where
  "trap_maps n [] t = Inr t"
| "trap_maps n ((as, p) # ms) t =
     bindE (vmap_ismapped (snd t) as p) (\<lambda>(v, b).
     bindE (if b then vmap_unmap n (fst t, v) as p else Inr (fst t, v)) (trap_maps n ms))"

definition vm_vmpage_trapaccess :: "nat \<Rightarrow> u32 \<Rightarrow> vmstate \<Rightarrow> vmstate res" where
  "vm_vmpage_trapaccess n page s =
     (case vs_pages s page of
        None \<Rightarrow> Inr s
      | Some vp \<Rightarrow> bindE (trap_maps n (vp_maps vp) (vs_mm s, vs_tables s)) (\<lambda>(mm, v). Inr (s\<lparr>vs_mm := mm, vs_tables := v\<rparr>)))"

text \<open>The body that would make the mappings read only is commented out: they are removed here, too.\<close>

definition vm_vmpage_trapwrites :: "nat \<Rightarrow> u32 \<Rightarrow> vmstate \<Rightarrow> vmstate res" where
  "vm_vmpage_trapwrites = vm_vmpage_trapaccess"

definition vm_vmpage_age :: "u32 \<Rightarrow> vmstate \<Rightarrow> vmstate" where
  "vm_vmpage_age page = upd_vmpage page (\<lambda>vp.
     if vp_age vp \<noteq> 0 then
       let age = drop_bit 1 (vp_age vp) in vp\<lparr>vp_age := if vp_flags vp AND VMPAGE_ACCESSED \<noteq> 0 then age OR 0x100 else age\<rparr>
     else vp\<lparr>vp_age := if vp_flags vp AND VMPAGE_ACCESSED \<noteq> 0 then 4 else 0\<rparr>)"

subsection \<open>Page faults\<close>

definition map_fault :: "nat \<Rightarrow> block \<Rightarrow> addr \<Rightarrow> addr \<Rightarrow> u32 \<Rightarrow> bool \<Rightarrow> bool \<Rightarrow> u32 \<Rightarrow> vmstate \<Rightarrow> vmstate res" where
  "map_fault n ra as p page rw user flags s =
     bindE (vmap_map n (vs_mm s, vs_tables s) as p page rw user) (\<lambda>(mm, v).
     bindE (vm_vmpage_map ra page as p (s\<lparr>vs_mm := mm, vs_tables := v\<rparr>)) (\<lambda>s.
     Inr (vm_vmpage_setflags page flags s)))"

text \<open>\<^verbatim>\<open>VMPAGE_ACCESSED | (write) ? VMPAGE_DIRTY : 0\<close> is \<^verbatim>\<open>VMPAGE_DIRTY\<close>, whether it is a write or not.\<close>

definition vm_page_fault :: "nat \<Rightarrow> fs_get \<Rightarrow> block \<Rightarrow> addr \<Rightarrow> addr \<Rightarrow> bool \<Rightarrow> bool \<Rightarrow> bool \<Rightarrow> vmstate \<Rightarrow> vmstate res" where
  "vm_page_fault n fsget ra pas p write user present s =
     (case vm_resolve_address s pas p of
        None \<Rightarrow> Inl Panic
      | Some (as, seg, offset) \<Rightarrow>
          let sg = vs_segs s seg; rw = (write \<and> SEGMENT_W AND sg_perms sg \<noteq> 0); us = (SEGMENT_U AND sg_perms sg \<noteq> 0) in
          if offset < ucast (sg_size sg) then
            let p = p AND NOT 4095 in
            if \<not> present then
              bindE (get_page n fsget (sg_dirty sg) offset s) (\<lambda>(s, page).
              bindE (if page = 0 then
                       bindE (get_page n fsget (sg_clean sg) (offset + sg_read_offset sg) s) (\<lambda>(s, page). Inr (s, page, False))
                     else Inr (s, page, rw)) (\<lambda>(s, page, rw).
              map_fault n ra as p page rw us (if VMPAGE_ACCESSED OR of_bool write \<noteq> 0 then VMPAGE_DIRTY else 0) s))
            else if rw then
              bindE (vmap_get_page (vs_tables s) as p) (\<lambda>(v, page).
                map_fault n ra as p page rw us (VMPAGE_ACCESSED OR VMPAGE_DIRTY) (s\<lparr>vs_tables := v\<rparr>))
            else Inl Panic
          else Inl Panic)"

definition vm_page_steal :: "nat \<Rightarrow> fs_get \<Rightarrow> addr \<Rightarrow> addr \<Rightarrow> vmstate \<Rightarrow> (vmstate \<times> u32) res" where
  "vm_page_steal n fsget pas p s =
     (case vm_resolve_address s pas p of
        None \<Rightarrow> Inr (s, 0)
      | Some (as, seg, offset) \<Rightarrow>
          let sg = vs_segs s seg in
          if sg_perms sg AND SEGMENT_P = 0 then Inr (s, 0)
          else
            bindE (get_page n fsget (sg_dirty sg) offset s) (\<lambda>(s, page).
            if page \<noteq> 0 then
              bindE (put_page (sg_dirty sg) offset 0 s) (\<lambda>(s, _).
              let s = vm_vmpage_unmap page as p s in
              bindE (vmap_ismapped (vs_tables s) as p) (\<lambda>(v, b).
              let s = s\<lparr>vs_tables := v\<rparr> in
              bindE (if b then bindE (vmap_unmap n (vs_mm s, vs_tables s) as p) (\<lambda>(mm, v). Inr (s\<lparr>vs_mm := mm, vs_tables := v\<rparr>)) else Inr s) (\<lambda>s.
              Inr (s, page))))
            else bindE (page_alloc (vs_mm s)) (\<lambda>(mm, page). Inr (s\<lparr>vs_mm := mm\<rparr>, page))))"

subsection \<open>Kernel address space\<close>

definition vm_kas_start :: "addr \<Rightarrow> vmstate \<Rightarrow> vmstate" where
  "vm_kas_start p s = s\<lparr>vs_kas_next := p\<rparr>"

definition vm_kas_get_aligned :: "u32 \<Rightarrow> u32 \<Rightarrow> vmstate \<Rightarrow> vmstate \<times> addr" where
  "vm_kas_get_aligned sz align s =
     (let p = vs_kas_next s;
          p = p + (align - 1);
          p = p AND NOT (align - 1)
      in (s\<lparr>vs_kas_next := p + sz\<rparr>, p))"

definition vm_kas_get :: "u32 \<Rightarrow> vmstate \<Rightarrow> vmstate \<times> addr" where
  "vm_kas_get sz = vm_kas_get_aligned sz 4"

subsection \<open>User pointers\<close>

fun check_segs :: "nat \<Rightarrow> vmstate \<Rightarrow> addr \<Rightarrow> bool \<Rightarrow> addr \<Rightarrow> addr \<Rightarrow> unit res" where
  "check_segs 0 s as write vpend seg = Inl OutOfFuel"
| "check_segs (Suc n) s as write vpend seg =
     (if seg \<noteq> 0 then
        if write \<and> sg_perms (vs_segs s seg) AND SEGMENT_W = 0 then Inl (Throw InvalidPointerException)
        else let segend = sg_base (vs_segs s seg) + sg_size (vs_segs s seg) in
          if vpend \<ge> segend then check_segs n s as write vpend (data_of (al_get map_keycmp segend MAP_EQ (vs_spaces s as)))
          else Inr ()
      else Inl (Throw InvalidPointerException))"

definition check_user_ptr :: "nat \<Rightarrow> vmstate \<Rightarrow> addr \<Rightarrow> addr \<Rightarrow> u32 \<Rightarrow> bool \<Rightarrow> unit res" where
  "check_user_ptr n s pas p len write =
     (let vpstart = p AND NOT 4095;
          vpend = (p + (len + 4096)) AND NOT 4095
      in check_segs n s pas write vpend (if pas \<noteq> 0 then vm_get_segment s pas vpstart else 0))"

end
