(* ===== verification/Vm_Fault.thy ===== *)
theory Vm_Fault
  imports Vm
begin

unbundle bit_operations_syntax

text \<open>
  Page faults on anonymous memory, over the page tables of \<open>Vmap\<close>. The kernel's address space is the first that asks for page tables and has
  the kernel's own; operations on it are those on address space 0, except that its sequence number is renewed.
\<close>

subsection \<open>The kernel's address space\<close>

definition first_asid :: "addr \<Rightarrow> vmap_t \<Rightarrow> bool" where
  "first_asid vid v \<longleftrightarrow> vid \<noteq> 0 \<and> vm_asids v \<noteq> [] \<and> fst (hd (vm_asids v)) = vid"

definition touch :: "addr \<Rightarrow> vmap_t \<Rightarrow> vmap_t" where
  "touch vid v = v\<lparr>vm_asids := (vm_asids v)[0 := (vid, vm_seq v)]\<rparr>"

lemma touch_simps [simp]:
  "touch vid (touch vid v) = touch vid v" "vm_phys (touch vid v) = vm_phys v" "vm_cr3 (touch vid v) = vm_cr3 v" "vm_seq (touch vid v) = vm_seq v"
  "has_tbl (touch vid v) = has_tbl v" "tbl (touch vid v) = tbl v" "vm_ok mm (touch vid v) D = vm_ok mm v D" "first_asid vid v \<Longrightarrow> first_asid vid (touch vid v)"
  by (cases "vm_asids v"; simp add: touch_def has_tbl_def tbl_def vm_ok_def first_asid_def fun_eq_iff)+

lemma first_asid_get:
  assumes "first_asid vid v"
  shows "vmap_get_pgtable v vid = Inr (touch vid v, 0)"
proof -
  obtain q r where "vm_asids v = (vid, q) # r" using assms by (cases "vm_asids v") (auto simp: first_asid_def prod_eq_iff)
  then show ?thesis using assms by (simp add: vmap_get_pgtable_def first_asid_def touch_def)
qed

lemma kernel_get: "vmap_get_pgtable v 0 = Inr (v, 0)"
  by (simp add: vmap_get_pgtable_def)

lemma get_page_first: "first_asid vid v \<Longrightarrow> get_page_at v vid vp = get_page_at (touch vid v) 0 vp"
  by (simp add: get_page_at_def first_asid_get kernel_get)

lemma get_page_state: "get_page_at v 0 vp = Inr (v', pg) \<Longrightarrow> v' = v"
  by (auto simp: get_page_at_def kernel_get bindE_Inr_iff)

lemma set_pte_first:
  assumes "first_asid vid v"
  shows "set_pte_at n (mm, v) vid vp pte = set_pte_at n (mm, touch vid v) 0 vp pte"
proof (cases n)
  case (Suc k)
  have "get_page_at (touch vid v) vid x = get_page_at (touch vid v) 0 x" for x using get_page_first [of vid "touch vid v"] assms by simp
  then show ?thesis unfolding Suc using assms by (simp add: first_asid_get kernel_get cong: if_cong)
qed simp

lemma vmap_map_first: "first_asid vid v \<Longrightarrow> vmap_map n (mm, v) vid va page rw user = vmap_map n (mm, touch vid v) 0 va page rw user"
  by (simp add: vmap_map_def vmap_set_pte_def set_pte_first)

lemma vmap_get_page_first: "first_asid vid v \<Longrightarrow> vmap_get_page v vid va = vmap_get_page (touch vid v) 0 va"
  by (simp add: vmap_get_page_def get_page_first)

lemma vmap_flag_first:
  assumes "first_asid vid v"
  shows "vmap_flag f v vid va = vmap_flag f (touch vid v) 0 va"
proof -
  have "get_page_at (touch vid v) vid x = get_page_at (touch vid v) 0 x" for x using get_page_first [of vid "touch vid v"] assms by simp
  then show ?thesis using assms by (simp add: vmap_flag_def vmap_get_pte_def Let_def first_asid_get kernel_get)
qed

lemma set_pte_asids:
  "set_pte_at n s 0 vp pte = Inr s' \<Longrightarrow> vm_asids (snd s') = vm_asids (snd s) \<and> vm_seq (snd s') = vm_seq (snd s)"
proof (induction n arbitrary: s vp pte s')
  case (Suc n)
  let ?same = "\<lambda>v v'. vm_asids v' = vm_asids v \<and> vm_seq v' = vm_seq (v :: vmap_t)"
  let ?step = "\<lambda>pg i r. bindE r (\<lambda>s. set_pte_at n s 0 (pgtbls_page (ARCH_PAGE_TABLE_SIZE * i + vp)) (make_pte pg True False))"
  have st: "?same v (snd s2)" if "fold (?step pg) is r = Inr s2" "\<forall>s1. r = Inr s1 \<longrightarrow> ?same v (snd s1)" for pg "is" r s2 v
    using that
  proof (induction "is" arbitrary: r)
    case (Cons i "is")
    have f: "fold (?step pg) is (?step pg i r) = Inr s2" using Cons.prems(1) by simp
    have "?same v (snd s1)" if a: "?step pg i r = Inr s1" for s1
    proof -
      obtain s0 where "r = Inr s0" "set_pte_at n s0 0 (pgtbls_page (ARCH_PAGE_TABLE_SIZE * i + vp)) (make_pte pg True False) = Inr s1"
        using a unfolding bindE_Inr_iff by blast
      then show ?thesis using Suc.IH [of s0] Cons.prems(2) by simp
    qed
    then show ?case using Cons.IH [OF f] by blast
  qed simp
  obtain v tb mm2 v2 v3 where r: "get_page_at (snd s) 0 (pgtbls_page vp) = Inr (v, tb)"
    "(if tb = 0 then bindE (page_alloc (fst s)) (\<lambda>(mm, page). fold (?step page) [0..<ASID_COUNT] (Inr (mm, v))) else Inr (fst s, v)) = Inr (mm2, v2)"
    "pt_write v2 (0 + vp) pte = Inr v3" "s' = (mm2, v3)"
    using Suc.prems by (auto simp: kernel_get bindE_Inr_iff simp del: if_split)
  have v: "v = snd s" using get_page_state [OF r(1)] .
  have "?same (snd s) v2"
  proof (cases "tb = 0")
    case True
    then obtain mm pg where "fold (?step pg) [0..<ASID_COUNT] (Inr (mm, v)) = Inr (mm2, v2)" using r(2) by (auto simp: bindE_Inr_iff)
    from st [OF this, of v] show ?thesis by (simp add: v)
  next
    case False
    then show ?thesis using r(2) v by simp
  qed
  then show ?case using r(3,4) by (auto simp: pt_write_def bindE_Inr_iff)
qed simp

subsection \<open>The state of the virtual memory manager\<close>

definition held :: "vmstate \<Rightarrow> (addr \<times> u32) set" where
  "held s = {(ob, k). ob_ops (vs_objs s ob) = anon_ops \<and> ob_pages (vs_objs s ob) k \<noteq> 0}"

definition held_page :: "vmstate \<Rightarrow> addr \<times> u32 \<Rightarrow> u32" where
  "held_page s x = ob_pages (vs_objs s (fst x)) (snd x)"

text \<open>The pages of the anonymous objects are not free, and each is at one place of one object.\<close>

definition vm_wf :: "(nat \<Rightarrow> u32) \<Rightarrow> vmstate \<Rightarrow> bool" where
  "vm_wf D s \<longleftrightarrow> mmap_ok (vs_mm s) \<and> vm_ok (vs_mm s) (vs_tables s) D \<and> first_asid (vs_kas s) (vs_tables s) \<and>
     (\<forall>x \<in> held s. held_page s x \<notin> free_pages (vs_mm s) \<and> unat (held_page s x) < 2 ^ 20) \<and> inj_on (held_page s) (held s)"

lemma vm_wf_D:
  assumes "vm_wf D s"
  shows "mmap_ok (vs_mm s)" "vm_ok (vs_mm s) (vs_tables s) D" "first_asid (vs_kas s) (vs_tables s)"
    "x \<in> held s \<Longrightarrow> held_page s x \<notin> free_pages (vs_mm s)" "x \<in> held s \<Longrightarrow> unat (held_page s x) < 2 ^ 20" "inj_on (held_page s) (held s)"
  using assms unfolding vm_wf_def by blast+

lemma vm_ok_free: "vm_ok mm v D \<Longrightarrow> free_pages mm' \<subseteq> free_pages mm \<Longrightarrow> vm_ok mm' v D"
  unfolding vm_ok_def by blast

lemma zero_not_free:
  assumes "mmap_ok mm"
  shows "0 \<notin> free_pages mm"
proof
  assume "0 \<in> free_pages mm"
  then obtain m i where m: "m \<in> set mm" "i \<in> range_free m" "page_at m i = 0" by (auto simp: free_pages_def)
  have ok: "range_ok m" using assms m(1) by (simp add: mmap_ok_def)
  then have i: "0 < i" "i < nat (mm_count m)" "unat (mm_base m) + nat (mm_count m) \<le> 2 ^ 32"
    using m(2) by (auto simp: range_ok_def range_free_def)
  have "unat (mm_base m + of_nat i) = unat (mm_base m) + i" using i by (simp add: unat_word_ariths unat_of_nat)
  then show False using m(3) i(1) by (simp add: page_at_def)
qed

text \<open>Changing other parts of the state.\<close>

lemma vm_wf_frame:
  assumes "vm_wf D s" "vs_objs s' = vs_objs s" "mmap_ok (vs_mm s')" "vm_ok (vs_mm s') (vs_tables s') D" "first_asid (vs_kas s') (vs_tables s')"
    "free_pages (vs_mm s') \<subseteq> free_pages (vs_mm s)"
  shows "vm_wf D s'"
proof -
  have "held s' = held s" "held_page s' = held_page s" using assms(2) by (simp_all add: held_def held_page_def fun_eq_iff)
  then show ?thesis using assms unfolding vm_wf_def by auto
qed

text \<open>The frame of an operation that changes the pages and an object only.\<close>

definition pages_only :: "vmstate \<Rightarrow> vmstate \<Rightarrow> bool" where
  "pages_only s s' \<longleftrightarrow> vs_tables s' = vs_tables s \<and> vs_kas s' = vs_kas s \<and> vs_spaces s' = vs_spaces s \<and> vs_segs s' = vs_segs s \<and> vs_pages s' = vs_pages s \<and>
     vs_kas_next s' = vs_kas_next s \<and> vs_cache s' = vs_cache s"

lemma anon_get_page_ok:
  assumes "vm_wf D s" "ob \<noteq> 0" "ob_ops (vs_objs s ob) = anon_ops" "ob_clean (vs_objs s ob) = 0"
    "ob_pages (vs_objs s ob) (page_key offset) \<noteq> 0 \<or> free_pages (vs_mm s) \<noteq> {}"
  shows "\<exists>s' page. get_page (Suc n) fsget ob offset s = Inr (s', page) \<and> vm_wf D s' \<and> pages_only s s' \<and> page \<noteq> 0 \<and> unat page < 2 ^ 20 \<and>
    held_page s' (ob, page_key offset) = page \<and> held s' = insert (ob, page_key offset) (held s) \<and> (\<forall>x. x \<noteq> (ob, page_key offset) \<longrightarrow> held_page s' x = held_page s x) \<and>
    (if (ob, page_key offset) \<in> held s then s' = s else page \<in> free_pages (vs_mm s) \<and> free_pages (vs_mm s') = free_pages (vs_mm s) - {page})"
proof (cases "ob_pages (vs_objs s ob) (page_key offset) = 0")
  case False
  then have "(ob, page_key offset) \<in> held s" using assms(3) by (simp add: held_def)
  moreover have "get_page (Suc n) fsget ob offset s = Inr (s, ob_pages (vs_objs s ob) (page_key offset))"
    using assms(2,3) False by (simp add: vm_anon_get_page_def)
  ultimately show ?thesis using assms(1) False vm_wf_D(5) [OF assms(1)]
    by (intro exI [of _ s] exI [of _ "ob_pages (vs_objs s ob) (page_key offset)"]) (auto simp: held_page_def pages_only_def)
next
  case True
  let ?k = "page_key offset"
  have fr: "free_pages (vs_mm s) \<noteq> {}" using True assms(5) by blast
  from page_alloc_ok [OF vm_wf_D(1) [OF assms(1)]] fr obtain mm page where pa: "page_alloc (vs_mm s) = Inr (mm, page)" "mmap_ok mm"
    "page \<in> free_pages (vs_mm s)" "free_pages mm = free_pages (vs_mm s) - {page}" by auto
  define s' where "s' = put_obj_page ob ?k page (s\<lparr>vs_mm := mm\<rparr>)"
  have run: "get_page (Suc n) fsget ob offset s = Inr (s', page)"
    using assms(2-4) True pa(1) by (simp add: vm_anon_get_page_def s'_def)
  have nz: "page \<noteq> 0" using zero_not_free [OF vm_wf_D(1) [OF assms(1)]] pa(3) by metis
  have lt: "unat page < 2 ^ 20" using vm_ok_D(7) [OF vm_wf_D(2) [OF assms(1)] pa(3)] .
  have nh: "(ob, ?k) \<notin> held s" using True by (simp add: held_def)
  have fld: "vs_mm s' = mm" "pages_only s s'" by (simp_all add: s'_def put_obj_page_def upd_obj_def pages_only_def)
  have h: "held s' = insert (ob, ?k) (held s)" using assms(3) nz by (auto simp: held_def s'_def put_obj_page_def upd_obj_def split: if_splits)
  have hp: "held_page s' (ob, ?k) = page" "\<forall>x. x \<noteq> (ob, ?k) \<longrightarrow> held_page s' x = held_page s x"
    by (auto simp: held_page_def s'_def put_obj_page_def upd_obj_def)
  have sub: "free_pages mm \<subseteq> free_pages (vs_mm s)" using pa(4) by blast
  have bnd: "held_page s' x \<notin> free_pages mm \<and> unat (held_page s' x) < 2 ^ 20" if "x \<in> held s'" for x
  proof (cases "x = (ob, ?k)")
    case True
    then show ?thesis using hp(1) pa(4) lt by simp
  next
    case False
    then have "x \<in> held s" "held_page s' x = held_page s x" using that h hp(2) by blast+
    then show ?thesis using vm_wf_D(4,5) [OF assms(1) \<open>x \<in> held s\<close>] sub by auto
  qed
  have "held_page s x \<noteq> page" if "x \<in> held s" for x using vm_wf_D(4) [OF assms(1) that] pa(3) by metis
  then have inj: "inj_on (held_page s') (held s')"
    using vm_wf_D(6) [OF assms(1)] nh hp h unfolding inj_on_def by (metis insert_iff)
  have "vm_wf D s'"
    using pa(2) vm_ok_free [OF vm_wf_D(2) [OF assms(1)] sub] vm_wf_D(3) [OF assms(1)] bnd inj fld unfolding vm_wf_def pages_only_def by simp
  then show ?thesis using run nz lt h hp nh pa(3,4) fld by (intro exI [of _ s'] exI [of _ page]) simp
qed

subsection \<open>Entering a page\<close>

lemma page_of_align: "drop_bit 12 (p AND NOT 4095 :: addr) = drop_bit 12 p"
proof -
  have m: "(4095 :: addr) = mask 12" by (simp add: mask_eq_exp_minus_1)
  have "bit (drop_bit 12 (p AND NOT (mask 12))) n \<longleftrightarrow> bit (drop_bit 12 p) n" for n
    using bit_imp_le_length [of p "12 + n"] by (auto simp: bit_simps)
  then show ?thesis unfolding m by (intro bit_eqI) blast
qed

lemma vmpage_map_ok:
  assumes "\<forall>k. \<exists>b. ra k = Inr b"
  shows "\<exists>s' vp. vm_vmpage_map ra page as p s = Inr s' \<and> vs_pages s' = (vs_pages s)(page \<mapsto> vp) \<and> s' = s\<lparr>vs_pages := vs_pages s'\<rparr> \<and>
    set (vp_maps vp) = insert (as, p) (case vs_pages s page of None \<Rightarrow> {} | Some v \<Rightarrow> set (vp_maps v))"
proof (cases "vs_pages s page")
  case None
  obtain b where "ra 20 = Inr b" using assms by blast
  then show ?thesis using None by (cases b) (auto simp: vm_vmpage_map_def)
next
  case (Some v)
  obtain b where "ra (12 + 8 * (length (vp_maps v) + 1)) = Inr b" using assms by blast
  moreover have "vs_pages s = (vs_pages s)(page \<mapsto> v)" using Some by auto
  ultimately show ?thesis using Some
    by (cases "(as, p) \<in> set (vp_maps v)") (auto simp: vm_vmpage_map_def insert_absorb)
qed

text \<open>What a lookup in the page tables says of an address of the kernel's address space.\<close>

definition mapped :: "vmstate \<Rightarrow> addr \<Rightarrow> u32 \<Rightarrow> bool \<Rightarrow> bool \<Rightarrow> bool" where
  "mapped s p page rw user \<longleftrightarrow> (\<exists>v. vmap_get_page (vs_tables s) (vs_kas s) p = Inr (v, page)) \<and> (\<exists>v. vmap_ismapped (vs_tables s) (vs_kas s) p = Inr (v, True)) \<and>
     (\<exists>v. vmap_iswriteable (vs_tables s) (vs_kas s) p = Inr (v, rw)) \<and> (\<exists>v. vmap_isuser (vs_tables s) (vs_kas s) p = Inr (v, user))"

lemma map_first_ok:
  assumes "vm_ok mm v D" "mmap_ok mm" "first_asid vid v" "unat (drop_bit 12 va) < 0xfe000" "unat page < 2 ^ 20" "1 < n"
    "has_tbl v D (unat (drop_bit 12 va) div 1024) \<or> free_pages mm \<noteq> {}"
  shows "\<exists>mm' v'. vmap_map n (mm, v) vid va page rw user = Inr (mm', v') \<and> mmap_ok mm' \<and> vm_ok mm' v' D \<and> first_asid vid v' \<and> free_pages mm' \<subseteq> free_pages mm \<and>
    vmap_get_page v' vid va = Inr (v', page) \<and> vmap_ismapped v' vid va = Inr (v', True) \<and>
    vmap_iswriteable v' vid va = Inr (v', rw) \<and> vmap_isuser v' vid va = Inr (v', user)"
proof -
  define vp w where "vp = unat (drop_bit 12 va)" and "w = touch vid v"
  have n: "n = Suc (Suc (n - 2))" using assms(6) by simp
  have w: "vm_ok mm w D" "has_tbl w D (vp div 1024) \<or> free_pages mm \<noteq> {}" "vp < 0xfe000" using assms(1,4,7) by (simp_all add: w_def vp_def)
  obtain mm' v' where r: "set_pte_at n (mm, w) 0 vp (make_pte page rw user) = Inr (mm', v')" "mmap_ok mm'" "vm_ok mm' v' D"
    "has_tbl v' D (vp div 1024)" "vm_phys v' (tbl v' D (vp div 1024)) (vp mod 1024) = make_pte page rw user"
    using set_pte_ok [OF w(1) assms(2) w(3,2), of "n - 2" "make_pte page rw user"] n by metis
  have run: "vmap_map n (mm, v) vid va page rw user = Inr (mm', v')"
    unfolding vmap_map_first [OF assms(3)] using r(1) by (simp add: vmap_map_def vmap_set_pte_def vp_def w_def)
  have as: "vm_asids v' = vm_asids w" "vm_seq v' = vm_seq w" using set_pte_asids [OF r(1)] by simp_all
  have "first_asid vid w" using assms(3) by (simp add: w_def)
  then have fa: "first_asid vid v'" using as by (simp add: first_asid_def)
  have "touch vid v' = v'\<lparr>vm_asids := vm_asids v'\<rparr>" using as by (simp add: touch_def w_def)
  then have id: "touch vid v' = v'" by simp
  have fr: "free_pages mm' \<subseteq> free_pages mm" using set_pte_free [OF r(1)] assms(2) by simp
  note pte = get_pte_ok [OF r(3) vp_def [symmetric] w(3)]
  have fl: "vmap_flag f v' vid va = Inr (v', make_pte page rw user AND f \<noteq> 0)" for f
    unfolding vmap_flag_first [OF fa] id using pte r(4,5) by (simp add: vmap_flag_def)
  have "vmap_get_page v' vid va = Inr (v', page)"
    unfolding vmap_get_page_first [OF fa] id by (rule get_page_ok [OF r(3) vp_def [symmetric] w(3) r(4,5) assms(5)])
  then show ?thesis using run r(2,3) fa fr fl make_pte_flags [of page rw user]
    by (simp add: vmap_ismapped_def vmap_iswriteable_def vmap_isuser_def)
qed

lemma map_fault_ok:
  assumes "vm_wf D s" "unat (drop_bit 12 p) < 0xfe000" "unat page < 2 ^ 20" "1 < n" "\<forall>k. \<exists>b. ra k = Inr b"
    "has_tbl (vs_tables s) D (unat (drop_bit 12 p) div 1024) \<or> free_pages (vs_mm s) \<noteq> {}"
  shows "\<exists>s' vp. map_fault n ra (vs_kas s) p page rw user flags s = Inr s' \<and> vm_wf D s' \<and> vs_objs s' = vs_objs s \<and> vs_kas s' = vs_kas s \<and> vs_segs s' = vs_segs s \<and> vs_spaces s' = vs_spaces s \<and>
    mapped s' p page rw user \<and> free_pages (vs_mm s') \<subseteq> free_pages (vs_mm s) \<and> vs_pages s' = (vs_pages s)(page \<mapsto> vp) \<and> vp_flags vp AND flags = flags \<and>
    set (vp_maps vp) = insert (vs_kas s, p) (case vs_pages s page of None \<Rightarrow> {} | Some v \<Rightarrow> set (vp_maps v))"
proof -
  note W = vm_wf_D [OF assms(1)]
  obtain mm v where m: "vmap_map n (vs_mm s, vs_tables s) (vs_kas s) p page rw user = Inr (mm, v)" "mmap_ok mm" "vm_ok mm v D" "first_asid (vs_kas s) v"
    "free_pages mm \<subseteq> free_pages (vs_mm s)" "vmap_get_page v (vs_kas s) p = Inr (v, page)" "vmap_ismapped v (vs_kas s) p = Inr (v, True)"
    "vmap_iswriteable v (vs_kas s) p = Inr (v, rw)" "vmap_isuser v (vs_kas s) p = Inr (v, user)"
    using map_first_ok [OF W(2,1,3) assms(2-4,6), of rw user] by blast
  define s1 where "s1 = s\<lparr>vs_mm := mm, vs_tables := v\<rparr>"
  obtain s2 vp where s2: "vm_vmpage_map ra page (vs_kas s) p s1 = Inr s2" "vs_pages s2 = (vs_pages s1)(page \<mapsto> vp)" "s2 = s1\<lparr>vs_pages := vs_pages s2\<rparr>"
    "set (vp_maps vp) = insert (vs_kas s, p) (case vs_pages s1 page of None \<Rightarrow> {} | Some v \<Rightarrow> set (vp_maps v))"
    using vmpage_map_ok [OF assms(5), of page "vs_kas s" p s1] by blast
  define s3 where "s3 = vm_vmpage_setflags page flags s2"
  have f: "vs_objs s2 = vs_objs s" "vs_mm s2 = mm" "vs_tables s2 = v" "vs_kas s2 = vs_kas s" "vs_segs s2 = vs_segs s" "vs_spaces s2 = vs_spaces s"
    by (subst s2(3), simp add: s1_def)+
  then have f3: "vs_objs s3 = vs_objs s" "vs_mm s3 = mm" "vs_tables s3 = v" "vs_kas s3 = vs_kas s" "vs_segs s3 = vs_segs s" "vs_spaces s3 = vs_spaces s"
    by (simp_all add: s3_def vm_vmpage_setflags_def upd_vmpage_def)
  have "vm_wf D s3" by (rule vm_wf_frame [OF assms(1)]) (use f3 m(2-5) in simp_all)
  moreover have "vs_pages s3 = (vs_pages s)(page \<mapsto> vp\<lparr>vp_flags := vp_flags vp OR flags\<rparr>)"
    using s2(2) by (simp add: s3_def vm_vmpage_setflags_def upd_vmpage_def s1_def)
  moreover have "map_fault n ra (vs_kas s) p page rw user flags s = Inr s3"
    using m(1) s2(1) by (simp add: map_fault_def s1_def [symmetric] s3_def)
  moreover have "mapped s3 p page rw user" using m(6-9) f3 by (simp add: mapped_def)
  moreover have "(vp_flags vp OR flags) AND flags = flags" by (rule bit_eqI) (auto simp: bit_simps)
  ultimately show ?thesis using f3 m(5) s2(4)
    by (intro exI [of _ s3] exI [of _ "vp\<lparr>vp_flags := vp_flags vp OR flags\<rparr>"]) (simp add: s1_def)
qed

lemma mapped_table:
  assumes "vm_wf D s" "unat (drop_bit 12 p) < 0xfe000" "mapped s p page rw user"
  shows "has_tbl (vs_tables s) D (unat (drop_bit 12 p) div 1024)" "unat page < 2 ^ 20"
proof -
  note W = vm_wf_D [OF assms(1)]
  let ?v = "touch (vs_kas s) (vs_tables s)"
  have ok: "vm_ok (vs_mm s) ?v D" using W(2) by simp
  obtain v where "vmap_flag 1 ?v 0 p = Inr (v, True)"
    using assms(3) vmap_flag_first [OF W(3)] by (auto simp: mapped_def vmap_ismapped_def)
  then show "has_tbl (vs_tables s) D (unat (drop_bit 12 p) div 1024)"
    using get_pte_ok [OF ok refl assms(2)] by (auto simp: vmap_flag_def split: if_splits)
  obtain v where "vmap_get_page ?v 0 p = Inr (v, page)" using assms(3) vmap_get_page_first [OF W(3)] by (auto simp: mapped_def)
  then obtain pte where "page = (if pte AND 1 \<noteq> 0 then drop_bit 12 pte else 0)" by (auto simp: vmap_get_page_def get_page_at_def bindE_Inr_iff)
  moreover have "unat (drop_bit 12 pte :: u32) < 2 ^ 20" using unsigned_less [of pte, where ?'a = nat] by (simp add: unsigned_drop_bit_eq drop_bit_eq_div unat_div)
  ultimately show "unat page < 2 ^ 20" by auto
qed

subsection \<open>Faults\<close>



subsection \<open>A kernel address space with one segment\<close>

definition demo_vs :: vmstate where
  "demo_vs = vm_segment_anonymous 0x9000 0x9100 0x10000000 0x4000 (SEGMENT_R OR SEGMENT_W)
     \<lparr>vs_mm = demo_mm, vs_tables = demo_vm\<lparr>vm_asids := (0x5000, 1) # replicate 7 (0, 0)\<rparr>, vs_kas = 0x5000,
      vs_spaces = (\<lambda>_. [])(0x5000 := [(0x10000000, 0x9000)]),
      vs_segs = (\<lambda>_. \<lparr>sg_base = 0, sg_size = 0, sg_perms = 0, sg_dirty = 0, sg_read_offset = 0, sg_clean = 0\<rparr>),
      vs_objs = (\<lambda>_. \<lparr>ob_ops = direct_ops, ob_type = OBJECT_DIRECT, ob_base = 0, ob_size = 0, ob_pages = \<lambda>_. 0, ob_clean = 0, ob_vnode = 0\<rparr>),
      vs_pages = (\<lambda>_. None), vs_kas_next = 0x20000000, vs_cache = (\<lambda>_. 0)\<rparr>"

lemma demo_vs_fields:
  "vs_mm demo_vs = demo_mm" "vs_kas demo_vs = 0x5000" "vs_segs demo_vs 0x9000 = \<lparr>sg_base = 0x10000000, sg_size = 0x4000, sg_perms = 0x13, sg_dirty = 0x9100, sg_read_offset = 0, sg_clean = 0\<rparr>"
  "ob_ops (vs_objs demo_vs 0x9100) = anon_ops" "ob_clean (vs_objs demo_vs 0x9100) = 0" "held demo_vs = {}"
  by (auto simp: demo_vs_def vm_segment_anonymous_def vm_segment_base_def vm_object_anon_def upd_seg_def upd_obj_def held_def SEGMENT_R_def SEGMENT_W_def SEGMENT_P_def
    split: if_splits)

lemma demo_vs_wf: "vm_wf demo_dir demo_vs"
proof -
  have t: "vs_tables demo_vs = demo_vm\<lparr>vm_asids := (0x5000, 1) # replicate 7 (0, 0)\<rparr>"
    by (simp add: demo_vs_def vm_segment_anonymous_def vm_segment_base_def vm_object_anon_def upd_seg_def upd_obj_def)
  have "vm_ok demo_mm (vs_tables demo_vs) demo_dir" using demo_vm_ok(1) by (simp add: t vm_ok_def has_tbl_def tbl_def)
  then show ?thesis using demo_mm_ok(1) by (simp add: vm_wf_def demo_vs_fields t first_asid_def)
qed

lemma demo_vs_resolve: "vm_resolve_address demo_vs 0 0x10001234 = Some (0x5000, 0x9000, 0x1234)"
proof -
  have "vs_spaces demo_vs 0x5000 = [(0x10000000, 0x9000)]"
    by (simp add: demo_vs_def vm_segment_anonymous_def vm_segment_base_def vm_object_anon_def upd_seg_def upd_obj_def)
  then show ?thesis by (simp add: vm_resolve_address_def vm_get_segment_def demo_vs_fields map_keycmp_def data_of_def)
qed



end
