(* ===== verification/Vm_Check.thy ===== *)
theory Vm_Check
  imports Vm_Fault
begin

unbundle bit_operations_syntax

text \<open>
  The other promises of the virtual memory manager: the reverse map of pages, regions of kernel address space, the page cache, copies of
  segments, and the check of pointers that come from user mode.
\<close>

subsection \<open>The reverse map\<close>

definition maps_of :: "vmstate \<Rightarrow> u32 \<Rightarrow> (addr \<times> addr) list" where
  "maps_of s page = (case vs_pages s page of None \<Rightarrow> [] | Some vp \<Rightarrow> vp_maps vp)"

lemma maps_index_ok:
  "case maps_index e xs i of None \<Rightarrow> e \<notin> set xs | Some j \<Rightarrow> i \<le> j \<and> j - i < length xs \<and> xs ! (j - i) = e"
proof (induction xs arbitrary: i)
  case (Cons x xs)
  show ?case using Cons [of "i + 1"] by (auto split: option.splits simp: nth_Cons' Suc_diff_Suc)
qed simp

text \<open>An entry is taken out by moving the last entry to its place.\<close>

lemma swap_remove:
  assumes "distinct xs" "i < length xs"
  shows "distinct (butlast (xs[i := last xs]))" "set (butlast (xs[i := last xs])) = set xs - {xs ! i}"
proof -
  obtain ys l where xs: "xs = ys @ [l]" using assms(2) by (cases xs rule: rev_cases) auto
  have "butlast (xs[i := last xs]) = (if i < length ys then ys[i := l] else ys)" using assms(2) by (auto simp: xs list_update_append)
  moreover have "distinct (ys[i := l])" "set (ys[i := l]) = insert l (set ys - {ys ! i})" if "i < length ys"
    using assms(1) that by (auto simp: xs distinct_list_update set_update_distinct)
  ultimately show "distinct (butlast (xs[i := last xs]))" "set (butlast (xs[i := last xs])) = set xs - {xs ! i}"
    using assms by (auto simp: xs nth_append less_Suc_eq)
qed

text \<open>
  The reverse map of a page. As long as the entries of a page are different, which both operations keep, \<open>vm_vmpage_map\<close> adds exactly the
  mapping it is given and \<open>vm_vmpage_unmap\<close> takes exactly that out; the entries of other pages stay as they are.
\<close>

theorem reverse_map_tracks:
  assumes "distinct (maps_of s page)" "\<forall>k. \<exists>b. ra k = Inr b"
  shows "(\<exists>s'. vm_vmpage_map ra page as p s = Inr s' \<and> distinct (maps_of s' page) \<and> set (maps_of s' page) = insert (as, p) (set (maps_of s page)) \<and>
      (\<forall>q. q \<noteq> page \<longrightarrow> vs_pages s' q = vs_pages s q)) \<and>
    distinct (maps_of (vm_vmpage_unmap page as p s) page) \<and> set (maps_of (vm_vmpage_unmap page as p s) page) = set (maps_of s page) - {(as, p)} \<and>
    (\<forall>q. q \<noteq> page \<longrightarrow> vs_pages (vm_vmpage_unmap page as p s) q = vs_pages s q)"
proof (cases "vs_pages s page")
  case None
  obtain b where "ra 20 = Inr b" using assms(2) by blast
  then show ?thesis using None by (cases b) (simp add: vm_vmpage_map_def vm_vmpage_unmap_def maps_of_def)
next
  case (Some v)
  obtain b where b: "ra (12 + 8 * (length (vp_maps v) + 1)) = Inr b" using assms(2) by blast
  have d: "distinct (vp_maps v)" using assms(1) Some by (simp add: maps_of_def)
  have "\<exists>s'. vm_vmpage_map ra page as p s = Inr s' \<and> distinct (maps_of s' page) \<and> set (maps_of s' page) = insert (as, p) (set (maps_of s page)) \<and>
      (\<forall>q. q \<noteq> page \<longrightarrow> vs_pages s' q = vs_pages s q)"
    using Some b d by (cases "(as, p) \<in> set (vp_maps v)") (auto simp: vm_vmpage_map_def maps_of_def)
  moreover have "distinct (maps_of (vm_vmpage_unmap page as p s) page) \<and> set (maps_of (vm_vmpage_unmap page as p s) page) = set (maps_of s page) - {(as, p)} \<and>
    (\<forall>q. q \<noteq> page \<longrightarrow> vs_pages (vm_vmpage_unmap page as p s) q = vs_pages s q)"
  proof (cases "maps_index (as, p) (vp_maps v) 0")
    case None
    then show ?thesis using Some d maps_index_ok [of "(as, p)" "vp_maps v" 0] by (simp add: vm_vmpage_unmap_def maps_of_def)
  next
    case (Some j)
    then have "j < length (vp_maps v)" "vp_maps v ! j = (as, p)" using maps_index_ok [of "(as, p)" "vp_maps v" 0] by simp_all
    then show ?thesis using \<open>vs_pages s page = Some v\<close> Some swap_remove [OF d] by (simp add: vm_vmpage_unmap_def maps_of_def)
  qed
  ultimately show ?thesis by blast
qed

theorem reverse_map_tracks_witness:
  "\<exists>s'. vm_vmpage_map (\<lambda>_. Inr (0, 0)) 7 0x5000 0x1000 demo_vs = Inr s' \<and> set (maps_of s' 7) = {(0x5000, 0x1000)}"
proof -
  have "maps_of demo_vs 7 = []" by (simp add: maps_of_def demo_vs_def vm_segment_anonymous_def vm_segment_base_def vm_object_anon_def upd_seg_def upd_obj_def)
  then show ?thesis using reverse_map_tracks [of demo_vs 7 "\<lambda>_. Inr (0, 0)" "0x5000" "0x1000"] by auto
qed

subsection \<open>Regions of kernel address space\<close>

lemma kas_get_ok:
  assumes "k < 32" "unat (vs_kas_next s) + 2 ^ k + unat sz < 2 ^ 32" "vm_kas_get_aligned sz (2 ^ k) s = (s', p)"
  shows "2 ^ k dvd unat p" "unat (vs_kas_next s) \<le> unat p" "unat p < unat (vs_kas_next s) + 2 ^ k" "unat (vs_kas_next s') = unat p + unat sz"
proof -
  define x where "x = unat (vs_kas_next s) + (2 ^ k - 1)"
  have m: "(2 ^ k - 1 :: u32) = mask k" by (simp add: mask_eq_exp_minus_1)
  have "(2 :: nat) ^ k < 2 ^ 32" using assms(1) by (intro power_strict_increasing) simp_all
  then have "unat (of_nat (2 ^ k) :: u32) = 2 ^ k" unfolding unat_of_nat by simp
  then have u2: "unat (2 ^ k :: u32) = 2 ^ k" by simp
  then have "(1 :: u32) \<le> 2 ^ k" by (simp add: word_le_nat_alt)
  then have um: "unat (mask k :: u32) = 2 ^ k - 1" unfolding m [symmetric] by (simp only: unat_sub u2) simp
  have ux: "unat (vs_kas_next s + mask k) = x" unfolding x_def um [symmetric]
    using assms(2) um by (intro unat_add_lem [THEN iffD1]) simp
  have p: "p = (vs_kas_next s + mask k) AND NOT (mask k)" "vs_kas_next s' = p + sz"
    using assms(3) by (auto simp: vm_kas_get_aligned_def Let_def m)
  have up: "unat p = x - x mod 2 ^ k" unfolding p(1) unat_align_down ux ..
  then show "2 ^ k dvd unat p" by (simp add: minus_mod_eq_mult_div)
  have "x mod 2 ^ k \<le> 2 ^ k - 1" using mod_less_divisor [of "2 ^ k" x] by (simp del: mod_less_divisor)
  then show "unat (vs_kas_next s) \<le> unat p" unfolding up using x_def by linarith
  show lt: "unat p < unat (vs_kas_next s) + 2 ^ k" unfolding up x_def by (simp add: less_imp_diff_less)
  show "unat (vs_kas_next s') = unat p + unat sz" unfolding p(2)
    using lt assms(2) by (intro unat_add_lem [THEN iffD1]) simp
qed

fun kas_run :: "(u32 \<times> nat) list \<Rightarrow> vmstate \<Rightarrow> (addr \<times> u32) list" where
  "kas_run [] s = []"
| "kas_run ((sz, k) # rs) s = (case vm_kas_get_aligned sz (2 ^ k) s of (s', p) \<Rightarrow> (p, sz) # kas_run rs s')"



subsection \<open>The page cache\<close>

text \<open>The cache is a tree with this order of its keys, which is a lawful comparison.\<close>

interpretation cache_order: comparator page_cache_key_comp
  by unfold_locales (auto simp: page_cache_key_comp_def split: if_splits)

lemma cache_keys: "page_cache_key_comp a b = 0 \<longleftrightarrow> a = b"
  by (auto simp: page_cache_key_comp_def prod_eq_iff)

text \<open>What was read once is not read again, and reading keeps the rest of the cache when the file system does.\<close>

lemma page_cache_hit:
  assumes "vnode_get_page fsget vnode offset s = Inr (s', page)" "page \<noteq> 0"
  shows "vnode_get_page fsget' vnode offset s' = Inr (s', page)"
  using assms by (auto simp: vnode_get_page_def Let_def bindE_Inr_iff split: if_splits)

subsection \<open>Copies of segments\<close>

text \<open>
  A private copy of a segment, as for a new process. It covers the same range of addresses with the private permission added and reads the same object below;
  its own object starts with the pages of the anonymous object it is copied from, or with none over the object that is shared, and nothing of the old segment changes.
\<close>

theorem segment_copy_private:
  assumes "fresh \<noteq> from" "fa \<noteq> sg_dirty (vs_segs s from)" "sg_dirty (vs_segs s from) \<noteq> 0"
    "sg_clean (vs_segs s from) \<noteq> sg_dirty (vs_segs s from) \<Longrightarrow> ob_ops (vs_objs s (sg_dirty (vs_segs s from))) = anon_ops \<and> ob_type (vs_objs s (sg_dirty (vs_segs s from))) = OBJECT_ANON"
  shows "\<exists>s'. vm_segment_copy fresh fa from True s = Inr s' \<and>
    vs_segs s' = (vs_segs s)(fresh := (vs_segs s from)\<lparr>sg_perms := sg_perms (vs_segs s from) OR SEGMENT_P, sg_dirty := fa\<rparr>) \<and>
    (\<forall>ob. ob \<noteq> fa \<longrightarrow> vs_objs s' ob = vs_objs s ob) \<and> ob_ops (vs_objs s' fa) = anon_ops \<and>
    (if sg_clean (vs_segs s from) = sg_dirty (vs_segs s from)
     then ob_pages (vs_objs s' fa) = (\<lambda>_. 0) \<and> ob_clean (vs_objs s' fa) = sg_clean (vs_segs s from)
     else ob_pages (vs_objs s' fa) = ob_pages (vs_objs s (sg_dirty (vs_segs s from))) \<and> ob_clean (vs_objs s' fa) = ob_clean (vs_objs s (sg_dirty (vs_segs s from))))"
  using assms
  by (cases "vs_segs s from"; cases "sg_clean (vs_segs s from) = sg_dirty (vs_segs s from)")
    (simp_all add: vm_segment_copy_def Let_def vm_segment_base_def vm_object_anon_copy_def vm_object_anon_def upd_seg_def upd_obj_def fun_eq_iff)

theorem segment_copy_private_witness:
  "\<exists>s'. vm_segment_copy 0x9200 0x9300 0x9000 True demo_vs = Inr s' \<and> sg_base (vs_segs s' 0x9200) = 0x10000000"
proof -
  have "ob_type (vs_objs demo_vs 0x9100) = OBJECT_ANON"
    by (simp add: demo_vs_def vm_segment_anonymous_def vm_segment_base_def vm_object_anon_def upd_seg_def upd_obj_def)
  then show ?thesis using segment_copy_private [of "0x9200" "0x9000" "0x9300" demo_vs] by (auto simp: demo_vs_fields)
qed

subsection \<open>Pointers from user mode\<close>

text \<open>Segments of an address space: under their own base, not empty, not around the end of the address space.\<close>

definition space_ok :: "vmstate \<Rightarrow> addr \<Rightarrow> bool" where
  "space_ok s as \<longleftrightarrow> (\<forall>(k, seg) \<in> set (vs_spaces s as). seg \<noteq> 0 \<longrightarrow> sg_base (vs_segs s seg) = k \<and> 0 < sg_size (vs_segs s seg) \<and>
     unat k + unat (sg_size (vs_segs s seg)) < 2 ^ 32)"

definition covered :: "vmstate \<Rightarrow> addr \<Rightarrow> bool \<Rightarrow> addr \<Rightarrow> bool" where
  "covered s as write a \<longleftrightarrow> (\<exists>seg. seg \<in> snd ` set (vs_spaces s as) \<and> seg \<noteq> 0 \<and> sg_base (vs_segs s seg) \<le> a \<and>
     unat a < unat (sg_base (vs_segs s seg)) + unat (sg_size (vs_segs s seg)) \<and> (write \<longrightarrow> sg_perms (vs_segs s seg) AND SEGMENT_W \<noteq> 0))"

lemma find_in: "find P xs = Some x \<Longrightarrow> x \<in> set xs \<and> P x"
  by (induction xs) (auto split: if_splits)

lemma get_seg:
  assumes "seg = data_of (al_get map_keycmp k c (vs_spaces s as))" "seg \<noteq> 0" "space_ok s as" "c = MAP_EQ \<or> c = MAP_LE"
  shows "seg \<in> snd ` set (vs_spaces s as)" "c = MAP_EQ \<Longrightarrow> sg_base (vs_segs s seg) = k" "c = MAP_LE \<Longrightarrow> sg_base (vs_segs s seg) \<le> k"
    "0 < unat (sg_size (vs_segs s seg))" "unat (sg_base (vs_segs s seg)) + unat (sg_size (vs_segs s seg)) < 2 ^ 32"
proof -
  obtain b where b: "al_get map_keycmp k c (vs_spaces s as) = Some (b, seg)" using assms(1,2) by (auto simp: data_of_def split: option.splits)
  then have m: "(b, seg) \<in> set (vs_spaces s as)" "c = MAP_EQ \<Longrightarrow> b = k" "c = MAP_LE \<Longrightarrow> b \<le> k"
    using assms(4) by (auto dest!: find_in simp: map_keycmp_sign)
  show "seg \<in> snd ` set (vs_spaces s as)" using m(1) by force
  have "sg_base (vs_segs s seg) = b" "0 < sg_size (vs_segs s seg)" "unat b + unat (sg_size (vs_segs s seg)) < 2 ^ 32"
    using assms(2,3) m(1) by (auto simp: space_ok_def)
  then show "c = MAP_EQ \<Longrightarrow> sg_base (vs_segs s seg) = k" "c = MAP_LE \<Longrightarrow> sg_base (vs_segs s seg) \<le> k"
    "0 < unat (sg_size (vs_segs s seg))" "unat (sg_base (vs_segs s seg)) + unat (sg_size (vs_segs s seg)) < 2 ^ 32"
    using m(2,3) by (auto simp: word_less_nat_alt)
qed

lemma seg_end: "unat (b :: u32) + unat z < 2 ^ 32 \<Longrightarrow> unat (b + z) = unat b + unat z"
  by (simp add: unat_word_ariths)

lemma check_segs_sound:
  assumes "check_segs n s as write vpend seg = Inr ()" "space_ok s as" "seg \<noteq> 0 \<Longrightarrow> seg \<in> snd ` set (vs_spaces s as)"
    "seg \<noteq> 0 \<Longrightarrow> unat (sg_base (vs_segs s seg)) + unat (sg_size (vs_segs s seg)) < 2 ^ 32" "sg_base (vs_segs s seg) \<le> a" "a \<le> vpend"
  shows "covered s as write a"
  using assms
proof (induction n arbitrary: seg)
  case (Suc n)
  let ?b = "sg_base (vs_segs s seg)" and ?z = "sg_size (vs_segs s seg)"
  have nz: "seg \<noteq> 0" and wr: "write \<longrightarrow> sg_perms (vs_segs s seg) AND SEGMENT_W \<noteq> 0" using Suc.prems(1) by (auto split: if_splits)
  note e = seg_end [OF Suc.prems(4) [OF nz]]
  show ?case
  proof (cases "a < ?b + ?z")
    case True
    then show ?thesis unfolding covered_def using nz wr Suc.prems(3,5) e by (intro exI [of _ seg]) (simp add: word_less_nat_alt)
  next
    case False
    define q where "q = data_of (al_get map_keycmp (?b + ?z) MAP_EQ (vs_spaces s as))"
    have "\<not> vpend < ?b + ?z" using False Suc.prems(6) by simp
    then have r: "check_segs n s as write vpend q = Inr ()" using Suc.prems(1) nz wr by (auto simp: q_def Let_def not_less split: if_splits)
    then have qz: "q \<noteq> 0" by (cases n) auto
    note g = get_seg [OF q_def qz Suc.prems(2)]
    show ?thesis by (rule Suc.IH [OF r Suc.prems(2)]) (use g False Suc.prems(6) in auto)
  qed
qed simp

text \<open>The check ends: each segment it goes on to starts above the one before.\<close>

lemma check_segs_ends:
  assumes "space_ok s as" "seg \<noteq> 0 \<Longrightarrow> 0 < unat (sg_size (vs_segs s seg)) \<and> unat (sg_base (vs_segs s seg)) + unat (sg_size (vs_segs s seg)) < 2 ^ 32"
    "2 ^ 32 - unat (sg_base (vs_segs s seg)) < n"
  shows "check_segs n s as write vpend seg \<in> {Inr (), Inl (Throw InvalidPointerException)}"
  using assms(2,3)
proof (induction n arbitrary: seg)
  case (Suc n)
  let ?b = "sg_base (vs_segs s seg)" and ?z = "sg_size (vs_segs s seg)"
  define q where "q = data_of (al_get map_keycmp (?b + ?z) MAP_EQ (vs_spaces s as))"
  show ?case
  proof (cases "seg = 0 \<or> q = 0")
    case True
    have "check_segs n s as write vpend 0 \<in> {Inr (), Inl (Throw InvalidPointerException)}" if "0 < n" using that by (cases n) auto
    moreover have "seg \<noteq> 0 \<Longrightarrow> 0 < n" using Suc.prems by auto
    ultimately show ?thesis using True by (auto simp: q_def Let_def)
  next
    case False
    note g = get_seg [OF q_def _ assms(1)]
    have "unat (sg_base (vs_segs s q)) = unat ?b + unat ?z" using g(2) seg_end [of ?b ?z] Suc.prems(1) False by auto
    then have "check_segs n s as write vpend q \<in> {Inr (), Inl (Throw InvalidPointerException)}"
      using Suc.prems False g by (intro Suc.IH) auto
    then show ?thesis by (auto simp: q_def Let_def)
  qed
qed simp

text \<open>
  C29. The check of a user pointer. It ends, with a verdict. When it accepts a pointer and a length that do not run around the end of the
  address space, every address from the start of the first page to the end of the buffer is in a segment of the process, and in a writable one for a write. A length
  that does run around ends the check in the first segment: the buffer is accepted when the wrapped end lies below the end of that segment.
\<close>

theorem check_user_ptr_sound:
  assumes "space_ok s pas" "pas \<noteq> 0"
  shows "(\<exists>N. \<forall>n\<ge>N. check_user_ptr n s pas p len write \<in> {Inr (), Inl (Throw InvalidPointerException)}) \<and>
    (check_user_ptr n s pas p len write = Inr () \<and> unat p + unat len + 4096 < 2 ^ 32 \<longrightarrow>
       (\<forall>a. p AND NOT 4095 \<le> a \<and> a \<le> p + len \<longrightarrow> covered s pas write a)) \<and>
    (vm_get_segment s pas (p AND NOT 4095) = seg \<and> seg \<noteq> 0 \<and> (p + (len + 4096)) AND NOT 4095 < sg_base (vs_segs s seg) + sg_size (vs_segs s seg) \<and> \<not> write \<longrightarrow>
       check_user_ptr (Suc n) s pas p len write = Inr ())"
proof -
  define q where "q = data_of (al_get map_keycmp (p AND NOT 4095) MAP_LE (vs_spaces s pas))"
  note g = get_seg [OF q_def _ assms(1)]
  have q: "check_user_ptr n s pas p len write = check_segs n s pas write ((p + (len + 4096)) AND NOT 4095) q" for n
    using assms(2) by (simp add: check_user_ptr_def Let_def vm_get_segment_def q_def)
  have "check_user_ptr n s pas p len write \<in> {Inr (), Inl (Throw InvalidPointerException)}" if "2 ^ 32 + 1 \<le> n" for n
    unfolding q by (rule check_segs_ends [OF assms(1)]) (use g that in auto)
  moreover have "covered s pas write a" if r: "check_user_ptr n s pas p len write = Inr ()" "unat p + unat len + 4096 < 2 ^ 32"
      and a: "p AND NOT 4095 \<le> a" "a \<le> p + len" for a
  proof -
    have qz: "q \<noteq> 0" using r(1) unfolding q by (cases n) auto
    have m: "(4095 :: addr) = mask 12" by (simp add: mask_eq_exp_minus_1)
    have e: "unat (p + (len + 4096)) = unat p + unat len + 4096" "unat (p + len) = unat p + unat len" using r(2) by (simp_all add: unat_word_ariths)
    have "unat (p + len) \<le> unat ((p + (len + 4096)) AND NOT 4095)" unfolding m unat_align_down e
      using mod_less_divisor [of "2 ^ 12" "unat p + unat len + 4096"] by (simp del: mod_less_divisor)
    then have ae: "a \<le> (p + (len + 4096)) AND NOT 4095" using a(2) by (simp add: word_le_nat_alt)
    show ?thesis
      by (rule check_segs_sound [OF r(1) [unfolded q] assms(1)]) (use g qz a(1) ae in auto)
  qed
  moreover have "check_user_ptr (Suc n) s pas p len write = Inr ()"
    if "vm_get_segment s pas (p AND NOT 4095) = seg" "seg \<noteq> 0" "(p + (len + 4096)) AND NOT 4095 < sg_base (vs_segs s seg) + sg_size (vs_segs s seg)" "\<not> write"
    using that unfolding q vm_get_segment_def q_def [symmetric] by (auto simp: not_le [symmetric])
  ultimately show ?thesis by blast
qed

theorem check_user_ptr_sound_witness:
  "check_user_ptr 1 demo_vs 0x5000 0x10001000 0x100 True = Inr () \<and> covered demo_vs 0x5000 True 0x10001050"
proof -
  have sp: "vs_spaces demo_vs 0x5000 = [(0x10000000, 0x9000)]"
    by (simp add: demo_vs_def vm_segment_anonymous_def vm_segment_base_def vm_object_anon_def upd_seg_def upd_obj_def)
  have ok: "space_ok demo_vs 0x5000" by (simp add: space_ok_def sp demo_vs_fields)
  have r: "check_user_ptr 1 demo_vs 0x5000 0x10001000 0x100 True = Inr ()"
    by (simp add: check_user_ptr_def vm_get_segment_def sp demo_vs_fields map_keycmp_def data_of_def SEGMENT_W_def)
  have "covered demo_vs 0x5000 True 0x10001050"
    using check_user_ptr_sound [OF ok, of "0x10001000" "0x100" True 1] r by simp
  then show ?thesis using r by blast
qed

end
