(* ===== verification/Exceptions.thy ===== *)
theory Exceptions
  imports Prelude
begin

text \<open>
  Exceptions (\<^verbatim>\<open>src/libk/exception.c\<close>). A frame is pushed for every \<^verbatim>\<open>KTRY\<close> and linked to the frame below it; a throw
  stores the cause in the top frame and jumps to the environment saved there, the place behind the \<^verbatim>\<open>setjmp\<close> of its
  \<^verbatim>\<open>KTRY\<close>. A computation ends normally, in such a jump (named by the frame), or in a failure. \<open>ex_user\<close> is the state
  of everything else; the two functions of the destructor stack the frames call, \<^verbatim>\<open>dtor_poll_frame\<close> and \<^verbatim>\<open>dtor_pop\<close>, are
  arguments that work on it. A cause is its type: the message is for the console. The top frame is kept in thread-local storage.
\<close>

subsection \<open>The types of exceptions\<close>

text \<open>
  \<^verbatim>\<open>exception.c\<close> defines the first types; the others are defined where they are thrown (\<^verbatim>\<open>check.c\<close>, \<^verbatim>\<open>vfs.c\<close>, \<^verbatim>\<open>dev.c\<close>,
  \<^verbatim>\<open>slab.c\<close>, \<^verbatim>\<open>tree.c\<close>, \<^verbatim>\<open>arraymap.c\<close>).
\<close>

fun exn_parent :: "exn \<Rightarrow> exn option" where
  "exn_parent Throwable = None"
| "exn_parent Exception = Some Throwable"
| "exn_parent Error = Some Throwable"
| "exn_parent RuntimeException = Some Exception"
| "exn_parent OutOfBoundsException = Some RuntimeException"
| "exn_parent NullPointerException = Some CheckException"
| "exn_parent IntBoundsException = Some CheckException"
| "exn_parent PtrBoundsException = Some CheckException"
| "exn_parent IntValueException = Some CheckException"
| "exn_parent InvalidPointerException = Some CheckException"
| "exn_parent ReadOnlyFileException = Some FileException"
| "exn_parent UnauthorizedFileException = Some FileException"
| "exn_parent IOException = Some FileException"
| "exn_parent DeviceTimeoutException = Some DeviceException"
| "exn_parent _ = Some Exception"

fun exn_depth :: "exn \<Rightarrow> nat" where
  "exn_depth Throwable = 0"
| "exn_depth Exception = 1"
| "exn_depth Error = 1"
| "exn_depth RuntimeException = 2"
| "exn_depth CheckException = 2"
| "exn_depth FileException = 2"
| "exn_depth DeviceException = 2"
| "exn_depth _ = 3"

lemma exn_parent_depth: "exn_parent t = Some q \<Longrightarrow> exn_depth q < exn_depth t"
  by (cases t) auto

text \<open>The names of the types are different, so comparing names is comparing types.\<close>

function type_matches :: "exn \<Rightarrow> exn \<Rightarrow> bool" where
  "type_matches m t = (if t = m then True else case exn_parent t of None \<Rightarrow> False | Some q \<Rightarrow> type_matches m q)"
  by pat_completeness auto
termination by (relation "measure (\<lambda>(m, t). exn_depth t)") (auto simp: exn_parent_depth)

declare type_matches.simps [simp del]

subsection \<open>Frames\<close>

datatype estates = EXCEPTION_NEW | EXCEPTION_TRYING | EXCEPTION_CATCHING | EXCEPTION_FINISHING

record exception_frame =
  ef_file :: addr
  ef_line :: int
  ef_state :: estates
  ef_caught :: bool
  ef_dtor :: addr
  ef_next :: addr
  ef_cause :: "exn option"

record 'u est =
  ex_frames :: "addr \<Rightarrow> exception_frame"
  ex_top :: addr
  ex_user :: 'u

datatype ('u, 'a) out = Done "'u est" 'a | Jump addr "'u est" | Fail kerror

type_synonym 'u block = "'u est \<Rightarrow> ('u, unit) out"

definition upd_frame :: "addr \<Rightarrow> (exception_frame \<Rightarrow> exception_frame) \<Rightarrow> 'u est \<Rightarrow> 'u est" where
  "upd_frame a f s = s\<lparr>ex_frames := (ex_frames s)(a := f (ex_frames s a))\<rparr>"

definition exception_push :: "('u \<Rightarrow> addr) \<Rightarrow> addr \<Rightarrow> 'u est \<Rightarrow> 'u est" where
  "exception_push poll frame s =
     (let s = upd_frame frame (\<lambda>f. f\<lparr>ef_next := ex_top s\<rparr>) s;
          s = s\<lparr>ex_top := frame\<rparr>
      in upd_frame frame (\<lambda>f. f\<lparr>ef_cause := None, ef_state := EXCEPTION_NEW, ef_caught := False, ef_dtor := poll (ex_user s)\<rparr>) s)"

definition exception_throw_cause :: "exn option \<Rightarrow> 'u est \<Rightarrow> ('u, 'a) out" where
  "exception_throw_cause cause s =
     (if ex_top s = 0 then Fail NullDeref else Jump (ex_top s) (upd_frame (ex_top s) (\<lambda>f. f\<lparr>ef_cause := cause\<rparr>) s))"

definition exception_throw :: "exn \<Rightarrow> 'u est \<Rightarrow> ('u, 'a) out" where
  "exception_throw t = exception_throw_cause (Some t)"

fun find_frame :: "nat \<Rightarrow> 'u est \<Rightarrow> addr \<Rightarrow> int \<Rightarrow> addr \<Rightarrow> addr res" where
  "find_frame n s file line frame =
     (if ef_file (ex_frames s frame) \<noteq> file \<or> ef_line (ex_frames s frame) \<noteq> line then
        case n of 0 \<Rightarrow> Inl OutOfFuel
        | Suc n \<Rightarrow> let frame = ef_next (ex_frames s frame) in if frame = 0 then Inl Panic else find_frame n s file line frame
      else Inr frame)"

declare find_frame.simps [simp del]

definition exception_finished :: "nat \<Rightarrow> (addr \<Rightarrow> 'u \<Rightarrow> 'u res) \<Rightarrow> addr \<Rightarrow> int \<Rightarrow> 'u est \<Rightarrow> ('u, bool) out" where
  "exception_finished n pop file line s =
     (if ex_top s = 0 then Fail NullDeref
      else case find_frame n s file line (ex_top s) of
        Inl e \<Rightarrow> Fail e
      | Inr frame \<Rightarrow>
          let f = ex_frames s frame in
          (case ef_state f of
             EXCEPTION_NEW \<Rightarrow> Done (upd_frame frame (\<lambda>f. f\<lparr>ef_state := EXCEPTION_TRYING\<rparr>) s) False
           | EXCEPTION_TRYING \<Rightarrow>
               Done (upd_frame frame (\<lambda>f. f\<lparr>ef_state := if ef_cause f \<noteq> None then EXCEPTION_CATCHING else EXCEPTION_FINISHING\<rparr>) s) False
           | EXCEPTION_CATCHING \<Rightarrow> Done (upd_frame frame (\<lambda>f. f\<lparr>ef_state := EXCEPTION_FINISHING\<rparr>) s) False
           | EXCEPTION_FINISHING \<Rightarrow>
               (case pop (ef_dtor f) (ex_user s) of
                  Inl e \<Rightarrow> Fail e
                | Inr u \<Rightarrow>
                    let s = s\<lparr>ex_top := ef_next f, ex_user := u\<rparr> in
                    if ef_cause f \<noteq> None \<and> \<not> ef_caught f then exception_throw_cause (ef_cause f) s else Done s True)))"

definition exception_try :: "'u est \<Rightarrow> bool" where
  "exception_try s \<longleftrightarrow> ef_state (ex_frames s (ex_top s)) = EXCEPTION_TRYING"

definition exception_match :: "exn \<Rightarrow> 'u est \<Rightarrow> 'u est \<times> bool" where
  "exception_match m s =
     (let f = ex_frames s (ex_top s) in
      if ef_state f = EXCEPTION_CATCHING \<and> (case ef_cause f of None \<Rightarrow> False | Some t \<Rightarrow> type_matches m t)
      then (upd_frame (ex_top s) (\<lambda>f. f\<lparr>ef_caught := True\<rparr>) s, True) else (s, False))"

definition exception_finally :: "'u est \<Rightarrow> bool" where
  "exception_finally s \<longleftrightarrow> ef_state (ex_frames s (ex_top s)) = EXCEPTION_FINISHING"

subsection \<open>The statement\<close>

fun catch_blocks :: "(exn \<times> 'u block) list \<Rightarrow> 'u block \<Rightarrow> 'u block" where
  "catch_blocks [] fin s = (if exception_finally s then fin s else Done s ())"
| "catch_blocks ((m, h) # hs) fin s = (case exception_match m s of (s, b) \<Rightarrow> if b then h s else catch_blocks hs fin s)"

text \<open>A jump to the frame of the statement goes back to the head of its loop.\<close>

fun ktry_loop :: "nat \<Rightarrow> (addr \<Rightarrow> 'u \<Rightarrow> 'u res) \<Rightarrow> addr \<Rightarrow> addr \<Rightarrow> int \<Rightarrow> 'u block \<Rightarrow> (exn \<times> 'u block) list \<Rightarrow> 'u block \<Rightarrow> 'u block" where
  "ktry_loop 0 pop frame file line body hs fin s = Fail OutOfFuel"
| "ktry_loop (Suc n) pop frame file line body hs fin s =
     (case exception_finished n pop file line s of
        Fail e \<Rightarrow> Fail e
      | Jump fr s \<Rightarrow> if fr = frame then ktry_loop n pop frame file line body hs fin s else Jump fr s
      | Done s done \<Rightarrow>
          if done then Done s ()
          else if ex_top s = 0 then Fail NullDeref
          else case (if exception_try s then body s else catch_blocks hs fin s) of
            Fail e \<Rightarrow> Fail e
          | Done s _ \<Rightarrow> ktry_loop n pop frame file line body hs fin s
          | Jump fr s \<Rightarrow> if fr = frame then ktry_loop n pop frame file line body hs fin s else Jump fr s)"

declare ktry_loop.simps [simp del]

definition ktry :: "nat \<Rightarrow> ('u \<Rightarrow> addr) \<Rightarrow> (addr \<Rightarrow> 'u \<Rightarrow> 'u res) \<Rightarrow> addr \<Rightarrow> addr \<Rightarrow> int \<Rightarrow> 'u block \<Rightarrow> (exn \<times> 'u block) list \<Rightarrow> 'u block \<Rightarrow> 'u block" where
  "ktry n poll pop frame file line body hs fin s =
     ktry_loop n pop frame file line body hs fin (exception_push poll frame (upd_frame frame (\<lambda>f. f\<lparr>ef_file := file, ef_line := line\<rparr>) s))"

definition printk_block :: "(string \<Rightarrow> 'u \<Rightarrow> 'u) \<Rightarrow> string \<Rightarrow> 'u block" where
  "printk_block printk m s = Done (s\<lparr>ex_user := printk (m @ [CHR 0x0A]) (ex_user s)\<rparr>) ()"

definition do_throw :: "nat \<Rightarrow> ('u \<Rightarrow> addr) \<Rightarrow> (addr \<Rightarrow> 'u \<Rightarrow> 'u res) \<Rightarrow> (string \<Rightarrow> 'u \<Rightarrow> 'u) \<Rightarrow> addr \<Rightarrow> addr \<Rightarrow> 'u block" where
  "do_throw n poll pop printk file frame =
     ktry n poll pop frame file 207 (exception_throw TestException) [] (printk_block printk ''KTRY/KFINALLY'')"

definition exception_test ::
    "nat \<Rightarrow> ('u \<Rightarrow> addr) \<Rightarrow> (addr \<Rightarrow> 'u \<Rightarrow> 'u res) \<Rightarrow> (string \<Rightarrow> 'u \<Rightarrow> 'u) \<Rightarrow> addr \<Rightarrow> addr \<Rightarrow> addr \<Rightarrow> 'u block" where
  "exception_test n poll pop printk file frame frame' =
     ktry n poll pop frame file 216 (do_throw n poll pop printk file frame') [(Exception, printk_block printk ''Caught exception'')] (\<lambda>s. Done s ())"

subsection \<open>What the statement means\<close>

text \<open>
  An action is what a computation does to the rest of the state, and the exception it ends in. The statement runs its body, the first
  block that matches what the body threw, and the final block; then the destructors pushed since its start run, and what was thrown and not caught is
  thrown on. An exception from the final block replaces the one on its way; one thrown from a catching block, or from the final block behind it,
  is dropped.
\<close>

type_synonym 'u act = "'u \<Rightarrow> ('u \<times> exn option) res"

definition later :: "exn option \<Rightarrow> exn option \<Rightarrow> exn option" where
  "later c r = (case r of None \<Rightarrow> c | Some e \<Rightarrow> Some e)"

definition finish_spec :: "(addr \<Rightarrow> 'u \<Rightarrow> 'u res) \<Rightarrow> addr \<Rightarrow> 'u act \<Rightarrow> exn option \<Rightarrow> bool \<Rightarrow> 'u act" where
  "finish_spec pop d f cause caught u =
     bindE (f u) (\<lambda>(u, r). bindE (pop d u) (\<lambda>u. Inr (u, if caught then None else later cause r)))"

definition ktry_spec :: "('u \<Rightarrow> addr) \<Rightarrow> (addr \<Rightarrow> 'u \<Rightarrow> 'u res) \<Rightarrow> 'u act \<Rightarrow> (exn \<times> 'u act) list \<Rightarrow> 'u act \<Rightarrow> 'u act" where
  "ktry_spec poll pop b hs f u0 =
     bindE (b u0) (\<lambda>(u, r). case r of
       None \<Rightarrow> finish_spec pop (poll u0) f None False u
     | Some t \<Rightarrow>
         (case find (\<lambda>(m, _). type_matches m t) hs of
            None \<Rightarrow> finish_spec pop (poll u0) f (Some t) False u
          | Some (_, h) \<Rightarrow> bindE (h u) (\<lambda>(u, _). finish_spec pop (poll u0) f None True u)))"

fun frame_chain :: "'u est \<Rightarrow> addr \<Rightarrow> addr list \<Rightarrow> bool" where
  "frame_chain s a [] \<longleftrightarrow> a = 0"
| "frame_chain s a (x # xs) \<longleftrightarrow> a = x \<and> x \<noteq> 0 \<and> frame_chain s (ef_next (ex_frames s x)) xs"

lemma frame_chain_cong: "\<forall>a \<in> set xs. ex_frames s' a = ex_frames s a \<Longrightarrow> frame_chain s' p xs = frame_chain s p xs"
  by (induction xs arbitrary: p) auto

text \<open>
  A computation that started with the frames \<open>ys\<close>, the top one first, leaves them as they were, apart from a cause in the top frame when it throws.
  With no frame at all a throw writes through a null pointer.
\<close>

definition top_of :: "addr list \<Rightarrow> addr" where
  "top_of ys = (case ys of [] \<Rightarrow> 0 | y # _ \<Rightarrow> y)"

definition ends :: "'u est \<Rightarrow> addr list \<Rightarrow> ('u, unit) out \<Rightarrow> ('u \<times> exn option) res \<Rightarrow> bool" where
  "ends s ys r a = (case a of
     Inl e \<Rightarrow> r = Fail e
   | Inr (u, None) \<Rightarrow> \<exists>s'. r = Done s' () \<and> ex_user s' = u \<and> ex_top s' = top_of ys \<and> (\<forall>y \<in> set ys. ex_frames s' y = ex_frames s y)
   | Inr (u, Some t) \<Rightarrow>
       (case ys of
          [] \<Rightarrow> r = Fail NullDeref
        | x # xs \<Rightarrow> \<exists>s'. r = Jump x s' \<and> ex_user s' = u \<and> ex_top s' = x \<and> ex_frames s' x = (ex_frames s x)\<lparr>ef_cause := Some t\<rparr> \<and>
            (\<forall>y \<in> set xs. ex_frames s' y = ex_frames s y)))"

text \<open>\<open>A\<close> are the places of the frames the computation pushes itself.\<close>

definition meets :: "addr set \<Rightarrow> 'u block \<Rightarrow> 'u act \<Rightarrow> bool" where
  "meets A c b \<longleftrightarrow> (\<forall>s ys. frame_chain s (ex_top s) ys \<and> distinct ys \<and> set ys \<inter> A = {} \<longrightarrow> ends s ys (c s) (b (ex_user s)))"

lemma top_of_simps [simp]: "top_of [] = 0" "top_of (y # ys) = y"
  by (simp_all add: top_of_def)

lemma frame_chain_top: "frame_chain s p ys \<Longrightarrow> p = top_of ys"
  by (cases ys) auto

lemma meets_throw: "meets A (exception_throw t) (\<lambda>u. Inr (u, Some t))"
  by (auto simp: meets_def ends_def exception_throw_def exception_throw_cause_def upd_frame_def split: list.split)

lemma meets_done: "meets A (\<lambda>s. Done s ()) (\<lambda>u. Inr (u, None))"
  by (auto simp: meets_def ends_def frame_chain_top)

lemma meets_step: "meets A (\<lambda>s. Done (s\<lparr>ex_user := g (ex_user s)\<rparr>) ()) (\<lambda>u. Inr (g u, None))"
  by (auto simp: meets_def ends_def frame_chain_top)

lemma ends_frames: "ex_frames s' = ex_frames s \<Longrightarrow> ends s' ys r a = ends s ys r a"
proof -
  assume e: "ex_frames s' = ex_frames s"
  show ?thesis unfolding ends_def e ..
qed

lemma meets_after:
  assumes "meets A c b"
  shows "meets A (\<lambda>s. c (s\<lparr>ex_user := g (ex_user s)\<rparr>)) (\<lambda>u. b (g u))"
  unfolding meets_def
proof (intro allI impI, elim conjE)
  fix s :: "'a est" and ys
  let ?s = "s\<lparr>ex_user := g (ex_user s)\<rparr>"
  assume "frame_chain s (ex_top s) ys" "distinct ys" "set ys \<inter> A = {}"
  moreover from this have "frame_chain ?s (ex_top ?s) ys" using frame_chain_cong [of ys ?s s] by simp
  ultimately have "ends ?s ys (c ?s) (b (ex_user ?s))" using assms unfolding meets_def by blast
  then show "ends s ys (c ?s) (b (g (ex_user s)))" using ends_frames [of ?s s] by simp
qed

lemma meets_mono: "meets A c b \<Longrightarrow> A \<subseteq> B \<Longrightarrow> meets B c b"
  unfolding meets_def by blast

subsection \<open>The loop follows it\<close>

text \<open>The state at the head of the loop: the frame \<open>fr\<close> with contents \<open>F\<close> on top of the frames of \<open>s\<close>.\<close>

definition top_is :: "'u est \<Rightarrow> addr list \<Rightarrow> addr \<Rightarrow> exception_frame \<Rightarrow> 'u \<Rightarrow> 'u est \<Rightarrow> bool" where
  "top_is s ys fr F u st \<longleftrightarrow> ex_top st = fr \<and> ex_frames st fr = F \<and> ef_next F = top_of ys \<and> ex_user st = u \<and> (\<forall>y \<in> set ys. ex_frames st y = ex_frames s y)"

definition resume :: "addr \<Rightarrow> 'u block \<Rightarrow> ('u, unit) out \<Rightarrow> ('u, unit) out" where
  "resume fr k r = (case r of Fail e \<Rightarrow> Fail e | Done s _ \<Rightarrow> k s | Jump a s \<Rightarrow> if a = fr then k s else Jump a s)"

lemma top_is_upd:
  "top_is s ys fr F u st \<Longrightarrow> fr \<notin> set ys \<Longrightarrow> ef_next (g F) = top_of ys \<Longrightarrow> top_is s ys fr (g F) u (upd_frame fr g st)"
  by (auto simp: top_is_def upd_frame_def)

definition places_ok :: "addr set \<Rightarrow> 'u est \<Rightarrow> addr list \<Rightarrow> addr \<Rightarrow> bool" where
  "places_ok A s ys fr \<longleftrightarrow> frame_chain s (top_of ys) ys \<and> distinct (fr # ys) \<and> fr \<noteq> 0 \<and> set (fr # ys) \<inter> A = {}"

lemma run_block:
  assumes "meets A c b" "top_is s ys fr F u st" "places_ok A s ys fr"
  shows "case b u of Inl e \<Rightarrow> resume fr k (c st) = Fail e
    | Inr (u', r) \<Rightarrow> \<exists>st'. resume fr k (c st) = k st' \<and> top_is s ys fr (F\<lparr>ef_cause := later (ef_cause F) r\<rparr>) u' st'"
proof -
  have "frame_chain st (top_of ys) ys = frame_chain s (top_of ys) ys" by (rule frame_chain_cong) (use assms(2) in \<open>simp add: top_is_def\<close>)
  then have "frame_chain st (ex_top st) (fr # ys)" using assms(2,3) by (simp add: top_is_def places_ok_def)
  then have "ends st (fr # ys) (c st) (b (ex_user st))" using assms(1,3) unfolding meets_def places_ok_def by blast
  then have e: "ends st (fr # ys) (c st) (b u)" using assms(2) by (simp add: top_is_def)
  show ?thesis
  proof (cases "b u")
    case (Inl e)
    then show ?thesis using e by (simp add: ends_def resume_def)
  next
    case (Inr p)
    obtain u' r where p: "p = (u', r)" by (cases p)
    have "\<exists>st'. resume fr k (c st) = k st' \<and> top_is s ys fr (F\<lparr>ef_cause := later (ef_cause F) r\<rparr>) u' st'"
    proof (cases r)
      case None
      with e Inr p obtain s' where "c st = Done s' ()" "ex_user s' = u'" "ex_top s' = fr" "\<forall>y \<in> set (fr # ys). ex_frames s' y = ex_frames st y"
        by (auto simp: ends_def)
      then show ?thesis using assms(2) None by (intro exI [of _ s']) (simp add: resume_def top_is_def later_def)
    next
      case (Some t)
      with e Inr p obtain s' where "c st = Jump fr s'" "ex_user s' = u'" "ex_top s' = fr"
          "ex_frames s' fr = (ex_frames st fr)\<lparr>ef_cause := Some t\<rparr>" "\<forall>y \<in> set ys. ex_frames s' y = ex_frames st y"
        by (auto simp: ends_def)
      then show ?thesis using assms(2) Some by (intro exI [of _ s']) (simp add: resume_def top_is_def later_def)
    qed
    then show ?thesis using Inr p by simp
  qed
qed

lemma catch_fin: "ef_state (ex_frames st (ex_top st)) = EXCEPTION_FINISHING \<Longrightarrow> catch_blocks hs fin st = fin st"
  by (induction hs) (auto simp: exception_finally_def exception_match_def)

lemma catch_first:
  assumes "ef_state (ex_frames st (ex_top st)) = EXCEPTION_CATCHING" "ef_cause (ex_frames st (ex_top st)) = Some t"
  shows "catch_blocks hs fin st = (case find (\<lambda>(m, _). type_matches m t) hs of None \<Rightarrow> Done st ()
    | Some (_, h) \<Rightarrow> h (upd_frame (ex_top st) (\<lambda>f. f\<lparr>ef_caught := True\<rparr>) st))"
  using assms by (induction hs) (auto simp: exception_finally_def exception_match_def)

lemma found_at_top: "top_is s ys fr F u st \<Longrightarrow> ef_file F = file \<Longrightarrow> ef_line F = line \<Longrightarrow> find_frame n st file line fr = Inr fr"
  by (subst find_frame.simps) (simp add: top_is_def)

text \<open>One turn of the loop before the last: the frame moves on to its next state, and the block that state selects runs.\<close>

definition next_state :: "exception_frame \<Rightarrow> estates" where
  "next_state F = (case ef_state F of EXCEPTION_NEW \<Rightarrow> EXCEPTION_TRYING
     | EXCEPTION_TRYING \<Rightarrow> if ef_cause F \<noteq> None then EXCEPTION_CATCHING else EXCEPTION_FINISHING
     | _ \<Rightarrow> EXCEPTION_FINISHING)"

lemma loop_turn:
  assumes "top_is s ys fr F u st" "places_ok A s ys fr" "ef_file F = file" "ef_line F = line" "ef_state F \<noteq> EXCEPTION_FINISHING"
  shows "\<exists>st'. top_is s ys fr (F\<lparr>ef_state := next_state F\<rparr>) u st' \<and>
    ktry_loop (Suc n) pop fr file line body hs fin st =
      resume fr (ktry_loop n pop fr file line body hs fin) (if next_state F = EXCEPTION_TRYING then body st' else catch_blocks hs fin st')"
proof -
  let ?st = "upd_frame fr (\<lambda>f. f\<lparr>ef_state := next_state F\<rparr>) st"
  have fr: "fr \<noteq> 0" "fr \<notin> set ys" using assms(2) by (auto simp: places_ok_def)
  have t: "top_is s ys fr (F\<lparr>ef_state := next_state F\<rparr>) u ?st"
    using top_is_upd [OF assms(1) fr(2), of "\<lambda>f. f\<lparr>ef_state := next_state F\<rparr>"] assms(1) by (simp add: top_is_def)
  have F: "ex_top st = fr" "ex_frames st fr = F" using assms(1) by (simp_all add: top_is_def)
  have "exception_finished n pop file line st = Done ?st False"
    using F fr(1) found_at_top [OF assms(1,3,4)] assms(5)
    by (cases "ef_state F") (simp_all add: exception_finished_def next_state_def upd_frame_def)
  moreover have "ex_top ?st = fr" "exception_try ?st \<longleftrightarrow> next_state F = EXCEPTION_TRYING"
    using t by (simp_all add: top_is_def exception_try_def)
  ultimately show ?thesis using t fr(1) by (intro exI [of _ ?st]) (simp add: ktry_loop.simps(2) resume_def cong: out.case_cong)
qed

lemma loop_last:
  assumes "top_is s ys fr F u st" "places_ok A s ys fr" "ef_file F = file" "ef_line F = line" "ef_state F = EXCEPTION_FINISHING"
  shows "ends s ys (ktry_loop (Suc n) pop fr file line body hs fin st)
    (bindE (pop (ef_dtor F) u) (\<lambda>u. Inr (u, if ef_caught F then None else ef_cause F)))"
proof -
  have fr: "fr \<noteq> 0" "fr \<notin> set ys" "distinct ys" "frame_chain s (top_of ys) ys" using assms(2) by (auto simp: places_ok_def)
  have F: "ex_top st = fr" "ex_frames st fr = F" "ef_next F = top_of ys" "ex_user st = u" "\<forall>y \<in> set ys. ex_frames st y = ex_frames s y"
    using assms(1) by (simp_all add: top_is_def)
  show ?thesis
  proof (cases "pop (ef_dtor F) u")
    case (Inl e)
    then show ?thesis using F fr found_at_top [OF assms(1,3,4)] assms(5) by (simp add: exception_finished_def ends_def ktry_loop.simps(2))
  next
    case (Inr u')
    then show ?thesis using F fr found_at_top [OF assms(1,3,4)] assms(5)
      by (cases "ef_cause F"; cases ys) (auto simp: exception_finished_def exception_throw_cause_def ends_def upd_frame_def ktry_loop.simps(2))
  qed
qed

lemma finish_spec_caught: "finish_spec pop d f c True u = finish_spec pop d f c' True u"
  by (simp add: finish_spec_def)

lemma loop_final:
  assumes "top_is s ys fr F u st" "places_ok A s ys fr" "ef_file F = file" "ef_line F = line"
    and "ef_state F = EXCEPTION_CATCHING \<or> ef_state F = EXCEPTION_TRYING \<and> ef_cause F = None" and f: "meets A fin f"
  shows "ends s ys (ktry_loop (Suc (Suc n)) pop fr file line body hs fin st) (finish_spec pop (ef_dtor F) f (ef_cause F) (ef_caught F) u)"
proof -
  let ?k = "ktry_loop (Suc n) pop fr file line body hs fin"
  let ?F = "F\<lparr>ef_state := EXCEPTION_FINISHING\<rparr>"
  have ns: "next_state F = EXCEPTION_FINISHING" "ef_state F \<noteq> EXCEPTION_FINISHING" using assms(5) by (auto simp: next_state_def)
  obtain st' where st': "top_is s ys fr ?F u st'"
    "ktry_loop (Suc (Suc n)) pop fr file line body hs fin st = resume fr ?k (catch_blocks hs fin st')"
    using loop_turn [OF assms(1-4) ns(2), of "Suc n" pop body hs fin] ns(1) by auto
  have cb: "catch_blocks hs fin st' = fin st'" using st'(1) by (intro catch_fin) (simp add: top_is_def)
  note rb = run_block [OF f st'(1) assms(2), of ?k]
  show ?thesis
  proof (cases "f u")
    case (Inl e)
    then show ?thesis using rb st'(2) cb by (simp add: finish_spec_def ends_def)
  next
    case (Inr p)
    obtain u' r where p: "p = (u', r)" by (cases p)
    then obtain st'' where "resume fr ?k (fin st') = ?k st''" "top_is s ys fr (?F\<lparr>ef_cause := later (ef_cause F) r\<rparr>) u' st''"
      using rb Inr by auto
    then show ?thesis
      using loop_last [OF _ assms(2), where n = n and pop = pop and body = body and hs = hs and fin = fin] assms(3,4) st'(2) cb Inr p
      by (fastforce simp: finish_spec_def)
  qed
qed

lemma loop_catch:
  assumes "top_is s ys fr F u st" "places_ok A s ys fr" "ef_file F = file" "ef_line F = line"
    and F: "ef_state F = EXCEPTION_TRYING" "ef_cause F = Some t" "\<not> ef_caught F" and f: "meets A fin f"
    and hs: "list_all2 (\<lambda>(m, c) (m', h). m = m' \<and> meets A c h) cs hs"
  shows "ends s ys (ktry_loop (Suc (Suc (Suc n))) pop fr file line body cs fin st)
    (case find (\<lambda>(m, _). type_matches m t) hs of
       None \<Rightarrow> finish_spec pop (ef_dtor F) f (Some t) False u
     | Some (_, h) \<Rightarrow> bindE (h u) (\<lambda>(u, _). finish_spec pop (ef_dtor F) f None True u))"
proof -
  let ?k = "ktry_loop (Suc (Suc n)) pop fr file line body cs fin"
  let ?F = "F\<lparr>ef_state := EXCEPTION_CATCHING\<rparr>"
  let ?C = "?F\<lparr>ef_caught := True\<rparr>"
  obtain st' where st': "top_is s ys fr ?F u st'"
    "ktry_loop (Suc (Suc (Suc n))) pop fr file line body cs fin st = resume fr ?k (catch_blocks cs fin st')"
    using loop_turn [OF assms(1-4), of "Suc (Suc n)" pop body cs fin] F by (auto simp: next_state_def)
  have fr: "fr \<notin> set ys" using assms(2) by (auto simp: places_ok_def)
  have tp: "ex_top st' = fr" "ex_frames st' fr = ?F" using st'(1) by (simp_all add: top_is_def)
  note cf = catch_first [of st' t cs fin] and lf = loop_final [OF _ assms(2) _ _ _ f, where n = n and pop = pop and body = body and hs = cs]
  have fnd: "rel_option (\<lambda>(m, c) (m', h). m = m' \<and> meets A c h) (find (\<lambda>(m, _). type_matches m t) cs) (find (\<lambda>(m, _). type_matches m t) hs)"
    using hs by (induction rule: list_all2_induct) auto
  show ?thesis
  proof (cases "find (\<lambda>(m, _). type_matches m t) hs")
    case None
    then have "catch_blocks cs fin st' = Done st' ()" using cf tp F fnd by simp
    then show ?thesis using lf [OF st'(1)] assms(3,4) st'(2) F None by (simp add: resume_def)
  next
    case (Some mh)
    obtain m h where mh: "mh = (m, h)" by (cases mh)
    with Some fnd obtain c where c: "find (\<lambda>(m, _). type_matches m t) cs = Some (m, c)" "meets A c h"
      by (cases "find (\<lambda>(m, _). type_matches m t) cs") auto
    let ?s = "upd_frame fr (\<lambda>f. f\<lparr>ef_caught := True\<rparr>) st'"
    have cb: "catch_blocks cs fin st' = c ?s" using cf tp F c by simp
    have ts: "top_is s ys fr ?C u ?s" using top_is_upd [OF st'(1) fr] st'(1) by (simp add: top_is_def)
    note rb = run_block [OF c(2) ts assms(2), of ?k]
    show ?thesis
    proof (cases "h u")
      case (Inl e)
      then show ?thesis using rb st'(2) cb Some mh by (simp add: ends_def)
    next
      case (Inr p)
      obtain u' r where p: "p = (u', r)" by (cases p)
      then obtain st'' where st'': "resume fr ?k (c ?s) = ?k st''" "top_is s ys fr (?C\<lparr>ef_cause := later (Some t) r\<rparr>) u' st''"
        using rb Inr F by auto
      then show ?thesis using lf [OF st''(2)] assms(3,4) st'(2) cb Inr p Some mh
          finish_spec_caught [of pop "ef_dtor F" f "later (Some t) r" u' None] by simp
    qed
  qed
qed

text \<open>Four turns are enough.\<close>

lemma loop_new:
  assumes "top_is s ys fr F u st" "places_ok A s ys fr" "ef_file F = file" "ef_line F = line"
    and F: "ef_state F = EXCEPTION_NEW" "ef_cause F = None" "\<not> ef_caught F" "ef_dtor F = poll u"
    and b: "meets A body b" and f: "meets A fin f" and hs: "list_all2 (\<lambda>(m, c) (m', h). m = m' \<and> meets A c h) cs hs"
  shows "ends s ys (ktry_loop (Suc (Suc (Suc (Suc n)))) pop fr file line body cs fin st) (ktry_spec poll pop b hs f u)"
proof -
  let ?k = "ktry_loop (Suc (Suc (Suc n))) pop fr file line body cs fin"
  let ?F = "F\<lparr>ef_state := EXCEPTION_TRYING\<rparr>"
  obtain st' where st': "top_is s ys fr ?F u st'"
    "ktry_loop (Suc (Suc (Suc (Suc n)))) pop fr file line body cs fin st = resume fr ?k (body st')"
    using loop_turn [OF assms(1-4), of "Suc (Suc (Suc n))" pop body cs fin] F by (auto simp: next_state_def)
  note rb = run_block [OF b st'(1) assms(2), of ?k]
  show ?thesis
  proof (cases "b u")
    case (Inl e)
    then show ?thesis using rb st'(2) by (simp add: ktry_spec_def ends_def)
  next
    case (Inr p)
    obtain u' r where p: "p = (u', r)" by (cases p)
    then obtain st'' where st'': "resume fr ?k (body st') = ?k st''" "top_is s ys fr (?F\<lparr>ef_cause := r\<rparr>) u' st''"
      using rb Inr F by (auto simp: later_def split: option.splits)
    show ?thesis
    proof (cases r)
      case None
      then show ?thesis using loop_final [OF st''(2) assms(2) _ _ _ f, where n = "Suc n" and pop = pop and body = body and hs = cs]
          assms(3,4) st'(2) st''(1) F Inr p by (simp add: ktry_spec_def)
    next
      case (Some t)
      define G where "G = ?F\<lparr>ef_cause := r\<rparr>"
      have G: "ef_file G = file" "ef_line G = line" "ef_state G = EXCEPTION_TRYING" "ef_cause G = Some t" "\<not> ef_caught G" "ef_dtor G = poll u"
        using F assms(3,4) Some by (simp_all add: G_def)
      have "top_is s ys fr G u' st''" using st''(2) by (simp add: G_def)
      from loop_catch [OF this assms(2) G(1-5) f hs, of n pop body] show ?thesis
        using st'(2) st''(1) Inr p Some unfolding G(6) by (simp add: ktry_spec_def)
    qed
  qed
qed

lemma top_is_push:
  fixes "file" line poll
  assumes "frame_chain s (ex_top s) ys" "fr \<notin> set ys"
  defines "st \<equiv> exception_push poll fr (upd_frame fr (\<lambda>f. f\<lparr>ef_file := file, ef_line := line\<rparr>) s)"
  shows "top_is s ys fr (ex_frames st fr) (ex_user s) st" "ef_file (ex_frames st fr) = file" "ef_line (ex_frames st fr) = line"
    "ef_state (ex_frames st fr) = EXCEPTION_NEW" "ef_cause (ex_frames st fr) = None" "\<not> ef_caught (ex_frames st fr)"
    "ef_dtor (ex_frames st fr) = poll (ex_user s)"
  using assms(2) frame_chain_top [OF assms(1)] by (auto simp: st_def exception_push_def upd_frame_def top_is_def Let_def)

lemma ktry_ends:
  assumes "4 \<le> n" "fr \<noteq> 0" "fr \<notin> A" "meets A body b" "meets A fin f" "list_all2 (\<lambda>(m, c) (m', h). m = m' \<and> meets A c h) cs hs"
    and ys: "frame_chain s (ex_top s) ys" "distinct ys" "set ys \<inter> insert fr A = {}"
  shows "ends s ys (ktry n poll pop fr file line body cs fin s) (ktry_spec poll pop b hs f (ex_user s))"
proof -
  obtain m where n: "n = Suc (Suc (Suc (Suc m)))" using that [of "n - 4"] assms(1) by simp
  have fr: "fr \<notin> set ys" and ok: "places_ok A s ys fr"
    using ys assms(2,3) frame_chain_top [OF ys(1)] by (auto simp: places_ok_def)
  show ?thesis
    unfolding ktry_def n by (rule loop_new [OF top_is_push(1) [OF ys(1) fr] ok]) (use top_is_push [OF ys(1) fr] assms(4-6) in auto)
qed

text \<open>
  C30: A \<^verbatim>\<open>KTRY\<close> statement, run from any stack of exception frames, even an empty one, with body, catching blocks and final block that do what
  their actions say, does what \<open>ktry_spec\<close> says and ends: the body runs; when it throws, the first block whose type is the type of the
  exception or an ancestor of it runs; then the final block; then the destructors pushed since the statement began; the frames below are as they were, and an exception not
  caught is thrown to the frame below. The four turns of its loop are enough, and statements nest: the statement is itself a computation that does what its action says.
\<close>

theorem ktry_meets:
  assumes "4 \<le> n" "fr \<noteq> 0" "fr \<notin> A" "meets A body b" "meets A fin f"
    and "list_all2 (\<lambda>(m, c) (m', h). m = m' \<and> meets A c h) cs hs"
  shows "meets (insert fr A) (ktry n poll pop fr file line body cs fin) (ktry_spec poll pop b hs f)"
  using ktry_ends [OF assms] unfolding meets_def by blast

lemma meets_printk: "meets A (printk_block printk m) (\<lambda>u. Inr (printk (m @ [CHR 0x0A]) u, None))"
  using meets_step [of A "printk (m @ [CHR 0x0A])"] by (simp add: printk_block_def [abs_def])

text \<open>The nested statements of the module's own test.\<close>

theorem ktry_meets_witness:
  "meets {100, 200} (exception_test 4 (\<lambda>u. 0) (\<lambda>d u. Inr u) (\<lambda>m u. u @ [m]) 1 100 200)
     (\<lambda>u. Inr (u @ [''KTRY/KFINALLY'' @ [CHR 0x0A], ''Caught exception'' @ [CHR 0x0A]], None))"
proof -
  let ?poll = "\<lambda>u :: string list. 0 :: addr" and ?pop = "\<lambda>d u. Inr u" and ?p = "\<lambda>m u. u @ [m]"
  have d: "meets {200} (do_throw 4 ?poll ?pop ?p 1 200)
      (ktry_spec ?poll ?pop (\<lambda>u. Inr (u, Some TestException)) [] (\<lambda>u. Inr (u @ [''KTRY/KFINALLY'' @ [CHR 0x0A]], None)))"
    unfolding do_throw_def by (rule ktry_meets) (use meets_printk [of "{}" ?p "''KTRY/KFINALLY''"] in \<open>simp_all add: meets_throw\<close>)
  have "meets {100, 200} (exception_test 4 ?poll ?pop ?p 1 100 200) (ktry_spec ?poll ?pop
      (ktry_spec ?poll ?pop (\<lambda>u. Inr (u, Some TestException)) [] (\<lambda>u. Inr (u @ [''KTRY/KFINALLY'' @ [CHR 0x0A]], None)))
      [(Exception, \<lambda>u. Inr (u @ [''Caught exception'' @ [CHR 0x0A]], None))] (\<lambda>u. Inr (u, None)))"
    unfolding exception_test_def by (rule ktry_meets) (use meets_printk [of "{200}" ?p "''Caught exception''"] d in \<open>simp_all add: meets_done\<close>)
  then show ?thesis by (simp add: ktry_spec_def [abs_def] finish_spec_def later_def type_matches.simps)
qed

end
