(* ===== verification/Destructor.thy ===== *)
theory Destructor
  imports Exceptions
begin

text \<open>
  The destructor stack (\<^verbatim>\<open>src/libk/destructor.c\<close>) and its use by the exception frames. Each thread has a linked stack of destructors, its top kept in
  thread-local storage; nodes that were popped go to a cache all threads share, \<^verbatim>\<open>frames[0]\<close>, and are used again. \<open>dt_frames\<close> is \<open>None\<close> until the
  cell that holds the cache is allocated. A new node has the address that \<^verbatim>\<open>calloc\<close> returns, an argument. A destructor works on the
  rest of the state, \<open>dt_rest\<close>; what calling it does is an argument. The lock is held around the update of the cache, which is one step here.
\<close>

subsection \<open>The code\<close>

record dtor_t =
  dn_next :: addr
  dn_dtor :: addr
  dn_p :: addr

record 'w dstack =
  dt_nodes :: "addr \<Rightarrow> dtor_t"
  dt_top :: addr
  dt_frames :: "addr option"
  dt_rest :: 'w

type_synonym 'w dcall = "addr \<Rightarrow> addr \<Rightarrow> 'w \<Rightarrow> 'w res"

definition upd_node :: "addr \<Rightarrow> (dtor_t \<Rightarrow> dtor_t) \<Rightarrow> 'w dstack \<Rightarrow> 'w dstack" where
  "upd_node a f s = s\<lparr>dt_nodes := (dt_nodes s)(a := f (dt_nodes s a))\<rparr>"

definition dtor_poll_frame :: "'w dstack \<Rightarrow> addr" where
  "dtor_poll_frame s = dt_top s"

fun pop_loop :: "nat \<Rightarrow> 'w dcall \<Rightarrow> addr \<Rightarrow> addr \<Rightarrow> addr \<Rightarrow> 'w dstack \<Rightarrow> ('w dstack \<times> addr \<times> addr) res" where
  "pop_loop n call until frame last' s =
     (if frame \<noteq> 0 \<and> until \<noteq> frame then
        case n of 0 \<Rightarrow> Inl OutOfFuel
        | Suc n \<Rightarrow>
            bindE (if dn_dtor (dt_nodes s frame) \<noteq> 0
                   then bindE (call (dn_dtor (dt_nodes s frame)) (dn_p (dt_nodes s frame)) (dt_rest s))
                          (\<lambda>w. Inr (upd_node frame (\<lambda>f. f\<lparr>dn_dtor := 0\<rparr>) (s\<lparr>dt_rest := w\<rparr>)))
                   else Inr s) (\<lambda>s.
            let last' = frame; frame = dn_next (dt_nodes s frame) in pop_loop n call until frame last' s)
      else Inr (s, frame, last'))"

declare pop_loop.simps [simp del]

definition dtor_pop :: "nat \<Rightarrow> 'w dcall \<Rightarrow> addr \<Rightarrow> 'w dstack \<Rightarrow> 'w dstack res" where
  "dtor_pop n call until s =
     (let frame = dt_top s; first = frame; last' = frame in
      if frame = until then Inr s
      else bindE (pop_loop n call until frame last' s) (\<lambda>(s, frame, last').
        if last' = 0 then Inl NullDeref
        else case dt_frames s of
          None \<Rightarrow> Inl NullDeref
        | Some c \<Rightarrow>
            let s = upd_node last' (\<lambda>f. f\<lparr>dn_next := c\<rparr>) s;
                s = s\<lparr>dt_frames := Some first\<rparr>
            in Inr (s\<lparr>dt_top := frame\<rparr>)))"

definition dtor_push :: "addr \<Rightarrow> addr \<Rightarrow> addr \<Rightarrow> 'w dstack \<Rightarrow> 'w dstack \<times> addr" where
  "dtor_push fresh dtor p s =
     (let s = (if dt_frames s = None then s\<lparr>dt_frames := Some 0\<rparr> else s);
          frame = (if dt_frames s \<noteq> Some 0 then the (dt_frames s) else fresh);
          s = (if dt_frames s \<noteq> Some 0 then s\<lparr>dt_frames := Some (dn_next (dt_nodes s frame))\<rparr> else s);
          s = upd_node frame (\<lambda>f. f\<lparr>dn_next := dt_top s, dn_dtor := dtor, dn_p := p\<rparr>) s;
          s = s\<lparr>dt_top := frame\<rparr>
      in (s, dn_next (dt_nodes s frame)))"

fun remove_loop :: "nat \<Rightarrow> addr \<Rightarrow> addr \<Rightarrow> addr \<Rightarrow> 'w dstack \<Rightarrow> 'w dstack res" where
  "remove_loop n dtor p frame s =
     (if frame \<noteq> 0 then
        if dtor = dn_dtor (dt_nodes s frame) \<and> p = dn_p (dt_nodes s frame) then Inr (upd_node frame (\<lambda>f. f\<lparr>dn_dtor := 0\<rparr>) s)
        else case n of 0 \<Rightarrow> Inl OutOfFuel | Suc n \<Rightarrow> remove_loop n dtor p (dn_next (dt_nodes s frame)) s
      else Inr s)"

declare remove_loop.simps [simp del]

definition dtor_remove :: "nat \<Rightarrow> addr \<Rightarrow> addr \<Rightarrow> 'w dstack \<Rightarrow> 'w dstack res" where
  "dtor_remove n dtor p s = remove_loop n dtor p (dt_top s) s"

subsection \<open>The stack it denotes\<close>

fun links :: "(addr \<Rightarrow> dtor_t) \<Rightarrow> addr \<Rightarrow> addr list \<Rightarrow> bool" where
  "links h a [] \<longleftrightarrow> a = 0"
| "links h a (x # xs) \<longleftrightarrow> a = x \<and> x \<noteq> 0 \<and> links h (dn_next (h x)) xs"

definition dstack_ok :: "'w dstack \<Rightarrow> addr list \<Rightarrow> addr list \<Rightarrow> bool" where
  "dstack_ok s ys cs \<longleftrightarrow> links (dt_nodes s) (dt_top s) ys \<and> distinct (ys @ cs) \<and>
     (case dt_frames s of None \<Rightarrow> ys = [] \<and> cs = [] | Some c \<Rightarrow> links (dt_nodes s) c cs)"

definition entry :: "'w dstack \<Rightarrow> addr \<Rightarrow> addr \<times> addr" where
  "entry s a = (dn_dtor (dt_nodes s a), dn_p (dt_nodes s a))"

fun run_dtors :: "'w dcall \<Rightarrow> (addr \<times> addr) list \<Rightarrow> 'w \<Rightarrow> 'w res" where
  "run_dtors call [] w = Inr w"
| "run_dtors call ((d, p) # es) w = bindE (if d \<noteq> 0 then call d p w else Inr w) (run_dtors call es)"

fun drop_entry :: "addr \<times> addr \<Rightarrow> (addr \<times> addr) list \<Rightarrow> (addr \<times> addr) list" where
  "drop_entry e [] = []"
| "drop_entry e (x # xs) = (if e = x then (0, snd x) # xs else x # drop_entry e xs)"

lemma links_cong: "\<forall>a \<in> set xs. dn_next (h' a) = dn_next (h a) \<Longrightarrow> links h' p xs = links h p xs"
  by (induction xs arbitrary: p) auto

lemma links_top: "links h p ys \<Longrightarrow> p = top_of ys"
  by (cases ys) auto

lemma links_nonzero: "links h p ys \<Longrightarrow> 0 \<notin> set ys"
  by (induction ys arbitrary: p) auto

lemma links_append: "links h p (xs @ ys) \<Longrightarrow> links h (top_of ys) ys"
  using links_top by (induction xs arbitrary: p) fastforce+

lemma dtor_push_stack:
  fixes d p
  assumes "dstack_ok s ys cs" "a \<noteq> 0" "a \<notin> set (ys @ cs)"
  defines "s' \<equiv> fst (dtor_push a d p s)" and "b \<equiv> if cs = [] then a else hd cs"
  shows "snd (dtor_push a d p s) = top_of ys" "dstack_ok s' (b # ys) (tl cs)" "entry s' b = (d, p)"
    "\<forall>y \<in> set ys. entry s' y = entry s y" "dt_rest s' = dt_rest s"
proof -
  have t: "dt_top s = top_of ys" using assms(1) by (auto simp: dstack_ok_def dest: links_top)
  have c: "dt_frames s = None \<and> ys = [] \<and> cs = [] \<or> dt_frames s = Some (top_of cs)"
    using assms(1) by (auto simp: dstack_ok_def split: option.splits dest: links_top)
  have bn: "b \<notin> set ys" "b \<noteq> 0" using assms(1-3) by (auto simp: b_def dstack_ok_def split: option.splits dest: links_nonzero; cases cs; auto)+
  show "snd (dtor_push a d p s) = top_of ys" using t by (simp add: dtor_push_def Let_def upd_node_def)
  have s': "s' = (upd_node b (\<lambda>f. f\<lparr>dn_next := top_of ys, dn_dtor := d, dn_p := p\<rparr>) s)
      \<lparr>dt_frames := Some (if cs = [] then 0 else dn_next (dt_nodes s b)), dt_top := b\<rparr>"
    using t c assms(1) by (cases cs) (auto simp: s'_def b_def dtor_push_def Let_def upd_node_def dstack_ok_def)
  show "entry s' b = (d, p)" "\<forall>y \<in> set ys. entry s' y = entry s y" "dt_rest s' = dt_rest s"
    using bn(1) by (auto simp: s' upd_node_def entry_def)
  show "dstack_ok s' (b # ys) (tl cs)"
  proof -
    have l: "links (dt_nodes s) (top_of ys) ys" "distinct (ys @ cs)" using assms(1) t by (auto simp: dstack_ok_def)
    have n: "\<forall>y \<in> set (ys @ tl cs). dn_next (dt_nodes s' y) = dn_next (dt_nodes s y)"
      using bn(1) l(2) assms(3) by (cases cs) (auto simp: s' upd_node_def b_def)
    have k: "links (dt_nodes s) (if cs = [] then 0 else dn_next (dt_nodes s b)) (tl cs)"
      using assms(1) c by (cases cs) (auto simp: dstack_ok_def b_def)
    have "links (dt_nodes s') (top_of ys) ys" "links (dt_nodes s') (if cs = [] then 0 else dn_next (dt_nodes s b)) (tl cs)"
      using links_cong [of ys "dt_nodes s'" "dt_nodes s"] links_cong [of "tl cs" "dt_nodes s'" "dt_nodes s"] n l(1) k by auto
    moreover have "distinct (b # ys @ tl cs)" using l(2) bn assms(3) by (cases cs) (auto simp: b_def)
    moreover have "dt_top s' = b" "dn_next (dt_nodes s' b) = top_of ys" "dt_frames s' = Some (if cs = [] then 0 else dn_next (dt_nodes s b))"
      by (simp_all add: s' upd_node_def)
    ultimately show ?thesis using bn(2) by (simp add: dstack_ok_def)
  qed
qed

lemma pop_loop_runs:
  assumes "links (dt_nodes s) frame (xs @ ys)" "distinct (xs @ ys)" "length xs \<le> n"
  shows "case run_dtors call (map (entry s) xs) (dt_rest s) of
      Inl e \<Rightarrow> pop_loop n call (top_of ys) frame l s = Inl e
    | Inr w \<Rightarrow> \<exists>s'. pop_loop n call (top_of ys) frame l s = Inr (s', top_of ys, if xs = [] then l else last xs) \<and> dt_rest s' = w \<and>
        (\<forall>a. dn_next (dt_nodes s' a) = dn_next (dt_nodes s a)) \<and> (\<forall>a. a \<notin> set xs \<longrightarrow> dt_nodes s' a = dt_nodes s a) \<and>
        dt_frames s' = dt_frames s \<and> dt_top s' = dt_top s"
  using assms
proof (induction xs arbitrary: s frame l n)
  case Nil
  then show ?case using links_top [OF Nil(1)] by (subst pop_loop.simps) auto
next
  case (Cons x xs)
  obtain m where n: "n = Suc m" "length xs \<le> m" using Cons.prems(3) by (cases n) auto
  have x: "frame = x" "x \<noteq> 0" "top_of ys \<noteq> x" "links (dt_nodes s) (dn_next (dt_nodes s x)) (xs @ ys)" "x \<notin> set xs" "distinct (xs @ ys)"
    using Cons.prems(1,2) by (cases ys; auto)+
  let ?step = "if dn_dtor (dt_nodes s x) \<noteq> 0 then bindE (call (dn_dtor (dt_nodes s x)) (dn_p (dt_nodes s x)) (dt_rest s))
      (\<lambda>w. Inr (upd_node x (\<lambda>f. f\<lparr>dn_dtor := 0\<rparr>) (s\<lparr>dt_rest := w\<rparr>))) else Inr s"
  have eq: "pop_loop n call (top_of ys) frame l s = bindE ?step (\<lambda>s. pop_loop m call (top_of ys) (dn_next (dt_nodes s x)) x s)"
    using x(1-3) n(1) by (subst pop_loop.simps) (simp add: Let_def)
  have run: "run_dtors call (map (entry s) (x # xs)) (dt_rest s) = bindE ?step (\<lambda>s'. run_dtors call (map (entry s) xs) (dt_rest s'))"
    by (simp add: entry_def bindE_def upd_node_def split: sum.split)
  show ?case
  proof (cases ?step)
    case (Inl e)
    then show ?thesis using eq run by (simp only: bindE_simps sum.case)
  next
    case (Inr s1)
    have s1: "dn_next (dt_nodes s1 a) = dn_next (dt_nodes s a)" "a \<noteq> x \<Longrightarrow> dt_nodes s1 a = dt_nodes s a" "dt_frames s1 = dt_frames s" "dt_top s1 = dt_top s" for a
      using Inr by (auto simp: upd_node_def bindE_def split: if_splits sum.splits)
    have e: "map (entry s1) xs = map (entry s) xs" using s1(2) x(5) by (metis (no_types, lifting) entry_def map_eq_conv)
    have l1: "links (dt_nodes s1) (dn_next (dt_nodes s1 x)) (xs @ ys)"
      using x(4) links_cong [of "xs @ ys" "dt_nodes s1" "dt_nodes s"] s1(1) by simp
    note IH = Cons.IH [OF l1 x(6) n(2), of x]
    have eq': "pop_loop n call (top_of ys) frame l s = pop_loop m call (top_of ys) (dn_next (dt_nodes s1 x)) x s1"
      and run': "run_dtors call (map (entry s) (x # xs)) (dt_rest s) = run_dtors call (map (entry s) xs) (dt_rest s1)"
      using eq run Inr by (simp_all only: bindE_simps)
    show ?thesis using IH s1(2) unfolding eq' run' e by (cases "run_dtors call (map (entry s) xs) (dt_rest s1)") (auto simp: s1)
  qed
qed

lemma links_cut:
  "links h p (xs @ ys) \<Longrightarrow> xs \<noteq> [] \<Longrightarrow> distinct xs \<Longrightarrow> links h c cs \<Longrightarrow> last xs \<notin> set cs \<Longrightarrow> links (h(last xs := (h (last xs))\<lparr>dn_next := c\<rparr>)) p (xs @ cs)"
proof (induction xs arbitrary: p)
  case (Cons x xs)
  show ?case
  proof (cases xs)
    case Nil
    then have "links (h(x := (h x)\<lparr>dn_next := c\<rparr>)) c cs" using Cons.prems(4,5) by (subst links_cong [of cs _ h]) auto
    then show ?thesis using Nil Cons.prems(1) by (simp add: fun_upd_def)
  next
    case (Cons y zs)
    then have "last xs \<in> set xs" "last (x # xs) = last xs" by (metis last_in_set list.discI, metis last_ConsR list.discI)
    moreover from this have "x \<noteq> last xs" using Cons.prems(3) by auto
    ultimately have "last (x # xs) = last xs" "x \<noteq> last xs" by blast+
    then show ?thesis using Cons.IH Cons.prems \<open>xs = y # zs\<close> by auto
  qed
qed simp

lemma dtor_pop_stack:
  assumes "dstack_ok s (xs @ ys) cs" "length xs \<le> n"
  shows "case run_dtors call (map (entry s) xs) (dt_rest s) of
      Inl e \<Rightarrow> dtor_pop n call (top_of ys) s = Inl e
    | Inr w \<Rightarrow> \<exists>s'. dtor_pop n call (top_of ys) s = Inr s' \<and> dt_rest s' = w \<and> dstack_ok s' ys (xs @ cs) \<and> (\<forall>y \<in> set ys. entry s' y = entry s y)"
proof (cases xs)
  case Nil
  then have "dt_top s = top_of ys" using assms(1) by (auto simp: dstack_ok_def dest: links_top)
  then show ?thesis using assms(1) Nil by (simp add: dtor_pop_def Let_def)
next
  case (Cons x zs)
  then obtain c where l: "links (dt_nodes s) (dt_top s) (xs @ ys)" "distinct (xs @ ys @ cs)" "dt_frames s = Some c" "links (dt_nodes s) c cs"
    using assms(1) by (auto simp: dstack_ok_def split: option.splits)
  have t: "dt_top s \<noteq> top_of ys" "dt_top s = x" using l(1,2) Cons by (cases ys; auto)+
  have nz: "last xs \<noteq> 0" using links_nonzero [OF l(1)] Cons by (metis Un_iff last_in_set list.discI set_append)
  have d: "distinct (xs @ ys)" using l(2) by auto
  note pl = pop_loop_runs [OF l(1) d assms(2), of call "dt_top s"]
  show ?thesis
  proof (cases "run_dtors call (map (entry s) xs) (dt_rest s)")
    case (Inl e)
    then show ?thesis using pl l(2) t by (simp add: dtor_pop_def Let_def)
  next
    case (Inr w)
    then obtain s' where s': "pop_loop n call (top_of ys) (dt_top s) (dt_top s) s = Inr (s', top_of ys, last xs)" "dt_rest s' = w"
      "\<forall>a. dn_next (dt_nodes s' a) = dn_next (dt_nodes s a)" "\<forall>a. a \<notin> set xs \<longrightarrow> dt_nodes s' a = dt_nodes s a" "dt_frames s' = Some c" "dt_top s' = dt_top s"
      using pl l(3) Cons by auto
    let ?h = "(dt_nodes s')(last xs := (dt_nodes s' (last xs))\<lparr>dn_next := c\<rparr>)"
    let ?s = "s'\<lparr>dt_nodes := ?h, dt_frames := Some x, dt_top := top_of ys\<rparr>"
    have "dtor_pop n call (top_of ys) s = Inr ?s" using s'(1,5,6) t nz by (simp add: dtor_pop_def Let_def upd_node_def)
    moreover have "links ?h x (xs @ cs)"
    proof (rule links_cut)
      show "links (dt_nodes s') x (xs @ ys)" "links (dt_nodes s') c cs"
        using s'(3) l(1,4) t(2) links_cong [of _ "dt_nodes s'" "dt_nodes s"] by simp_all
      show "xs \<noteq> []" "distinct xs" using Cons l(2) by auto
      then have "last xs \<in> set xs" by simp
      moreover have "set xs \<inter> set cs = {}" using l(2) by auto
      ultimately show "last xs \<notin> set cs" by blast
    qed
    moreover have ny: "\<forall>y \<in> set ys. ?h y = dt_nodes s y" using s'(4) l(2) Cons by (auto simp: disjoint_iff) 
    then have "links ?h (top_of ys) ys"
      using links_cong [of ys ?h "dt_nodes s"] links_append [OF l(1)] by simp
    moreover have "distinct (ys @ xs @ cs)" using l(2) by auto
    ultimately show ?thesis using Inr s'(2) ny by (auto simp: dstack_ok_def entry_def simp del: fun_upd_apply)
  qed
qed

lemma remove_loop_ends:
  assumes "links (dt_nodes s) frame ys" "distinct ys" "length ys \<le> n"
  shows "\<exists>s'. remove_loop n d p frame s = Inr s' \<and> map (entry s') ys = drop_entry (d, p) (map (entry s) ys) \<and>
    (\<forall>a. dn_next (dt_nodes s' a) = dn_next (dt_nodes s a)) \<and> (\<forall>a. a \<notin> set ys \<longrightarrow> entry s' a = entry s a) \<and>
    dt_rest s' = dt_rest s \<and> dt_top s' = dt_top s \<and> dt_frames s' = dt_frames s"
  using assms
proof (induction ys arbitrary: frame n)
  case Nil
  then show ?case by (subst remove_loop.simps) simp
next
  case (Cons y ys)
  show ?case
  proof (cases "(d, p) = entry s y")
    case True
    then show ?thesis using Cons.prems by (subst remove_loop.simps) (auto simp: entry_def upd_node_def)
  next
    case False
    obtain m where n: "n = Suc m" "length ys \<le> m" using Cons.prems(3) by (cases n) auto
    have "links (dt_nodes s) (dn_next (dt_nodes s y)) ys" "distinct ys" using Cons.prems by auto
    from Cons.IH [OF this n(2)] obtain s' where "remove_loop m d p (dn_next (dt_nodes s y)) s = Inr s'" "map (entry s') ys = drop_entry (d, p) (map (entry s) ys)"
      "\<forall>a. dn_next (dt_nodes s' a) = dn_next (dt_nodes s a)" "\<forall>a. a \<notin> set ys \<longrightarrow> entry s' a = entry s a"
      "dt_rest s' = dt_rest s" "dt_top s' = dt_top s" "dt_frames s' = dt_frames s" by blast
    then show ?thesis using False n(1) Cons.prems by (intro exI [of _ s'], subst remove_loop.simps) (auto simp: entry_def)
  qed
qed

lemma dtor_remove_stack:
  assumes "dstack_ok s ys cs" "length ys \<le> n"
  shows "\<exists>s'. dtor_remove n d p s = Inr s' \<and> dstack_ok s' ys cs \<and> map (entry s') ys = drop_entry (d, p) (map (entry s) ys) \<and> dt_rest s' = dt_rest s"
proof -
  have "links (dt_nodes s) (dt_top s) ys" "distinct ys" using assms(1) by (auto simp: dstack_ok_def)
  from remove_loop_ends [OF this assms(2), of d p] obtain s' where s': "remove_loop n d p (dt_top s) s = Inr s'"
    "map (entry s') ys = drop_entry (d, p) (map (entry s) ys)" "\<forall>a. dn_next (dt_nodes s' a) = dn_next (dt_nodes s a)"
    "dt_rest s' = dt_rest s" "dt_top s' = dt_top s" "dt_frames s' = dt_frames s" by blast
  have "links (dt_nodes s') q zs = links (dt_nodes s) q zs" for q zs using s'(3) by (intro links_cong) simp
  then have "dstack_ok s' ys cs" using assms(1) s'(5,6) by (simp add: dstack_ok_def split: option.splits)
  then show ?thesis using s' by (auto simp: dtor_remove_def)
qed

subsection \<open>Statements and their destructors\<close>


text \<open>A body that pushes two destructors and throws.\<close>

definition demo_stack :: "addr list dstack" where
  "demo_stack = \<lparr>dt_nodes = (\<lambda>_. \<lparr>dn_next = 0, dn_dtor = 0, dn_p = 0\<rparr>), dt_top = 0, dt_frames = None, dt_rest = []\<rparr>"

definition demo_frames :: "addr list dstack est" where
  "demo_frames = \<lparr>ex_frames = (\<lambda>_. \<lparr>ef_file = 0, ef_line = 0, ef_state = EXCEPTION_TRYING, ef_caught = False, ef_dtor = 0, ef_next = 0, ef_cause = None\<rparr>),
     ex_top = 50, ex_user = demo_stack\<rparr>"

definition demo_push :: "addr list dstack \<Rightarrow> addr list dstack" where
  "demo_push u = fst (dtor_push 1004 7 12 (fst (dtor_push 1000 7 11 u)))"


end
