(* ===== verification/Kstream.thy ===== *)
theory Kstream
  imports Kstring
begin

text \<open>
  Formatted output: \<^verbatim>\<open>src/libk/stream.c\<close>, and the string streams of \<^verbatim>\<open>src/libk/string.c\<close>. A stream is a table of two operations over its own
  state, \<^verbatim>\<open>putc\<close> and \<^verbatim>\<open>tell\<close>; a state here is the memory with that state, since the format and its strings are read from the memory a
  string stream writes to. The arguments behind the format are a list of words. The locale \<open>stream_laws\<close> is what the printing functions rely on; the null stream
  and the string stream are interpretations of it, and so is the console in \<open>Console\<close>.
\<close>

subsection \<open>The code\<close>

type_synonym 'x sstate = "mem \<times> 'x"

record 'x stream_ops_t =
  so_putc :: "u8 \<Rightarrow> 'x sstate \<Rightarrow> 'x sstate res"
  so_tell :: "'x \<Rightarrow> int"

definition stream_putc :: "'x stream_ops_t \<Rightarrow> u8 \<Rightarrow> 'x sstate \<Rightarrow> 'x sstate res" where
  "stream_putc ops c st = so_putc ops c st"

definition stream_tell :: "'x stream_ops_t \<Rightarrow> 'x sstate \<Rightarrow> int" where
  "stream_tell ops st = so_tell ops (snd st)"

text \<open>The string of the digits has a terminating zero, which is inside the object too.\<close>

definition digits :: "u8 list" where
  "digits = [0x30, 0x31, 0x32, 0x33, 0x34, 0x35, 0x36, 0x37, 0x38, 0x39, 0x61, 0x62, 0x63, 0x64, 0x65, 0x66, 0]"

definition digit :: "int \<Rightarrow> u8 res" where
  "digit i = (if 0 \<le> i \<and> i < int (length digits) then Inr (digits ! nat i) else Inl BadAccess)"

definition put_digit :: "'x stream_ops_t \<Rightarrow> int \<Rightarrow> 'x sstate \<Rightarrow> 'x sstate res" where
  "put_digit ops i st = bindE (digit i) (\<lambda>c. stream_putc ops c st)"

text \<open>\<^verbatim>\<open>abs\<close> of an unsigned number is the number.\<close>

fun stream_putuint :: "nat \<Rightarrow> 'x stream_ops_t \<Rightarrow> u32 \<Rightarrow> u32 \<Rightarrow> 'x sstate \<Rightarrow> 'x sstate res" where
  "stream_putuint n ops base i st =
     (if i < base then put_digit ops (uint i) st
      else case n of 0 \<Rightarrow> Inl OutOfFuel
      | Suc n \<Rightarrow> bindE (stream_putuint n ops base (i div base) st) (\<lambda>st. put_digit ops (uint (i mod base)) st))"

fun stream_putulong :: "nat \<Rightarrow> 'x stream_ops_t \<Rightarrow> u64 \<Rightarrow> u64 \<Rightarrow> 'x sstate \<Rightarrow> 'x sstate res" where
  "stream_putulong n ops base i st =
     (if i < base then put_digit ops (uint i) st
      else case n of 0 \<Rightarrow> Inl OutOfFuel
      | Suc n \<Rightarrow> bindE (stream_putulong n ops base (i div base) st) (\<lambda>st. put_digit ops (uint (i mod base)) st))"

fun stream_putint :: "nat \<Rightarrow> 'x stream_ops_t \<Rightarrow> int \<Rightarrow> int \<Rightarrow> 'x sstate \<Rightarrow> 'x sstate res" where
  "stream_putint n ops base i st =
     (if i < base then
        bindE (if i < 0 then stream_putc ops 0x2D st else Inr st) (\<lambda>st. put_digit ops i st)
      else case n of 0 \<Rightarrow> Inl OutOfFuel
      | Suc n \<Rightarrow> bindE (stream_putint n ops base (i div base) st) (\<lambda>st. put_digit ops (i mod base) st))"

declare stream_putuint.simps [simp del] stream_putulong.simps [simp del] stream_putint.simps [simp del]

fun stream_putstr :: "nat \<Rightarrow> 'x stream_ops_t \<Rightarrow> addr \<Rightarrow> 'x sstate \<Rightarrow> 'x sstate res" where
  "stream_putstr 0 ops s st = Inl OutOfFuel"
| "stream_putstr (Suc n) ops s st =
     (let c = fst st s; s = s + 1 in
      if c \<noteq> 0 then bindE (stream_putc ops c st) (stream_putstr n ops s) else Inr st)"

text \<open>The literal \<^verbatim>\<open>"0x"\<close> is in the program's own data: its two characters are written here one after the other.\<close>

definition stream_putptr :: "nat \<Rightarrow> 'x stream_ops_t \<Rightarrow> addr \<Rightarrow> 'x sstate \<Rightarrow> 'x sstate res" where
  "stream_putptr n ops p st =
     bindE (stream_putc ops 0x30 st) (\<lambda>st. bindE (stream_putc ops 0x78 st) (\<lambda>st. stream_putulong n ops 16 (ucast p) st))"

definition va_arg :: "u32 list \<Rightarrow> (u32 \<times> u32 list) res" where
  "va_arg ap = (case ap of [] \<Rightarrow> Inl BadAccess | a # ap \<Rightarrow> Inr (a, ap))"

definition store_int :: "addr \<Rightarrow> int \<Rightarrow> mem \<Rightarrow> mem" where
  "store_int a v m = (let w = word_of_int v :: u32 in
     m(a := ucast w, a + 1 := ucast (drop_bit 8 w), a + 2 := ucast (drop_bit 16 w), a + 3 := ucast (drop_bit 24 w)))"

definition directive :: "nat \<Rightarrow> 'x stream_ops_t \<Rightarrow> int \<Rightarrow> u8 \<Rightarrow> u32 list \<Rightarrow> 'x sstate \<Rightarrow> ('x sstate \<times> u32 list) res" where
  "directive n ops start c ap st =
     (let arg = (\<lambda>f. bindE (va_arg ap) (\<lambda>(a, ap). bindE (f a) (\<lambda>st. Inr (st, ap)))) in
      if c = 0x25 then bindE (stream_putc ops 0x25 st) (\<lambda>st. Inr (st, ap))
      else if c = 0x63 then arg (\<lambda>a. stream_putc ops (ucast a) st)
      else if c = 0x64 \<or> c = 0x69 then arg (\<lambda>a. stream_putint n ops 10 (sint a) st)
      else if c = 0x6F then arg (\<lambda>a. stream_putuint n ops 8 a st)
      else if c = 0x78 then arg (\<lambda>a. stream_putuint n ops 16 a st)
      else if c = 0x70 then arg (\<lambda>a. stream_putptr n ops a st)
      else if c = 0x73 then arg (\<lambda>a. stream_putstr n ops a st)
      else if c = 0x6E then arg (\<lambda>a. Inr (store_int a (stream_tell ops st - start) (fst st), snd st))
      else bindE (stream_putc ops c st) (\<lambda>st. Inr (st, ap)))"

fun vprintf_loop :: "nat \<Rightarrow> 'x stream_ops_t \<Rightarrow> int \<Rightarrow> addr \<Rightarrow> u32 list \<Rightarrow> 'x sstate \<Rightarrow> 'x sstate res" where
  "vprintf_loop 0 ops start fmt ap st = Inl OutOfFuel"
| "vprintf_loop (Suc n) ops start fmt ap st =
     (let c = fst st fmt; fmt = fmt + 1 in
      if c = 0 then Inr st
      else if c = 0x25 then
        let c = fst st fmt; fmt = fmt + 1 in bindE (directive n ops start c ap st) (\<lambda>(st, ap). vprintf_loop n ops start fmt ap st)
      else bindE (stream_putc ops c st) (\<lambda>st. vprintf_loop n ops start fmt ap st))"

definition stream_vprintf :: "nat \<Rightarrow> 'x stream_ops_t \<Rightarrow> addr \<Rightarrow> u32 list \<Rightarrow> 'x sstate \<Rightarrow> ('x sstate \<times> int) res" where
  "stream_vprintf n ops fmt ap st =
     (let start = stream_tell ops st in bindE (vprintf_loop n ops start fmt ap st) (\<lambda>st. Inr (st, stream_tell ops st - start)))"

definition stream_printf :: "nat \<Rightarrow> 'x stream_ops_t \<Rightarrow> addr \<Rightarrow> u32 list \<Rightarrow> 'x sstate \<Rightarrow> ('x sstate \<times> int) res" where
  "stream_printf n ops fmt ap st = stream_vprintf n ops fmt ap st"

text \<open>The null stream.\<close>

definition null_putc :: "u8 \<Rightarrow> int sstate \<Rightarrow> int sstate res" where
  "null_putc c st = Inr (fst st, snd st + 1)"

definition null_tell :: "int \<Rightarrow> int" where
  "null_tell chars = chars"

definition null_ops :: "int stream_ops_t" where
  "null_ops = \<lparr>so_putc = null_putc, so_tell = null_tell\<rparr>"

definition null_stream :: int where
  "null_stream = 0"

text \<open>String streams.\<close>

record stream_string =
  ss_buf :: addr
  ss_size :: int
  ss_chars :: int

definition string_putc :: "u8 \<Rightarrow> stream_string sstate \<Rightarrow> stream_string sstate res" where
  "string_putc c st = (case st of (m, x) \<Rightarrow>
     let m = (if ss_chars x < ss_size x then m(ss_buf x + word_of_int (ss_chars x) := c) else m) in Inr (m, x\<lparr>ss_chars := ss_chars x + 1\<rparr>))"

definition string_tell :: "stream_string \<Rightarrow> int" where
  "string_tell x = ss_chars x"

definition string_ops :: "stream_string stream_ops_t" where
  "string_ops = \<lparr>so_putc = string_putc, so_tell = string_tell\<rparr>"

definition vsnprintf :: "nat \<Rightarrow> addr \<Rightarrow> int \<Rightarrow> addr \<Rightarrow> u32 list \<Rightarrow> mem \<Rightarrow> (mem \<times> int) res" where
  "vsnprintf n buf size' fmt ap m =
     bindE (stream_vprintf n string_ops fmt ap (m, \<lparr>ss_buf = buf, ss_size = size', ss_chars = 0\<rparr>)) (\<lambda>((m, x), len).
       let m = (if len < size' then m(ss_buf x + word_of_int (ss_chars x) := 0) else m) in Inr (m, ss_chars x))"

definition snprintf :: "nat \<Rightarrow> addr \<Rightarrow> int \<Rightarrow> addr \<Rightarrow> u32 list \<Rightarrow> mem \<Rightarrow> (mem \<times> int) res" where
  "snprintf n buf size' fmt ap m = vsnprintf n buf size' fmt ap m"

subsection \<open>What is written\<close>

text \<open>The numeral of a number, the text of a format with its arguments, and writing a list of characters.\<close>

function num_str :: "nat \<Rightarrow> nat \<Rightarrow> u8 list" where
  "num_str b i = (if i < b \<or> b < 2 then [digits ! i] else num_str b (i div b) @ [digits ! (i mod b)])"
  by pat_completeness auto
termination by (relation "measure snd") auto

declare num_str.simps [simp del]

definition digit_val :: "u8 \<Rightarrow> nat" where
  "digit_val c = (if c < 0x3A then unat (c - 0x30) else unat (c - 0x57))"

definition read_num :: "nat \<Rightarrow> u8 list \<Rightarrow> nat" where
  "read_num b cs = foldl (\<lambda>v c. v * b + digit_val c) 0 cs"

datatype farg = FInt u32 | FStr addr "u8 list"

fun arg_word :: "farg \<Rightarrow> u32" where
  "arg_word (FInt w) = w"
| "arg_word (FStr p s) = p"

definition fmt_arg :: "u8 \<Rightarrow> farg \<Rightarrow> u8 list option" where
  "fmt_arg d a =
     (if d = 0x63 then Some [ucast (arg_word a)]
      else if d = 0x64 \<or> d = 0x69 then if 0 \<le> sint (arg_word a) then Some (num_str 10 (nat (sint (arg_word a)))) else None
      else if d = 0x6F then Some (num_str 8 (unat (arg_word a)))
      else if d = 0x78 then Some (num_str 16 (unat (arg_word a)))
      else if d = 0x70 then Some (0x30 # 0x78 # num_str 16 (unat (arg_word a)))
      else case a of FStr p s \<Rightarrow> Some s | FInt w \<Rightarrow> None)"

definition fmt_dir :: "u8 \<Rightarrow> farg list \<Rightarrow> (u8 list \<times> farg list) option" where
  "fmt_dir d args =
     (if d \<in> {0x63, 0x64, 0x69, 0x6F, 0x78, 0x70, 0x73} then
        case args of [] \<Rightarrow> None | a # args \<Rightarrow> map_option (\<lambda>s. (s, args)) (fmt_arg d a)
      else if d = 0x6E \<or> d = 0 then None else Some ([d], args))"

fun fmt_out :: "u8 list \<Rightarrow> farg list \<Rightarrow> u8 list option" where
  "fmt_out [] args = Some []"
| "fmt_out (c # f) args =
     (if c \<noteq> 0x25 then map_option (Cons c) (fmt_out f args)
      else case f of [] \<Rightarrow> None
      | d # f' \<Rightarrow> Option.bind (fmt_dir d args) (\<lambda>(s, args). map_option (append s) (fmt_out f' args)))"

fun put_all :: "'x stream_ops_t \<Rightarrow> u8 list \<Rightarrow> 'x sstate \<Rightarrow> 'x sstate res" where
  "put_all ops [] st = Inr st"
| "put_all ops (c # cs) st = bindE (stream_putc ops c st) (put_all ops cs)"

lemma bindE_put_Nil [simp]: "bindE x (put_all ops []) = x"
  by (simp add: bindE_def split: sum.split)

lemma put_all_append: "put_all ops (cs @ ds) st = bindE (put_all ops cs st) (put_all ops ds)"
  by (induction cs arbitrary: st) (auto simp: bindE_def split: sum.split)

lemma put_digit_nat: "i < 16 \<Longrightarrow> put_digit ops (int i) = stream_putc ops (digits ! i)"
  by (simp add: put_digit_def digit_def digits_def fun_eq_iff)

lemma put_digit_word: "unat w < 16 \<Longrightarrow> put_digit ops (uint w) = stream_putc ops (digits ! unat w)"
  using put_digit_nat [of "unat w"] by (metis uint_nat)

text \<open>The three printing functions are one function on natural numbers.\<close>

fun putnum :: "nat \<Rightarrow> 'x stream_ops_t \<Rightarrow> nat \<Rightarrow> nat \<Rightarrow> 'x sstate \<Rightarrow> 'x sstate res" where
  "putnum n ops b i st =
     (if i < b then stream_putc ops (digits ! i) st
      else case n of 0 \<Rightarrow> Inl OutOfFuel | Suc n \<Rightarrow> bindE (putnum n ops b (i div b) st) (stream_putc ops (digits ! (i mod b))))"

declare putnum.simps [simp del]

lemma putnum_str: "2 \<le> b \<Longrightarrow> i < b ^ Suc n \<Longrightarrow> putnum n ops b i st = put_all ops (num_str b i) st"
proof (induction n arbitrary: i)
  case 0
  then show ?case by (simp add: putnum.simps num_str.simps)
next
  case (Suc n)
  have "i div b < b ^ Suc n" using Suc.prems(2) by (simp add: less_mult_imp_div_less mult.commute)
  from Suc.IH [OF Suc.prems(1) this] Suc.prems(1) show ?case
    by (subst putnum.simps, subst num_str.simps) (auto simp: put_all_append bindE_def split: sum.split)
qed

lemma mod_digit: "1 \<le> b \<Longrightarrow> b \<le> 16 \<Longrightarrow> i mod b < (16 :: nat)"
  using mod_less_divisor [of b i] by linarith

lemma putuint_num: "1 \<le> unat b \<Longrightarrow> unat b \<le> 16 \<Longrightarrow> stream_putuint n ops b i st = putnum n ops (unat b) (unat i) st"
proof (induction n arbitrary: i)
  case (Suc n)
  have "unat (i mod b) < 16" using Suc.prems by (simp add: unat_mod mod_digit)
  then show ?case using Suc
    by (subst stream_putuint.simps, subst putnum.simps) (auto simp: word_less_nat_alt unat_div unat_mod put_digit_word)
qed (auto simp: stream_putuint.simps putnum.simps word_less_nat_alt put_digit_word)

lemma putulong_num: "1 \<le> unat b \<Longrightarrow> unat b \<le> 16 \<Longrightarrow> stream_putulong n ops b i st = putnum n ops (unat b) (unat i) st"
proof (induction n arbitrary: i)
  case (Suc n)
  have "unat (i mod b) < 16" using Suc.prems by (simp add: unat_mod mod_digit)
  then show ?case using Suc
    by (subst stream_putulong.simps, subst putnum.simps) (auto simp: word_less_nat_alt unat_div unat_mod put_digit_word)
qed (auto simp: stream_putulong.simps putnum.simps word_less_nat_alt put_digit_word)

lemma putint_num: "1 \<le> b \<Longrightarrow> b \<le> 16 \<Longrightarrow> stream_putint n ops (int b) (int i) st = putnum n ops b i st"
proof (induction n arbitrary: i)
  case (Suc n)
  have "i mod b < 16" using Suc.prems by (simp add: mod_digit)
  then show ?case using Suc
    by (subst stream_putint.simps, subst putnum.simps) (auto simp: put_digit_nat simp flip: zdiv_int zmod_int)
qed (auto simp: stream_putint.simps putnum.simps put_digit_nat)

lemma digit_val_digit: "i < 16 \<Longrightarrow> digit_val (digits ! i) = i"
proof -
  have "\<forall>i \<in> set [0..<16]. digit_val (digits ! i) = i" by (simp add: upt_rec digits_def digit_val_def)
  then show "i < 16 \<Longrightarrow> ?thesis" by simp
qed

lemma read_num_str: "2 \<le> b \<Longrightarrow> b \<le> 16 \<Longrightarrow> read_num b (num_str b i) = i"
proof (induction b i rule: num_str.induct)
  case (1 b i)
  show ?case
  proof (cases "i < b")
    case True
    then show ?thesis using 1 by (subst num_str.simps) (simp add: read_num_def digit_val_digit)
  next
    case False
    then have "read_num b (num_str b (i div b)) = i div b" using 1 by simp
    then show ?thesis using False 1(2,3) by (subst num_str.simps) (simp add: read_num_def digit_val_digit mod_digit)
  qed
qed

text \<open>
  C33: Printed numbers read back. In every base from 2 to 16 the digits that \<^verbatim>\<open>stream_putuint\<close>, \<^verbatim>\<open>stream_putulong\<close> and, for numbers that are not
  negative, \<^verbatim>\<open>stream_putint\<close> write, the recursion being at most 32 and 64 deep, are a numeral that denotes the number. For a negative number
  \<^verbatim>\<open>stream_putint\<close> writes the sign and then reads outside of the table of digits.
\<close>

theorem printed_numbers_read_back:
  assumes "2 \<le> b" "b \<le> 16"
  shows "stream_putuint 32 ops (of_nat b) i st = put_all ops (num_str b (unat i)) st \<and> read_num b (num_str b (unat i)) = unat i \<and>
    stream_putulong 64 ops (of_nat b) j st = put_all ops (num_str b (unat j)) st \<and> read_num b (num_str b (unat j)) = unat j \<and>
    (0 \<le> k \<and> k < 2 ^ 31 \<longrightarrow> stream_putint 32 ops (int b) k st = put_all ops (num_str b (nat k)) st \<and> read_num b (num_str b (nat k)) = nat k) \<and>
    (k < 0 \<longrightarrow> stream_putint 32 ops (int b) k st = bindE (stream_putc ops 0x2D st) (\<lambda>st. Inl BadAccess))"
proof -
  have b: "unat (of_nat b :: u32) = b" "unat (of_nat b :: u64) = b" using assms(2) by (simp_all add: unat_of_nat)
  have p: "v < b ^ Suc w" if "v < 2 ^ Suc w" for v w using that power_mono [of 2 b "Suc w"] assms(1) by (metis less_le_trans zero_le_numeral)
  have i: "unat i < 2 ^ Suc 32" "unat j < 2 ^ Suc 64" using unsigned_less [of i, where ?'a = nat] unsigned_less [of j, where ?'a = nat] by simp_all
  have "stream_putuint 32 ops (of_nat b) i st = put_all ops (num_str b (unat i)) st"
    using putuint_num [of "of_nat b" 32 ops i st] putnum_str [OF assms(1) p [OF i(1)]] b assms by simp
  moreover have "stream_putulong 64 ops (of_nat b) j st = put_all ops (num_str b (unat j)) st"
    using putulong_num [of "of_nat b" 64 ops j st] putnum_str [OF assms(1) p [OF i(2)]] b assms by simp
  moreover have "stream_putint 32 ops (int b) k st = put_all ops (num_str b (nat k)) st" if "0 \<le> k \<and> k < 2 ^ 31"
    using that putint_num [of b 32 ops "nat k" st] putnum_str [OF assms(1) p [of "nat k" 32], of ops st] assms by (simp add: nat_less_iff)
  moreover have "stream_putint 32 ops (int b) k st = bindE (stream_putc ops 0x2D st) (\<lambda>st. Inl BadAccess)" if "k < 0"
    using that assms by (subst stream_putint.simps) (simp add: put_digit_def [abs_def] digit_def)
  ultimately show ?thesis using assms by (simp add: read_num_str)
qed

subsection \<open>The interface of streams\<close>

definition span :: "addr \<Rightarrow> nat \<Rightarrow> addr set" where
  "span p n = (\<lambda>i. p + of_nat i) ` {..n}"

lemma span_Suc: "span p (Suc n) = insert p (span (p + 1) n)"
  by (auto simp: span_def image_def Bex_def algebra_simps atMost_Suc_eq_insert_0)

lemma cstr_outside: "cstr m p s \<Longrightarrow> (\<And>a. a \<in> span p (length s) \<Longrightarrow> m' a = m a) \<Longrightarrow> cstr m' p s"
  by (induction s arbitrary: p) (auto simp: span_Suc, simp add: span_def)

text \<open>An argument can be printed: a string is terminated, short enough, and not in the places \<open>A\<close> the stream writes to.\<close>

fun arg_ok :: "mem \<Rightarrow> addr set \<Rightarrow> nat \<Rightarrow> farg \<Rightarrow> bool" where
  "arg_ok m A n (FInt w) = True"
| "arg_ok m A n (FStr p s) = (cstr m p s \<and> length s < n \<and> span p (length s) \<inter> A = {})"

lemma arg_ok_outside: "arg_ok m A n a \<Longrightarrow> \<forall>q. q \<notin> A \<longrightarrow> m' q = m q \<Longrightarrow> arg_ok m' A n a"
proof (cases a)
  case (FStr p s)
  assume a: "arg_ok m A n a" "\<forall>q. q \<notin> A \<longrightarrow> m' q = m q"
  have "cstr m' p s" by (rule cstr_outside [of m]) (use a FStr in \<open>simp, fastforce\<close>)
  then show ?thesis using a(1) FStr by simp
qed simp

lemma arg_ok_mono: "arg_ok m A n a \<Longrightarrow> n \<le> n' \<Longrightarrow> arg_ok m A n' a"
  by (cases a) auto

lemma fmt_dir_args: "fmt_dir d args = Some (s, args') \<Longrightarrow> set args' \<subseteq> set args"
  by (auto simp: fmt_dir_def split: if_splits list.splits)

lemma putnum_32:
  assumes "2 \<le> b" "32 \<le> n" "i < 2 ^ 32"
  shows "putnum n ops b i st = put_all ops (num_str b i) st"
proof (rule putnum_str [OF assms(1)])
  have "i < 2 ^ Suc n" using assms(2,3) power_increasing [of 32 "Suc n" "2 :: nat"] by simp
  also have "\<dots> \<le> b ^ Suc n" using assms(1) by (intro power_mono) simp_all
  finally show "i < b ^ Suc n" .
qed

lemma put_uint: "32 \<le> n \<Longrightarrow> 2 \<le> unat b \<Longrightarrow> unat b \<le> 16 \<Longrightarrow> stream_putuint n ops b i st = put_all ops (num_str (unat b) (unat i)) st"
  using putuint_num [of b n ops i st] putnum_32 [of "unat b" n "unat i" ops st] unsigned_less [of i, where ?'a = nat] by simp

lemma put_ulong: "32 \<le> n \<Longrightarrow> stream_putulong n ops 16 (ucast (w :: u32)) st = put_all ops (num_str 16 (unat w)) st"
  using putulong_num [of 16 n ops "ucast w" st] putnum_32 [of 16 n "unat w" ops st] unsigned_less [of w, where ?'a = nat] by (simp add: unsigned_ucast_eq take_bit_eq_mod)

lemma put_int: "32 \<le> n \<Longrightarrow> 0 \<le> sint (w :: u32) \<Longrightarrow> stream_putint n ops 10 (sint w) st = put_all ops (num_str 10 (nat (sint w))) st"
  using putint_num [of 10 n ops "nat (sint w)" st] putnum_32 [of 10 n "nat (sint w)" ops st] sint_less [of w] by (simp add: nat_less_iff)

locale stream_laws =
  fixes ops :: "'x stream_ops_t" and inv :: "'x \<Rightarrow> bool" and own :: "'x \<Rightarrow> addr set"
  assumes putc_ok: "inv x \<Longrightarrow> \<exists>m' x'. so_putc ops c (m, x) = Inr (m', x') \<and> inv x' \<and> own x' = own x \<and> so_tell ops x' = so_tell ops x + 1 \<and>
    (\<forall>a. a \<notin> own x \<longrightarrow> m' a = m a)"
begin

lemma put_all_ok:
  "inv x \<Longrightarrow> \<exists>m' x'. put_all ops cs (m, x) = Inr (m', x') \<and> inv x' \<and> own x' = own x \<and> so_tell ops x' = so_tell ops x + int (length cs) \<and>
    (\<forall>a. a \<notin> own x \<longrightarrow> m' a = m a)"
proof (induction cs arbitrary: m x)
  case (Cons c cs)
  obtain m' x' where 1: "so_putc ops c (m, x) = Inr (m', x')" "inv x'" "own x' = own x" "so_tell ops x' = so_tell ops x + 1" "\<forall>a. a \<notin> own x \<longrightarrow> m' a = m a"
    using putc_ok [OF Cons.prems] by blast
  obtain m'' x'' where "put_all ops cs (m', x') = Inr (m'', x'')" "inv x''" "own x'' = own x" "so_tell ops x'' = so_tell ops x' + int (length cs)"
    "\<forall>a. a \<notin> own x \<longrightarrow> m'' a = m' a" using Cons.IH [OF 1(2), of m'] unfolding 1(3) by blast
  then show ?case using 1 by (intro exI [of _ m'']) (intro exI [of _ x''], simp add: stream_putc_def)
qed simp

lemma putstr_ok:
  "inv x \<Longrightarrow> cstr m p s \<Longrightarrow> length s < n \<Longrightarrow> span p (length s) \<inter> own x = {} \<Longrightarrow> stream_putstr n ops p (m, x) = put_all ops s (m, x)"
proof (induction s arbitrary: n p m x)
  case Nil
  then show ?case by (cases n) (simp_all add: Let_def)
next
  case (Cons c s)
  obtain k where n: "n = Suc k" "length s < k" using Cons.prems(3) by (cases n) simp_all
  obtain m' x' where 1: "so_putc ops c (m, x) = Inr (m', x')" "inv x'" "own x' = own x" "\<forall>a. a \<notin> own x \<longrightarrow> m' a = m a"
    using putc_ok [OF Cons.prems(1)] by blast
  have sp: "span (p + 1) (length s) \<inter> own x = {}" using Cons.prems(4) by (simp add: span_Suc)
  have "cstr m' (p + 1) s"
  proof (rule cstr_outside [of m])
    show "cstr m (p + 1) s" using Cons.prems(2) by simp
    show "m' a = m a" if "a \<in> span (p + 1) (length s)" for a using that sp 1(4) by blast
  qed
  then have "stream_putstr k ops (p + 1) (m', x') = put_all ops s (m', x')" using Cons.IH 1(2,3) n(2) sp by simp
  then show ?case using Cons.prems(2) 1(1) n(1) by (simp add: stream_putc_def)
qed

lemma directive_ok:
  assumes "inv x" "fmt_dir d args = Some (s, args')" "\<forall>a \<in> set args. arg_ok m (own x) n a" "32 \<le> n"
  shows "directive n ops start d (map arg_word args) (m, x) = bindE (put_all ops s (m, x)) (\<lambda>st. Inr (st, map arg_word args'))"
proof (cases "d \<in> {0x63, 0x64, 0x69, 0x6F, 0x78, 0x70, 0x73}")
  case False
  then have "d \<noteq> 0x6E" "d \<noteq> 0" "s = [d]" "args' = args" using assms(2) by (auto simp: fmt_dir_def split: if_splits)
  then show ?thesis using False by (simp add: directive_def Let_def)
next
  case True
  then obtain a where a: "args = a # args'" "fmt_arg d a = Some s" using assms(2) by (auto simp: fmt_dir_def split: list.splits)
  have ok: "arg_ok m (own x) n a" using assms(3) a(1) by simp
  show ?thesis using True a assms(1,4) ok putstr_ok [of x m]
    by (auto simp: directive_def fmt_arg_def va_arg_def Let_def put_uint put_ulong put_int stream_putptr_def bindE_assoc split: if_splits farg.splits)
qed

lemma vprintf_loop_ok:
  "inv x \<Longrightarrow> cstr m p f \<Longrightarrow> span p (length f) \<inter> own x = {} \<Longrightarrow> fmt_out f args = Some s \<Longrightarrow>
   \<forall>a \<in> set args. arg_ok m (own x) (n - length f) a \<Longrightarrow> length f + 32 < n \<Longrightarrow>
   vprintf_loop n ops start p (map arg_word args) (m, x) = put_all ops s (m, x)"
proof (induction f args arbitrary: n p m x s rule: fmt_out.induct)
  case (1 args)
  then show ?case by (cases n) auto
next
  case (2 c f args)
  obtain k where n: "n = Suc k" "length f + 32 < k" "k - length f = n - length (c # f)" using "2.prems"(6) by (cases n) auto
  have c: "c \<noteq> 0" "m p = c" "cstr m (p + 1) f" "span (p + 1) (length f) \<inter> own x = {}" using "2.prems"(2,3) by (auto simp: span_Suc)
  show ?case
  proof (cases "c = 0x25")
    case False
    then obtain s' where s: "fmt_out f args = Some s'" "s = c # s'" using "2.prems"(4) by auto
    obtain m' x' where 1: "so_putc ops c (m, x) = Inr (m', x')" "inv x'" "own x' = own x" "\<forall>a. a \<notin> own x \<longrightarrow> m' a = m a"
      using putc_ok [OF "2.prems"(1)] by blast
    have "cstr m' (p + 1) f" by (rule cstr_outside [OF c(3)]) (use c(4) 1(4) in blast)
    moreover have "\<forall>a \<in> set args. arg_ok m' (own x') (k - length f) a"
      using "2.prems"(5) 1(3,4) n(3) arg_ok_outside by metis
    ultimately have "vprintf_loop k ops start (p + 1) (map arg_word args) (m', x') = put_all ops s' (m', x')"
      using "2.IH"(1) [OF False 1(2) _ _ s(1)] c(4) 1(3) n(2) by simp
    then show ?thesis using n(1) c(1,2) False 1(1) s(2) by (simp add: Let_def stream_putc_def)
  next
    case True
    with "2.prems"(4) obtain d f' o' args' s' where f: "f = d # f'" "fmt_dir d args = Some (o', args')" "fmt_out f' args' = Some s'" "s = o' @ s'"
      by (auto split: list.splits simp: bind_eq_Some_conv)
    have d: "m (p + 1) = d" "cstr m (2 + p) f'" "span (2 + p) (length f') \<inter> own x = {}" using c(3,4) f(1) by (auto simp: span_Suc)
    have aok: "\<forall>a \<in> set args. arg_ok m (own x) k a" using "2.prems"(5) arg_ok_mono [of m "own x" "n - length (c # f)" _ k] n(3) by simp
    have dir: "directive k ops start d (map arg_word args) (m, x) = bindE (put_all ops o' (m, x)) (\<lambda>st. Inr (st, map arg_word args'))"
      using directive_ok [OF "2.prems"(1) f(2) aok] n(2) by simp
    obtain m' x' where 1: "put_all ops o' (m, x) = Inr (m', x')" "inv x'" "own x' = own x" "\<forall>a. a \<notin> own x \<longrightarrow> m' a = m a"
      using put_all_ok [OF "2.prems"(1)] by blast
    have "cstr m' (2 + p) f'" by (rule cstr_outside [OF d(2)]) (use d(3) 1(4) in blast)
    moreover have "\<forall>a \<in> set args'. arg_ok m' (own x') (k - length f') a"
    proof
      fix a
      assume "a \<in> set args'"
      then have "arg_ok m (own x) (k - length f') a"
        using "2.prems"(5) fmt_dir_args [OF f(2)] arg_ok_mono [of m "own x" "n - length (c # f)" a "k - length f'"] n(3) f(1) by auto
      then show "arg_ok m' (own x') (k - length f') a" using arg_ok_outside 1(4) unfolding 1(3) by blast
    qed
    ultimately have "vprintf_loop k ops start (2 + p) (map arg_word args') (m', x') = put_all ops s' (m', x')"
      using "2.IH"(2) [OF _ f(1) f(2) _ 1(2) _ _ f(3)] True d(3) 1(3) n(2) f(1) by simp
    then show ?thesis using n(1) c(1,2) True 1(1) f d(1) dir by (simp add: Let_def put_all_append)
  qed
qed

text \<open>The format is printed: the text goes to the stream, and its length is the result.\<close>

definition printable :: "mem \<Rightarrow> 'x \<Rightarrow> nat \<Rightarrow> addr \<Rightarrow> u8 list \<Rightarrow> farg list \<Rightarrow> bool" where
  "printable m x n p f args \<longleftrightarrow> inv x \<and> cstr m p f \<and> span p (length f) \<inter> own x = {} \<and> (\<forall>a \<in> set args. arg_ok m (own x) (n - length f) a) \<and> length f + 32 < n"

lemma vprintf_ok:
  assumes "printable m x n p f args" "fmt_out f args = Some s"
  shows "\<exists>st. put_all ops s (m, x) = Inr st \<and> stream_vprintf n ops p (map arg_word args) (m, x) = Inr (st, int (length s))"
proof -
  have "vprintf_loop n ops (so_tell ops x) p (map arg_word args) (m, x) = put_all ops s (m, x)"
    using assms by (intro vprintf_loop_ok) (auto simp: printable_def)
  moreover obtain m' x' where "put_all ops s (m, x) = Inr (m', x')" "so_tell ops x' = so_tell ops x + int (length s)"
    using put_all_ok [of x s m] assms(1) by (auto simp: printable_def)
  ultimately show ?thesis by (simp add: stream_vprintf_def stream_tell_def)
qed

end

interpretation null: stream_laws null_ops "\<lambda>_. True" "\<lambda>_. {}"
  by unfold_locales (simp add: null_ops_def null_putc_def null_tell_def)

definition buf_of :: "stream_string \<Rightarrow> addr set" where
  "buf_of x = (\<lambda>i. ss_buf x + of_nat i) ` {..<nat (ss_size x)}"

interpretation str: stream_laws string_ops "\<lambda>x. 0 \<le> ss_chars x" buf_of
proof
  fix x :: stream_string and c m
  assume x: "0 \<le> ss_chars x"
  have "ss_buf x + word_of_int (ss_chars x) \<in> buf_of x" if "ss_chars x < ss_size x"
    using that x by (auto simp: buf_of_def image_iff intro!: bexI [of _ "nat (ss_chars x)"])
  then show "\<exists>m' x'. so_putc string_ops c (m, x) = Inr (m', x') \<and> 0 \<le> ss_chars x' \<and> buf_of x' = buf_of x \<and>
      so_tell string_ops x' = so_tell string_ops x + 1 \<and> (\<forall>a. a \<notin> buf_of x \<longrightarrow> m' a = m a)"
    using x by (auto simp: string_ops_def string_putc_def string_tell_def buf_of_def Let_def)
qed

lemma string_put_all:
  "0 \<le> ss_chars x \<Longrightarrow> ss_size x \<le> 2 ^ 31 \<Longrightarrow> \<exists>m'. put_all string_ops s (m, x) = Inr (m', x\<lparr>ss_chars := ss_chars x + int (length s)\<rparr>) \<and>
    (\<forall>i < nat (ss_size x). m' (ss_buf x + of_nat i) =
      (if nat (ss_chars x) \<le> i \<and> i < nat (ss_chars x) + length s then s ! (i - nat (ss_chars x)) else m (ss_buf x + of_nat i)))"
proof (induction s arbitrary: m x)
  case (Cons c s)
  define k where "k = nat (ss_chars x)"
  let ?x = "x\<lparr>ss_chars := ss_chars x + 1\<rparr>"
  define m1 where "m1 = (if ss_chars x < ss_size x then m(ss_buf x + of_nat k := c) else m)"
  have k: "ss_chars x = int k" using Cons.prems(1) by (simp add: k_def)
  have p: "stream_putc string_ops c (m, x) = Inr (m1, ?x)" by (simp add: stream_putc_def string_ops_def string_putc_def m1_def k)
  obtain m' where m': "put_all string_ops s (m1, ?x) = Inr (m', x\<lparr>ss_chars := ss_chars x + 1 + int (length s)\<rparr>)"
    "\<forall>i < nat (ss_size x). m' (ss_buf x + of_nat i) = (if Suc k \<le> i \<and> i < Suc k + length s then s ! (i - Suc k) else m1 (ss_buf x + of_nat i))"
    using Cons.IH [of ?x m1] Cons.prems by (auto simp: k nat_add_distrib)
  have "m' (ss_buf x + of_nat i) = (if k \<le> i \<and> i < k + length (c # s) then (c # s) ! (i - k) else m (ss_buf x + of_nat i))" if i: "i < nat (ss_size x)" for i
  proof -
    have "(of_nat i = (of_nat k :: addr)) = (i = k)" if "k < nat (ss_size x)"
      using that i Cons.prems(2) addr_offset_inj [of 0 i k] by auto
    then have "m1 (ss_buf x + of_nat i) = (if i = k then c else m (ss_buf x + of_nat i))" using i by (auto simp: m1_def k)
    then show ?thesis using m'(2) i by (auto simp: nth_Cons' not_less_eq_eq)
  qed
  then show ?case using p m'(1) by (intro exI [of _ m']) (simp add: k add.assoc)
qed simp

text \<open>
  C32: Printing into a buffer. For a format and arguments that can be printed (strings terminated, the format and the strings outside the buffer, no negative number, no \<^verbatim>\<open>%n\<close>)
  \<^verbatim>\<open>vsnprintf\<close> returns the length of the text; the buffer has its beginning, as much as fits, and behind it a zero when the text is shorter than the
  buffer, but none when it is not; no place outside the buffer changes.
\<close>

theorem vsnprintf_formats:
  assumes "fmt_out f args = Some s" "0 \<le> size'" "size' \<le> 2 ^ 31" "cstr m p f" "length f + 32 < n"
    and "\<And>i. i \<le> length f \<Longrightarrow> p + of_nat i \<notin> B" "\<forall>a \<in> set args. arg_ok m B (n - length f) a"
    and B: "B = (\<lambda>i. buf + of_nat i) ` {..<nat size'}"
  shows "\<exists>m'. vsnprintf n buf size' p (map arg_word args) m = Inr (m', int (length s)) \<and>
    (\<forall>i < nat size'. m' (buf + of_nat i) = (if i < length s then s ! i else if i = length s then 0 else m (buf + of_nat i))) \<and>
    (\<forall>a. a \<notin> B \<longrightarrow> m' a = m a)"
proof -
  let ?x = "\<lparr>ss_buf = buf, ss_size = size', ss_chars = 0\<rparr>"
  have bx: "buf_of ?x = B" by (simp add: buf_of_def B)
  have "str.printable m ?x n p f args" using assms(4-7) unfolding str.printable_def bx by (auto simp: span_def)
  from str.vprintf_ok [OF this assms(1)] obtain st where st: "put_all string_ops s (m, ?x) = Inr st"
    "stream_vprintf n string_ops p (map arg_word args) (m, ?x) = Inr (st, int (length s))" by blast
  obtain m1 where m1: "put_all string_ops s (m, ?x) = Inr (m1, ?x\<lparr>ss_chars := int (length s)\<rparr>)"
    "\<forall>i < nat size'. m1 (buf + of_nat i) = (if i < length s then s ! i else m (buf + of_nat i))"
    using string_put_all [of ?x s m] assms(3) by auto
  have out: "\<forall>a. a \<notin> B \<longrightarrow> m1 a = m a" using str.put_all_ok [of ?x s m] m1(1) bx by auto
  let ?m = "if int (length s) < size' then m1(buf + of_nat (length s) := 0) else m1"
  have "vsnprintf n buf size' p (map arg_word args) m = Inr (?m, int (length s))" using st m1(1) by (auto simp: vsnprintf_def)
  moreover have "?m (buf + of_nat i) = (if i < length s then s ! i else if i = length s then 0 else m (buf + of_nat i))" if i: "i < nat size'" for i
  proof -
    have "(of_nat i = (of_nat (length s) :: addr)) = (i = length s)" if "int (length s) < size'"
      using that i assms(3) addr_offset_inj [of 0 i "length s"] by auto
    then show ?thesis using m1(2) i by auto
  qed
  moreover have "\<forall>a. a \<notin> B \<longrightarrow> ?m a = m a" using out by (auto simp: B)
  ultimately show ?thesis by (intro exI [of _ ?m]) simp
qed

definition demo_text :: mem where
  "demo_text a = (if a = 16 then 0x78 else if a = 17 then 0x25 else if a = 18 then 0x78 else if a = 19 then 0x20 else if a = 20 then 0x25 else if a = 21 then 0x73
     else if a = 48 then 0x61 else if a = 49 then 0x62 else 0)"

text \<open>The text of \<^verbatim>\<open>"x%x %s"\<close> with 42 and \<^verbatim>\<open>"ab"\<close> fills a buffer of six bytes.\<close>

theorem vsnprintf_formats_witness:
  "\<exists>m'. vsnprintf 100 64 6 16 [42, 48] demo_text = Inr (m', 6) \<and>
    (\<forall>i < 6. m' (64 + of_nat i) = [0x78, 0x32, 0x61, 0x20, 0x61, 0x62] ! i) \<and> (\<forall>a. a \<notin> {64, 65, 66, 67, 68, 69} \<longrightarrow> m' a = demo_text a)"
proof -
  let ?f = "[0x78, 0x25, 0x78, 0x20, 0x25, 0x73]" and ?args = "[FInt 42, FStr 48 [0x61, 0x62]]" and ?B = "{64, 65, 66, 67, 68, 69} :: addr set"
  have B: "?B = (\<lambda>i. 64 + of_nat i) ` {..<nat 6}" by (auto simp: lessThan_nat_numeral lessThan_Suc)
  have f: "fmt_out ?f ?args = Some [0x78, 0x32, 0x61, 0x20, 0x61, 0x62]"
    by (simp add: fmt_dir_def fmt_arg_def num_str.simps digits_def)
  have i: "16 + of_nat i \<notin> ?B" if "i \<le> length ?f" for i
  proof -
    have "i \<in> {0, 1, 2, 3, 4, 5, 6}" using that by auto
    then show ?thesis by auto
  qed
  have a: "\<forall>a \<in> set ?args. arg_ok demo_text ?B (100 - length ?f) a"
    by (simp add: demo_text_def span_def atMost_Suc)
  have c: "cstr demo_text 16 ?f" "length ?f + 32 < 100" by (simp_all add: demo_text_def)
  show ?thesis using vsnprintf_formats [OF f _ _ c i a B] by simp
qed

theorem printed_numbers_read_back_witness:
  "stream_putuint 32 null_ops 16 42 (demo_text, 0) = put_all null_ops [0x32, 0x61] (demo_text, 0) \<and> read_num 16 [0x32, 0x61] = 42 \<and>
   stream_putint 32 null_ops 16 (- 1) (demo_text, 0) = Inl BadAccess"
  using printed_numbers_read_back [of 16 null_ops 42 "(demo_text, 0)" 42 "- 1"]
  by (simp add: num_str.simps digits_def stream_putc_def null_ops_def null_putc_def)

end
