(* ===== verification/Console.thy ===== *)
theory Console
  imports Kstream Vm_Fault Cpu
begin

text \<open>
  The console (\<^verbatim>\<open>src/arch/i386/console.c\<close>): text mode output with its cursor and scrolling, the stream over it, \<^verbatim>\<open>kernel_printk\<close>
  (\<^verbatim>\<open>src/kernel/printk.c\<close>), and the queue of key codes between the keyboard's interrupt and its reader. The frame buffer is the list of the cells of the screen: an access outside of
  it is \<open>BadAccess\<close>, though the mapped segment is a little larger. Coordinates are C ints. The characters of the buffer and the colours are unsigned; \<^verbatim>\<open>make_vgaentry\<close> widens the signed
  character, so a character from 128 on sets all bits of the attribute as well.
\<close>

subsection \<open>The code\<close>

definition make_color :: "u8 \<Rightarrow> u8 \<Rightarrow> u8" where
  "make_color fg bg = fg OR push_bit 4 bg"

definition make_vgaentry :: "u8 \<Rightarrow> u8 \<Rightarrow> u16" where
  "make_vgaentry c color = (let c16 = scast c; color16 = ucast color in c16 OR push_bit 8 color16)"

definition VGA_WIDTH :: int where "VGA_WIDTH = 80"
definition VGA_HEIGHT :: int where "VGA_HEIGHT = 25"
definition COLOR_BLACK :: u8 where "COLOR_BLACK = 0"
definition COLOR_LIGHT_GREY :: u8 where "COLOR_LIGHT_GREY = 7"

record console =
  con_row :: int
  con_column :: int
  con_color :: u8
  con_buffer :: "u16 list"
  con_keyq :: "u8 list"
  con_keyhead :: int
  con_keytail :: int
  con_inited :: bool
  con_chars :: int
  con_ready :: bool
  con_mach :: machine
  con_vm :: vmstate

definition keyq_ptr :: "int \<Rightarrow> nat" where
  "keyq_ptr i = nat (i mod 256)"

definition keyb_isr :: "console \<Rightarrow> console" where
  "keyb_isr s =
     (case inb (con_mach s) 0x60 of (m, scancode) \<Rightarrow>
      let s = s\<lparr>con_mach := m\<rparr>; head = con_keyhead s in
      if keyq_ptr (head + 1) \<noteq> keyq_ptr (con_keytail s)
      then s\<lparr>con_keyq := (con_keyq s)[keyq_ptr head := scancode], con_keyhead := head + 1\<rparr>
      else s\<lparr>con_keyhead := head\<rparr>)"

definition keyq_empty :: "console \<Rightarrow> bool" where
  "keyq_empty s \<longleftrightarrow> con_keyhead s = con_keytail s"

definition keyq_get :: "console \<Rightarrow> console \<times> u8" where
  "keyq_get s =
     (let s = s\<lparr>con_mach := cli (con_mach s)\<rparr>;
          (s, scancode) = (if keyq_ptr (con_keyhead s) \<noteq> keyq_ptr (con_keytail s)
            then (s\<lparr>con_keytail := con_keytail s + 1\<rparr>, con_keyq s ! keyq_ptr (con_keytail s)) else (s, 0))
      in (s\<lparr>con_mach := sti (con_mach s)\<rparr>, scancode))"

definition console_putentryat :: "u8 \<Rightarrow> u8 \<Rightarrow> int \<Rightarrow> int \<Rightarrow> console \<Rightarrow> console res" where
  "console_putentryat c color x y s =
     (let index = y * VGA_WIDTH + x in
      if 0 \<le> index \<and> index < int (length (con_buffer s))
      then Inr (s\<lparr>con_buffer := (con_buffer s)[nat index := make_vgaentry c color]\<rparr>) else Inl BadAccess)"

text \<open>The size of the buffer is that of the two loops, whose bounds are constants.\<close>

definition console_scroll :: "console \<Rightarrow> console" where
  "console_scroll s =
     (let w = nat VGA_WIDTH; n = nat (VGA_HEIGHT * VGA_WIDTH);
          b = fold (\<lambda>i b. b[i - w := b ! i]) [w..<n] (con_buffer s);
          b = fold (\<lambda>i b. b[i := make_vgaentry 0x20 (con_color s)]) [n - w..<n] b
      in s\<lparr>con_buffer := b, con_row := con_row s - 1\<rparr>)"

definition console_cursor :: "int \<Rightarrow> int \<Rightarrow> machine \<Rightarrow> machine" where
  "console_cursor row col m =
     (let position = word_of_int (row * VGA_WIDTH + col) :: u16;
          m = outb m 0x3D4 0x0F;
          m = outb m 0x3D5 (ucast (position AND 0xFF));
          m = outb m 0x3D4 0x0E
      in outb m 0x3D5 (ucast (drop_bit 8 position AND 0xFF)))"

definition next_row :: "console \<Rightarrow> console" where
  "next_row s = (let s = s\<lparr>con_row := con_row s + 1\<rparr> in if con_row s = VGA_HEIGHT then console_scroll s else s)"

fun tab_loop :: "nat \<Rightarrow> console \<Rightarrow> console res" where
  "tab_loop 0 s = Inr s"
| "tab_loop (Suc n) s = bindE (console_putentryat 0x20 (con_color s) (con_column s) (con_row s) s) (tab_loop n)"

definition console_putchar_nocursor :: "u8 \<Rightarrow> console \<Rightarrow> console res" where
  "console_putchar_nocursor c s =
     (if c = 0x0A then Inr ((next_row s)\<lparr>con_column := 0\<rparr>)
      else if c = 0x0D then Inr (s\<lparr>con_column := 0\<rparr>)
      else if c = 0x08 then Inr (let s = s\<lparr>con_column := con_column s - 1\<rparr> in if con_column s < 0 then s\<lparr>con_column := 0\<rparr> else s)
      else if c = 0x09 then
        let i = con_column s;
            s = s\<lparr>con_column := con_column s + 8\<rparr>;
            s = s\<lparr>con_column := (con_column s div 8) * 8\<rparr>;
            (i, s) = (if VGA_WIDTH \<le> con_column s then (0, next_row (s\<lparr>con_column := con_column s - VGA_WIDTH\<rparr>)) else (i, s))
        in tab_loop (nat (con_column s - i)) s
      else
        bindE (console_putentryat c (con_color s) (con_column s) (con_row s) s) (\<lambda>s.
        let s = s\<lparr>con_column := con_column s + 1\<rparr> in
        Inr (if con_column s = VGA_WIDTH then next_row (s\<lparr>con_column := 0\<rparr>) else s)))"

definition set_cursor :: "console \<Rightarrow> console" where
  "set_cursor s = s\<lparr>con_mach := console_cursor (con_row s) (con_column s) (con_mach s)\<rparr>"

definition console_putchar :: "u8 \<Rightarrow> console \<Rightarrow> console res" where
  "console_putchar c s = bindE (console_putchar_nocursor c s) (\<lambda>s. Inr (set_cursor s))"

fun writestring_loop :: "nat \<Rightarrow> mem \<Rightarrow> addr \<Rightarrow> console \<Rightarrow> console res" where
  "writestring_loop 0 m data s = Inl OutOfFuel"
| "writestring_loop (Suc n) m data s =
     (if m data \<noteq> 0 then bindE (console_putchar_nocursor (m data) s) (writestring_loop n m (data + 1)) else Inr s)"

definition console_writestring :: "nat \<Rightarrow> mem \<Rightarrow> addr \<Rightarrow> console \<Rightarrow> console res" where
  "console_writestring n m data s = bindE (writestring_loop n m data s) (\<lambda>s. Inr (set_cursor s))"

text \<open>\<open>isr\<close> is the address of \<^verbatim>\<open>keyb_isr\<close>; \<open>fseg\<close> and \<open>fobj\<close> are the memory for the segment and its object.\<close>

definition console_initialize :: "addr \<Rightarrow> addr \<Rightarrow> addr \<Rightarrow> console \<Rightarrow> console res" where
  "console_initialize isr fseg fobj s =
     (if con_inited s then Inr s
      else let s = s\<lparr>con_inited := True\<rparr>; fb = 0xb8 in
        bindE (add_irq (con_mach s) 1 isr) (\<lambda>(m, _).
        let s = s\<lparr>con_mach := m, con_keyhead := 0, con_keytail := 0, con_row := 0, con_column := 0,
                  con_color := make_color COLOR_LIGHT_GREY COLOR_BLACK\<rparr>;
            vm = vm_segment_direct fseg fobj 0xC00B8000 0x2000 SEGMENT_W fb (con_vm s);
            vm = vm\<lparr>vs_spaces := (vs_spaces vm)(vs_kas vm := al_put map_keycmp (sg_base (vs_segs vm fseg)) fseg (vs_spaces vm (vs_kas vm)))\<rparr>;
            s = s\<lparr>con_vm := vm\<rparr>
        in Inr (s\<lparr>con_buffer := fold (\<lambda>i b. b[i := make_vgaentry 0x20 (con_color s)]) [0..<nat (VGA_HEIGHT * VGA_WIDTH)] (con_buffer s)\<rparr>)))"

definition console_putc :: "u8 \<Rightarrow> console sstate \<Rightarrow> console sstate res" where
  "console_putc c st = bindE (console_putchar c (snd st)) (\<lambda>s. Inr (fst st, s\<lparr>con_chars := con_chars s + 1\<rparr>))"

definition console_tell :: "console \<Rightarrow> int" where
  "console_tell s = con_chars s"

definition console_ops :: "console stream_ops_t" where
  "console_ops = \<lparr>so_putc = console_putc, so_tell = console_tell\<rparr>"

definition console_stream :: "addr \<Rightarrow> addr \<Rightarrow> addr \<Rightarrow> console \<Rightarrow> console res" where
  "console_stream isr fseg fobj s = bindE (console_initialize isr fseg fobj s) (\<lambda>s. Inr (s\<lparr>con_chars := 0\<rparr>))"

definition kernel_vprintk :: "nat \<Rightarrow> addr \<Rightarrow> addr \<Rightarrow> addr \<Rightarrow> addr \<Rightarrow> u32 list \<Rightarrow> console sstate \<Rightarrow> (console sstate \<times> int) res" where
  "kernel_vprintk n isr fseg fobj fmt ap st =
     bindE (if \<not> con_ready (snd st) then bindE (console_stream isr fseg fobj (snd st)) (\<lambda>s. Inr (fst st, s\<lparr>con_ready := True\<rparr>)) else Inr st) (\<lambda>st.
     stream_vprintf n console_ops fmt ap st)"

definition kernel_printk :: "nat \<Rightarrow> addr \<Rightarrow> addr \<Rightarrow> addr \<Rightarrow> addr \<Rightarrow> u32 list \<Rightarrow> console sstate \<Rightarrow> (console sstate \<times> int) res" where
  "kernel_printk n isr fseg fobj fmt ap st =
     bindE (if \<not> con_ready (snd st) then bindE (console_stream isr fseg fobj (snd st)) (\<lambda>s. Inr (fst st, s\<lparr>con_ready := True\<rparr>)) else Inr st) (\<lambda>st.
     stream_vprintf n console_ops fmt ap st)"

subsection \<open>The screen\<close>

definition con_ok :: "console \<Rightarrow> bool" where
  "con_ok s \<longleftrightarrow> 0 \<le> con_row s \<and> con_row s < 25 \<and> 0 \<le> con_column s \<and> con_column s < 80 \<and> length (con_buffer s) = 2000"

definition cell :: "console \<Rightarrow> nat \<Rightarrow> nat \<Rightarrow> u16" where
  "cell s r c = con_buffer s ! (80 * r + c)"

abbreviation blank :: "console \<Rightarrow> u16" where
  "blank s \<equiv> make_vgaentry 0x20 (con_color s)"

lemma fold_shift:
  "w \<le> j \<Longrightarrow> j \<le> length b \<Longrightarrow> fold (\<lambda>i b. b[i - w := b ! i]) [w..<j] b = take (j - w) (drop w b) @ drop (j - w) b"
proof (induction j)
  case (Suc j)
  show ?case
  proof (cases "w \<le> j")
    case True
    let ?b = "take (j - w) (drop w b) @ drop (j - w) b"
    have f: "fold (\<lambda>i b. b[i - w := b ! i]) [w..<Suc j] b = ?b[j - w := ?b ! j]" using Suc True by simp
    have l: "length ?b = length b" using Suc.prems True by simp
    show ?thesis unfolding f
    proof (rule nth_equalityI)
      fix i
      assume "i < length (?b[j - w := ?b ! j])"
      then show "?b[j - w := ?b ! j] ! i = (take (Suc j - w) (drop w b) @ drop (Suc j - w) b) ! i"
        using Suc.prems True l by (auto simp: nth_list_update nth_append Suc_diff_le)
    qed (use Suc.prems True in simp)
  qed (use Suc.prems in \<open>simp add: le_Suc_eq\<close>)
qed simp

lemma fold_fill: "a \<le> j \<Longrightarrow> j \<le> length b \<Longrightarrow> fold (\<lambda>i b. b[i := v]) [a..<j] b = take a b @ replicate (j - a) v @ drop j b"
proof (induction j)
  case (Suc j)
  show ?case
  proof (cases "a \<le> j")
    case True
    then have "fold (\<lambda>i b. b[i := v]) [a..<Suc j] b = (take a b @ replicate (j - a) v @ drop j b)[j := v]" using Suc by simp
    also have "\<dots> = take a b @ replicate (Suc j - a) v @ drop (Suc j) b"
      using Suc.prems True by (intro nth_equalityI) (auto simp: nth_list_update nth_append)
    finally show ?thesis .
  qed (use Suc.prems in \<open>simp add: le_Suc_eq\<close>)
qed simp

lemma scroll_buffer: "length (con_buffer s) = 2000 \<Longrightarrow> con_buffer (console_scroll s) = drop 80 (con_buffer s) @ replicate 80 (blank s)"
  by (simp add: console_scroll_def VGA_WIDTH_def VGA_HEIGHT_def Let_def fold_shift fold_fill del: upt_rec_numeral)

lemma next_row_ok:
  assumes "con_ok s"
  shows "con_ok (next_row s)" "con_column (next_row s) = con_column s" "con_row (next_row s) = min (con_row s + 1) 24" "con_color (next_row s) = con_color s"
    "con_chars (next_row s) = con_chars s"
    "r < 25 \<Longrightarrow> c < 80 \<Longrightarrow> cell (next_row s) r c = (if con_row s < 24 then cell s r c else if r < 24 then cell s (Suc r) c else blank s)"
proof -
  let ?s = "s\<lparr>con_row := con_row s + 1\<rparr>"
  have sc: "con_buffer (console_scroll ?s) = drop 80 (con_buffer s) @ replicate 80 (blank s)" using scroll_buffer [of ?s] assms by (simp add: con_ok_def)
  have f: "con_row (console_scroll ?s) = con_row s" "con_column (console_scroll ?s) = con_column s" "con_color (console_scroll ?s) = con_color s"
    "con_chars (console_scroll ?s) = con_chars s" by (simp_all add: console_scroll_def Let_def)
  note d = next_row_def [of s] VGA_HEIGHT_def con_ok_def
  show "con_ok (next_row s)" "con_column (next_row s) = con_column s" "con_row (next_row s) = min (con_row s + 1) 24" "con_color (next_row s) = con_color s"
    "con_chars (next_row s) = con_chars s"
    using assms sc f by (auto simp: d Let_def)
  show "cell (next_row s) r c = (if con_row s < 24 then cell s r c else if r < 24 then cell s (Suc r) c else blank s)" if "r < 25" "c < 80"
    using assms sc that by (auto simp: d Let_def cell_def nth_append algebra_simps)
qed

text \<open>
  The terminal the console implements: the place of the cursor, and the cell at each place. A line feed in the last row moves all rows up. A tab puts one blank, at the place it moves
  to.
\<close>

type_synonym terminal = "nat \<times> nat \<times> (nat \<Rightarrow> nat \<Rightarrow> u16)"

definition screen :: "console \<Rightarrow> terminal" where
  "screen s = (nat (con_row s), nat (con_column s), \<lambda>r c. if r < 25 \<and> c < 80 then cell s r c else 0)"

fun term_feed :: "u16 \<Rightarrow> terminal \<Rightarrow> terminal" where
  "term_feed v (r, c, f) = (if r < 24 then (Suc r, c, f) else (r, c, \<lambda>r c. if r < 24 then f (Suc r) c else if r = 24 \<and> c < 80 then v else 0))"

definition put_cell :: "nat \<Rightarrow> nat \<Rightarrow> u16 \<Rightarrow> (nat \<Rightarrow> nat \<Rightarrow> u16) \<Rightarrow> nat \<Rightarrow> nat \<Rightarrow> u16" where
  "put_cell r c v f = f(r := (f r)(c := v))"

fun term_put :: "u8 \<Rightarrow> u8 \<Rightarrow> terminal \<Rightarrow> terminal" where
  "term_put color ch (r, c, f) =
     (let v = make_vgaentry 0x20 color in
      if ch = 0x0A then term_feed v (r, 0, f)
      else if ch = 0x0D then (r, 0, f)
      else if ch = 0x08 then (r, c - 1, f)
      else if ch = 0x09 then
        let c' = (c + 8) div 8 * 8 in if 80 \<le> c' then term_feed v (r, 0, f) else (r, c', put_cell r c' v f)
      else let f = put_cell r c (make_vgaentry ch color) f in if c = 79 then term_feed v (r, 0, f) else (r, Suc c, f))"

declare term_put.simps [simp del]

lemma screen_eqI:
  "con_row s' = con_row s \<Longrightarrow> con_column s' = con_column s \<Longrightarrow> con_buffer s' = con_buffer s \<Longrightarrow> screen s' = screen s"
  by (simp add: screen_def cell_def cong: if_cong)

lemma next_row_screen:
  assumes "con_ok s"
  shows "screen (next_row s) = term_feed (blank s) (screen s)"
proof -
  have "nat (min (con_row s + 1) 24) = (if con_row s < 24 then Suc (nat (con_row s)) else 24)" "nat (con_row s) < 24 \<longleftrightarrow> con_row s < 24" "con_row s < 25"
    using assms by (auto simp: con_ok_def)
  then show ?thesis using next_row_ok [OF assms] by (auto simp: screen_def fun_eq_iff)
qed

lemma column_screen: "con_ok s \<Longrightarrow> 0 \<le> k \<Longrightarrow> k < 80 \<Longrightarrow> con_ok (s\<lparr>con_column := k\<rparr>) \<and> screen (s\<lparr>con_column := k\<rparr>) = (case screen s of (r, c, f) \<Rightarrow> (r, nat k, f))"
  by (simp add: con_ok_def screen_def cell_def cong: if_cong)

lemma place_inj: "k < 80 \<Longrightarrow> k' < 80 \<Longrightarrow> 80 * r + k = 80 * r' + k' \<longleftrightarrow> r' = r \<and> k' = (k :: nat)"
  by (cases r r' rule: linorder_cases) auto

lemma putentry_ok:
  assumes "con_ok s"
  shows "\<exists>s'. console_putentryat c color (con_column s) (con_row s) s = Inr s' \<and> con_ok s' \<and> con_row s' = con_row s \<and> con_column s' = con_column s \<and>
    con_color s' = con_color s \<and> con_chars s' = con_chars s \<and>
    screen s' = (case screen s of (r, k, f) \<Rightarrow> (r, k, put_cell r k (make_vgaentry c color) f))"
proof -
  let ?i = "con_row s * 80 + con_column s"
  let ?s = "s\<lparr>con_buffer := (con_buffer s)[nat ?i := make_vgaentry c color]\<rparr>"
  define r k where "r = nat (con_row s)" and "k = nat (con_column s)"
  have rk: "con_row s = int r" "con_column s = int k" "r < 25" "k < 80" "length (con_buffer s) = 2000" using assms by (auto simp: con_ok_def r_def k_def)
  have i: "nat ?i = 80 * r + k" "80 * r + k < 2000" using rk by (auto simp: nat_add_distrib nat_mult_distrib)
  have "console_putentryat c color (con_column s) (con_row s) s = Inr ?s" using rk i by (simp add: console_putentryat_def VGA_WIDTH_def)
  moreover have "cell ?s r' k' = (if r' = r \<and> k' = k then make_vgaentry c color else cell s r' k')" if "r' < 25" "k' < 80" for r' k'
    using that i rk(5) place_inj [OF rk(4) that(2), of r r'] by (simp add: cell_def nth_list_update)
  then have "screen ?s = (case screen s of (r, k, f) \<Rightarrow> (r, k, put_cell r k (make_vgaentry c color) f))"
    using rk by (auto simp: screen_def put_cell_def fun_eq_iff)
  ultimately show ?thesis using assms by (intro exI [of _ ?s]) (simp add: con_ok_def)
qed

lemma put_cell_idem [simp]: "put_cell r k v (put_cell r k v f) = put_cell r k v f"
  by (simp add: put_cell_def fun_eq_iff)

lemma tab_loop_ok:
  "con_ok s \<Longrightarrow> \<exists>s'. tab_loop n s = Inr s' \<and> con_ok s' \<and> con_row s' = con_row s \<and> con_column s' = con_column s \<and> con_color s' = con_color s \<and> con_chars s' = con_chars s \<and>
    screen s' = (case screen s of (r, k, f) \<Rightarrow> (r, k, if n = 0 then f else put_cell r k (blank s) f))"
proof (induction n arbitrary: s)
  case 0
  then show ?case by (simp add: screen_def)
next
  case (Suc n)
  obtain s1 where s1: "console_putentryat 0x20 (con_color s) (con_column s) (con_row s) s = Inr s1" "con_ok s1" "con_row s1 = con_row s" "con_column s1 = con_column s"
    "con_color s1 = con_color s" "con_chars s1 = con_chars s" "screen s1 = (case screen s of (r, k, f) \<Rightarrow> (r, k, put_cell r k (blank s) f))"
    using putentry_ok [OF Suc.prems] by blast
  obtain s2 where "tab_loop n s1 = Inr s2" "con_ok s2" "con_row s2 = con_row s" "con_column s2 = con_column s"
    "con_color s2 = con_color s" "con_chars s2 = con_chars s" "screen s2 = (case screen s1 of (r, k, f) \<Rightarrow> (r, k, if n = 0 then f else put_cell r k (blank s) f))"
    using Suc.IH [OF s1(2)] unfolding s1(3-6) by blast
  then show ?case using s1 by (intro exI [of _ s2]) (cases "screen s", simp)
qed

lemma putchar_ok:
  assumes "con_ok s"
  shows "\<exists>s'. console_putchar_nocursor c s = Inr s' \<and> con_ok s' \<and> con_color s' = con_color s \<and> con_chars s' = con_chars s \<and> screen s' = term_put (con_color s) c (screen s)"
proof -
  define r k where "r = nat (con_row s)" and "k = nat (con_column s)"
  define f where "f = snd (snd (screen s))"
  have scr: "screen s = (r, k, f)" by (simp add: screen_def r_def k_def f_def)
  have rk: "con_column s = int k" "k < 80" "con_row s = int r" "r < 25" using assms by (simp_all add: con_ok_def r_def k_def nat_less_iff)
  have feed: "con_ok (next_row (s'\<lparr>con_column := 0\<rparr>)) \<and> screen (next_row (s'\<lparr>con_column := 0\<rparr>)) = term_feed (blank s') (r, 0, f') \<and>
      con_color (next_row (s'\<lparr>con_column := 0\<rparr>)) = con_color s' \<and> con_chars (next_row (s'\<lparr>con_column := 0\<rparr>)) = con_chars s'"
    if s': "con_ok s'" "screen s' = (r, k', f')" for s' :: console and k' f'
  proof -
    have "con_ok (s'\<lparr>con_column := 0\<rparr>)" "screen (s'\<lparr>con_column := 0\<rparr>) = (r, 0, f')" using column_screen [OF s'(1), of 0] s'(2) by simp_all
    then show ?thesis using next_row_ok(1,4,5) [of "s'\<lparr>con_column := 0\<rparr>"] next_row_screen [of "s'\<lparr>con_column := 0\<rparr>"] by simp
  qed
  consider "c = 0x0A" | "c = 0x0D" | "c = 0x08" | "c = 0x09" | "c \<notin> {0x0A, 0x0D, 0x08, 0x09}" by auto
  then show ?thesis
  proof cases
    case 1
    have "(next_row s)\<lparr>con_column := 0\<rparr> = next_row (s\<lparr>con_column := 0\<rparr>)" by (simp add: next_row_def console_scroll_def Let_def)
    then show ?thesis using 1 feed [OF assms scr] scr by (simp add: console_putchar_nocursor_def term_put.simps)
  next
    case 2
    then show ?thesis using column_screen [OF assms, of 0] scr by (simp add: console_putchar_nocursor_def term_put.simps)
  next
    case 3
    have "console_putchar_nocursor c s = Inr (s\<lparr>con_column := int (k - 1)\<rparr>)"
      using 3 rk by (simp add: console_putchar_nocursor_def Let_def)
    then show ?thesis using column_screen [OF assms, of "int (k - 1)"] scr rk 3 by (simp add: term_put.simps)
  next
    case 4
    let ?k = "(k + 8) div 8 * 8"
    have k: "(int k + 8) div 8 * 8 = int ?k" "?k \<le> 80" "k < ?k" using rk(2) by (simp_all add: zdiv_int; presburger)+
    show ?thesis
    proof (cases "80 \<le> ?k")
      case True
      moreover have "con_column (next_row (s\<lparr>con_column := 0\<rparr>)) = 0" by (simp add: next_row_def console_scroll_def Let_def)
      ultimately have "console_putchar_nocursor c s = Inr (next_row (s\<lparr>con_column := 0\<rparr>))"
        using 4 rk k by (simp add: console_putchar_nocursor_def Let_def VGA_WIDTH_def)
      then show ?thesis using feed [OF assms scr] scr 4 True by (simp add: term_put.simps Let_def)
    next
      case False
      let ?s = "s\<lparr>con_column := int ?k\<rparr>"
      have ok: "con_ok ?s" "screen ?s = (r, ?k, f)" using column_screen [OF assms, of "int ?k"] scr False by simp_all
      have "console_putchar_nocursor c s = tab_loop (?k - k) ?s"
        using 4 rk k False by (simp add: console_putchar_nocursor_def Let_def VGA_WIDTH_def nat_diff_distrib nat_mult_distrib)
      then show ?thesis using tab_loop_ok [OF ok(1), of "?k - k"] ok(2) scr 4 False k(3) by (auto simp: term_put.simps Let_def)
    qed
  next
    case 5
    obtain s1 where s1: "console_putentryat c (con_color s) (con_column s) (con_row s) s = Inr s1" "con_ok s1" "con_column s1 = con_column s" "con_color s1 = con_color s"
      "con_chars s1 = con_chars s" "screen s1 = (r, k, put_cell r k (make_vgaentry c (con_color s)) f)" using putentry_ok [OF assms, of c "con_color s"] scr by auto
    show ?thesis
    proof (cases "k = 79")
      case True
      have "s1\<lparr>con_column := con_column s1 + 1, con_column := 0\<rparr> = s1\<lparr>con_column := 0\<rparr>" by simp
      then have "console_putchar_nocursor c s = Inr (next_row (s1\<lparr>con_column := 0\<rparr>))"
        using 5 s1(1,3) rk True by (simp add: console_putchar_nocursor_def Let_def VGA_WIDTH_def)
      then show ?thesis using feed [OF s1(2,6)] scr 5 True s1(4,5) by (simp add: term_put.simps Let_def)
    next
      case False
      then have "console_putchar_nocursor c s = Inr (s1\<lparr>con_column := int k + 1\<rparr>)"
        using 5 s1(1,3) rk by (simp add: console_putchar_nocursor_def Let_def VGA_WIDTH_def)
      then show ?thesis using column_screen [OF s1(2), of "int k + 1"] scr 5 False s1(4-6) rk by (simp add: term_put.simps Let_def nat_add_distrib)
    qed
  qed
qed

lemma console_putc_ok:
  assumes "con_ok s"
  shows "\<exists>s'. console_putc c (m, s) = Inr (m, s') \<and> con_ok s' \<and> con_color s' = con_color s \<and> con_chars s' = con_chars s + 1 \<and> screen s' = term_put (con_color s) c (screen s)"
proof -
  obtain s1 where s1: "console_putchar_nocursor c s = Inr s1" "con_ok s1" "con_color s1 = con_color s" "con_chars s1 = con_chars s" "screen s1 = term_put (con_color s) c (screen s)"
    using putchar_ok [OF assms] by blast
  let ?s = "(set_cursor s1)\<lparr>con_chars := con_chars s + 1\<rparr>"
  have "screen ?s = screen s1" by (rule screen_eqI) (simp_all add: set_cursor_def)
  then show ?thesis using s1 by (intro exI [of _ ?s]) (simp add: console_putc_def console_putchar_def set_cursor_def con_ok_def)
qed

interpretation con: stream_laws console_ops con_ok "\<lambda>_. {}"
proof
  fix x c m
  assume x: "con_ok x"
  from console_putc_ok [OF this, of c m] show "\<exists>m' x'. so_putc console_ops c (m, x) = Inr (m', x') \<and> con_ok x' \<and> {} = ({} :: addr set) \<and>
      so_tell console_ops x' = so_tell console_ops x + 1 \<and> (\<forall>a. a \<notin> {} \<longrightarrow> m' a = m a)"
    by (auto simp: console_ops_def console_tell_def)
qed

lemma console_text:
  "con_ok s \<Longrightarrow> \<exists>s'. put_all console_ops cs (m, s) = Inr (m, s') \<and> con_ok s' \<and> con_color s' = con_color s \<and> screen s' = fold (term_put (con_color s)) cs (screen s)"
proof (induction cs arbitrary: s)
  case (Cons c cs)
  obtain s1 where s1: "console_putc c (m, s) = Inr (m, s1)" "con_ok s1" "con_color s1 = con_color s" "screen s1 = term_put (con_color s) c (screen s)"
    using console_putc_ok [OF Cons.prems] by blast
  from Cons.IH [OF s1(2)] show ?case unfolding s1(3,4) using s1(1) by (simp add: stream_putc_def console_ops_def)
qed simp

text \<open>The first message sets the screen up.\<close>

definition first_screen :: "console \<Rightarrow> terminal" where
  "first_screen s = (if con_ready s then screen s else (0, 0, \<lambda>r c. if r < 25 \<and> c < 80 then make_vgaentry 0x20 7 else 0))"

definition first_color :: "console \<Rightarrow> u8" where
  "first_color s = (if con_ready s then con_color s else 7)"

lemma console_stream_ok:
  assumes "\<not> con_inited s" "length (con_buffer s) = 2000" "1 < length (irq_table (con_mach s))"
  shows "\<exists>s'. console_stream isr fseg fobj s = Inr s' \<and> con_ok s' \<and> con_color s' = 7 \<and>
    screen s' = (0, 0, \<lambda>r c. if r < 25 \<and> c < 80 then make_vgaentry 0x20 7 else 0) \<and>
    irq_table (con_mach s') = (irq_table (con_mach s))[1 := isr]"
proof -
  have f: "fold (\<lambda>i b. b[i := v]) [0..<2000] (con_buffer s) = replicate 2000 v" for v
    using fold_fill [of 0 2000 "con_buffer s" v] assms(2) by (simp del: upt_rec_numeral)
  have n: "replicate 2000 v ! (80 * r + c) = v" if "r < 25" "c < 80" for v :: u16 and r c using that by simp
  show ?thesis using assms n
    by (auto simp: console_stream_def console_initialize_def add_irq_def Let_def VGA_HEIGHT_def VGA_WIDTH_def f make_color_def COLOR_LIGHT_GREY_def COLOR_BLACK_def
        con_ok_def screen_def cell_def fun_eq_iff simp del: upt_rec_numeral)
qed

text \<open>
  C34: Kernel messages reach the screen. For a format and arguments that can be printed, \<^verbatim>\<open>kernel_printk\<close> returns the length of the text, and the screen afterwards is what a
  terminal shows when the characters of the text are put on it one after the other: characters advance the cursor and wrap at the end of a row, a line feed below the last row moves
  all rows up and clears the last. The first message finds an empty screen. No cell outside the screen is accessed, and memory does not change.
\<close>

theorem printk_shows:
  assumes "fmt_out f args = Some cs" "cstr m p f" "\<forall>a \<in> set args. arg_ok m {} (n - length f) a" "length f + 32 < n"
    and "if con_ready s then con_ok s else \<not> con_inited s \<and> length (con_buffer s) = 2000 \<and> 1 < length (irq_table (con_mach s))"
  shows "\<exists>s'. kernel_printk n isr fseg fobj p (map arg_word args) (m, s) = Inr ((m, s'), int (length cs)) \<and> con_ok s' \<and>
    screen s' = fold (term_put (first_color s)) cs (first_screen s)"
proof -
  have "\<exists>s1. (if \<not> con_ready s then bindE (console_stream isr fseg fobj s) (\<lambda>s. Inr (m, s\<lparr>con_ready := True\<rparr>)) else Inr (m, s)) = Inr (m, s1) \<and>
      con_ok s1 \<and> screen s1 = first_screen s \<and> con_color s1 = first_color s"
  proof (cases "con_ready s")
    case False
    then obtain s1 where s1: "console_stream isr fseg fobj s = Inr s1" "con_ok s1" "con_color s1 = 7"
        "screen s1 = (0, 0, \<lambda>r c. if r < 25 \<and> c < 80 then make_vgaentry 0x20 7 else 0)"
      using console_stream_ok [of s isr fseg fobj] assms(5) by auto
    have "screen (s1\<lparr>con_ready := True\<rparr>) = screen s1" by (rule screen_eqI) simp_all
    then show ?thesis using s1 False by (simp add: first_screen_def first_color_def con_ok_def)
  qed (use assms(5) in \<open>simp add: first_screen_def first_color_def\<close>)
  then obtain s1 where s1: "(if \<not> con_ready s then bindE (console_stream isr fseg fobj s) (\<lambda>s. Inr (m, s\<lparr>con_ready := True\<rparr>)) else Inr (m, s)) = Inr (m, s1)"
    "con_ok s1" "screen s1 = first_screen s" "con_color s1 = first_color s" by blast
  have "con.printable m s1 n p f args" using assms(2-4) s1(2) by (simp add: con.printable_def)
  from con.vprintf_ok [OF this assms(1)] obtain st where "put_all console_ops cs (m, s1) = Inr st"
    "stream_vprintf n console_ops p (map arg_word args) (m, s1) = Inr (st, int (length cs))" by blast
  then show ?thesis using console_text [OF s1(2), of cs m] s1 by (auto simp: kernel_printk_def)
qed

definition demo_console :: console where
  "demo_console = \<lparr>con_row = 0, con_column = 0, con_color = 0, con_buffer = replicate 2000 0, con_keyq = replicate 256 0, con_keyhead = 255, con_keytail = 254,
     con_inited = False, con_chars = 0, con_ready = False, con_mach = cold, con_vm = demo_vs\<rparr>"

theorem printk_shows_witness:
  "\<exists>s'. kernel_printk 100 1 2 3 16 [42, 48] (demo_text, demo_console) = Inr ((demo_text, s'), 6) \<and> con_ok s' \<and>
     fst (screen s') = 0 \<and> fst (snd (screen s')) = 6 \<and> snd (snd (screen s')) 0 1 = make_vgaentry 0x32 7"
proof -
  let ?f = "[0x78, 0x25, 0x78, 0x20, 0x25, 0x73]" and ?args = "[FInt 42, FStr 48 [0x61, 0x62]]"
  have f: "fmt_out ?f ?args = Some [0x78, 0x32, 0x61, 0x20, 0x61, 0x62]" by (simp add: fmt_dir_def fmt_arg_def num_str.simps digits_def)
  have a: "\<forall>a \<in> set ?args. arg_ok demo_text {} (100 - length ?f) a" by (simp add: demo_text_def)
  have c: "cstr demo_text 16 ?f" "length ?f + 32 < 100" by (simp_all add: demo_text_def)
  have d: "if con_ready demo_console then con_ok demo_console
      else \<not> con_inited demo_console \<and> length (con_buffer demo_console) = 2000 \<and> 1 < length (irq_table (con_mach demo_console))"
    by (simp add: demo_console_def cold_def)
  have r: "\<not> con_ready demo_console" by (simp add: demo_console_def)
  obtain s' where "kernel_printk 100 1 2 3 16 (map arg_word ?args) (demo_text, demo_console) = Inr ((demo_text, s'), int (length [0x78, 0x32, 0x61, 0x20, 0x61, 0x62 :: u8]))"
    "con_ok s'" "screen s' = fold (term_put (first_color demo_console)) [0x78, 0x32, 0x61, 0x20, 0x61, 0x62] (first_screen demo_console)"
    using printk_shows [OF f c(1) a c(2) d, of 1 2 3] by blast
  then show ?thesis using r by (intro exI [of _ s']) (simp add: first_color_def first_screen_def term_put.simps put_cell_def Let_def)
qed

subsection \<open>The queue of key codes\<close>

definition key_ok :: "console \<Rightarrow> bool" where
  "key_ok s \<longleftrightarrow> con_keytail s \<le> con_keyhead s \<and> con_keyhead s - con_keytail s \<le> 255 \<and> length (con_keyq s) = 256"

definition key_list :: "console \<Rightarrow> u8 list" where
  "key_list s = map (\<lambda>i. con_keyq s ! keyq_ptr i) [con_keytail s..con_keyhead s - 1]"

lemma keyq_ptr_eq: "keyq_ptr i = keyq_ptr j \<longleftrightarrow> (i - j) mod 256 = 0"
proof -
  have "keyq_ptr i = keyq_ptr j \<longleftrightarrow> i mod 256 = j mod 256" by (simp add: keyq_ptr_def nat_eq_iff)
  then show ?thesis by (simp add: mod_eq_dvd_iff mod_eq_0_iff_dvd)
qed

lemma key_near: "j \<le> i \<Longrightarrow> i - j < 256 \<Longrightarrow> keyq_ptr i = keyq_ptr j \<longleftrightarrow> i = j"
  by (auto simp: keyq_ptr_eq)

text \<open>
  C35: The queue of key codes. It is a queue of at most 255 codes. The interrupt appends the code it reads from the keyboard, and drops it when the queue is full; the reader takes the
  first code, or gets 0 when there is none, and the queue is empty when \<^verbatim>\<open>keyq_empty\<close> says so.
\<close>

theorem keyq_fifo:
  assumes "key_ok s"
  shows "key_ok (keyb_isr s) \<and>
    key_list (keyb_isr s) = (if length (key_list s) < 255 then key_list s @ [dev_in (con_mach s) (reads (con_mach s)) 0x60] else key_list s) \<and>
    key_ok (fst (keyq_get s)) \<and>
    snd (keyq_get s) = (case key_list s of [] \<Rightarrow> 0 | k # ks \<Rightarrow> k) \<and> key_list (fst (keyq_get s)) = tl (key_list s) \<and>
    keyq_empty s = (key_list s = [])"
proof -
  let ?h = "con_keyhead s" and ?t = "con_keytail s" and ?v = "dev_in (con_mach s) (reads (con_mach s)) 0x60"
  have th: "?t \<le> ?h" "?h - ?t \<le> 255" "length (con_keyq s) = 256" using assms by (auto simp: key_ok_def)
  have len: "length (key_list s) < 255 \<longleftrightarrow> ?h - ?t < 255" using th by (auto simp: key_list_def)
  have full: "keyq_ptr (?h + 1) = keyq_ptr ?t \<longleftrightarrow> ?h - ?t = 255"
  proof (cases "?h - ?t = 255")
    case True
    then have "?h + 1 - ?t = 256" by linarith
    then have "(?h + 1 - ?t) mod 256 = 0" by (simp only: mod_self)
    then show ?thesis using True unfolding keyq_ptr_eq by blast
  qed (use th key_near [of ?t "?h + 1"] in auto)
  have emp: "keyq_ptr ?h = keyq_ptr ?t \<longleftrightarrow> ?h = ?t" using th by (intro key_near) auto
  have ptr: "keyq_ptr i < 256" for i by (simp add: keyq_ptr_def nat_less_iff)
  have old: "map (\<lambda>i. (con_keyq s)[keyq_ptr ?h := ?v] ! keyq_ptr i) [?t..?h - 1] = key_list s"
  proof -
    have "keyq_ptr ?h \<noteq> keyq_ptr i" if "i \<in> set [?t..?h - 1]" for i using that th key_near [of i ?h] by auto
    then show ?thesis by (simp add: key_list_def)
  qed
  have "key_ok (keyb_isr s)" using th full by (auto simp: key_ok_def keyb_isr_def inb_def Let_def)
  moreover have "key_list (keyb_isr s) = (if length (key_list s) < 255 then key_list s @ [?v] else key_list s)"
  proof (cases "?h - ?t < 255")
    case True
    have "[?t..?h] = [?t..?h - 1] @ [?h]" using th(1) by (rule upto_rec2)
    then have "key_list (keyb_isr s) = map (\<lambda>i. (con_keyq s)[keyq_ptr ?h := ?v] ! keyq_ptr i) [?t..?h - 1] @ [?v]"
      using True full ptr th(3) by (simp add: key_list_def keyb_isr_def inb_def Let_def)
    then show ?thesis using True len old by simp
  next
    case False
    then show ?thesis using len full th by (simp add: key_list_def keyb_isr_def inb_def Let_def)
  qed
  moreover have "key_ok (fst (keyq_get s))" using th emp by (auto simp: key_ok_def keyq_get_def Let_def)
  moreover have "snd (keyq_get s) = (case key_list s of [] \<Rightarrow> 0 | k # ks \<Rightarrow> k) \<and> key_list (fst (keyq_get s)) = tl (key_list s)"
    using th emp upto_rec1 [of ?t "?h - 1"] by (cases "?h = ?t") (simp_all add: key_list_def keyq_get_def Let_def)
  moreover have "keyq_empty s = (key_list s = [])" using th by (auto simp: keyq_empty_def key_list_def)
  ultimately show ?thesis by blast
qed

theorem keyq_fifo_witness:
  "key_ok demo_console \<and> snd (keyq_get demo_console) = 0 \<and> key_list demo_console = [0] \<and> key_list (fst (keyq_get demo_console)) = []"
proof -
  have k: "key_ok demo_console" by (simp add: key_ok_def demo_console_def)
  have l: "key_list demo_console = [0]" by (simp add: key_list_def demo_console_def keyq_ptr_def)
  show ?thesis using keyq_fifo [OF k] k l by simp
qed

end
