(* ===== verification/Tarfs.thy ===== *)
theory Tarfs
  imports Kstring Exceptions
begin

text \<open>
  The tar file system (\<^verbatim>\<open>src/fs/tarfs/tarfs.c\<close>) over a block device, and the static device of \<^verbatim>\<open>src/kernel/dev.c\<close>. A header is the block of
  512 bytes it is read with; names are lists of bytes. The two maps of a file system, the directory entries and the vnodes, are functions: an entry that is missing is 0,
  as \<^verbatim>\<open>map_getpi\<close> gives it. Inodes are 64-bit signed and small. Reading a device either gives a block or ends in an error. The messages to the console, and
  the arenas that hold the block and the copies of the names, are left out; the page that \<^verbatim>\<open>tarfs_get_page\<close> returns is given by its contents.
\<close>

unbundle bit_operations_syntax

subsection \<open>Devices\<close>

datatype dev_op_status = DEV_BUF_OP_SUBMITTED | DEV_BUF_OP_COMPLETE | DEV_BUF_OP_TIMEDOUT | DEV_BUF_OP_FAILED

record buf_op_t =
  op_status :: dev_op_status
  op_write :: bool
  op_p :: "u8 list"
  op_offset :: u64
  op_size :: nat

text \<open>A device is its \<^verbatim>\<open>submit\<close>. Waiting for an operation that nobody completes does not end.\<close>

type_synonym device = "buf_op_t \<Rightarrow> buf_op_t res"

definition dev_op_submit :: "device \<Rightarrow> buf_op_t \<Rightarrow> buf_op_t res" where
  "dev_op_submit dev op = dev (op\<lparr>op_status := DEV_BUF_OP_SUBMITTED\<rparr>)"

definition dev_op_wait :: "buf_op_t \<Rightarrow> dev_op_status res" where
  "dev_op_wait op = (if op_status op = DEV_BUF_OP_SUBMITTED then Inl OutOfFuel else Inr (op_status op))"

record dev_static_t =
  ds_p :: "u8 list"
  ds_size :: u32

definition dev_static :: "u8 list \<Rightarrow> dev_static_t" where
  "dev_static p = \<lparr>ds_p = p, ds_size = of_nat (length p)\<rparr>"

text \<open>The copy is to or from wherever the offset leads; outside of the device's memory it is \<open>BadAccess\<close>. The size is not looked at.\<close>

definition dev_static_submit :: "dev_static_t \<Rightarrow> buf_op_t \<Rightarrow> (dev_static_t \<times> buf_op_t) res" where
  "dev_static_submit d op =
     (let off = unat (op_offset op); n = op_size op in
      if length (ds_p d) < off + n then Inl BadAccess
      else
        let (d, op) = (if op_write op then (d\<lparr>ds_p := take off (ds_p d) @ take n (op_p op) @ drop (off + n) (ds_p d)\<rparr>, op)
                       else (d, op\<lparr>op_p := take n (drop off (ds_p d))\<rparr>))
        in Inr (d, op\<lparr>op_status := DEV_BUF_OP_COMPLETE\<rparr>))"

definition reads_of :: "dev_static_t \<Rightarrow> device" where
  "reads_of d op = bindE (dev_static_submit d op) (\<lambda>(d, op). Inr op)"

subsection \<open>Headers\<close>

definition TAR_BLOCKSIZE :: nat where "TAR_BLOCKSIZE = 512"
definition REGTYPE :: u8 where "REGTYPE = 0x30"
definition AREGTYPE :: u8 where "AREGTYPE = 0"
definition SYMTYPE :: u8 where "SYMTYPE = 0x32"
definition DIRTYPE :: u8 where "DIRTYPE = 0x35"

definition field :: "nat \<Rightarrow> nat \<Rightarrow> u8 list \<Rightarrow> u8 list" where
  "field off len h = take len (drop off h)"

definition h_name :: "u8 list \<Rightarrow> u8 list" where "h_name = field 0 100"
definition h_size :: "u8 list \<Rightarrow> u8 list" where "h_size = field 124 12"
definition h_chksum :: "u8 list \<Rightarrow> u8 list" where "h_chksum = field 148 8"
definition h_type :: "u8 list \<Rightarrow> u8" where "h_type h = h ! 156"
definition h_ustar :: "u8 list \<Rightarrow> u8 list" where "h_ustar = field 257 6"
definition h_ustar_version :: "u8 list \<Rightarrow> u8 list" where "h_ustar_version = field 263 2"

fun otoi_loop :: "u32 \<Rightarrow> u8 list \<Rightarrow> u32" where
  "otoi_loop v [] = v"
| "otoi_loop v (c # cs) =
     (if c = 0 then v
      else otoi_loop (let digit = scast c - 0x30 in if digit < 8 then push_bit 3 v + digit else v) cs)"

definition tarfs_otoi :: "u8 list \<Rightarrow> u32" where
  "tarfs_otoi cp = otoi_loop 0 cp"

definition tarfs_validate_field :: "u8 list \<Rightarrow> u8 list \<Rightarrow> bool" where
  "tarfs_validate_field header value \<longleftrightarrow> header = value"

definition checksum :: "(u8 \<Rightarrow> int) \<Rightarrow> u8 list \<Rightarrow> int" where
  "checksum v h = sum_list (map (\<lambda>i. if 148 \<le> i \<and> i < 156 then 0x20 else v (h ! i)) [0..<500])"

definition tarfs_validate :: "u8 list \<Rightarrow> bool" where
  "tarfs_validate h =
     (let sum = sint (tarfs_otoi (h_chksum h)); usum = checksum uint h; ssum = checksum sint h in
      if usum \<noteq> sum \<and> ssum \<noteq> sum then False
      else if tarfs_validate_field (h_ustar h) [0x75, 0x73, 0x74, 0x61, 0x72, 0] then
        if tarfs_validate_field (h_ustar_version h) [0x30, 0x30] then True else True
      else if tarfs_validate_field (h_ustar h) [0x75, 0x73, 0x74, 0x61, 0x72, 0x20] then
        if tarfs_validate_field (h_ustar_version h) [0x20, 0] then True else True
      else True)"

text \<open>The status is not looked at.\<close>

definition tarfs_readblock :: "device \<Rightarrow> u64 \<Rightarrow> u8 list res" where
  "tarfs_readblock dev offset =
     (let offset = offset AND NOT 511;
          op = \<lparr>op_status = DEV_BUF_OP_SUBMITTED, op_write = False, op_p = [], op_offset = offset, op_size = TAR_BLOCKSIZE\<rparr>
      in bindE (dev_op_submit dev op) (\<lambda>op. bindE (dev_op_wait op) (\<lambda>_. Inr (op_p op))))"

text \<open>A string of the header ends at the first zero, which may be behind its field.\<close>

definition c_str :: "u8 list \<Rightarrow> u8 list res" where
  "c_str b = (if 0 \<in> set b then Inr (takeWhile (\<lambda>c. c \<noteq> 0) b) else Inl BadAccess)"

text \<open>\<^verbatim>\<open>snprintf\<close> into 255 bytes leaves a text of that length or more without an end.\<close>

definition tarfs_fullname :: "u8 list \<Rightarrow> u8 list res" where
  "tarfs_fullname h =
     (if h ! 345 \<noteq> 0 then
        bindE (c_str (drop 345 h)) (\<lambda>prefix. bindE (c_str h) (\<lambda>name.
        let fullname = prefix @ [chr_slash] @ name in if length fullname < 255 then Inr fullname else Inl BadAccess))
      else Inr (takeWhile (\<lambda>c. c \<noteq> 0) (h_name h)))"

definition tarfs_nextheader :: "u8 list \<Rightarrow> u64 \<Rightarrow> u64" where
  "tarfs_nextheader h offset =
     (let offset = offset + of_nat TAR_BLOCKSIZE in
      if h_type h = REGTYPE \<or> h_type h = AREGTYPE then
        let sz = tarfs_otoi (h_size h);
            sz = sz + (of_nat TAR_BLOCKSIZE - 1);
            sz = sz AND NOT 511
        in offset + ucast sz
      else offset)"

subsection \<open>The file system\<close>

datatype vnode_type = VNODE_REGULAR | VNODE_DIRECTORY | VNODE_DEV | VNODE_FIFO | VNODE_SOCKET

record tarfsnode_t =
  tn_offset :: u64
  tn_size :: u32
  tn_inode :: int
  tn_type :: vnode_type

record tarfs_t =
  tf_vnodes :: "int \<Rightarrow> tarfsnode_t option"
  tf_tree :: "int \<times> u8 list \<Rightarrow> int"
  tf_inext :: int

definition tarfs_dirent_cmp :: "int \<times> u8 list \<Rightarrow> int \<times> u8 list \<Rightarrow> int" where
  "tarfs_dirent_cmp d1 d2 =
     (let dir_diff = signed_take_bit 31 (fst d1 - fst d2) in if dir_diff = 0 then str_cmp (snd d1) (snd d2) else dir_diff)"

text \<open>
  The paths are taken apart by the string functions, on the copy \<^verbatim>\<open>tstrdup\<close> makes, here at address 4096 of a memory that has the two static strings of
  \<^verbatim>\<open>dirname\<close> besides.
\<close>

definition tmem :: "u8 list \<Rightarrow> mem" where
  "tmem xs a = (if a = 16 then 0x2E else if a = 32 then chr_slash
     else if 4096 \<le> a \<and> unat (a - 4096) < length xs then xs ! unat (a - 4096) else 0)"

definition path_dirs :: "nat \<Rightarrow> u8 list \<Rightarrow> u8 list list res" where
  "path_dirs n xs = bindE (dirname n (tmem xs) 16 32 4096) (\<lambda>(m, p). ssplit n m p chr_slash)"

definition path_file :: "nat \<Rightarrow> u8 list \<Rightarrow> u8 list res" where
  "path_file n xs = bindE (basename n (tmem xs) 16 32 4096) (\<lambda>(m, p). bindE (span_sep n m p 0 []) (\<lambda>(_, s). Inr s))"

text \<open>\<open>fresh\<close> is the node that \<^verbatim>\<open>malloc\<close> returns, with what its memory held.\<close>

definition add_dir :: "tarfsnode_t \<Rightarrow> u8 list \<Rightarrow> tarfs_t \<times> int \<Rightarrow> tarfs_t \<times> int" where
  "add_dir fresh d st =
     (case st of (fs, dnode) \<Rightarrow>
      if d \<noteq> [] then
        let inode = tf_tree fs (dnode, d);
            fs = (if inode = 0 then
                    let dir = fresh\<lparr>tn_type := VNODE_DIRECTORY, tn_inode := tf_inext fs\<rparr>;
                        fs = fs\<lparr>tf_inext := tf_inext fs + 1\<rparr>;
                        fs = fs\<lparr>tf_tree := (tf_tree fs)((dnode, d) := tn_inode dir)\<rparr>
                    in fs\<lparr>tf_vnodes := (tf_vnodes fs)(tn_inode dir := Some dir)\<rparr>
                  else fs)
        in (fs, inode)
      else (fs, dnode))"

definition tarfs_add_node :: "nat \<Rightarrow> tarfsnode_t \<Rightarrow> tarfs_t \<Rightarrow> u8 list \<Rightarrow> tarfsnode_t \<Rightarrow> tarfs_t res" where
  "tarfs_add_node n fresh fs fullname vnode =
     (let fullname = (if fullname \<noteq> [] \<and> hd fullname = chr_slash then tl fullname else fullname) in
      bindE (path_dirs n fullname) (\<lambda>dirs.
      let (fs, dnode) = fold (add_dir fresh) dirs (fs, 1) in
      bindE (path_file n fullname) (\<lambda>file.
      let inode = tf_tree fs (dnode, file) in
      if inode \<noteq> 0 then Inr (fs\<lparr>tf_vnodes := (tf_vnodes fs)(inode := Some vnode)\<rparr>)
      else
        let inode = tf_inext fs;
            fs = fs\<lparr>tf_inext := tf_inext fs + 1\<rparr>;
            fs = fs\<lparr>tf_vnodes := (tf_vnodes fs)(inode := Some vnode)\<rparr>
        in Inr (fs\<lparr>tf_tree := (tf_tree fs)((dnode, file) := inode)\<rparr>))))"

definition tarfs_regularfile :: "nat \<Rightarrow> tarfsnode_t \<Rightarrow> tarfs_t \<Rightarrow> u8 list \<Rightarrow> u64 \<Rightarrow> tarfs_t res" where
  "tarfs_regularfile n fresh fs h offset =
     bindE (tarfs_fullname h) (\<lambda>fullname.
     let node = fresh\<lparr>tn_type := VNODE_REGULAR, tn_offset := offset, tn_size := tarfs_otoi (h_size h)\<rparr> in
     tarfs_add_node n fresh fs fullname node)"

text \<open>Directories and symbolic links are only reported.\<close>

definition tarfs_directory :: "tarfs_t \<Rightarrow> u8 list \<Rightarrow> tarfs_t res" where
  "tarfs_directory fs h = bindE (tarfs_fullname h) (\<lambda>fullname. Inr fs)"

definition tarfs_symlink :: "tarfs_t \<Rightarrow> u8 list \<Rightarrow> tarfs_t res" where
  "tarfs_symlink fs h = bindE (tarfs_fullname h) (\<lambda>fullname. Inr fs)"

text \<open>Reading a block is the only step of the loop that throws a \<^verbatim>\<open>DeviceException\<close>.\<close>

fun scan_loop :: "nat \<Rightarrow> nat \<Rightarrow> device \<Rightarrow> tarfsnode_t \<Rightarrow> u64 \<Rightarrow> tarfs_t \<Rightarrow> tarfs_t res" where
  "scan_loop 0 k dev fresh offset fs = Inl OutOfFuel"
| "scan_loop (Suc n) k dev fresh offset fs =
     (case tarfs_readblock dev offset of
        Inl (Throw e) \<Rightarrow> if type_matches DeviceException e then Inr fs else Inl (Throw e)
      | Inl e \<Rightarrow> Inl e
      | Inr h \<Rightarrow>
          if \<not> tarfs_validate h then Inr fs
          else bindE (if h_type h = REGTYPE \<or> h_type h = AREGTYPE then tarfs_regularfile k fresh fs h offset
                      else if h_type h = DIRTYPE then tarfs_directory fs h
                      else if h_type h = SYMTYPE then tarfs_symlink fs h
                      else Inr fs) (\<lambda>fs.
               let offset = tarfs_nextheader h offset in scan_loop n k dev fresh offset fs))"

definition tarfs_scan :: "nat \<Rightarrow> nat \<Rightarrow> device \<Rightarrow> tarfsnode_t \<Rightarrow> tarfs_t res" where
  "tarfs_scan n k dev fresh =
     (let root = fresh\<lparr>tn_type := VNODE_DIRECTORY, tn_inode := 1\<rparr>;
          fs = \<lparr>tf_vnodes = (\<lambda>_. None)(1 := Some root), tf_tree = (\<lambda>_. 0), tf_inext = 2\<rparr>
      in scan_loop n k dev fresh 0 fs)"

fun read_loop :: "nat \<Rightarrow> device \<Rightarrow> u64 \<Rightarrow> u8 list res" where
  "read_loop 0 dev offset = Inr []"
| "read_loop (Suc n) dev offset =
     bindE (tarfs_readblock dev offset) (\<lambda>b. bindE (read_loop n dev (offset + of_nat TAR_BLOCKSIZE)) (\<lambda>bs. Inr (b @ bs)))"

definition tarfs_get_page :: "device \<Rightarrow> tarfsnode_t \<Rightarrow> u64 \<Rightarrow> u8 list res" where
  "tarfs_get_page dev tnode offset =
     (let readmax = sint (ucast (ucast (tn_size tnode) - offset) :: u32);
          readmax = (if readmax > 4096 then 4096 else readmax);
          offset = offset + of_nat TAR_BLOCKSIZE;
          offset = offset + tn_offset tnode
      in bindE (read_loop (nat ((readmax + 511) div 512)) dev offset) (\<lambda>buf.
        if readmax < 4096 then if readmax < 0 then Inl BadAccess else Inr (take (nat readmax) buf @ replicate (4096 - nat readmax) 0)
        else Inr buf))"

definition tarfs_put_page :: "tarfsnode_t \<Rightarrow> u64 \<Rightarrow> u32 \<Rightarrow> unit res" where
  "tarfs_put_page vnode offset page = Inl (Throw ReadOnlyFileException)"

definition tarfs_get_vnode :: "tarfs_t \<Rightarrow> tarfsnode_t \<Rightarrow> u8 list \<Rightarrow> tarfsnode_t option" where
  "tarfs_get_vnode fs dir name = (let inode = tf_tree fs (tn_inode dir, name) in tf_vnodes fs inode)"

definition tarfs_get_size :: "tarfsnode_t \<Rightarrow> u32" where
  "tarfs_get_size vnode = tn_size vnode"

definition tarfs_open :: "nat \<Rightarrow> nat \<Rightarrow> device \<Rightarrow> tarfsnode_t \<Rightarrow> (tarfs_t \<times> tarfsnode_t option) res" where
  "tarfs_open n k dev fresh = bindE (tarfs_scan n k dev fresh) (\<lambda>fs. Inr (fs, tf_vnodes fs 1))"

subsection \<open>Scanning\<close>

lemma align_512: "unat (x AND NOT 511 :: u64) = unat x - unat x mod 512"
proof -
  have m: "(511 :: u64) = mask 9" by (simp add: mask_eq_exp_minus_1)
  show ?thesis unfolding m unat_align_down by simp
qed

lemma readblock_static:
  "tarfs_readblock (reads_of d) offset =
     (if unat (offset AND NOT 511) + 512 \<le> length (ds_p d) then Inr (take 512 (drop (unat (offset AND NOT 511)) (ds_p d))) else Inl BadAccess)"
  by (simp add: tarfs_readblock_def reads_of_def dev_static_submit_def dev_op_submit_def dev_op_wait_def TAR_BLOCKSIZE_def Let_def)

lemma next_header: "unat offset < 2 ^ 32 \<Longrightarrow> unat offset + 512 \<le> unat (tarfs_nextheader h offset)"
proof -
  assume o: "unat offset < 2 ^ 32"
  have a: "unat (offset + 512) = unat offset + 512" using o by (subst unat_add_lem [THEN iffD1]) simp_all
  have "unat (offset + 512 + ucast (w :: u32)) = unat offset + 512 + unat w" for w
  proof -
    have w: "unat (ucast w :: u64) = unat w" "unat w < 2 ^ 32" using unsigned_less [of w, where ?'a = nat] by (simp_all add: unsigned_ucast_eq take_bit_eq_mod)
    then show ?thesis using o a by (subst unat_add_lem [THEN iffD1]) simp_all
  qed
  then show ?thesis using a by (simp add: tarfs_nextheader_def TAR_BLOCKSIZE_def Let_def)
qed

lemma tmem_cstr: "0 \<notin> set xs \<Longrightarrow> length xs < 2 ^ 20 \<Longrightarrow> cstr (tmem xs) 4096 xs"
proof -
  assume xs: "0 \<notin> set xs" "length xs < 2 ^ 20"
  have "tmem xs (4096 + of_nat i) = (xs @ [0]) ! i" if "i \<le> length xs" for i
  proof -
    have u: "unat (of_nat i :: addr) = i" using that xs(2) by (simp add: unat_of_nat_addr)
    have a: "unat (4096 + of_nat i :: addr) = 4096 + i" using that xs(2) u by (subst unat_add_lem [THEN iffD1]) simp_all
    have "4096 + of_nat i \<noteq> v" if "unat v < 4096" for v :: addr using a that by (metis not_add_less1)
    from this [of 16] this [of 32] have "4096 + of_nat i \<noteq> (16 :: addr)" "4096 + of_nat i \<noteq> (32 :: addr)" "4096 \<le> (4096 + of_nat i :: addr)"
      using a by (simp_all add: word_le_nat_alt)
    then show ?thesis using u that by (auto simp: tmem_def nth_append)
  qed
  then have "bytes_at (tmem xs) (4096 + of_nat k) (drop k (xs @ [0]))" if "k \<le> length xs" for k
    using that
  proof (induction "length xs - k" arbitrary: k)
    case 0
    then show ?case by (simp add: nth_append)
  next
    case (Suc l)
    then have k: "k < length xs" by simp
    have "drop k (xs @ [0]) = (xs @ [0]) ! k # drop (Suc k) (xs @ [0])" using k by (intro Cons_nth_drop_Suc [symmetric]) simp
    moreover have "bytes_at (tmem xs) (4096 + of_nat (Suc k)) (drop (Suc k) (xs @ [0]))" using Suc.hyps(1) [of "Suc k"] Suc.hyps(2) Suc.prems(1) k by simp
    ultimately show ?case using Suc.prems(1) [of k] k by (simp add: add_ac)
  qed
  from this [of 0] show ?thesis using xs(1) by (simp add: cstr_def)
qed

lemma strip_slashes_outside: "(\<And>i. i < n \<Longrightarrow> a \<noteq> p + of_nat i) \<Longrightarrow> strip_slashes n m p a = m a"
  by (induction n arbitrary: m) auto

lemma path_parts:
  assumes "0 \<notin> set xs" "length xs + 2 \<le> n" "length xs < 2 ^ 20"
  shows "(\<exists>ds. path_dirs n xs = Inr ds) \<and> (\<exists>b. path_file n xs = Inr b)"
proof -
  let ?m = "strip_slashes (length xs) (tmem xs) 4096"
  have l: "length xs < n" "length xs < 4294967296" using assms by simp_all
  have c: "cstr (tmem xs) 4096 xs" by (rule tmem_cstr [OF assms(1,3)])
  have c1: "cstr ?m 4096 (strip_end xs)" by (rule strip_slashes_ok [OF c l(2)])
  have static: "cstr ?m 16 [0x2E]" "cstr ?m 32 [chr_slash]"
  proof -
    have a: "unat (4096 + of_nat i :: addr) = 4096 + i" if "i < length xs" for i
      using that assms(3) unat_of_nat_addr [of i] by (subst unat_add_lem [THEN iffD1]) simp_all
    have "?m v = tmem xs v" if "unat v < 4096" for v using a that by (intro strip_slashes_outside) (metis not_add_less1)
    from this [of 16] this [of 17] this [of 32] this [of 33] show "cstr ?m 16 [0x2E]" "cstr ?m 32 [chr_slash]" by (simp_all add: tmem_def chr_slash_def)
  qed
  have split: "\<exists>ds. ssplit n m p chr_slash = Inr ds" if "cstr m p s" "length s < n" for m p s
    using ssplit_loop_ok [OF that that(2), of 0 8 chr_slash "[]"] by (auto simp: ssplit_def)
  have read: "\<exists>b. bindE (span_sep n m p 0 []) (\<lambda>(_, s). Inr s) = Inr b" if "cstr m p s" "length s < n" for m p s
    using span_sep_ok [of m p s "[]" 0 n "[]"] that by (auto simp: cstr_def)
  have len: "length (strip_end xs) \<le> length xs" by (rule length_strip_end)
  show ?thesis
  proof (cases "chr_slash \<in> set (strip_end xs)")
    case False
    have "strrchr n ?m 4096 chr_slash = Inr 0" using strrchr_loop_absent [OF c1 False, of n 0] len l by (simp add: strrchr_def)
    then have b: "basedirname n (tmem xs) 16 32 4096 is_dir = Inr (?m, if is_dir then 16 else 4096)" for is_dir
      using strlen_ok [OF c l(1)] by (simp add: basedirname_def Let_def)
    show ?thesis using split [OF static(1)] read [OF c1] len assms(2) b by (simp add: path_dirs_def path_file_def dirname_def basename_def)
  next
    case True
    then obtain d b where cut: "strip_end xs = d @ chr_slash # b" "chr_slash \<notin> set b" by (metis split_list_last)
    then have pc: "path_cut d b (strip_end xs)" by (simp add: path_cut_def)
    have w: "(4096 :: addr) \<noteq> 0" "unat (4096 :: addr) + length xs < 4294967296" using assms(3) by simp_all
    have db: "length d < n" "length b < n" using cut(1) len assms(2) by simp_all
    obtain m' a where 1: "basedirname n (tmem xs) 16 32 4096 False = Inr (m', a)" "cstr m' a b" using basedirname_cut [OF c l(1) w pc, of 16 32 False] by auto
    obtain m'' a' where 2: "basedirname n (tmem xs) 16 32 4096 True = Inr (m'', a')" "if d = [] then a' = 32 else a' = 4096 \<and> cstr m'' 4096 d"
      using basedirname_cut [OF c l(1) w pc, of 16 32 True] by auto
    have "m'' = ?m" if "d = []"
      using 2(1) strlen_ok [OF c l(1)] strrchr_loop_ok [of ?m 4096 d chr_slash b n 0] c1 cut len assms(2) that by (simp add: basedirname_def strrchr_def Let_def)
    then have "\<exists>ds. ssplit n m'' a' chr_slash = Inr ds" using 2(2) split [OF static(2)] split [of m'' 4096 d] db assms(2) by (cases "d = []") simp_all
    then show ?thesis using 1 2(1) read [OF 1(2) db(2)] by (simp add: path_dirs_def path_file_def dirname_def basename_def)
  qed
qed

lemma fullname_ok: "length h = 512 \<Longrightarrow> (\<exists>s. tarfs_fullname h = Inr s \<and> 0 \<notin> set s \<and> length s < 255) \<or> tarfs_fullname h = Inl BadAccess"
proof -
  have z: "0 \<notin> set (takeWhile (\<lambda>c. c \<noteq> (0 :: u8)) b)" for b by (auto dest: set_takeWhileD)
  have "length (takeWhile (\<lambda>c. c \<noteq> 0) (h_name h)) < 255"
    using length_takeWhile_le [of "\<lambda>c. c \<noteq> 0" "h_name h"] by (simp add: h_name_def field_def)
  then show ?thesis using z by (auto simp: tarfs_fullname_def c_str_def bindE_def chr_slash_def Let_def)
qed

subsection \<open>Directory entries\<close>

text \<open>Below inode $2^{31}$ the comparison of entries, which truncates the difference of the inodes, tells different entries apart and is antisymmetric.\<close>

lemma tarfs_dirent_order:
  assumes "0 \<le> fst a" "fst a < 2 ^ 31" "0 \<le> fst b" "fst b < 2 ^ 31" "0 \<notin> set (snd a)" "0 \<notin> set (snd b)"
  shows "tarfs_dirent_cmp a b = 0 \<longleftrightarrow> a = b" "tarfs_dirent_cmp b a = - tarfs_dirent_cmp a b"
proof -
  have s: "signed_take_bit 31 (fst a - fst b) = fst a - fst b" "signed_take_bit 31 (fst b - fst a) = fst b - fst a"
    using assms(1-4) by (simp_all add: signed_take_bit_int_eq_self)
  show "tarfs_dirent_cmp a b = 0 \<longleftrightarrow> a = b" "tarfs_dirent_cmp b a = - tarfs_dirent_cmp a b"
    using s str_cmp_eq [of "snd a" "snd b"] str_cmp_swap [of "snd b" "snd a"] assms(5,6) by (auto simp: tarfs_dirent_cmp_def Let_def prod_eq_iff)
qed

text \<open>
  Inodes are given out in ascending order, each to one entry; there are no entries under inodes not given out yet. Inode 0 means that there is no entry.
\<close>

definition one_entry :: "tarfs_t \<Rightarrow> bool" where
  "one_entry fs \<longleftrightarrow> (\<forall>k k'. tf_tree fs k = tf_tree fs k' \<and> tf_tree fs k \<noteq> 0 \<longrightarrow> k = k')"

definition fs_ok :: "tarfs_t \<Rightarrow> bool" where
  "fs_ok fs \<longleftrightarrow> 2 \<le> tf_inext fs \<and> (\<forall>k. tf_tree fs k = 0 \<or> 2 \<le> tf_tree fs k \<and> tf_tree fs k < tf_inext fs) \<and>
     one_entry fs \<and> (\<forall>d s. tf_inext fs \<le> d \<longrightarrow> tf_tree fs (d, s) = 0) \<and> (\<forall>i. i = 0 \<or> tf_inext fs \<le> i \<longrightarrow> tf_vnodes fs i = None)"

lemma one_entryD: "one_entry fs \<Longrightarrow> tf_tree fs k = tf_tree fs k' \<Longrightarrow> tf_tree fs k \<noteq> 0 \<Longrightarrow> k = k'"
  unfolding one_entry_def by blast

lemma fs_ok_D:
  assumes "fs_ok fs"
  shows "2 \<le> tf_inext fs" "tf_tree fs k = 0 \<or> 2 \<le> tf_tree fs k \<and> tf_tree fs k < tf_inext fs" "tf_tree fs k < tf_inext fs"
    "one_entry fs" "tf_inext fs \<le> d \<Longrightarrow> tf_tree fs (d, s) = 0" "i = 0 \<or> tf_inext fs \<le> i \<Longrightarrow> tf_vnodes fs i = None"
proof -
  show 2: "2 \<le> tf_inext fs" using assms by (simp only: fs_ok_def)
  show 3: "tf_tree fs k = 0 \<or> 2 \<le> tf_tree fs k \<and> tf_tree fs k < tf_inext fs" using assms by (simp only: fs_ok_def)
  show "tf_tree fs k < tf_inext fs" using 2 3 by linarith
  show "one_entry fs" using assms by (simp only: fs_ok_def)
  show "tf_tree fs (d, s) = 0" if "tf_inext fs \<le> d" using assms that by (simp only: fs_ok_def)
  show "tf_vnodes fs i = None" if "i = 0 \<or> tf_inext fs \<le> i" using assms that by (simp only: fs_ok_def)
qed

lemma fs_ok_new:
  assumes ok: "fs_ok fs" and "d < tf_inext fs" "tf_tree fs (d, s) = 0"
  shows "fs_ok (fs\<lparr>tf_inext := tf_inext fs + 1, tf_tree := (tf_tree fs)((d, s) := tf_inext fs), tf_vnodes := (tf_vnodes fs)(tf_inext fs := Some v)\<rparr>)"
    (is "fs_ok ?fs")
proof -
  let ?n = "tf_inext fs"
  have "tf_tree ?fs k = 0 \<or> 2 \<le> tf_tree ?fs k \<and> tf_tree ?fs k < ?n + 1" for k using fs_ok_D(1) [OF ok] fs_ok_D(2) [OF ok, of k] by (cases "k = (d, s)") auto
  moreover have "one_entry ?fs" unfolding one_entry_def
  proof (intro allI impI, elim conjE)
    fix k k'
    assume "tf_tree ?fs k = tf_tree ?fs k'" "tf_tree ?fs k \<noteq> 0"
    then show "k = k'" using one_entryD [OF fs_ok_D(4) [OF ok], of k k'] fs_ok_D(3) [OF ok, of k] fs_ok_D(3) [OF ok, of k']
      by (cases "k = (d, s)"; cases "k' = (d, s)") simp_all
  qed
  moreover have "tf_tree ?fs (e, s') = 0" if "?n + 1 \<le> e" for e s' using that assms(2) fs_ok_D(5) [OF ok, of e s'] by simp
  moreover have "tf_vnodes ?fs i = None" if "i = 0 \<or> ?n + 1 \<le> i" for i using that fs_ok_D(1) [OF ok] fs_ok_D(6) [OF ok, of i] by auto
  ultimately show ?thesis using fs_ok_D(1) [OF ok] unfolding fs_ok_def by simp
qed

lemma fs_ok_vnode:
  assumes ok: "fs_ok fs" and "tf_tree fs k = i" "i \<noteq> 0"
  shows "fs_ok (fs\<lparr>tf_vnodes := (tf_vnodes fs)(i := Some v)\<rparr>)"
proof -
  have "((tf_vnodes fs)(i := Some v)) j = None" if "j = 0 \<or> tf_inext fs \<le> j" for j
    using that assms(2,3) fs_ok_D(3) [OF ok, of k] fs_ok_D(6) [OF ok, of j] by auto
  moreover have "one_entry (fs\<lparr>tf_vnodes := (tf_vnodes fs)(i := Some v)\<rparr>)" 
  proof -
    have "tf_tree (fs\<lparr>tf_vnodes := (tf_vnodes fs)(i := Some v)\<rparr>) = tf_tree fs" by simp
    then show ?thesis using fs_ok_D(4) [OF ok] unfolding one_entry_def by (simp only:)
  qed
  ultimately show ?thesis using ok unfolding fs_ok_def by simp
qed

lemma add_dir_ok:
  assumes "fs_ok fs" "d < tf_inext fs" "add_dir fresh s (fs, d) = (fs', d')"
  shows "fs_ok fs' \<and> d' < tf_inext fs' \<and> tf_inext fs \<le> tf_inext fs'"
  using assms fs_ok_new [OF assms(1,2), of s] fs_ok_D(1) [OF assms(1)] fs_ok_D(3) [OF assms(1), of "(d, s)"]
  by (auto simp: add_dir_def Let_def split: if_splits)

lemma add_dirs_ok: "fs_ok fs \<Longrightarrow> d < tf_inext fs \<Longrightarrow> fold (add_dir fresh) ds (fs, d) = (fs', d') \<Longrightarrow> fs_ok fs' \<and> d' < tf_inext fs' \<and> tf_inext fs \<le> tf_inext fs'"
proof (induction ds arbitrary: fs d)
  case (Cons s ds)
  obtain fs1 d1 where a: "add_dir fresh s (fs, d) = (fs1, d1)" by fastforce
  from add_dir_ok [OF Cons.prems(1,2) a] show ?case using Cons.IH [of fs1 d1] Cons.prems(3) a by auto
qed auto

text \<open>The directory that a list of names leads to from a directory, 0 when one is missing.\<close>

fun dir_inode :: "tarfs_t \<Rightarrow> int \<Rightarrow> u8 list list \<Rightarrow> int" where
  "dir_inode fs d [] = d"
| "dir_inode fs d (s # ds) = (if s = [] then dir_inode fs d ds else if tf_tree fs (d, s) = 0 then 0 else dir_inode fs (tf_tree fs (d, s)) ds)"

lemma add_dirs_present: "dir_inode fs d ds \<noteq> 0 \<Longrightarrow> fold (add_dir fresh) ds (fs, d) = (fs, dir_inode fs d ds)"
  by (induction ds arbitrary: d) (auto simp: add_dir_def Let_def)

lemma add_dir_Nil [simp]: "add_dir fresh [] st = st"
  by (simp add: add_dir_def split: prod.split)

lemma add_dirs_one: "filter (\<lambda>s. s \<noteq> []) ds = [s] \<Longrightarrow> fold (add_dir fresh) ds st = add_dir fresh s st"
proof (induction ds arbitrary: st)
  case (Cons a ds)
  have e: "filter (\<lambda>s. s \<noteq> []) ds = [] \<Longrightarrow> fold (add_dir fresh) ds st = st" for st :: "tarfs_t \<times> int"
    by (induction ds arbitrary: st) (auto split: if_splits)
  show ?case using Cons e by (cases "a = []") auto
qed simp

definition path_of :: "u8 list \<Rightarrow> u8 list" where
  "path_of s = (if s \<noteq> [] \<and> hd s = chr_slash then tl s else s)"

definition put_file :: "tarfs_t \<Rightarrow> int \<Rightarrow> u8 list \<Rightarrow> tarfsnode_t \<Rightarrow> tarfs_t" where
  "put_file fs d b v = (if tf_tree fs (d, b) \<noteq> 0 then fs\<lparr>tf_vnodes := (tf_vnodes fs)(tf_tree fs (d, b) := Some v)\<rparr>
     else fs\<lparr>tf_inext := tf_inext fs + 1, tf_tree := (tf_tree fs)((d, b) := tf_inext fs), tf_vnodes := (tf_vnodes fs)(tf_inext fs := Some v)\<rparr>)"

lemma add_node_eq:
  "path_dirs k (path_of s) = Inr ds \<Longrightarrow> path_file k (path_of s) = Inr b \<Longrightarrow>
   tarfs_add_node k fresh fs s v = Inr (case fold (add_dir fresh) ds (fs, 1) of (fs, d) \<Rightarrow> put_file fs d b v)"
  by (simp add: tarfs_add_node_def path_of_def put_file_def Let_def split_def)

lemma put_file_ok: "fs_ok fs \<Longrightarrow> d < tf_inext fs \<Longrightarrow> fs_ok (put_file fs d b v)"
  by (simp add: put_file_def fs_ok_new fs_ok_vnode)

lemma put_file_get:
  assumes "fs_ok fs"
  shows "tf_vnodes (put_file fs d b v) (tf_tree (put_file fs d b v) k) = (if k = (d, b) then Some v else tf_vnodes fs (tf_tree fs k))"
proof (cases "k = (d, b)")
  case True
  then show ?thesis by (simp add: put_file_def)
next
  case False
  have "tf_tree fs k \<noteq> tf_tree fs (d, b)" if "tf_tree fs (d, b) \<noteq> 0" using one_entryD [OF fs_ok_D(4) [OF assms], of "(d, b)" k] that False by auto
  moreover have "tf_tree fs k \<noteq> tf_inext fs" using fs_ok_D(3) [OF assms, of k] by simp
  ultimately show ?thesis using False by (simp add: put_file_def)
qed


lemma add_node_returns:
  assumes "0 \<notin> set s" "length s < 255" "257 \<le> k" and ok: "fs_ok fs"
  shows "\<exists>fs'. tarfs_add_node k fresh fs s v = Inr fs' \<and> fs_ok fs'"
proof -
  have "0 \<notin> set (path_of s)" "length (path_of s) + 2 \<le> k" "length (path_of s) < 2 ^ 20" using assms(1-3) by (cases s; auto simp: path_of_def)+
  from path_parts [OF this] obtain ds b where p: "path_dirs k (path_of s) = Inr ds" "path_file k (path_of s) = Inr b" by blast
  obtain fs1 d1 where f: "fold (add_dir fresh) ds (fs, 1) = (fs1, d1)" by fastforce
  have "fs_ok fs1" "d1 < tf_inext fs1" using add_dirs_ok [OF ok _ f] fs_ok_D(1) [OF ok] by auto
  then show ?thesis using add_node_eq [OF p, of fresh fs v] f put_file_ok by simp
qed

lemma scan_loop_ends:
  "length (ds_p d) < 2 ^ 32 \<Longrightarrow> 257 \<le> k \<Longrightarrow> length (ds_p d) + 512 < 512 * n + unat offset \<Longrightarrow> 0 < n \<Longrightarrow> fs_ok fs \<Longrightarrow>
   (\<exists>fs'. scan_loop n k (reads_of d) fresh offset fs = Inr fs' \<and> fs_ok fs') \<or> scan_loop n k (reads_of d) fresh offset fs = Inl BadAccess"
proof (induction n arbitrary: offset fs)
  case (Suc n)
  show ?case
  proof (cases "tarfs_readblock (reads_of d) offset")
    case (Inl e)
    then have "e = BadAccess" by (simp add: readblock_static split: if_splits)
    then show ?thesis using Inl by simp
  next
    case (Inr h)
    then have h: "unat (offset AND NOT 511) + 512 \<le> length (ds_p d)" "length h = 512"
      by (auto simp: readblock_static split: if_splits)
    have "unat offset mod 512 < 512" by simp
    then have o: "unat offset < length (ds_p d)" using h(1) unfolding align_512 by linarith
    then have n: "0 < n" "length (ds_p d) + 512 < 512 * n + unat (tarfs_nextheader h offset)"
      using Suc.prems(1,3) next_header [of offset h] by (cases n; simp)+
    let ?r = "if h_type h = REGTYPE \<or> h_type h = AREGTYPE then tarfs_regularfile k fresh fs h offset
      else if h_type h = DIRTYPE then tarfs_directory fs h else if h_type h = SYMTYPE then tarfs_symlink fs h else Inr fs"
    have "(\<exists>fs'. ?r = Inr fs' \<and> fs_ok fs') \<or> ?r = Inl BadAccess"
      using fullname_ok [OF h(2)] add_node_returns [OF _ _ Suc.prems(2,5)] Suc.prems(5)
      by (auto simp: tarfs_regularfile_def tarfs_directory_def tarfs_symlink_def Let_def)
    then show ?thesis
    proof
      assume "\<exists>fs'. ?r = Inr fs' \<and> fs_ok fs'"
      then obtain fs' where fs': "?r = Inr fs'" "fs_ok fs'" by blast
      then show ?thesis using Inr Suc.IH [OF Suc.prems(1,2) n(2,1) fs'(2)] Suc.prems(5) by (simp add: Let_def)
    next
      assume "?r = Inl BadAccess"
      then show ?thesis using Inr Suc.prems(5) by simp
    qed
  qed
qed simp



subsection \<open>Pages\<close>

lemma read_loop_ok:
  "512 dvd unat offset \<Longrightarrow> unat offset + 512 * n \<le> length (ds_p d) \<Longrightarrow> length (ds_p d) < 2 ^ 32 \<Longrightarrow>
   read_loop n (reads_of d) offset = Inr (take (512 * n) (drop (unat offset) (ds_p d)))"
proof (induction n arbitrary: offset)
  case (Suc n)
  have a: "unat (offset + 512) = unat offset + 512" using Suc.prems(2,3) by (subst unat_add_lem [THEN iffD1]) simp_all
  have b: "unat (offset AND NOT 511) = unat offset" unfolding align_512 using Suc.prems(1) by (simp add: mod_eq_0_iff_dvd)
  have "read_loop n (reads_of d) (offset + 512) = Inr (take (512 * n) (drop (unat offset + 512) (ds_p d)))"
    using Suc.IH [of "offset + 512"] Suc.prems a by simp
  moreover have "take (512 * Suc n) (drop (unat offset) (ds_p d)) = take 512 (drop (unat offset) (ds_p d)) @ take (512 * n) (drop (unat offset + 512) (ds_p d))"
    by (simp add: take_add add.commute)
  moreover have "tarfs_readblock (reads_of d) offset = Inr (take 512 (drop (unat offset) (ds_p d)))"
    using Suc.prems(2) b by (simp add: readblock_static)
  ultimately show ?case by (simp add: TAR_BLOCKSIZE_def)
qed simp


text \<open>A file system with a directory \<^verbatim>\<open>a\<close>, and the file \<^verbatim>\<open>a/b\<close>.\<close>

definition demo_node :: tarfsnode_t where
  "demo_node = \<lparr>tn_offset = 0, tn_size = 600, tn_inode = 0, tn_type = VNODE_REGULAR\<rparr>"

definition demo_fs :: tarfs_t where
  "demo_fs = \<lparr>tf_vnodes = (\<lambda>_. None)(2 := Some (demo_node\<lparr>tn_inode := 2, tn_type := VNODE_DIRECTORY\<rparr>)), tf_tree = (\<lambda>_. 0)((1, [0x61]) := 2), tf_inext = 3\<rparr>"




end
