(* ===== verification/Arena.thy ===== *)
theory Arena
  imports Vm_Check Thread
begin

text \<open>
  Arenas (\<^verbatim>\<open>src/libk/arena.c\<close>): a region of kernel address space from which blocks are taken one behind the other, and given back together by going back to an earlier state. Arenas that
  were freed are kept in a list; every thread has one of its own in thread-local storage. The locks are held around the updates of the list, which are one step each here. \<open>fresh\<close>
  is the memory for a new arena, \<open>fseg\<close> and \<open>fobj\<close> that for its segment and its object.
\<close>

unbundle bit_operations_syntax

subsection \<open>The code\<close>

record arena_t =
  ar_seg :: addr
  ar_base :: addr
  ar_state :: addr
  ar_top :: addr
  ar_next :: addr

record arenas =
  as_heap :: "addr \<Rightarrow> arena_t"
  as_free :: addr
  as_tls :: addr
  as_vm :: vmstate

definition upd_arena :: "addr \<Rightarrow> (arena_t \<Rightarrow> arena_t) \<Rightarrow> arenas \<Rightarrow> arenas" where
  "upd_arena a f s = s\<lparr>as_heap := (as_heap s)(a := f (as_heap s a))\<rparr>"

definition arena_create :: "addr \<Rightarrow> addr \<Rightarrow> addr \<Rightarrow> u32 \<Rightarrow> arenas \<Rightarrow> arenas \<times> addr" where
  "arena_create fresh fseg fobj sz s =
     (let (vm, base) = vm_kas_get sz (as_vm s);
          s = upd_arena fresh (\<lambda>a. a\<lparr>ar_base := base, ar_state := base\<rparr>) (s\<lparr>as_vm := vm\<rparr>);
          vm = vm_segment_anonymous fseg fobj base sz (SEGMENT_R OR SEGMENT_W) (as_vm s);
          s = upd_arena fresh (\<lambda>a. a\<lparr>ar_seg := fseg, ar_top := base + sz\<rparr>) s;
          vm = vm\<lparr>vs_spaces := (vs_spaces vm)(vs_kas vm := al_put map_keycmp (sg_base (vs_segs vm fseg)) fseg (vs_spaces vm (vs_kas vm)))\<rparr>
      in (s\<lparr>as_vm := vm\<rparr>, fresh))"

definition arena_alloc :: "addr \<Rightarrow> u32 \<Rightarrow> arenas \<Rightarrow> arenas \<times> addr" where
  "arena_alloc arena sz s =
     (let p = ar_state (as_heap s arena);
          sz = sz + 3;
          sz = sz AND NOT 3
      in (upd_arena arena (\<lambda>a. a\<lparr>ar_state := ar_state a + sz\<rparr>) s, p))"

definition arena_palloc :: "addr \<Rightarrow> u32 \<Rightarrow> arenas \<Rightarrow> arenas \<times> addr" where
  "arena_palloc arena pages s =
     (let p = page_align (ar_state (as_heap s arena) + 4096 - 1);
          s = upd_arena arena (\<lambda>a. a\<lparr>ar_state := p\<rparr>) s
      in (upd_arena arena (\<lambda>a. a\<lparr>ar_state := ar_state a + pages * 4096\<rparr>) s, p))"

definition arena_getstate :: "addr \<Rightarrow> arenas \<Rightarrow> addr" where
  "arena_getstate arena s = ar_state (as_heap s arena)"

definition arena_setstate :: "addr \<Rightarrow> addr \<Rightarrow> arenas \<Rightarrow> arenas res" where
  "arena_setstate arena state s =
     bindE (check_ptr_bounds state (ar_base (as_heap s arena)) (ar_top (as_heap s arena))) (\<lambda>_. Inr (upd_arena arena (\<lambda>a. a\<lparr>ar_state := state\<rparr>) s))"

definition arena_get :: "addr \<Rightarrow> addr \<Rightarrow> addr \<Rightarrow> arenas \<Rightarrow> arenas \<times> addr" where
  "arena_get fresh fseg fobj s =
     (if as_free s \<noteq> 0 then let arena = as_free s in (s\<lparr>as_free := ar_next (as_heap s arena)\<rparr>, arena)
      else arena_create fresh fseg fobj 0x400000 s)"

definition arena_free :: "addr \<Rightarrow> arenas \<Rightarrow> arenas" where
  "arena_free arena s =
     (let s = upd_arena arena (\<lambda>a. a\<lparr>ar_next := as_free s\<rparr>) s;
          s = upd_arena arena (\<lambda>a. a\<lparr>ar_state := ar_base a\<rparr>) s
      in s\<lparr>as_free := arena\<rparr>)"

definition arena_thread_get :: "addr \<Rightarrow> addr \<Rightarrow> addr \<Rightarrow> arenas \<Rightarrow> arenas \<times> addr" where
  "arena_thread_get fresh fseg fobj s =
     (let arena = as_tls s in
      if arena = 0 then let (s, arena) = arena_get fresh fseg fobj s in (s\<lparr>as_tls := arena\<rparr>, arena) else (s, arena))"

definition arena_thread_free :: "addr \<Rightarrow> addr \<Rightarrow> addr \<Rightarrow> arenas \<Rightarrow> arenas" where
  "arena_thread_free fresh fseg fobj s =
     (let (s, arena) = arena_thread_get fresh fseg fobj s in
      if arena \<noteq> 0 then arena_free arena (s\<lparr>as_tls := 0\<rparr>) else s)"

definition tmalloc :: "addr \<Rightarrow> addr \<Rightarrow> addr \<Rightarrow> u32 \<Rightarrow> arenas \<Rightarrow> arenas \<times> addr" where
  "tmalloc fresh fseg fobj sz s = (let (s, arena) = arena_thread_get fresh fseg fobj s in arena_alloc arena sz s)"

definition tstrdup :: "nat \<Rightarrow> addr \<Rightarrow> addr \<Rightarrow> addr \<Rightarrow> addr \<Rightarrow> mem \<times> arenas \<Rightarrow> ((mem \<times> arenas) \<times> addr) res" where
  "tstrdup n fresh fseg fobj str st =
     (case st of (m, s) \<Rightarrow>
      bindE (strlen n m str) (\<lambda>len.
      let (s, ret) = tmalloc fresh fseg fobj (of_nat (len + 1)) s;
          m = m(ret + of_nat len := 0)
      in Inr ((memcpy m ret str (of_nat len), s), ret)))"

subsection \<open>Blocks\<close>

datatype areq = Bytes u32 | Pages u32

fun arena_op :: "areq \<Rightarrow> addr \<Rightarrow> arenas \<Rightarrow> arenas \<times> addr" where
  "arena_op (Bytes n) arena s = arena_alloc arena n s"
| "arena_op (Pages k) arena s = arena_palloc arena k s"

fun arena_run :: "areq list \<Rightarrow> addr \<Rightarrow> arenas \<Rightarrow> arenas \<times> (addr \<times> areq) list" where
  "arena_run [] arena s = (s, [])"
| "arena_run (r # rs) arena s = (case arena_op r arena s of (s, p) \<Rightarrow> case arena_run rs arena s of (s, ps) \<Rightarrow> (s, (p, r) # ps))"

fun rsize :: "areq \<Rightarrow> nat" where
  "rsize (Bytes n) = unat n"
| "rsize (Pages k) = 4096 * unat k"

fun rneed :: "areq \<Rightarrow> nat" where
  "rneed (Bytes n) = unat n + 3"
| "rneed (Pages k) = 4096 * unat k + 4095"

fun raligned :: "areq \<Rightarrow> addr \<Rightarrow> bool" where
  "raligned (Bytes n) p \<longleftrightarrow> 4 dvd unat p"
| "raligned (Pages k) p \<longleftrightarrow> 4096 dvd unat p"

lemma arena_op_ok:
  assumes "unat (ar_state (as_heap s arena)) + rneed r < 2 ^ 32" "4 dvd unat (ar_state (as_heap s arena))"
  shows "\<exists>p st'. arena_op r arena s = (upd_arena arena (\<lambda>a. a\<lparr>ar_state := st'\<rparr>) s, p) \<and> unat (ar_state (as_heap s arena)) \<le> unat p \<and>
    unat p + rsize r \<le> unat st' \<and> unat st' \<le> unat (ar_state (as_heap s arena)) + rneed r \<and> 4 dvd unat st' \<and> raligned r p"
proof (cases r)
  case (Bytes n)
  let ?st = "ar_state (as_heap s arena)" and ?x = "unat n + 3"
  have m: "(3 :: u32) = mask 2" by (simp add: mask_eq_exp_minus_1)
  have "unat (n + 3) = ?x" using assms(1) Bytes by (subst unat_add_lem [THEN iffD1]) simp_all
  then have u: "unat ((n + 3) AND NOT 3) = ?x - ?x mod 4" unfolding m unat_align_down by simp
  define y st' where "y = ?x - ?x mod 4" and "st' = ?st + ((n + 3) AND NOT 3)"
  have d: "4 dvd y" "unat n \<le> y" "y \<le> ?x" using mod_less_divisor [of 4 ?x] unfolding y_def by (simp_all add: minus_mod_eq_mult_div)
  have "unat st' = unat ?st + y" using u assms(1) Bytes unfolding st'_def y_def by (subst unat_add_lem [THEN iffD1]) simp_all
  moreover have "arena_op r arena s = (upd_arena arena (\<lambda>a. a\<lparr>ar_state := st'\<rparr>) s, ?st)"
    by (simp add: Bytes arena_alloc_def upd_arena_def st'_def Let_def)
  ultimately show ?thesis using Bytes assms(2) d by - (rule exI [of _ ?st], rule exI [of _ st'], simp)
next
  case (Pages k)
  let ?st = "ar_state (as_heap s arena)"
  let ?x = "unat ?st + 4095" and ?p = "page_align (?st + 4095)"
  have "unat (?st + 4095) = ?x" using assms(1) Pages by (subst unat_add_lem [THEN iffD1]) simp_all
  then have u: "unat ?p = ?x - ?x mod 4096" unfolding unat_page_align by simp
  define y st' where "y = ?x - ?x mod 4096" and "st' = ?p + k * 4096"
  have d: "4096 dvd y" "unat ?st \<le> y" "y \<le> ?x" using mod_less_divisor [of 4096 ?x] unfolding y_def by (simp_all add: minus_mod_eq_mult_div)
  then have d4: "4 dvd y" by (elim dvdE) simp
  have k: "unat (k * 4096) = unat k * 4096" using assms(1) Pages by (subst unat_mult_lem [THEN iffD1]) simp_all
  have "unat st' = y + unat k * 4096" using u k assms(1) Pages unfolding st'_def y_def by (subst unat_add_lem [THEN iffD1]) simp_all
  moreover have "arena_op r arena s = (upd_arena arena (\<lambda>a. a\<lparr>ar_state := st'\<rparr>) s, ?p)"
    by (simp add: Pages arena_palloc_def upd_arena_def st'_def Let_def add.commute)
  ultimately show ?thesis using Pages u d d4 unfolding y_def [symmetric] by - (rule exI [of _ ?p], rule exI [of _ st'], simp)
qed

lemma arena_run_ok:
  "unat (ar_state (as_heap s arena)) + (\<Sum>r \<leftarrow> rs. rneed r) < 2 ^ 32 \<Longrightarrow> 4 dvd unat (ar_state (as_heap s arena)) \<Longrightarrow>
   \<exists>ps st'. arena_run rs arena s = (upd_arena arena (\<lambda>a. a\<lparr>ar_state := st'\<rparr>) s, ps) \<and> unat (ar_state (as_heap s arena)) \<le> unat st' \<and>
     unat st' \<le> unat (ar_state (as_heap s arena)) + (\<Sum>r \<leftarrow> rs. rneed r) \<and> map snd ps = rs \<and>
     sorted_wrt (\<lambda>(p, r) (q, _). unat p + rsize r \<le> unat q) ps \<and>
     (\<forall>(p, r) \<in> set ps. unat (ar_state (as_heap s arena)) \<le> unat p \<and> unat p + rsize r \<le> unat st' \<and> raligned r p)"
proof (induction rs arbitrary: s)
  case Nil
  have "s = upd_arena arena (\<lambda>a. a\<lparr>ar_state := ar_state (as_heap s arena)\<rparr>) s" by (simp add: upd_arena_def)
  then show ?case by - (rule exI [of _ "[]"], rule exI [of _ "ar_state (as_heap s arena)"], simp)
next
  case (Cons r rs)
  let ?st = "ar_state (as_heap s arena)"
  obtain p st1 where 1: "arena_op r arena s = (upd_arena arena (\<lambda>a. a\<lparr>ar_state := st1\<rparr>) s, p)" "unat ?st \<le> unat p"
    "unat p + rsize r \<le> unat st1" "unat st1 \<le> unat ?st + rneed r" "4 dvd unat st1" "raligned r p"
    using arena_op_ok [of s arena r] Cons.prems by auto
  let ?s = "upd_arena arena (\<lambda>a. a\<lparr>ar_state := st1\<rparr>) s"
  have st1: "ar_state (as_heap ?s arena) = st1" by (simp add: upd_arena_def)
  have "unat st1 + (\<Sum>r \<leftarrow> rs. rneed r) < 2 ^ 32" using Cons.prems(1) 1(4) by simp
  then obtain ps st' where 2: "arena_run rs arena ?s = (upd_arena arena (\<lambda>a. a\<lparr>ar_state := st'\<rparr>) ?s, ps)" "unat st1 \<le> unat st'"
    "unat st' \<le> unat st1 + (\<Sum>r \<leftarrow> rs. rneed r)" "map snd ps = rs" "sorted_wrt (\<lambda>(p, r) (q, _). unat p + rsize r \<le> unat q) ps"
    "\<forall>(p, r) \<in> set ps. unat st1 \<le> unat p \<and> unat p + rsize r \<le> unat st' \<and> raligned r p"
    using Cons.IH [of ?s] 1(5) unfolding st1 by blast
  have "upd_arena arena (\<lambda>a. a\<lparr>ar_state := st'\<rparr>) ?s = upd_arena arena (\<lambda>a. a\<lparr>ar_state := st'\<rparr>) s" by (simp add: upd_arena_def)
  then have "arena_run (r # rs) arena s = (upd_arena arena (\<lambda>a. a\<lparr>ar_state := st'\<rparr>) s, (p, r) # ps)" using 1(1) 2(1) by simp
  moreover have "\<forall>(q, r') \<in> set ps. unat p + rsize r \<le> unat q" using 2(6) 1(3) by fastforce
  moreover have "\<forall>(q, r') \<in> set ((p, r) # ps). unat ?st \<le> unat q \<and> unat q + rsize r' \<le> unat st' \<and> raligned r' q" using 2(2,6) 1(2,3,6) by fastforce
  moreover have "unat ?st \<le> unat st'" "unat st' \<le> unat ?st + (\<Sum>r \<leftarrow> r # rs. rneed r)" using 1(2,3,4) 2(2,3) by simp_all
  ultimately show ?case using 2(4,5) by - (rule exI [of _ "(p, r) # ps"], rule exI [of _ st'], simp)
qed

text \<open>
  C39: Blocks of an arena. As long as the arena has room for them, blocks of bytes and of pages, in any order, lie one behind the other between the old state and the top of the arena, blocks of bytes at
  multiples of 4 and pages at multiples of 4096. Going back to the old state is accepted, and the same requests then get the same blocks.
\<close>

theorem arena_blocks:
  assumes "unat (ar_base (as_heap s arena)) \<le> unat (ar_state (as_heap s arena))" "4 dvd unat (ar_state (as_heap s arena))"
    and "unat (ar_state (as_heap s arena)) + (\<Sum>r \<leftarrow> rs. rneed r) < unat (ar_top (as_heap s arena))"
  shows "\<exists>s' ps. arena_run rs arena s = (s', ps) \<and> map snd ps = rs \<and> sorted_wrt (\<lambda>(p, r) (q, _). unat p + rsize r \<le> unat q) ps \<and>
    (\<forall>(p, r) \<in> set ps. unat (ar_state (as_heap s arena)) \<le> unat p \<and> unat p + rsize r \<le> unat (ar_top (as_heap s arena)) \<and> raligned r p) \<and>
    arena_setstate arena (arena_getstate arena s) s' = Inr s"
proof -
  let ?a = "as_heap s arena"
  have "unat (ar_state ?a) + (\<Sum>r \<leftarrow> rs. rneed r) < 2 ^ 32" using assms(3) unsigned_less [of "ar_top ?a", where ?'a = nat] by simp
  from arena_run_ok [OF this assms(2)] obtain ps st' where r: "arena_run rs arena s = (upd_arena arena (\<lambda>a. a\<lparr>ar_state := st'\<rparr>) s, ps)"
    "unat st' \<le> unat (ar_state ?a) + (\<Sum>r \<leftarrow> rs. rneed r)" "map snd ps = rs" "sorted_wrt (\<lambda>(p, r) (q, _). unat p + rsize r \<le> unat q) ps"
    "\<forall>(p, r) \<in> set ps. unat (ar_state ?a) \<le> unat p \<and> unat p + rsize r \<le> unat st' \<and> raligned r p" by blast
  have "arena_setstate arena (arena_getstate arena s) (upd_arena arena (\<lambda>a. a\<lparr>ar_state := st'\<rparr>) s) = Inr s"
    using assms(1,3) by (simp add: arena_setstate_def arena_getstate_def check_ptr_bounds_def upd_arena_def word_less_nat_alt word_le_nat_alt)
  moreover have "\<forall>(p, r) \<in> set ps. unat (ar_state ?a) \<le> unat p \<and> unat p + rsize r \<le> unat (ar_top ?a) \<and> raligned r p" using r(2,5) assms(3) by fastforce
  ultimately show ?thesis using r(1,3,4) by blast
qed

definition demo_arenas :: arenas where
  "demo_arenas = \<lparr>as_heap = (\<lambda>_. \<lparr>ar_seg = 0, ar_base = 0x20000000, ar_state = 0x20000000, ar_top = 0x20400000, ar_next = 0\<rparr>), as_free = 0, as_tls = 16, as_vm = demo_vs\<rparr>"

theorem arena_blocks_witness:
  "\<exists>s' ps. arena_run [Bytes 5, Pages 1, Bytes 1] 16 demo_arenas = (s', ps) \<and> map snd ps = [Bytes 5, Pages 1, Bytes 1] \<and>
     sorted_wrt (\<lambda>(p, r) (q, _). unat p + rsize r \<le> unat q) ps \<and>
     (\<forall>(p, r) \<in> set ps. 0x20000000 \<le> unat p \<and> unat p + rsize r \<le> 0x20400000 \<and> raligned r p) \<and>
     arena_setstate 16 (arena_getstate 16 demo_arenas) s' = Inr demo_arenas"
proof -
  have "as_heap demo_arenas 16 = \<lparr>ar_seg = 0, ar_base = 0x20000000, ar_state = 0x20000000, ar_top = 0x20400000, ar_next = 0\<rparr>" by (simp add: demo_arenas_def)
  then show ?thesis using arena_blocks [of demo_arenas 16 "[Bytes 5, Pages 1, Bytes 1]"] by simp
qed

text \<open>A freed arena is the next one handed out, empty.\<close>

lemma arena_reused:
  "arena \<noteq> 0 \<Longrightarrow> snd (arena_get fresh fseg fobj (arena_free arena s)) = arena \<and>
   ar_state (as_heap (fst (arena_get fresh fseg fobj (arena_free arena s))) arena) = ar_base (as_heap s arena) \<and>
   as_free (fst (arena_get fresh fseg fobj (arena_free arena s))) = as_free s"
  by (simp add: arena_get_def arena_free_def upd_arena_def Let_def)

end
