(* ===== verification/Process.thy ===== *)
theory Process
  imports Vm_Check Thread
begin

text \<open>
  Processes, containers and the table of files (\<^verbatim>\<open>src/kernel/process.c\<close>, \<^verbatim>\<open>src/kernel/container.c\<close>, \<^verbatim>\<open>src/kernel/file.c\<close>). The processes of a container are found by their pid in a map, here a function with 0 for
  no entry. An address space is a map of segments in the virtual memory's state; the files of a process are a function too. New objects have the addresses their allocations
  return, which are arguments; when there are none left the allocation throws. The spin lock around the choice of a pid is not modelled.
\<close>

unbundle bit_operations_syntax

subsection \<open>The code\<close>

record container_t =
  ct_nextpid :: u32
  ct_pids :: "u32 \<Rightarrow> addr"
  ct_root :: addr

record process_t =
  pr_pid :: u32
  pr_parent :: addr
  pr_as :: addr
  pr_files :: "u32 \<Rightarrow> addr"
  pr_container :: addr

record file_t =
  fi_refs :: u32
  fi_fp :: u64
  fi_vnode :: addr

record procs =
  ps_procs :: "addr \<Rightarrow> process_t"
  ps_containers :: "addr \<Rightarrow> container_t"
  ps_list :: "u32 \<Rightarrow> addr"
  ps_cinited :: bool
  ps_current :: addr
  ps_inited :: bool
  ps_vm :: vmstate
  ps_files :: "addr \<Rightarrow> file_t"

definition upd_proc :: "addr \<Rightarrow> (process_t \<Rightarrow> process_t) \<Rightarrow> procs \<Rightarrow> procs" where
  "upd_proc a f s = s\<lparr>ps_procs := (ps_procs s)(a := f (ps_procs s a))\<rparr>"

definition upd_container :: "addr \<Rightarrow> (container_t \<Rightarrow> container_t) \<Rightarrow> procs \<Rightarrow> procs" where
  "upd_container a f s = s\<lparr>ps_containers := (ps_containers s)(a := f (ps_containers s a))\<rparr>"

definition container_init :: "addr \<Rightarrow> procs \<Rightarrow> procs" where
  "container_init fresh s =
     (if ps_cinited s then s
      else let s = upd_container fresh (\<lambda>c. c\<lparr>ct_nextpid := 0, ct_pids := (\<lambda>_. 0)\<rparr>) (s\<lparr>ps_cinited := True\<rparr>)
           in s\<lparr>ps_list := (\<lambda>_. 0)(0 := fresh)\<rparr>)"

definition container_get :: "procs \<Rightarrow> u32 \<Rightarrow> addr" where
  "container_get s i = ps_list s i"

definition process_get :: "procs \<Rightarrow> addr" where
  "process_get s = ps_current s"

definition process_files :: "procs \<Rightarrow> u32 \<Rightarrow> addr" where
  "process_files s = pr_files (ps_procs s (process_get s))"

definition process_duplicate_as_copy_seg :: "addr \<times> addr \<Rightarrow> addr \<Rightarrow> addr \<Rightarrow> addr \<Rightarrow> vmstate \<Rightarrow> vmstate res" where
  "process_duplicate_as_copy_seg fresh as key seg s =
     bindE (vm_segment_copy (fst fresh) (snd fresh) seg True s) (\<lambda>s.
     Inr (s\<lparr>vs_spaces := (vs_spaces s)(as := al_put map_keycmp key (fst fresh) (vs_spaces s as))\<rparr>))"

fun dup_walk :: "addr \<Rightarrow> (addr \<times> addr) list \<Rightarrow> (addr \<times> addr) list \<Rightarrow> vmstate \<Rightarrow> vmstate res" where
  "dup_walk as [] fs s = Inr s"
| "dup_walk as (e # es) [] s = Inl (Throw OutOfMemoryException)"
| "dup_walk as (e # es) (f # fs) s = bindE (process_duplicate_as_copy_seg f as (fst e) (snd e) s) (dup_walk as es fs)"

definition process_duplicate_as :: "addr \<Rightarrow> (addr \<times> addr) list \<Rightarrow> process_t \<Rightarrow> vmstate \<Rightarrow> vmstate res" where
  "process_duplicate_as fresh fs from s =
     (let s = s\<lparr>vs_spaces := (vs_spaces s)(fresh := [])\<rparr> in dup_walk fresh (vs_spaces s (pr_as from)) fs s)"

fun nextpid_loop :: "nat \<Rightarrow> container_t \<Rightarrow> (container_t \<times> u32) res" where
  "nextpid_loop 0 c = Inl OutOfFuel"
| "nextpid_loop (Suc n) c =
     (let pid = ct_nextpid c; c = c\<lparr>ct_nextpid := ct_nextpid c + 1\<rparr> in
      if ct_pids c pid \<noteq> 0 then nextpid_loop n c else Inr (c, pid))"

definition process_nextpid :: "nat \<Rightarrow> addr \<Rightarrow> procs \<Rightarrow> procs res" where
  "process_nextpid n proc s =
     (let container = pr_container (ps_procs s proc) in
      bindE (nextpid_loop n (ps_containers s container)) (\<lambda>(c, pid).
      let s = upd_proc proc (\<lambda>p. p\<lparr>pr_pid := pid\<rparr>) s
      in Inr (upd_container container (\<lambda>_. c\<lparr>ct_pids := (ct_pids c)(pid := proc)\<rparr>) s)))"

definition process_init :: "nat \<Rightarrow> addr \<Rightarrow> addr \<Rightarrow> addr \<Rightarrow> procs \<Rightarrow> procs res" where
  "process_init n fcont proc fas s =
     (if ps_inited s then Inr s
      else let s = container_init fcont (s\<lparr>ps_inited := True\<rparr>);
               s = s\<lparr>ps_current := proc\<rparr>;
               s = s\<lparr>ps_vm := (ps_vm s)\<lparr>vs_spaces := (vs_spaces (ps_vm s))(fas := [])\<rparr>\<rparr>;
               s = upd_proc proc (\<lambda>p. p\<lparr>pr_as := fas, pr_parent := 0, pr_container := container_get s 0, pr_files := (\<lambda>_. 0)\<rparr>) s
           in process_nextpid n proc s)"

text \<open>
  \<^verbatim>\<open>thread_fork\<close> returns twice; \<open>child\<close> says in which of the two threads. The copy of the map of files has the entries of the map.
\<close>

definition process_fork :: "nat \<Rightarrow> addr \<Rightarrow> addr \<Rightarrow> (addr \<times> addr) list \<Rightarrow> bool \<Rightarrow> procs \<Rightarrow> (procs \<times> u32) res" where
  "process_fork n new fas fs child s =
     (let current = process_get s;
          s = upd_proc new (\<lambda>p. p\<lparr>pr_container := pr_container (ps_procs s current)\<rparr>) s
      in bindE (process_duplicate_as fas fs (ps_procs s current) (ps_vm s)) (\<lambda>vm.
         let s = s\<lparr>ps_vm := vm\<rparr>;
             s = upd_proc new (\<lambda>p. p\<lparr>pr_as := fas\<rparr>) s;
             s = upd_proc new (\<lambda>p. p\<lparr>pr_files := pr_files (ps_procs s current)\<rparr>) s;
             s = upd_proc new (\<lambda>p. p\<lparr>pr_parent := current\<rparr>) s
         in bindE (process_nextpid n new s) (\<lambda>s.
            if child then Inr (s\<lparr>ps_current := new\<rparr>, 0) else Inr (s, pr_pid (ps_procs s new)))))"

definition PROC_MAX_FILE :: int where "PROC_MAX_FILE = 1024"

definition upd_file :: "addr \<Rightarrow> (file_t \<Rightarrow> file_t) \<Rightarrow> procs \<Rightarrow> procs" where
  "upd_file a f s = s\<lparr>ps_files := (ps_files s)(a := f (ps_files s a))\<rparr>"

definition file_get :: "procs \<Rightarrow> int \<Rightarrow> addr res" where
  "file_get s fd = bindE (check_int_bounds fd 0 PROC_MAX_FILE) (\<lambda>_. Inr (process_files s (word_of_int fd)))"

definition file_addref :: "addr \<Rightarrow> procs \<Rightarrow> procs" where
  "file_addref f s = upd_file f (\<lambda>x. x\<lparr>fi_refs := fi_refs x + 1\<rparr>) s"

definition file_release :: "addr \<Rightarrow> procs \<Rightarrow> procs" where
  "file_release f s = upd_file f (\<lambda>x. x\<lparr>fi_refs := fi_refs x - 1\<rparr>) s"

definition file_set :: "procs \<Rightarrow> int \<Rightarrow> addr \<Rightarrow> procs res" where
  "file_set s fd f = bindE (check_int_bounds fd 0 PROC_MAX_FILE) (\<lambda>_.
     let oldfile = process_files s (word_of_int fd)
     in Inr (if oldfile \<noteq> 0 then file_release oldfile s else s))"

subsection \<open>Pids\<close>

lemma nextpid_ok:
  "ct_pids c (ct_nextpid c + of_nat k) = 0 \<Longrightarrow> (\<And>j. j < k \<Longrightarrow> ct_pids c (ct_nextpid c + of_nat j) \<noteq> 0) \<Longrightarrow> k < n \<Longrightarrow>
   nextpid_loop n c = Inr (c\<lparr>ct_nextpid := ct_nextpid c + of_nat (Suc k)\<rparr>, ct_nextpid c + of_nat k)"
proof (induction k arbitrary: n c)
  case 0
  then show ?case by (cases n) (simp_all add: Let_def)
next
  case (Suc k)
  obtain n' where n: "n = Suc n'" "k < n'" using Suc.prems(3) by (cases n) auto
  let ?c = "c\<lparr>ct_nextpid := ct_nextpid c + 1\<rparr>"
  have "ct_pids c (ct_nextpid c) \<noteq> 0" using Suc.prems(2) [of 0] by simp
  moreover have "nextpid_loop n' ?c = Inr (?c\<lparr>ct_nextpid := ct_nextpid ?c + of_nat (Suc k)\<rparr>, ct_nextpid ?c + of_nat k)"
    by (rule Suc.IH) (use Suc.prems(1) Suc.prems(2) [of "Suc _"] n in \<open>simp_all add: add_ac\<close>)
  ultimately show ?case using n(1) by (simp add: Let_def add_ac)
qed

lemma first_free:
  fixes f :: "u32 \<Rightarrow> addr"
  assumes "f p = 0"
  shows "\<exists>k < 2 ^ 32. f (q + of_nat k) = 0 \<and> (\<forall>j < k. f (q + of_nat j) \<noteq> 0)"
proof -
  let ?P = "\<lambda>k. f (q + of_nat k) = 0"
  have w: "?P (unat (p - q))" using assms by simp
  then have "?P (LEAST k. ?P k)" "(LEAST k. ?P k) \<le> unat (p - q)" by (rule LeastI, rule Least_le)
  moreover have "unat (p - q) < 2 ^ 32" using unsigned_less [of "p - q", where ?'a = nat] by simp
  ultimately show ?thesis using not_less_Least [of _ ?P] by (intro exI [of _ "LEAST k. ?P k"]) auto
qed

subsection \<open>Address spaces\<close>

definition copyable :: "vmstate \<Rightarrow> addr \<Rightarrow> bool" where
  "copyable s seg \<longleftrightarrow> (let d = sg_dirty (vs_segs s seg) in d \<noteq> 0 \<and>
     (sg_clean (vs_segs s seg) \<noteq> d \<longrightarrow> ob_ops (vs_objs s d) = anon_ops \<and> ob_type (vs_objs s d) = OBJECT_ANON))"

definition copied :: "segment_t \<Rightarrow> addr \<Rightarrow> segment_t" where
  "copied f fa = f\<lparr>sg_perms := sg_perms f OR SEGMENT_P, sg_dirty := fa\<rparr>"

lemma segment_copy_spaces: "vm_segment_copy fresh fa from private s = Inr s' \<Longrightarrow> vs_spaces s' = vs_spaces s"
  by (auto simp: vm_segment_copy_def vm_object_anon_copy_def vm_object_anon_def vm_segment_base_def upd_seg_def upd_obj_def Let_def bindE_Inr_iff split: if_splits)

lemma copy_seg_ok:
  assumes "copyable s seg" "fa \<noteq> sg_dirty (vs_segs s seg)" "fresh \<noteq> seg" "\<forall>e \<in> set (vs_spaces s as). 0 < map_keycmp key (fst e)"
  shows "\<exists>s'. process_duplicate_as_copy_seg (fresh, fa) as key seg s = Inr s' \<and> vs_spaces s' = (vs_spaces s)(as := vs_spaces s as @ [(key, fresh)]) \<and>
    vs_segs s' = (vs_segs s)(fresh := copied (vs_segs s seg) fa) \<and> (\<forall>ob. ob \<noteq> fa \<longrightarrow> vs_objs s' ob = vs_objs s ob)"
proof -
  obtain s1 where s1: "vm_segment_copy fresh fa seg True s = Inr s1" "vs_segs s1 = (vs_segs s)(fresh := copied (vs_segs s seg) fa)"
    "\<forall>ob. ob \<noteq> fa \<longrightarrow> vs_objs s1 ob = vs_objs s ob"
    using segment_copy_private [of fresh seg fa s] assms(1-3) unfolding copied_def copyable_def Let_def by blast
  have ap: "al_put map_keycmp key fresh es = es @ [(key, fresh)]" if "\<forall>e \<in> set es. 0 < map_keycmp key (fst e)" for es
    using that by (induction es) auto
  show ?thesis using s1 segment_copy_spaces [OF s1(1)] ap [OF assms(4)] by (simp add: process_duplicate_as_copy_seg_def)
qed

lemma dup_walk_ok:
  assumes "length fs = length es" "distinct (map fst fs)" "set (map fst fs) \<inter> snd ` set es = {}"
    and "\<forall>e \<in> set es. copyable s (snd e) \<and> sg_dirty (vs_segs s (snd e)) \<notin> set (map snd fs)"
    and "sorted_wrt (\<lambda>a b. 0 < map_keycmp (fst b) (fst a)) (vs_spaces s as @ es)"
  shows "\<exists>s'. dup_walk as es fs s = Inr s' \<and> vs_spaces s' = (vs_spaces s)(as := vs_spaces s as @ zip (map fst es) (map fst fs)) \<and>
    (\<forall>a. a \<notin> set (map fst fs) \<longrightarrow> vs_segs s' a = vs_segs s a) \<and> (\<forall>ob. ob \<notin> set (map snd fs) \<longrightarrow> vs_objs s' ob = vs_objs s ob) \<and>
    (\<forall>i < length es. vs_segs s' (fst (fs ! i)) = copied (vs_segs s (snd (es ! i))) (snd (fs ! i)))"
  using assms
proof (induction es arbitrary: fs s)
  case (Cons e es)
  obtain f fs' where fs: "fs = f # fs'" using Cons.prems(1) by (cases fs) auto
  obtain a b where f: "f = (a, b)" by (cases f)
  obtain key seg where e: "e = (key, seg)" by (cases e)
  have "\<exists>s1. process_duplicate_as_copy_seg (a, b) as key seg s = Inr s1 \<and> vs_spaces s1 = (vs_spaces s)(as := vs_spaces s as @ [(key, a)]) \<and>
      vs_segs s1 = (vs_segs s)(a := copied (vs_segs s seg) b) \<and> (\<forall>ob. ob \<noteq> b \<longrightarrow> vs_objs s1 ob = vs_objs s ob)"
    by (rule copy_seg_ok) (use Cons.prems fs f e in \<open>auto simp: sorted_wrt_append\<close>)
  then obtain s1 where s1: "process_duplicate_as_copy_seg (a, b) as key seg s = Inr s1" "vs_spaces s1 = (vs_spaces s)(as := vs_spaces s as @ [(key, a)])"
    "vs_segs s1 = (vs_segs s)(a := copied (vs_segs s seg) b)" "\<forall>ob. ob \<noteq> b \<longrightarrow> vs_objs s1 ob = vs_objs s ob" by blast
  have old: "vs_segs s1 (snd x) = vs_segs s (snd x)" if "x \<in> set es" for x using that Cons.prems(3) s1(3) fs f by auto
  have "\<exists>s'. dup_walk as es fs' s1 = Inr s' \<and> vs_spaces s' = (vs_spaces s1)(as := vs_spaces s1 as @ zip (map fst es) (map fst fs')) \<and>
      (\<forall>a. a \<notin> set (map fst fs') \<longrightarrow> vs_segs s' a = vs_segs s1 a) \<and> (\<forall>ob. ob \<notin> set (map snd fs') \<longrightarrow> vs_objs s' ob = vs_objs s1 ob) \<and>
      (\<forall>i < length es. vs_segs s' (fst (fs' ! i)) = copied (vs_segs s1 (snd (es ! i))) (snd (fs' ! i)))"
  proof (rule Cons.IH)
    show "length fs' = length es" "distinct (map fst fs')" "set (map fst fs') \<inter> snd ` set es = {}" using Cons.prems(1-3) fs by auto
    show "\<forall>x \<in> set es. copyable s1 (snd x) \<and> sg_dirty (vs_segs s1 (snd x)) \<notin> set (map snd fs')"
    proof
      fix x assume x: "x \<in> set es"
      then have "copyable s (snd x)" "sg_dirty (vs_segs s (snd x)) \<notin> set (map snd fs)" using Cons.prems(4) by auto
      then show "copyable s1 (snd x) \<and> sg_dirty (vs_segs s1 (snd x)) \<notin> set (map snd fs')" using old [OF x] s1(4) fs f by (simp add: copyable_def Let_def)
    qed
    show "sorted_wrt (\<lambda>a b. 0 < map_keycmp (fst b) (fst a)) (vs_spaces s1 as @ es)" using Cons.prems(5) s1(2) e by (auto simp: sorted_wrt_append)
  qed
  then obtain s' where s': "dup_walk as es fs' s1 = Inr s'" "vs_spaces s' = (vs_spaces s1)(as := vs_spaces s1 as @ zip (map fst es) (map fst fs'))"
    "\<forall>a. a \<notin> set (map fst fs') \<longrightarrow> vs_segs s' a = vs_segs s1 a" "\<forall>ob. ob \<notin> set (map snd fs') \<longrightarrow> vs_objs s' ob = vs_objs s1 ob"
    "\<forall>i < length es. vs_segs s' (fst (fs' ! i)) = copied (vs_segs s1 (snd (es ! i))) (snd (fs' ! i))" by blast
  have "vs_segs s' (fst (fs ! i)) = copied (vs_segs s (snd ((e # es) ! i))) (snd (fs ! i))" if "i < length (e # es)" for i
  proof (cases i)
    case 0
    have "a \<notin> set (map fst fs')" using Cons.prems(2) fs f by auto
    then show ?thesis using 0 s'(3) s1(3) fs f e by simp
  next
    case (Suc j)
    then show ?thesis using that s'(5) old [of "es ! j"] fs by simp
  qed
  then show ?case using s' s1 fs f e by (intro exI [of _ s']) auto
qed simp

subsection \<open>Forking\<close>

definition can_dup :: "vmstate \<Rightarrow> (addr \<times> addr) list \<Rightarrow> (addr \<times> addr) list \<Rightarrow> bool" where
  "can_dup s es fs \<longleftrightarrow> length fs = length es \<and> distinct (map fst fs) \<and> set (map fst fs) \<inter> snd ` set es = {} \<and>
     (\<forall>e \<in> set es. copyable s (snd e) \<and> sg_dirty (vs_segs s (snd e)) \<notin> set (map snd fs)) \<and> sorted_wrt (\<lambda>a b. 0 < map_keycmp (fst b) (fst a)) es"

lemma duplicate_as_ok:
  assumes "can_dup s (vs_spaces s (pr_as p)) fs" "fas \<noteq> pr_as p"
  shows "\<exists>s'. process_duplicate_as fas fs p s = Inr s' \<and> vs_spaces s' = (vs_spaces s)(fas := zip (map fst (vs_spaces s (pr_as p))) (map fst fs)) \<and>
    (\<forall>a. a \<notin> set (map fst fs) \<longrightarrow> vs_segs s' a = vs_segs s a) \<and>
    (\<forall>i < length fs. vs_segs s' (fst (fs ! i)) = copied (vs_segs s (snd (vs_spaces s (pr_as p) ! i))) (snd (fs ! i)))"
proof -
  let ?es = "vs_spaces s (pr_as p)" and ?s = "s\<lparr>vs_spaces := (vs_spaces s)(fas := [])\<rparr>"
  have c: "length fs = length ?es" "distinct (map fst fs)" "set (map fst fs) \<inter> snd ` set ?es = {}"
    "\<forall>e \<in> set ?es. copyable ?s (snd e) \<and> sg_dirty (vs_segs ?s (snd e)) \<notin> set (map snd fs)"
    "sorted_wrt (\<lambda>a b. 0 < map_keycmp (fst b) (fst a)) (vs_spaces ?s fas @ ?es)" using assms(1) by (auto simp: can_dup_def copyable_def)
  from dup_walk_ok [OF c] obtain s' where s': "dup_walk fas ?es fs ?s = Inr s'" "vs_spaces s' = (vs_spaces ?s)(fas := vs_spaces ?s fas @ zip (map fst ?es) (map fst fs))"
    "\<forall>a. a \<notin> set (map fst fs) \<longrightarrow> vs_segs s' a = vs_segs ?s a" "\<forall>i < length ?es. vs_segs s' (fst (fs ! i)) = copied (vs_segs ?s (snd (?es ! i))) (snd (fs ! i))"
    by blast
  then show ?thesis using assms(2) c(1) by (intro exI [of _ s']) (simp add: process_duplicate_as_def)
qed

lemma nextpid_fresh:
  assumes "ct_pids (ps_containers s (pr_container (ps_procs s new))) q = 0" "2 ^ 32 \<le> n"
  shows "\<exists>pid next. ct_pids (ps_containers s (pr_container (ps_procs s new))) pid = 0 \<and>
    process_nextpid n new s = Inr (upd_container (pr_container (ps_procs s new))
      (\<lambda>c. c\<lparr>ct_nextpid := next, ct_pids := (ct_pids c)(pid := new)\<rparr>) (upd_proc new (\<lambda>p. p\<lparr>pr_pid := pid\<rparr>) s))"
proof -
  let ?c = "ps_containers s (pr_container (ps_procs s new))"
  obtain k where k: "k < 2 ^ 32" "ct_pids ?c (ct_nextpid ?c + of_nat k) = 0" "\<forall>j < k. ct_pids ?c (ct_nextpid ?c + of_nat j) \<noteq> 0"
    using first_free [of "ct_pids ?c", OF assms(1)] by blast
  have "nextpid_loop n ?c = Inr (?c\<lparr>ct_nextpid := ct_nextpid ?c + of_nat (Suc k)\<rparr>, ct_nextpid ?c + of_nat k)"
    by (rule nextpid_ok) (use k assms(2) in auto)
  then show ?thesis using k(2)
    by (intro exI [of _ "ct_nextpid ?c + of_nat k"] exI [of _ "ct_nextpid ?c + of_nat (Suc k)"] conjI) (auto simp: process_nextpid_def upd_container_def upd_proc_def Let_def)
qed


lemma init_first_process:
  assumes "\<not> ps_inited s" "\<not> ps_cinited s" "0 < n"
  shows "\<exists>s'. process_init n fcont proc fas s = Inr s' \<and> process_get s' = proc \<and> container_get s' 0 = fcont \<and> pr_pid (ps_procs s' proc) = 0 \<and>
    pr_container (ps_procs s' proc) = fcont \<and> ct_pids (ps_containers s' fcont) = (\<lambda>_. 0)(0 := proc) \<and> ct_nextpid (ps_containers s' fcont) = 1 \<and>
    vs_spaces (ps_vm s') fas = [] \<and> process_init n a b c s' = Inr s'"
  using assms by (cases n) (simp_all add: process_init_def container_init_def process_nextpid_def process_get_def container_get_def upd_proc_def upd_container_def Let_def)

text \<open>Setting a file drops a reference to the old one and does not store the new one: every descriptor has the file it had.\<close>

lemma file_set_stores_nothing:
  "file_set s fd f = Inr s' \<Longrightarrow> file_get s' fd' = file_get s fd'"
  "file_set s fd f = Inr s' \<Longrightarrow> file_get s fd = Inr old \<Longrightarrow> old \<noteq> 0 \<Longrightarrow> fi_refs (ps_files s' old) = fi_refs (ps_files s old) - 1"
  "fd < 0 \<or> 1024 < fd \<longleftrightarrow> file_set s fd f = Inl (Throw IntBoundsException)"
  by (auto simp: file_set_def file_get_def check_int_bounds_def PROC_MAX_FILE_def process_files_def process_get_def file_release_def upd_file_def Let_def split: if_splits)

definition demo_procs :: procs where
  "demo_procs = \<lparr>ps_procs = (\<lambda>_. \<lparr>pr_pid = 0, pr_parent = 0, pr_as = 0x5000, pr_files = (\<lambda>_. 0), pr_container = 0x100\<rparr>),
     ps_containers = (\<lambda>_. \<lparr>ct_nextpid = 1, ct_pids = (\<lambda>_. 0)(0 := 0x200), ct_root = 0\<rparr>), ps_list = (\<lambda>_. 0)(0 := 0x100), ps_cinited = True,
     ps_current = 0x200, ps_inited = True, ps_vm = demo_vs,
     ps_files = (\<lambda>_. \<lparr>fi_refs = 0, fi_fp = 0, fi_vnode = 0\<rparr>)\<rparr>"


end
