(* ===== verification/Spec2Isabelle.thy ===== *)
theory Spec2Isabelle
  imports Linked_List Tree_Refine Map_Ops Arraymap Vector Sync Timer Slab_GC Vm_Check Destructor Console Tarfs Arena Process
begin

text \<open>
  A verification development of TWCOS, a small kernel in C for the i386.

  \<^bold>\<open>The program.\<close> \<^verbatim>\<open>src/libk\<close> is the kernel library: circular lists as macros, binary trees with four ways
  of balancing, arrays and radix tables behind one map interface, strings and formatted output, exceptions and destructors, arenas, and the slab allocator with its
  garbage collector. \<^verbatim>\<open>src/kernel\<close> has the page allocator, threads, locks and monitors, timers, virtual memory, block devices and the parts
  that sit on them (files, processes). \<^verbatim>\<open>src/fs/tarfs\<close> is a file system over an archive. \<^verbatim>\<open>src/arch/i386\<close> has the processor, the interrupt
  controllers and the interval timer, the page tables and the console. The parts meet as follows. The slabs take pages from
  the page heap, which takes physical pages from the page allocator and maps them with \<^verbatim>\<open>vmap_map\<close>, which takes
  pages for its tables from the page allocator again. Threads live in slabs and in the lists of the scheduler's queues;
  monitors live in slabs and are found through a map; a mutex or a monitor queues threads and calls the scheduler;
  the garbage collector starts from the running thread, the queues and a map of roots. The timer queue is driven
  by the interval timer's interrupt. A page fault looks its address up in maps of segments, gets the page from the segment's memory object, which takes a physical
  page or reads the page cache, and enters it in the page tables and in the reverse map; arenas and the console are segments of the kernel's address space.
  The end of an exception frame runs the destructors pushed since its start. Kernel messages go through the formatted output to the console's stream.
  A fork copies the segments of an address space, looks its pid up in a map and forks the thread.
  The tar file system takes names apart with the string functions and reads its blocks from a device.

  \<^bold>\<open>The theories.\<close> Each names the file it models at its head; definitions have the names of the functions and
  types they translate. A loop of a function that needs a definition of its own has a name derived from the function
  or from what the loop does.

  \<^item> \<open>Prelude\<close>: words, addresses, the errors an operation can end in, and the error monad. \<open>NullDeref\<close> is an access
    through the null pointer, \<open>BadAccess\<close> one outside an object or an unmapped page, \<open>Panic\<close> a failed
    \<^verbatim>\<open>assert\<close> or a call of \<^verbatim>\<open>kernel_panic\<close>, \<open>Throw e\<close> a thrown exception, \<open>OutOfFuel\<close> a loop that has
    used its fuel.
  \<^item> \<open>Linked_List\<close>: \<^verbatim>\<open>libk/list.c\<close> as assignments to the two link fields. \<open>clist\<close> relates a list pointer and
    the links to the sequence of elements; every macro is an operation on sequences.
  \<^item> \<open>Tree_Heap\<close>, \<open>Tree_Ops\<close>: \<^verbatim>\<open>libk/tree.c\<close> over a heap of nodes. \<open>Tree_Shape\<close>, \<open>Tree_Balance\<close>, \<open>Tree_Map\<close>,
    \<open>Tree_Remove\<close>, \<open>Tree_Query\<close>, \<open>Tree_Walk\<close>, \<open>Tree_Optimize\<close> prove that rotations and the balancing strategies keep
    the nodes in order, that no assertion fails, and that each operation does to the ordered list of entries
    what the map interface says; \<open>Tree_Refine\<close> interprets the interface on the trees.
  \<^item> \<open>Map_Spec\<close>, \<open>Ordered_Map\<close>: the abstract map, the locale \<open>comparator\<close> for key orders and the locale
    \<open>ordered_map\<close> for containers, with the refinement of every sequence of operations. \<open>Map_Keys\<close>, \<open>Map_Ops\<close>: the key orders
    and the dispatching layer of \<^verbatim>\<open>libk/map.c\<close>. \<open>Arraymap\<close>, \<open>Vector\<close>: the other two containers.
  \<^item> \<open>Kstring\<close>: \<^verbatim>\<open>libk/string.c\<close> over a memory of bytes. \<open>Kstream\<close>: \<^verbatim>\<open>libk/stream.c\<close> and the string streams; the locale \<open>stream_laws\<close> is the contract of a
    stream, under which a format is printed as \<open>fmt_out\<close> says. \<open>Console\<close>: \<^verbatim>\<open>arch/i386/console.c\<close> and \<^verbatim>\<open>kernel/printk.c\<close>, the third
    interpretation; the screen refines a terminal, the key codes a bounded queue.
  \<^item> \<open>Exceptions\<close>: \<^verbatim>\<open>libk/exception.c\<close>. The statement that the macros expand to is a loop over the state of its frame; a block ends normally or in a jump to a frame.
    \<open>ktry_spec\<close> says what the statement does, and \<open>meets\<close> relates blocks to such descriptions, so that statements nest. \<open>Destructor\<close>: \<^verbatim>\<open>libk/destructor.c\<close>, and
    the destructors that run at the end of a statement.
  \<^item> \<open>Allocator\<close>: the locales \<open>allocator\<close> and \<open>total_allocator\<close>, the contract that nothing is handed out twice, proved for
    every sequence of requests. \<open>Bitmap\<close>, \<open>Page_Alloc\<close>: the physical pages of \<^verbatim>\<open>kernel/core.c\<close>, an interpretation of it.
    \<open>Page_Heap\<close>: the heap's pages. \<open>Slab\<close>, \<open>Slab_Alloc\<close>, \<open>Slab_Malloc\<close>: \<^verbatim>\<open>libk/slab.c\<close>, a second interpretation, over
    any source of pages (locale \<open>page_source\<close>) and then over the kernel's own.
    \<open>Slab_GC\<close>: the collector of \<^verbatim>\<open>libk/slab.c\<close> and \<^verbatim>\<open>thread_gc\<close>; what is left in use is what an inductive
    reachability relation says.
  \<^item> \<open>Vmap\<close>: \<^verbatim>\<open>arch/i386/vmap.c\<close>, with the processor's two-level walk that the self-mapped tables are reached by.
    \<open>Vm\<close>: \<^verbatim>\<open>kernel/vm.c\<close> with the page cache of \<^verbatim>\<open>kernel/vfs.c\<close> and the check of user pointers of \<^verbatim>\<open>kernel/check.c\<close>. \<open>Vm_Fault\<close>: page faults, down to the entry of the page
    table; \<open>Vm_Check\<close>: the reverse map, regions of address space, copies of segments and user pointers. \<open>Arena\<close>: \<^verbatim>\<open>libk/arena.c\<close> on top.
    \<open>Process\<close>: \<^verbatim>\<open>kernel/process.c\<close> and \<^verbatim>\<open>kernel/container.c\<close> with the descriptors of \<^verbatim>\<open>kernel/file.c\<close>; fork in terms of the copies of segments.
  \<^item> \<open>Tarfs\<close>: \<^verbatim>\<open>fs/tarfs/tarfs.c\<close> and the static device of \<^verbatim>\<open>kernel/dev.c\<close>. \<open>fs_ok\<close> is the invariant of the directory entries.
  \<^item> \<open>Cpu\<close>: \<^verbatim>\<open>arch/i386/i386.c\<close> and \<^verbatim>\<open>arch/i386/isa.c\<close>. The machine is a record with the interrupt flag, the tables, the handlers, the
    bytes written to ports and the bytes the coming port reads will give.
  \<^item> \<open>Thread\<close>: \<^verbatim>\<open>kernel/thread.c\<close> with its machine-dependent half. \<open>qinv\<close> is the invariant of the queues.
    \<open>Sync\<close>: \<^verbatim>\<open>kernel/sync.c\<close>; the kernel's steps are an inductive relation and the invariant that no thread is lost is by rule
    induction; the locale \<open>monitor_source\<close> is what the locks need of the slabs. \<open>Timer\<close>: \<^verbatim>\<open>kernel/timer.c\<close>.

  \<^bold>\<open>State and effects.\<close> Structs are records, pointers 32-bit words, memory a function from addresses. Operations pass the
  state explicitly and return a sum of an error and a result. Function pointers are arguments. A function that calls the scheduler is cut
  there, and what is left of it is a frame of its thread.

  \<^bold>\<open>Fuel.\<close> A loop whose end depends on the shape of a heap, or that may run forever, takes its fuel first. The theorems give the fuel that is
  enough: the number of nodes of a tree, the length of a string or list, the number of objects for the collector's recursion, four turns for a statement with exceptions, 32 digits for a number,
  one block more than the archive has for its scan. The statements that
  something never returns (the large pools of \<^verbatim>\<open>malloc\<close>, lookups in small array maps) hold for every fuel.

  \<^bold>\<open>Hypotheses.\<close> Comparison functions satisfy \<open>comparator\<close>, which is proved for the kernel's own orders on words, strings and arrays.
  Heaps satisfy their invariants, which the operations keep and which the initial states satisfy. The collector's theorem asks that pointers into slabs that
  it meets are starts of slots.

  \<^bold>\<open>Not modelled.\<close> The operations on files (their bodies only lock the file and return a constant), the vnode functions that only dispatch to the file system, iterators (an interface without an
  implementation), the PCI scan (it prints what it finds), the boot sequence (it reads linker symbols and the boot loader's structures), the header generator of the build, and the test functions.
  Outside of \<open>Exceptions\<close> a throw is an error value. Of a tar file system's page the contents are modelled and not its mapping.
  Instructions in inline assembly that have no effect on the modelled state are left out. Interrupts arrive between the operations that run with interrupts off;
  the preemption of other code by the timer is not modelled.
\<close>

end
